(* ===== verification/Prelude.thy ===== *)
theory Prelude
  imports Main "HOL-Library.Word" "HOL-Library.Char_ord"
begin

text \<open>
  What the components share: the collections of rewrite rules the proofs draw on, C's
  truncating division, and generic facts on lists, 64-bit masks and option values.
\<close>

unbundle bit_operations_syntax

named_theorems othello_defs \<open>definitions of the board game unfolded in case analyses\<close>
named_theorems wf_rules \<open>well-formedness facts of states and of the operations on them\<close>

section \<open>Lists\<close>

lemma length_foldl_list_update [simp]:
  "length (foldl (\<lambda>xs i. xs[i := v]) cs is) = length cs"
  by (induction "is" arbitrary: cs) simp_all

lemma nth_foldl_list_update:
  assumes "n < length cs"
  shows "foldl (\<lambda>xs i. xs[i := v]) cs is ! n = (if n \<in> set is then v else cs ! n)"
  using assms by (induction "is" arbitrary: cs) (auto simp: nth_list_update)

lemma filter_upt_nth_in: "x \<in> set (filter P [0..<n]) \<longleftrightarrow> x < n \<and> P x"
  by auto

lemma length_filter_split:
  "length (filter P xs) + length (filter (\<lambda>x. \<not> P x) xs) = length xs"
  by (rule sum_length_filter_compl)

lemma length_filter_upt_update:
  assumes "k < length cs" and "P (cs ! k)" and "\<not> P v"
  shows "length (filter P cs) = Suc (length (filter P (cs[k := v])))"
proof -
  have "cs = take k cs @ cs ! k # drop (Suc k) cs"
    using assms(1) by (rule id_take_nth_drop)
  then have "length (filter P cs)
      = length (filter P (take k cs)) + Suc (length (filter P (drop (Suc k) cs)))"
    using assms(2) by (metis (no_types) filter.simps(2) filter_append length_Cons length_append)
  moreover have "cs[k := v] = take k cs @ v # drop (Suc k) cs"
    using assms(1) by (rule upd_conv_take_nth_drop)
  ultimately show ?thesis using assms(3) by simp
qed

section \<open>Stores of keys and values\<close>

text \<open>
  The contract of a store that is written and read by key: what a lookup returns after a write,
  in the states \<open>ok\<close> that the writes keep. A key that was never written reads as \<open>missing\<close>.
\<close>

locale key_store =
  fixes ok :: "'s \<Rightarrow> bool"
    and put :: "'s \<Rightarrow> 'k \<Rightarrow> 'v \<Rightarrow> 's"
    and get :: "'s \<Rightarrow> 'k \<Rightarrow> 'v"
    and empty :: 's
    and missing :: 'v
  assumes ok_empty: "ok empty"
    and ok_put: "ok s \<Longrightarrow> ok (put s k v)"
    and get_empty: "get empty k = missing"
    and get_put_same: "ok s \<Longrightarrow> get (put s k v) k = v"
    and get_put_other: "ok s \<Longrightarrow> j \<noteq> k \<Longrightarrow> get (put s k v) j = get s j"
begin

definition puts :: "'s \<Rightarrow> ('k \<times> 'v) list \<Rightarrow> 's" where
  "puts s kvs = foldl (\<lambda>s (k, v). put s k v) s kvs"

lemma puts_simps [simp]: "puts s [] = s" "puts s ((k, v) # kvs) = puts (put s k v) kvs"
  by (simp_all add: puts_def)

lemma ok_puts: "ok s \<Longrightarrow> ok (puts s kvs)"
  by (induction kvs arbitrary: s) (auto simp: ok_put)

lemma get_puts:
  "ok s \<Longrightarrow> get (puts s kvs) k = (case map_of (rev kvs) k of Some v \<Rightarrow> v | None \<Rightarrow> get s k)"
  by (induction kvs arbitrary: s)
    (auto simp: ok_put get_put_same get_put_other map_add_def split: option.split)

text \<open>A store filled from the empty one reads as the last write of each key.\<close>

lemma get_puts_empty:
  "get (puts empty kvs) k = (case map_of (rev kvs) k of Some v \<Rightarrow> v | None \<Rightarrow> missing)"
  by (simp add: get_puts ok_empty get_empty split: option.split)

end

section \<open>Sixty-four bit masks\<close>

text \<open>
  \<open>__builtin_ctzll\<close>: the number of trailing zero bits. The builtin is undefined at 0;
  the code calls it on masks that are not 0 only.
\<close>

definition ctzll :: "64 word \<Rightarrow> nat" where
  "ctzll m = (case find (bit m) [0..<64] of Some i \<Rightarrow> i | None \<Rightarrow> 64)"

lemma word64_bit_exists:
  assumes "m \<noteq> 0"
  shows "\<exists>i<64. bit (m :: 64 word) i"
proof -
  from assms obtain i where "bit m i"
    by (auto simp: bit_eq_iff)
  moreover from this have "i < 64"
    using bit_imp_le_length by fastforce
  ultimately show ?thesis by blast
qed

lemma ctzll_least:
  assumes "m \<noteq> 0"
  shows "ctzll m < 64 \<and> bit m (ctzll m) \<and> (\<forall>i<ctzll m. \<not> bit m i)"
proof -
  from assms obtain i where "i < 64" "bit m i"
    using word64_bit_exists by blast
  then have "find (bit m) [0..<64] \<noteq> None"
    by (auto simp: find_None_iff)
  then obtain k where k: "find (bit m) [0..<64] = Some k" by blast
  then obtain j where "j < 64" "bit m j" "k = j" "\<forall>i<j. \<not> bit m i"
    by (auto simp: find_Some_iff)
  with k show ?thesis by (simp add: ctzll_def)
qed

text \<open>\<open>mask &= mask - 1\<close> clears the lowest bit that is set, and no other.\<close>

lemma bit_clear_lowest:
  assumes "m \<noteq> 0"
  shows "bit (m AND (m - 1)) n \<longleftrightarrow> bit m n \<and> n \<noteq> ctzll m"
proof -
  define k where "k = ctzll m"
  have k: "k < 64" "bit m k" "\<forall>i<k. \<not> bit m i"
    using ctzll_least [OF assms] by (auto simp: k_def)
  define u where "u = unset_bit k m"
  have bit_u: "bit u i \<longleftrightarrow> bit m i \<and> i \<noteq> k" for i
    by (auto simp: u_def bit_unset_bit_iff)
  have m: "m = u + 2 ^ k"
  proof -
    have "u + 2 ^ k = u OR 2 ^ k"
      by (rule disjunctive_add_eq_or) (rule bit_eqI, auto simp: bit_and_iff bit_u bit_exp_iff)
    also have "\<dots> = m"
      using k by (intro bit_eqI) (auto simp: bit_or_iff bit_u bit_exp_iff)
    finally show ?thesis by simp
  qed
  have "u + mask k = u OR mask k"
    using k by (intro disjunctive_add_eq_or bit_eqI) (auto simp: bit_and_iff bit_u bit_mask_iff)
  then have "m - 1 = u OR mask k"
    by (simp add: m mask_eq_exp_minus_1 add_diff_eq)
  then show ?thesis
    using k by (auto simp: bit_and_iff bit_or_iff bit_u bit_mask_iff k_def [symmetric])
qed

lemma clear_lowest_less:
  assumes "m \<noteq> (0 :: 64 word)"
  shows "m AND (m - 1) < m"
proof -
  have "m AND (m - 1) \<le> m - 1"
    by (rule word_and_le1)
  also have "m - 1 < m"
    using assms by (simp add: word_less_nat_alt unat_minus_one unat_gt_0)
  finally show ?thesis .
qed

lemma bit_single_or:
  "bit (m OR push_bit k 1) n \<longleftrightarrow> bit m n \<or> (n = k \<and> k < 64)" for m :: "64 word"
  by (auto simp: bit_or_iff bit_exp_iff)

section \<open>Four bytes in a word\<close>

lemma byte_mask: "(0xFF :: 32 word) = mask 8"
  by (simp add: mask_eq_exp_minus_1)

lemma packed_bytes:
  fixes r g b a :: "8 word"
  defines "v \<equiv> (ucast r OR push_bit 8 (ucast g) OR push_bit 16 (ucast b) OR push_bit 24 (ucast a) :: 32 word)"
  shows "ucast (v AND 0xFF) = r" "ucast (drop_bit 8 v AND 0xFF) = g" "ucast (drop_bit 16 v AND 0xFF) = b" "ucast (drop_bit 24 v AND 0xFF) = a"
proof -
  note bits = bit_ucast_iff bit_and_iff bit_or_iff bit_push_bit_iff bit_drop_bit_eq bit_mask_iff byte_mask v_def
  show "ucast (v AND 0xFF) = r"
    by (rule bit_word_eqI) (auto simp: bits)
  show "ucast (drop_bit 8 v AND 0xFF) = g" "ucast (drop_bit 16 v AND 0xFF) = b" "ucast (drop_bit 24 v AND 0xFF) = a"
    by (rule bit_word_eqI; auto simp: bits dest: bit_imp_le_length)+
qed

section \<open>Decimal numbers\<close>

text \<open>What \<open>BString << int64\<close> and \<open>printf\<close>'s \<open>%d\<close> write, and the digits \<open>atoll\<close> reads.\<close>

definition digit_char :: "nat \<Rightarrow> char" where
  "digit_char d = char_of (48 + d)"

definition is_digit :: "char \<Rightarrow> bool" where
  "is_digit c \<longleftrightarrow> CHR ''0'' \<le> c \<and> c \<le> CHR ''9''"

definition digit_val :: "char \<Rightarrow> nat" where
  "digit_val c = of_char c - 48"

fun show_nat :: "nat \<Rightarrow> string" where
  "show_nat n = (if n < 10 then [digit_char n] else show_nat (n div 10) @ [digit_char (n mod 10)])"

declare show_nat.simps [simp del]

definition show_int :: "int \<Rightarrow> string" where
  "show_int i = (if i < 0 then CHR ''-'' # show_nat (nat (- i)) else show_nat (nat i))"

fun read_digits :: "string \<Rightarrow> nat \<Rightarrow> nat \<times> string" where
  "read_digits [] n = (n, [])"
| "read_digits (c # cs) n =
     (if is_digit c then read_digits cs (10 * n + digit_val c) else (n, c # cs))"

lemma less_eq_char_iff: "c \<le> d \<longleftrightarrow> (of_char c :: nat) \<le> of_char d"
  by (simp add: less_eq_char_def)

lemma digit_char [simp]:
  assumes "d < 10"
  shows "is_digit (digit_char d)" "digit_val (digit_char d) = d"
  using assms by (simp_all add: is_digit_def digit_val_def digit_char_def less_eq_char_iff)

lemma show_nat_digits: "c \<in> set (show_nat n) \<Longrightarrow> is_digit c"
proof (induction n rule: show_nat.induct)
  case (1 n)
  then show ?case by (subst (asm) (2) show_nat.simps) (auto split: if_splits)
qed

lemma show_nat_nonempty [simp]: "show_nat n \<noteq> []"
  by (subst show_nat.simps) simp

lemma read_digits_append:
  "\<forall>c \<in> set xs. is_digit c \<Longrightarrow> read_digits (xs @ ys) n
    = read_digits ys (foldl (\<lambda>n c. 10 * n + digit_val c) n xs)"
  by (induction xs arbitrary: n) auto

lemma foldl_show_nat: "foldl (\<lambda>n c. 10 * n + digit_val c) 0 (show_nat n) = n"
proof (induction n rule: show_nat.induct)
  case (1 n)
  show ?case
  proof (cases "n < 10")
    case True
    then show ?thesis by (subst show_nat.simps) simp
  next
    case False
    with 1 show ?thesis by (subst show_nat.simps) simp
  qed
qed

lemma read_show_nat:
  assumes "ys = [] \<or> \<not> is_digit (hd ys)"
  shows "read_digits (show_nat n @ ys) 0 = (n, ys)"
proof -
  have "read_digits (show_nat n @ ys) 0 = read_digits ys n"
    using read_digits_append [of "show_nat n" ys 0] show_nat_digits
    by (simp add: foldl_show_nat)
  with assms show ?thesis by (cases ys) auto
qed

section \<open>Lines\<close>

definition newline :: char where
  "newline = CHR 0x0A"

end
