(* ===== verification/OthelloRules.thy ===== *)
theory OthelloRules
  imports Prelude
begin

text \<open>
  The rules of the board game, class \<open>Position\<close> of \<open>proseothello/app/src/Othello.cpp\<close>.
  \<open>fCells\<close> is the array of 64 cells (row by row), \<open>fTurn\<close> the side to move and \<open>fLastMove\<close>
  the square of the last move or -1. The array \<open>fHistory\<close> of 130 plies with its fill count
  \<open>fPlyCount\<close> is the list of the plies below the count, newest first, so \<open>fPlyCount\<close> is its
  length and a write at index \<open>fPlyCount\<close> is a \<open>Cons\<close>; \<open>Play_history_bound\<close> below shows that
  the index stays inside the array. Squares are \<open>nat\<close>: every caller has checked that they
  are below 64.
\<close>

section \<open>The position\<close>

datatype disc = kEmpty | kBlack | kWhite

definition opponent :: "disc \<Rightarrow> disc" where
  "opponent side = (if side = kBlack then kWhite else kBlack)"

record ply =
  ply_move :: int
  ply_flips :: "64 word"
  ply_side :: disc
  ply_pass :: bool

record position =
  fCells :: "disc list"
  fTurn :: disc
  fHistory :: "ply list"
  fLastMove :: int

definition fPlyCount :: "position \<Rightarrow> nat" where
  "fPlyCount p = length (fHistory p)"

definition history_capacity :: nat where
  "history_capacity = 130"

definition Reset :: position where
  "Reset = \<lparr>fCells = (replicate 64 kEmpty)[27 := kWhite, 36 := kWhite, 28 := kBlack, 35 := kBlack],
     fTurn = kBlack, fHistory = [], fLastMove = -1\<rparr>"

definition Empties :: "position \<Rightarrow> nat" where
  "Empties p = length (filter (\<lambda>c. c = kEmpty) (fCells p))"

definition Counts :: "position \<Rightarrow> nat \<times> nat" where
  "Counts p = (length (filter (\<lambda>c. c = kBlack) (fCells p)),
     length (filter (\<lambda>c. c \<noteq> kBlack \<and> c = kWhite) (fCells p)))"

section \<open>Turning discs\<close>

definition kDirs :: "(int \<times> int) list" where
  "kDirs = [(-1, -1), (0, -1), (1, -1), (-1, 0), (1, 0), (-1, 1), (0, 1), (1, 1)]"

text \<open>
  The inner loop of \<open>FlipsFor\<close>: walk from \<open>(cx, cy)\<close> in direction \<open>(dx, dy)\<close> and collect
  the opponent's discs until an own disc closes the line. \<open>kDirs\<close> holds no \<open>(0, 0)\<close>, so the
  first conjunct of the guard, there for termination, is always true.
\<close>

function line_flips ::
    "disc list \<Rightarrow> disc \<Rightarrow> int \<Rightarrow> int \<Rightarrow> int \<Rightarrow> int \<Rightarrow> 64 word \<Rightarrow> bool \<times> 64 word" where
  "line_flips cells side dx dy cx cy line =
     (if (dx \<noteq> 0 \<or> dy \<noteq> 0) \<and> 0 \<le> cx \<and> cx < 8 \<and> 0 \<le> cy \<and> cy < 8 then
        let cell = cells ! nat (cy * 8 + cx) in
        if cell = kEmpty then (False, line)
        else if cell = side then (True, line)
        else line_flips cells side dx dy (cx + dx) (cy + dy)
               (line OR push_bit (nat (cy * 8 + cx)) 1)
      else (False, line))"
  by pat_completeness auto
termination
  by (relation "measure (\<lambda>(cells, side, dx, dy, cx, cy, line).
        if dx > 0 then nat (8 - cx) else if dx < 0 then nat (cx + 1)
        else if dy > 0 then nat (8 - cy) else nat (cy + 1))") auto

declare line_flips.simps [simp del]

definition FlipsFor :: "position \<Rightarrow> disc \<Rightarrow> nat \<Rightarrow> 64 word" where
  "FlipsFor p side square =
     (if fCells p ! square \<noteq> kEmpty then 0
      else let x = int (square mod 8); y = int (square div 8) in
        foldl (\<lambda>flips (dx, dy).
            case line_flips (fCells p) side dx dy (x + dx) (y + dy) 0 of
              (closed, line) \<Rightarrow> if closed then flips OR line else flips)
          0 kDirs)"

definition Legal :: "position \<Rightarrow> nat \<Rightarrow> bool" where
  "Legal p square \<longleftrightarrow> FlipsFor p (fTurn p) square \<noteq> 0"

definition LegalMoves :: "position \<Rightarrow> disc \<Rightarrow> nat list" where
  "LegalMoves p side = filter (\<lambda>i. FlipsFor p side i \<noteq> 0) [0..<64]"

definition Over :: "position \<Rightarrow> bool" where
  "Over p \<longleftrightarrow> Empties p = 0
     \<or> (LegalMoves p (fTurn p) = [] \<and> LegalMoves p (opponent (fTurn p)) = [])"

section \<open>Playing and undoing\<close>

text \<open>The loop \<open>while (mask != 0)\<close> of \<open>Apply\<close> and \<open>Retract\<close>.\<close>

function set_mask :: "64 word \<Rightarrow> disc \<Rightarrow> disc list \<Rightarrow> disc list" where
  "set_mask m v cells =
     (if m = 0 then cells else set_mask (m AND (m - 1)) v (cells[ctzll m := v]))"
  by pat_completeness auto
termination
  by (relation "measure (\<lambda>(m, v, cells). unat m)") (auto simp: clear_lowest_less word_less_nat_alt [symmetric])

declare set_mask.simps [simp del]

definition Apply :: "disc \<Rightarrow> nat \<Rightarrow> 64 word \<Rightarrow> disc list \<Rightarrow> disc list" where
  "Apply side square flips cells = set_mask flips side (cells[square := side])"

definition PassTurn :: "position \<Rightarrow> position" where
  "PassTurn p = p\<lparr>fTurn := opponent (fTurn p)\<rparr>"

definition AdvanceTurn :: "position \<Rightarrow> position" where
  "AdvanceTurn p =
     (let q = p\<lparr>fTurn := opponent (fTurn p)\<rparr> in
      if LegalMoves q (fTurn q) = [] \<and> \<not> Over q
      then q\<lparr>fHistory := \<lparr>ply_move = -1, ply_flips = 0, ply_side = fTurn q, ply_pass = True\<rparr>
               # fHistory q,
             fTurn := opponent (fTurn q)\<rparr>
      else q)"

definition Play :: "position \<Rightarrow> nat \<Rightarrow> bool \<times> position" where
  "Play p square =
     (if fPlyCount p \<ge> history_capacity then (False, p)
      else let flips = FlipsFor p (fTurn p) square in
        if flips = 0 then (False, p)
        else (True, AdvanceTurn
          (p\<lparr>fCells := Apply (fTurn p) square flips (fCells p),
             fHistory := \<lparr>ply_move = int square, ply_flips = flips, ply_side = fTurn p,
                           ply_pass = False\<rparr> # fHistory p,
             fLastMove := int square\<rparr>)))"

definition Retract :: "position \<Rightarrow> ply \<Rightarrow> position" where
  "Retract p l =
     (if ply_pass l then p\<lparr>fTurn := ply_side l\<rparr>
      else p\<lparr>fCells := set_mask (ply_flips l) (opponent (ply_side l))
                 ((fCells p)[nat (ply_move l) := kEmpty]),
             fTurn := ply_side l,
             fLastMove := (case fHistory p of [] \<Rightarrow> -1 | l' # _ \<Rightarrow> ply_move l')\<rparr>)"

text \<open>The loop that takes back the passes on top of the history.\<close>

fun undo_passes :: "ply list \<Rightarrow> disc \<Rightarrow> ply list \<times> disc" where
  "undo_passes [] turn = ([], turn)"
| "undo_passes (l # ls) turn =
     (if ply_pass l then undo_passes ls (ply_side l) else (l # ls, turn))"

definition Undo :: "position \<Rightarrow> bool \<times> position" where
  "Undo p =
     (if fHistory p = [] then (False, p)
      else case undo_passes (fHistory p) (fTurn p) of
        ([], turn) \<Rightarrow> (False, p\<lparr>fHistory := [], fTurn := turn\<rparr>)
      | (l # ls, turn) \<Rightarrow> (True, Retract (p\<lparr>fHistory := ls, fTurn := turn\<rparr>) l))"

section \<open>The 64-character form\<close>

definition cell_char :: "disc \<Rightarrow> char" where
  "cell_char c = (if c = kBlack then CHR ''b'' else if c = kWhite then CHR ''w'' else CHR ''.'')"

definition ToString :: "position \<Rightarrow> string" where
  "ToString p = List.map cell_char (fCells p)"

text \<open>
  The loop of \<open>FromString\<close>: it writes the cells in place and stops at the first character
  it does not know, so the cells before it keep what it wrote.
\<close>

fun from_chars :: "string \<Rightarrow> nat \<Rightarrow> disc list \<Rightarrow> bool \<times> disc list" where
  "from_chars [] i cells = (True, cells)"
| "from_chars (c # cs) i cells =
     (if c = CHR ''b'' then from_chars cs (Suc i) (cells[i := kBlack])
      else if c = CHR ''w'' then from_chars cs (Suc i) (cells[i := kWhite])
      else if c = CHR ''.'' then from_chars cs (Suc i) (cells[i := kEmpty])
      else (False, cells))"

definition FromString :: "position \<Rightarrow> string \<Rightarrow> disc \<Rightarrow> bool \<times> position" where
  "FromString p str turn =
     (if length str \<noteq> 64 then (False, p)
      else case from_chars str 0 (fCells p) of
        (False, cells) \<Rightarrow> (False, p\<lparr>fCells := cells\<rparr>)
      | (True, cells) \<Rightarrow>
          (True, p\<lparr>fCells := cells, fTurn := turn, fHistory := [], fLastMove := -1\<rparr>))"

section \<open>What the loops compute\<close>

lemma length_set_mask [simp]: "length (set_mask m v cells) = length cells"
  by (induction m v cells rule: set_mask.induct) (subst set_mask.simps, simp)

lemma nth_set_mask:
  assumes "length cells = 64" and "n < 64"
  shows "set_mask m v cells ! n = (if bit m n then v else cells ! n)"
  using assms
proof (induction m v cells rule: set_mask.induct)
  case (1 m v cells)
  show ?case
  proof (cases "m = 0")
    case True
    then show ?thesis by (subst set_mask.simps) simp
  next
    case False
    then have "set_mask m v cells ! n
        = (if bit (m AND (m - 1)) n then v else cells[ctzll m := v] ! n)"
      using 1 by (subst set_mask.simps) simp
    then show ?thesis
      using False ctzll_least [OF False] "1.prems"
      by (auto simp: bit_clear_lowest nth_list_update)
  qed
qed

text \<open>
  \<open>caught cells side dx dy cx cy n\<close>: from \<open>(cx, cy)\<close> on there are exactly \<open>n\<close> discs of the
  opponent and then one of \<open>side\<close>, all on the board.
\<close>

definition on_board :: "int \<Rightarrow> int \<Rightarrow> bool" where
  "on_board cx cy \<longleftrightarrow> 0 \<le> cx \<and> cx < 8 \<and> 0 \<le> cy \<and> cy < 8"

definition square_of :: "int \<Rightarrow> int \<Rightarrow> nat" where
  "square_of cx cy = nat (cy * 8 + cx)"

fun caught :: "disc list \<Rightarrow> disc \<Rightarrow> int \<Rightarrow> int \<Rightarrow> int \<Rightarrow> int \<Rightarrow> nat \<Rightarrow> bool" where
  "caught cells side dx dy cx cy 0 \<longleftrightarrow>
     on_board cx cy \<and> cells ! square_of cx cy = side \<and> side \<noteq> kEmpty"
| "caught cells side dx dy cx cy (Suc n) \<longleftrightarrow>
     on_board cx cy \<and> cells ! square_of cx cy \<notin> {kEmpty, side}
     \<and> caught cells side dx dy (cx + dx) (cy + dy) n"

lemma square_of_less: "on_board cx cy \<Longrightarrow> square_of cx cy < 64"
  by (auto simp: on_board_def square_of_def)

lemma line_flips_unfold:
  assumes "dx \<noteq> 0 \<or> dy \<noteq> 0"
  shows "line_flips cells side dx dy cx cy line =
    (if \<not> on_board cx cy \<or> cells ! square_of cx cy = kEmpty then (False, line)
     else if cells ! square_of cx cy = side then (True, line)
     else line_flips cells side dx dy (cx + dx) (cy + dy) (line OR push_bit (square_of cx cy) 1))"
  using assms by (subst line_flips.simps) (auto simp: on_board_def square_of_def Let_def)

lemma line_flips_caught:
  assumes "dx \<noteq> 0 \<or> dy \<noteq> 0" and "caught cells side dx dy cx cy n"
  shows "\<exists>l. line_flips cells side dx dy cx cy line = (True, l)
    \<and> (\<forall>t. bit l t \<longleftrightarrow> bit line t
          \<or> (\<exists>i<n. t = square_of (cx + int i * dx) (cy + int i * dy)))"
  using assms(2)
proof (induction n arbitrary: cx cy line)
  case 0
  then show ?case by (simp add: line_flips_unfold [OF assms(1)])
next
  case (Suc n)
  then have ob: "on_board cx cy" and c: "cells ! square_of cx cy \<notin> {kEmpty, side}"
    and rest: "caught cells side dx dy (cx + dx) (cy + dy) n"
    by auto
  let ?line = "line OR push_bit (square_of cx cy) 1"
  from Suc.IH [OF rest] obtain l where
    l: "line_flips cells side dx dy (cx + dx) (cy + dy) ?line = (True, l)"
    and b: "\<forall>t. bit l t \<longleftrightarrow> bit ?line t
        \<or> (\<exists>i<n. t = square_of (cx + dx + int i * dx) (cy + dy + int i * dy))"
    by blast
  have shift: "square_of (cx + dx + int i * dx) (cy + dy + int i * dy)
      = square_of (cx + int (Suc i) * dx) (cy + int (Suc i) * dy)" for i
    by (simp add: algebra_simps)
  have "bit l t \<longleftrightarrow> bit line t
      \<or> (\<exists>i<Suc n. t = square_of (cx + int i * dx) (cy + int i * dy))" for t
    unfolding b [rule_format] bit_single_or shift Ex_less_Suc2
    using square_of_less [OF ob] by auto
  with l ob c show ?case
    by (subst line_flips_unfold [OF assms(1)]) auto
qed

lemma line_flips_closed:
  assumes "dx \<noteq> 0 \<or> dy \<noteq> 0" and "side \<noteq> kEmpty"
    and "fst (line_flips cells side dx dy cx cy line)"
  shows "\<exists>n. caught cells side dx dy cx cy n"
  using assms
proof (induction cells side dx dy cx cy line rule: line_flips.induct)
  case (1 cells side dx dy cx cy line)
  note unfold = line_flips_unfold [OF "1.prems"(1), of cells side cx cy line]
  from "1.prems"(3) have ob: "on_board cx cy" and ne: "cells ! square_of cx cy \<noteq> kEmpty"
    unfolding unfold by (auto split: if_splits)
  show ?case
  proof (cases "cells ! square_of cx cy = side")
    case True
    with ob "1.prems"(2) have "caught cells side dx dy cx cy 0" by simp
    then show ?thesis ..
  next
    case False
    with "1.prems"(3) ob ne have "fst (line_flips cells side dx dy (cx + dx) (cy + dy)
        (line OR push_bit (square_of cx cy) 1))"
      unfolding unfold by simp
    then have "\<exists>n. caught cells side dx dy (cx + dx) (cy + dy) n"
      using False ob ne "1.prems"(1,2)
      by (intro "1.IH") (auto simp: on_board_def square_of_def Let_def)
    then obtain n where "caught cells side dx dy (cx + dx) (cy + dy) n" ..
    with False ob ne have "caught cells side dx dy cx cy (Suc n)" by simp
    then show ?thesis ..
  qed
qed

text \<open>
  The rule of the game: what a disc of \<open>side\<close> on \<open>square\<close> turns. In one of the eight directions the
  \<open>n\<close> squares next to it all hold discs of the opponent, and the square behind them holds one of \<open>side\<close>.
\<close>

definition direction :: "int \<Rightarrow> int \<Rightarrow> bool" where
  "direction dx dy \<longleftrightarrow> dx \<in> {-1, 0, 1} \<and> dy \<in> {-1, 0, 1} \<and> (dx, dy) \<noteq> (0, 0)"

definition holds_disc :: "disc list \<Rightarrow> nat \<Rightarrow> int \<Rightarrow> int \<Rightarrow> int \<Rightarrow> disc \<Rightarrow> bool" where
  "holds_disc cells square dx dy k c \<longleftrightarrow>
     (let cx = int (square mod 8) + k * dx; cy = int (square div 8) + k * dy
      in 0 \<le> cx \<and> cx < 8 \<and> 0 \<le> cy \<and> cy < 8 \<and> cells ! nat (cy * 8 + cx) = c)"

definition turned :: "disc list \<Rightarrow> disc \<Rightarrow> nat \<Rightarrow> nat \<Rightarrow> bool" where
  "turned cells side square t \<longleftrightarrow>
     (\<exists>dx dy n k. direction dx dy \<and> (\<forall>j \<in> {1..n}. holds_disc cells square dx dy j (opponent side))
        \<and> holds_disc cells square dx dy (n + 1) side
        \<and> k \<in> {1..n} \<and> int t = (int (square div 8) + k * dy) * 8 + int (square mod 8) + k * dx)"

lemma set_kDirs: "(dx, dy) \<in> set kDirs \<longleftrightarrow> direction dx dy"
  by (auto simp: kDirs_def direction_def)

lemma caught_iff:
  assumes "side \<noteq> kEmpty"
  shows "caught cells side dx dy cx cy n \<longleftrightarrow>
    (\<forall>i<n. on_board (cx + int i * dx) (cy + int i * dy) \<and> cells ! square_of (cx + int i * dx) (cy + int i * dy) = opponent side)
    \<and> on_board (cx + int n * dx) (cy + int n * dy) \<and> cells ! square_of (cx + int n * dx) (cy + int n * dy) = side"
proof (induction n arbitrary: cx cy)
  case (Suc n)
  have other: "c \<notin> {kEmpty, side} \<longleftrightarrow> c = opponent side" for c
    using assms by (cases c; cases side) (auto simp: opponent_def)
  have shift: "cx + dx + int i * dx = cx + int (Suc i) * dx" "cy + dy + int i * dy = cy + int (Suc i) * dy" for i
    by (simp_all add: algebra_simps)
  show ?case
    unfolding caught.simps Suc.IH shift other All_less_Suc2 by auto
qed (use assms in simp)

text \<open>The same along the walk of the code.\<close>

lemma turned_caught:
  assumes "side \<noteq> kEmpty"
  shows "turned cells side square t \<longleftrightarrow>
     (\<exists>(dx, dy) \<in> set kDirs. \<exists>n i.
        caught cells side dx dy (int (square mod 8) + dx) (int (square div 8) + dy) n \<and> i < n
        \<and> t = square_of (int (square mod 8) + dx + int i * dx) (int (square div 8) + dy + int i * dy))"
proof -
  let ?x = "int (square mod 8)" and ?y = "int (square div 8)"
  have at: "holds_disc cells square dx dy (int i + 1) c \<longleftrightarrow> on_board (?x + dx + int i * dx) (?y + dy + int i * dy)
      \<and> cells ! square_of (?x + dx + int i * dx) (?y + dy + int i * dy) = c" for dx dy i c
    by (simp add: holds_disc_def on_board_def square_of_def Let_def algebra_simps)
  have run: "caught cells side dx dy (?x + dx) (?y + dy) n \<longleftrightarrow>
      (\<forall>j \<in> {1..int n}. holds_disc cells square dx dy j (opponent side)) \<and> holds_disc cells square dx dy (int n + 1) side" for dx dy n
  proof -
    have shifted: "(\<forall>j \<in> {1..int n}. P j) \<longleftrightarrow> (\<forall>i<n. P (int i + 1))" for P
    proof
      assume all: "\<forall>i<n. P (int i + 1)"
      show "\<forall>j \<in> {1..int n}. P j"
      proof
        fix j assume "j \<in> {1..int n}"
        then have "nat (j - 1) < n" by auto
        with all[rule_format, OF this] \<open>j \<in> {1..int n}\<close> show "P j" by simp
      qed
    qed simp
    show ?thesis unfolding caught_iff[OF assms] shifted at by blast
  qed
  have here: "int t = (?y + (int i + 1) * dy) * 8 + ?x + (int i + 1) * dx \<longleftrightarrow> t = square_of (?x + dx + int i * dx) (?y + dy + int i * dy)"
    if "caught cells side dx dy (?x + dx) (?y + dy) n" "i < n" for dx dy n i
    using that unfolding caught_iff[OF assms] by (auto simp: on_board_def square_of_def algebra_simps)
  show ?thesis
  proof
    assume "turned cells side square t"
    then obtain dx dy n k where d: "direction dx dy" "\<forall>j \<in> {1..n}. holds_disc cells square dx dy j (opponent side)"
      "holds_disc cells square dx dy (n + 1) side" "k \<in> {1..n}" "int t = (?y + k * dy) * 8 + ?x + k * dx"
      unfolding turned_def by blast
    obtain m i where m: "n = int m" "k = int i + 1" "i < m"
      using d(4) by (intro that[of "nat n" "nat (k - 1)"]) auto
    have run': "caught cells side dx dy (?x + dx) (?y + dy) m" using d(2,3) unfolding run m(1) by simp
    then have "t = square_of (?x + dx + int i * dx) (?y + dy + int i * dy)" using here[OF run' m(3)] d(5) m(2) by simp
    with run' m(3) d(1) show "\<exists>(dx, dy) \<in> set kDirs. \<exists>n i. caught cells side dx dy (?x + dx) (?y + dy) n \<and> i < n
        \<and> t = square_of (?x + dx + int i * dx) (?y + dy + int i * dy)"
      unfolding set_kDirs[symmetric] by blast
  next
    assume "\<exists>(dx, dy) \<in> set kDirs. \<exists>n i. caught cells side dx dy (?x + dx) (?y + dy) n \<and> i < n
        \<and> t = square_of (?x + dx + int i * dx) (?y + dy + int i * dy)"
    then obtain dx dy n i where d: "direction dx dy" "caught cells side dx dy (?x + dx) (?y + dy) n" "i < n"
        "t = square_of (?x + dx + int i * dx) (?y + dy + int i * dy)"
      by (auto simp: set_kDirs)
    with here[OF d(2,3)] d(2)[unfolded run] show "turned cells side square t"
      unfolding turned_def by (intro exI[of _ dx] exI[of _ dy] exI[of _ "int n"] exI[of _ "int i + 1"]) simp
  qed
qed

lemma bit_foldl_or:
  "bit (foldl (\<lambda>f d. if fst (g d) then f OR snd (g d) else f) a ds :: 64 word) t
    \<longleftrightarrow> bit a t \<or> (\<exists>d \<in> set ds. fst (g d) \<and> bit (snd (g d)) t)"
  by (induction ds arbitrary: a) (auto simp: bit_or_iff)

lemma FlipsFor_foldl:
  assumes "fCells p ! square = kEmpty"
  shows "FlipsFor p side square =
    foldl (\<lambda>f d. if fst (line_flips (fCells p) side (fst d) (snd d)
              (int (square mod 8) + fst d) (int (square div 8) + snd d) 0)
            then f OR snd (line_flips (fCells p) side (fst d) (snd d)
              (int (square mod 8) + fst d) (int (square div 8) + snd d) 0) else f) 0 kDirs"
  using assms unfolding FlipsFor_def Let_def
  by (auto simp: case_prod_unfold intro!: arg_cong [where f = "\<lambda>h. foldl h 0 kDirs"])

lemma kDirs_nonzero: "(dx, dy) \<in> set kDirs \<Longrightarrow> dx \<noteq> 0 \<or> dy \<noteq> 0"
  by (auto simp: kDirs_def)

lemma bit_FlipsFor:
  assumes "fCells p ! square = kEmpty" and "side \<noteq> kEmpty"
  shows "bit (FlipsFor p side square) t \<longleftrightarrow> turned (fCells p) side square t"
proof -
  let ?x = "int (square mod 8)" and ?y = "int (square div 8)"
  have "(fst (line_flips (fCells p) side dx dy (?x + dx) (?y + dy) 0)
        \<and> bit (snd (line_flips (fCells p) side dx dy (?x + dx) (?y + dy) 0)) t)
      \<longleftrightarrow> (\<exists>n i. caught (fCells p) side dx dy (?x + dx) (?y + dy) n \<and> i < n
            \<and> t = square_of (?x + dx + int i * dx) (?y + dy + int i * dy))"
    (is "?L \<longleftrightarrow> ?R") if "(dx, dy) \<in> set kDirs" for dx dy
  proof
    note nz = kDirs_nonzero [OF that]
    {
      assume ?L
      then obtain n where n: "caught (fCells p) side dx dy (?x + dx) (?y + dy) n"
        using line_flips_closed [OF nz assms(2)] by blast
      from line_flips_caught [OF nz n, of 0] \<open>?L\<close> n show ?R by auto
    next
      assume ?R
      then obtain n i where n: "caught (fCells p) side dx dy (?x + dx) (?y + dy) n"
        and i: "i < n" "t = square_of (?x + dx + int i * dx) (?y + dy + int i * dy)"
        by blast
      from line_flips_caught [OF nz n, of 0] i show ?L by auto
    }
  qed
  then show ?thesis
    unfolding FlipsFor_foldl [OF assms(1)] bit_foldl_or turned_caught [OF assms(2)] by fastforce
qed

lemma caught_cells:
  assumes "caught cells side dx dy cx cy n" and "i < n"
  shows "on_board (cx + int i * dx) (cy + int i * dy)
    \<and> cells ! square_of (cx + int i * dx) (cy + int i * dy) \<notin> {kEmpty, side}"
  using assms
proof (induction n arbitrary: cx cy i)
  case 0
  then show ?case by simp
next
  case (Suc n)
  show ?case
  proof (cases i)
    case 0
    with Suc.prems show ?thesis by simp
  next
    case (Suc j)
    with Suc.IH [of "cx + dx" "cy + dy" j] Suc.prems show ?thesis
      by (simp add: algebra_simps)
  qed
qed

lemma turned_cells:
  "turned cells side square t \<Longrightarrow> side \<noteq> kEmpty \<Longrightarrow> t < 64 \<and> cells ! t \<notin> {kEmpty, side}"
  unfolding turned_caught using caught_cells square_of_less by fast

lemma FlipsFor_occupied: "fCells p ! square \<noteq> kEmpty \<Longrightarrow> FlipsFor p side square = 0"
  by (simp add: FlipsFor_def)

lemma disc_other: "side \<noteq> kEmpty \<Longrightarrow> c \<noteq> kEmpty \<Longrightarrow> c \<noteq> side \<Longrightarrow> c = opponent side"
  by (cases c; cases side) (auto simp: opponent_def)

lemma opponent_simps [simp]:
  "side \<noteq> kEmpty \<Longrightarrow> opponent (opponent side) = side"
  "opponent side \<noteq> kEmpty" "opponent side \<noteq> side" "side \<noteq> opponent side"
  by (cases side; simp add: opponent_def)+

lemma bit_FlipsForD:
  assumes "bit (FlipsFor p side square) t" and "side \<noteq> kEmpty"
  shows "t < 64 \<and> fCells p ! t = opponent side \<and> t \<noteq> square"
proof -
  from assms(1) have e: "fCells p ! square = kEmpty"
    by (rule contrapos_pp) (simp add: FlipsFor_occupied)
  from assms e have "turned (fCells p) side square t"
    by (simp add: bit_FlipsFor)
  from turned_cells [OF this assms(2)] e assms(2) show ?thesis
    by (auto intro: disc_other)
qed

section \<open>Well-formed games\<close>

text \<open>
  The past of a position: every real ply names the square it filled and a mask of discs that
  now show its side, and a pass lies directly on a real ply. Taking plies back one by one
  stays within this.
\<close>

fun past_ok :: "disc list \<Rightarrow> ply list \<Rightarrow> bool" where
  "past_ok cells [] \<longleftrightarrow> True"
| "past_ok cells (l # ls) \<longleftrightarrow> ply_side l \<noteq> kEmpty \<and>
     (if ply_pass l then ls \<noteq> [] \<and> \<not> ply_pass (hd ls) \<and> past_ok cells ls
      else 0 \<le> ply_move l \<and> ply_move l < 64 \<and> cells ! nat (ply_move l) = ply_side l
        \<and> (\<forall>t. bit (ply_flips l) t \<longrightarrow>
              t < 64 \<and> cells ! t = ply_side l \<and> t \<noteq> nat (ply_move l))
        \<and> past_ok (set_mask (ply_flips l) (opponent (ply_side l))
                    (cells[nat (ply_move l) := kEmpty])) ls)"

definition real_moves :: "ply list \<Rightarrow> nat" where
  "real_moves ls = length (filter (\<lambda>l. \<not> ply_pass l) ls)"

definition wf_position :: "position \<Rightarrow> bool" where
  "wf_position p \<longleftrightarrow> length (fCells p) = 64 \<and> fTurn p \<noteq> kEmpty
     \<and> past_ok (fCells p) (fHistory p)
     \<and> real_moves (fHistory p) + Empties p \<le> 64"

lemma real_moves_simps [simp]:
  "real_moves [] = 0"
  "real_moves (l # ls) = (if ply_pass l then real_moves ls else Suc (real_moves ls))"
  by (simp_all add: real_moves_def)

lemma past_ok_length: "past_ok cells ls \<Longrightarrow> length ls \<le> 2 * real_moves ls"
proof (induction ls arbitrary: cells rule: length_induct)
  case (1 ls)
  show ?case
  proof (cases ls)
    case Nil
    then show ?thesis by simp
  next
    case l: (Cons l ls')
    show ?thesis
    proof (cases "ply_pass l")
      case False
      with l "1.prems" "1.IH" show ?thesis by fastforce
    next
      case True
      with l "1.prems" obtain m ms where m: "ls' = m # ms" "\<not> ply_pass m" "past_ok cells ls'"
        by (cases ls') auto
      then obtain cells' where "past_ok cells' ms" by auto
      with "1.IH" l m True show ?thesis by force
    qed
  qed
qed

lemma wf_history_length:
  assumes "wf_position p"
  shows "length (fHistory p) + 2 * Empties p \<le> 128"
  using assms past_ok_length [of "fCells p" "fHistory p"] by (simp add: wf_position_def)

lemma Empties_le: "length (fCells p) = 64 \<Longrightarrow> Empties p \<le> 64"
  by (metis Empties_def length_filter_le)

lemma wf_Reset [wf_rules]: "wf_position Reset"
  using Empties_le [of Reset] by (simp add: wf_position_def Reset_def)

lemma from_chars_length: "length (snd (from_chars cs i cells)) = length cells"
  by (induction cs i cells rule: from_chars.induct) auto

lemma wf_FromString [wf_rules]:
  assumes "length (fCells p) = 64" and "turn \<noteq> kEmpty" and "FromString p str turn = (True, q)"
  shows "wf_position q"
  using assms from_chars_length [of str 0 "fCells p"] Empties_le [of q]
  by (auto simp: FromString_def wf_position_def split: if_splits prod.splits bool.splits)

subsection \<open>A move\<close>

text \<open>The position right after the disc is set and recorded, before the turn passes on.\<close>

definition moved :: "position \<Rightarrow> nat \<Rightarrow> position" where
  "moved p square =
     p\<lparr>fCells := Apply (fTurn p) square (FlipsFor p (fTurn p) square) (fCells p),
       fHistory := \<lparr>ply_move = int square, ply_flips = FlipsFor p (fTurn p) square,
                     ply_side = fTurn p, ply_pass = False\<rparr> # fHistory p,
       fLastMove := int square\<rparr>"

lemma Play_eq:
  "Play p square =
     (if fPlyCount p \<ge> history_capacity \<or> FlipsFor p (fTurn p) square = 0 then (False, p)
      else (True, AdvanceTurn (moved p square)))"
  by (simp add: Play_def moved_def Let_def)

definition pass_ply :: "disc \<Rightarrow> ply" where
  "pass_ply s = \<lparr>ply_move = -1, ply_flips = 0, ply_side = s, ply_pass = True\<rparr>"

lemma AdvanceTurn_cases:
  "AdvanceTurn p = p\<lparr>fTurn := opponent (fTurn p)\<rparr>
   \<or> AdvanceTurn p = p\<lparr>fTurn := opponent (opponent (fTurn p)),
        fHistory := pass_ply (opponent (fTurn p)) # fHistory p\<rparr>"
  by (simp add: AdvanceTurn_def Let_def pass_ply_def)

lemma AdvanceTurn_fields [simp]:
  "fCells (AdvanceTurn p) = fCells p" "fLastMove (AdvanceTurn p) = fLastMove p"
  "Empties (AdvanceTurn p) = Empties p"
  using AdvanceTurn_cases [of p] by (auto simp: Empties_def)

lemma FlipsFor_nonzeroD:
  assumes "FlipsFor p side square \<noteq> 0"
  shows "fCells p ! square = kEmpty"
  using assms FlipsFor_occupied by blast

lemma moved_cells:
  assumes "length (fCells p) = 64" and "i < 64" and "square < 64"
  shows "fCells (moved p square) ! i =
    (if i = square \<or> bit (FlipsFor p (fTurn p) square) i then fTurn p else fCells p ! i)"
  using assms by (simp add: moved_def Apply_def nth_set_mask nth_list_update)

lemma moved_fields [simp]:
  "length (fCells (moved p square)) = length (fCells p)"
  "fTurn (moved p square) = fTurn p" "fLastMove (moved p square) = int square"
  by (simp_all add: moved_def Apply_def)

lemma moved_retract:
  assumes "length (fCells p) = 64" and "fTurn p \<noteq> kEmpty" and "square < 64"
    and "FlipsFor p (fTurn p) square \<noteq> 0"
  shows "set_mask (FlipsFor p (fTurn p) square) (opponent (fTurn p))
      ((fCells (moved p square))[square := kEmpty]) = fCells p"
proof (rule nth_equalityI)
  fix i
  assume "i < length (set_mask (FlipsFor p (fTurn p) square) (opponent (fTurn p))
      ((fCells (moved p square))[square := kEmpty]))"
  then have "i < 64" using assms(1) by simp
  then show "set_mask (FlipsFor p (fTurn p) square) (opponent (fTurn p))
      ((fCells (moved p square))[square := kEmpty]) ! i = fCells p ! i"
    using assms bit_FlipsForD [OF _ assms(2), of p square i] FlipsFor_nonzeroD [OF assms(4)]
    by (auto simp: nth_set_mask nth_list_update moved_cells)
qed (simp add: assms(1))

lemma past_ok_moved:
  assumes "wf_position p" and "square < 64" and "FlipsFor p (fTurn p) square \<noteq> 0"
  shows "past_ok (fCells (moved p square)) (fHistory (moved p square))"
proof -
  have p: "length (fCells p) = 64" "fTurn p \<noteq> kEmpty" "past_ok (fCells p) (fHistory p)"
    using assms(1) by (auto simp: wf_position_def)
  have flips: "t < 64 \<and> fCells (moved p square) ! t = fTurn p \<and> t \<noteq> square"
    if "bit (FlipsFor p (fTurn p) square) t" for t
    using bit_FlipsForD [OF that p(2)] that p(1) assms(2) by (simp add: moved_cells)
  have "fHistory (moved p square) = \<lparr>ply_move = int square,
      ply_flips = FlipsFor p (fTurn p) square, ply_side = fTurn p, ply_pass = False\<rparr> # fHistory p"
    by (simp add: moved_def)
  then show ?thesis
    using flips p assms(2) moved_retract [OF p(1,2) assms(2,3)] by (simp add: moved_cells)
qed

lemma Empties_set_mask:
  assumes "length cells = 64" and "v \<noteq> kEmpty" and "\<forall>t. bit m t \<longrightarrow> t < 64 \<and> cells ! t \<noteq> kEmpty"
  shows "length (filter (\<lambda>c. c = kEmpty) (set_mask m v cells)) = length (filter (\<lambda>c. c = kEmpty) cells)"
proof -
  have "set_mask m v cells ! i = kEmpty \<longleftrightarrow> cells ! i = kEmpty" if "i < 64" for i
    using that assms by (auto simp: nth_set_mask)
  then show ?thesis using assms(1) by (simp add: length_filter_conv_card cong: conj_cong)
qed

lemma Empties_moved:
  assumes "length (fCells p) = 64" "fTurn p \<noteq> kEmpty" "square < 64"
    and "FlipsFor p (fTurn p) square \<noteq> 0"
  shows "Empties p = Suc (Empties (moved p square))"
proof -
  let ?cs = "(fCells p)[square := fTurn p]"
  have e: "fCells p ! square = kEmpty" by (rule FlipsFor_nonzeroD [OF assms(4)])
  have "\<forall>t. bit (FlipsFor p (fTurn p) square) t \<longrightarrow> t < 64 \<and> ?cs ! t \<noteq> kEmpty"
    using assms(1) by (auto dest!: bit_FlipsForD [OF _ assms(2)])
  then have "Empties (moved p square) = length (filter (\<lambda>c. c = kEmpty) ?cs)"
    unfolding Empties_def moved_def Apply_def using assms(1,2) by (simp add: Empties_set_mask)
  moreover have "Empties p = Suc (length (filter (\<lambda>c. c = kEmpty) ?cs))"
    unfolding Empties_def using assms(1-3) e
    by (intro length_filter_upt_update) auto
  ultimately show ?thesis by simp
qed

lemma wf_AdvanceTurn:
  assumes "wf_position p" and "fHistory p \<noteq> []" and "\<not> ply_pass (hd (fHistory p))"
  shows "wf_position (AdvanceTurn p)"
  using AdvanceTurn_cases [of p] assms
  by (auto simp: wf_position_def pass_ply_def Empties_def)

lemma wf_moved:
  assumes "wf_position p" "square < 64" and "FlipsFor p (fTurn p) square \<noteq> 0"
  shows "wf_position (moved p square)"
proof -
  have p: "length (fCells p) = 64" "fTurn p \<noteq> kEmpty" "real_moves (fHistory p) + Empties p \<le> 64"
    using assms(1) by (auto simp: wf_position_def)
  have "real_moves (fHistory (moved p square)) = Suc (real_moves (fHistory p))"
    by (simp add: moved_def)
  then show ?thesis
    using Empties_moved [OF p(1,2) assms(2,3)] past_ok_moved [OF assms] p
    by (simp add: wf_position_def)
qed

lemma wf_Play [wf_rules]:
  assumes "wf_position p" and "square < 64"
  shows "wf_position (snd (Play p square))"
  using assms wf_AdvanceTurn [OF wf_moved [OF assms]]
  by (simp add: Play_eq) (simp add: moved_def)

lemma wf_retract:
  assumes "length (fCells p) = 64" "past_ok (fCells p) (l # ls)" "\<not> ply_pass l"
    and "real_moves (l # ls) + Empties p \<le> 64" and "fHistory p = ls"
  shows "wf_position (Retract p l)"
proof -
  let ?m = "nat (ply_move l)"
  let ?cs = "(fCells p)[?m := kEmpty]"
  have l: "ply_side l \<noteq> kEmpty" "?m < 64" "fCells p ! ?m = ply_side l"
    and flips: "\<forall>t. bit (ply_flips l) t \<longrightarrow> t < 64 \<and> ?cs ! t \<noteq> kEmpty"
    using assms(1-3) by (auto simp: nth_list_update)
  have "length (filter (\<lambda>c. c \<noteq> kEmpty) (fCells p)) = Suc (length (filter (\<lambda>c. c \<noteq> kEmpty) ?cs))"
    using l assms(1) by (intro length_filter_upt_update) auto
  moreover have "Empties p + length (filter (\<lambda>c. c \<noteq> kEmpty) (fCells p)) = 64"
    "length (filter (\<lambda>c. c = kEmpty) ?cs) + length (filter (\<lambda>c. c \<noteq> kEmpty) ?cs) = 64"
    using length_filter_split [of "\<lambda>c. c = kEmpty"] assms(1) by (simp_all add: Empties_def)
  ultimately have "length (filter (\<lambda>c. c = kEmpty) ?cs) = Suc (Empties p)" by simp
  then have "Empties (Retract p l) = Suc (Empties p)"
    using assms(1,3) flips by (simp add: Retract_def Empties_def Empties_set_mask)
  then show ?thesis
    using assms l by (simp add: wf_position_def Retract_def)
qed

lemma undo_passes_ok:
  assumes "past_ok cells ls" and "ls \<noteq> []" and "turn \<noteq> kEmpty"
  shows "\<exists>l ls' turn'. undo_passes ls turn = (l # ls', turn') \<and> turn' \<noteq> kEmpty
    \<and> \<not> ply_pass l \<and> past_ok cells (l # ls') \<and> real_moves (l # ls') = real_moves ls"
  using assms by (induction ls turn rule: undo_passes.induct) auto

lemma wf_Undo [wf_rules]:
  assumes "wf_position p"
  shows "wf_position (snd (Undo p))"
proof (cases "fHistory p = []")
  case True
  with assms show ?thesis by (simp add: Undo_def)
next
  case False
  with assms undo_passes_ok [of "fCells p" "fHistory p" "fTurn p"] obtain l ls turn where
    u: "undo_passes (fHistory p) (fTurn p) = (l # ls, turn)"
    "\<not> ply_pass l" "past_ok (fCells p) (l # ls)" "real_moves (l # ls) = real_moves (fHistory p)"
    by (auto simp: wf_position_def)
  let ?q = "p\<lparr>fHistory := ls, fTurn := turn\<rparr>"
  have "Empties ?q = Empties p"
    by (simp add: Empties_def)
  with u assms have "wf_position (Retract ?q l)"
    by (intro wf_retract [where ls = ls]) (simp_all add: wf_position_def)
  with u False show ?thesis by (simp add: Undo_def)
qed

section \<open>Properties of the rules\<close>

text \<open>
  Games: a board from \<open>Reset\<close> or \<open>FromString\<close>, then any moves and undos.
\<close>

inductive game :: "position \<Rightarrow> bool" where
  game_reset: "game Reset"
| game_from_string: "FromString p str turn = (True, q) \<Longrightarrow> length (fCells p) = 64
    \<Longrightarrow> turn = kBlack \<or> turn = kWhite \<Longrightarrow> game q"
| game_play: "game p \<Longrightarrow> square < 64 \<Longrightarrow> game (snd (Play p square))"
| game_undo: "game p \<Longrightarrow> game (snd (Undo p))"

lemma game_wf: "game p \<Longrightarrow> wf_position p"
  by (induction rule: game.induct) (auto intro: wf_rules)

lemma Play_history:
  assumes "wf_position p" and "square < 64"
  shows "Play p square = (if FlipsFor p (fTurn p) square = 0 then (False, p)
    else (True, AdvanceTurn (moved p square)))"
  using wf_history_length [OF assms(1)]
  by (simp add: Play_eq fPlyCount_def history_capacity_def)

text \<open>
  A move the other side can answer passes the turn. One square the other side can play is
  enough to know, which keeps concrete games cheap to evaluate.
\<close>

lemma Play_answered:
  assumes "wf_position p" and "square < 64" and "FlipsFor p (fTurn p) square \<noteq> 0"
    and "t < 64" and "FlipsFor (moved p square) (opponent (fTurn p)) t \<noteq> 0"
  shows "Play p square = (True, (moved p square)\<lparr>fTurn := opponent (fTurn p)\<rparr>)"
proof -
  have "LegalMoves (moved p square) (opponent (fTurn p)) \<noteq> []"
    using assms(4,5) by (auto simp: LegalMoves_def filter_empty_conv)
  moreover have "LegalMoves ((moved p square)\<lparr>fTurn := u\<rparr>) = LegalMoves (moved p square)" for u
    by (intro ext) (simp add: LegalMoves_def FlipsFor_def)
  ultimately show ?thesis
    using assms(1-3) by (simp add: Play_history AdvanceTurn_def Let_def)
qed

lemma Reset_d3: "FlipsFor Reset (fTurn Reset) 19 \<noteq> 0"
  by code_simp

lemma Play_Reset_d3: "Play Reset 19 = (True, AdvanceTurn (moved Reset 19))"
  using Play_history [OF wf_Reset, of 19] Reset_d3 by simp

lemma Undo_moved:
  assumes "wf_position p" and "square < 64" and "FlipsFor p (fTurn p) square \<noteq> 0"
  shows "Undo (AdvanceTurn (moved p square)) = (True, p\<lparr>fLastMove :=
    (case fHistory p of [] \<Rightarrow> -1 | l # _ \<Rightarrow> ply_move l)\<rparr>)"
proof -
  have p: "length (fCells p) = 64" "fTurn p \<noteq> kEmpty"
    using assms(1) by (auto simp: wf_position_def)
  note undone = moved_retract [OF p assms(2,3), unfolded moved_def, simplified]
  show ?thesis
    using AdvanceTurn_cases [of "moved p square"] undone p(2)
    by (elim disjE) (auto simp: Undo_def Retract_def pass_ply_def moved_def
        intro!: position.equality split: list.splits)
qed

text \<open>
  C20 A move turns exactly the discs the rule of the game names: \<open>FlipsFor\<close>, loops over a table of
  directions collecting bits of a mask, holds bit \<open>t\<close> exactly when the square played is empty and, in
  one of the eight directions of the board, square \<open>t\<close> lies in the run of the opponent's discs that
  starts beside the square played and is closed by an own disc. On an occupied square it is 0.
\<close>

theorem FlipsFor_is_the_rule:
  assumes "side \<noteq> kEmpty"
  shows "bit (FlipsFor p side square) t
    \<longleftrightarrow> fCells p ! square = kEmpty \<and> turned (fCells p) side square t"
  using assms FlipsFor_occupied [of p square side] bit_FlipsFor [of p square side t] by fastforce

theorem FlipsFor_is_the_rule_witness:
  "bit (FlipsFor Reset kBlack 19) 27 \<and> turned (fCells Reset) kBlack 19 27"
proof -
  have "bit (FlipsFor Reset kBlack 19) 27" by code_simp
  then show ?thesis using FlipsFor_is_the_rule [of kBlack Reset 19 27] by simp
qed

text \<open>
  Memory safety of the ply array: in every game the index at which \<open>Play\<close> records a move
  and, after it, a pass lies inside \<open>fHistory[130]\<close>. The array guard of \<open>Play\<close> does not cover the
  pass; what does is that a pass lies on a real move only and a real move fills a square.
\<close>

theorem Play_history_bound:
  assumes "game p" and "square < 64"
  shows "fPlyCount p + 2 \<le> history_capacity \<and> fPlyCount (snd (Play p square)) \<le> 128"
  using wf_history_length [OF game_wf [OF assms(1)]]
    wf_history_length [OF game_wf [OF game_play [OF assms]]]
  by (simp add: fPlyCount_def history_capacity_def)

theorem Play_history_bound_witness:
  "fPlyCount Reset + 2 \<le> history_capacity \<and> fPlyCount (snd (Play Reset 19)) \<le> 128"
  by (rule Play_history_bound [OF game_reset]) simp

text \<open>
  C12 Undo takes back exactly one played move, whatever passes it led to: after a legal move
  cells, turn and history are what they were. The last-move mark becomes the move of the ply
  below, which is -1 when that ply is a pass.
\<close>

theorem Undo_Play:
  assumes "game p" and "square < 64" and "Play p square = (True, q)"
  shows "Undo q = (True, p\<lparr>fLastMove := (case fHistory p of [] \<Rightarrow> -1 | l # _ \<Rightarrow> ply_move l)\<rparr>)"
proof -
  note wf = game_wf [OF assms(1)]
  from assms(3) have "FlipsFor p (fTurn p) square \<noteq> 0" "q = AdvanceTurn (moved p square)"
    by (auto simp: Play_history [OF wf assms(2)] split: if_splits)
  then show ?thesis using Undo_moved [OF wf assms(2)] by simp
qed

theorem Undo_Play_witness:
  "Undo (snd (Play Reset 19)) = (True, Reset\<lparr>fLastMove := -1\<rparr>)"
  using Undo_Play [OF game_reset _ Play_Reset_d3] by (simp add: Play_Reset_d3) (simp add: Reset_def)

definition pass_board :: string where
  "pass_board = ''.wb.....................................................bw......''"

definition before_undo :: position where
  "before_undo = snd (Play (snd (FromString Reset pass_board kBlack)) 0)"

lemma before_undo_game: "game before_undo"
proof -
  have "fst (FromString Reset pass_board kBlack)" by code_simp
  then have "FromString Reset pass_board kBlack = (True, snd (FromString Reset pass_board kBlack))"
    by (simp add: prod_eq_iff)
  from game_from_string [OF this] have "game (snd (FromString Reset pass_board kBlack))"
    by (simp add: Reset_def)
  then show ?thesis unfolding before_undo_def by (rule game_play) simp
qed

lemma before_undo_state:
  "(fTurn before_undo, List.map ply_move (fHistory before_undo), fLastMove before_undo)
    = (kBlack, [-1, 0], 0)"
  by code_simp

lemma before_undo_flips: "FlipsFor before_undo kBlack 58 \<noteq> 0"
  by code_simp

text \<open>
  The last-move mark is lost: where the ply below is a pass, taking back a move leaves
  \<open>fLastMove\<close> at -1 although the mark stood on the move before the pass. On \<open>pass_board\<close> black
  plays square 0, white must pass, black plays 58 and takes it back: the cells are those of
  before, the mark is gone.
\<close>

theorem Undo_loses_last_move:
  "game before_undo \<and> fst (Play before_undo 58) \<and> fLastMove before_undo = 0
   \<and> fCells (snd (Undo (snd (Play before_undo 58)))) = fCells before_undo
   \<and> fLastMove (snd (Undo (snd (Play before_undo 58)))) = -1"
proof -
  note wf = game_wf [OF before_undo_game]
  have st: "fTurn before_undo = kBlack" "List.map ply_move (fHistory before_undo) = [-1, 0]"
    "fLastMove before_undo = 0"
    using before_undo_state by simp_all
  then obtain l ls where h: "fHistory before_undo = l # ls" "ply_move l = -1" by auto
  have "Play before_undo 58 = (True, AdvanceTurn (moved before_undo 58))"
    using before_undo_flips st by (simp add: Play_history [OF wf])
  then show ?thesis
    using Undo_moved [OF wf, of 58] before_undo_flips before_undo_game st h by simp
qed

subsection \<open>Whose turn it is\<close>

lemma FlipsFor_cong: "fCells p = fCells q \<Longrightarrow> FlipsFor p = FlipsFor q"
  by (intro ext) (simp add: FlipsFor_def)

lemma LegalMoves_cong: "fCells p = fCells q \<Longrightarrow> LegalMoves p = LegalMoves q"
  using FlipsFor_cong [of p q] by (intro ext) (simp add: LegalMoves_def)

lemma LegalMoves_update [simp]:
  "LegalMoves (p\<lparr>fTurn := t\<rparr>) = LegalMoves p" "LegalMoves (p\<lparr>fHistory := h\<rparr>) = LegalMoves p"
  "LegalMoves (p\<lparr>fLastMove := m\<rparr>) = LegalMoves p" "LegalMoves (AdvanceTurn p) = LegalMoves p"
  "LegalMoves (PassTurn p) = LegalMoves p"
  by (rule LegalMoves_cong, simp add: PassTurn_def)+

lemma Empties_update [simp]:
  "Empties (p\<lparr>fTurn := t\<rparr>) = Empties p" "Empties (p\<lparr>fHistory := h\<rparr>) = Empties p"
  "Empties (PassTurn p) = Empties p"
  by (simp_all add: Empties_def PassTurn_def)

lemma Over_update [simp]:
  "Over (p\<lparr>fHistory := h\<rparr>) = Over p"
  "fTurn p \<noteq> kEmpty \<Longrightarrow> Over (p\<lparr>fTurn := opponent (fTurn p)\<rparr>) = Over p"
  by (auto simp: Over_def)

lemma LegalMoves_iff: "m \<in> set (LegalMoves p side) \<longleftrightarrow> m < 64 \<and> FlipsFor p side m \<noteq> 0"
  by (auto simp: LegalMoves_def)

lemma distinct_LegalMoves: "distinct (LegalMoves p side)"
  by (simp add: LegalMoves_def)

lemma LegalMoves_full: "Empties p = 0 \<Longrightarrow> length (fCells p) = 64 \<Longrightarrow> LegalMoves p side = []"
  by (auto simp: LegalMoves_def Empties_def filter_empty_conv FlipsFor_def)

lemma Over_iff:
  "length (fCells p) = 64 \<Longrightarrow> Over p \<longleftrightarrow>
     LegalMoves p (fTurn p) = [] \<and> LegalMoves p (opponent (fTurn p)) = []"
  using LegalMoves_full [of p] by (auto simp: Over_def)

lemma AdvanceTurn_turn:
  assumes "length (fCells p) = 64" and "fTurn p \<noteq> kEmpty"
  shows "fTurn (AdvanceTurn p) =
      (if LegalMoves p (opponent (fTurn p)) = [] \<and> LegalMoves p (fTurn p) \<noteq> []
       then fTurn p else opponent (fTurn p))"
  using assms by (auto simp: AdvanceTurn_def Over_iff Let_def)

lemma Play_turn:
  assumes "wf_position p" and "square < 64" and "Play p square = (True, q)"
  shows "fTurn q = (if LegalMoves q (opponent (fTurn p)) = [] \<and> LegalMoves q (fTurn p) \<noteq> []
       then fTurn p else opponent (fTurn p))"
    and "Over q \<or> LegalMoves q (fTurn q) \<noteq> []"
    and "Empties p = Suc (Empties q)"
proof -
  have p: "length (fCells p) = 64" "fTurn p \<noteq> kEmpty" "FlipsFor p (fTurn p) square \<noteq> 0"
    "q = AdvanceTurn (moved p square)"
    using assms by (auto simp: Play_history wf_position_def split: if_splits)
  then show t: "fTurn q = (if LegalMoves q (opponent (fTurn p)) = [] \<and> LegalMoves q (fTurn p) \<noteq> []
       then fTurn p else opponent (fTurn p))"
    by (simp add: AdvanceTurn_turn)
  have "length (fCells q) = 64" using p by simp
  then show "Over q \<or> LegalMoves q (fTurn q) \<noteq> []"
    using t p(2) by (auto simp: Over_iff split: if_splits)
  show "Empties p = Suc (Empties q)"
    using p assms(2) Empties_moved [of p square] by simp
qed

text \<open>
  Nobody is asked to move who cannot: after every legal move the game is over or the side
  to move has a legal move, one empty square less than before; and the mover moves again
  exactly when the other side has no move and it has one itself.
\<close>

theorem Play_passes_the_turn:
  assumes "game p" and "square < 64" and "Play p square = (True, q)"
  shows "(Over q \<or> LegalMoves q (fTurn q) \<noteq> []) \<and> Empties p = Suc (Empties q)
    \<and> (fTurn q = fTurn p \<longleftrightarrow> LegalMoves q (opponent (fTurn p)) = [] \<and> LegalMoves q (fTurn p) \<noteq> [])"
  using Play_turn [OF game_wf [OF assms(1)] assms(2,3)] game_wf [OF assms(1)]
  by (auto simp: wf_position_def)

theorem Play_passes_the_turn_witness:
  "\<exists>q. Play Reset 19 = (True, q) \<and> (Over q \<or> LegalMoves q (fTurn q) \<noteq> [])"
  using Play_passes_the_turn [OF game_reset _ Play_Reset_d3] by (simp add: Play_Reset_d3)

subsection \<open>The text form\<close>

lemma from_chars_cells:
  "i + length ds \<le> length cells \<Longrightarrow> from_chars (List.map cell_char ds) i cells
    = (True, take i cells @ ds @ drop (i + length ds) cells)"
proof (induction ds arbitrary: i cells)
  case Nil
  then show ?case by simp
next
  case (Cons d ds)
  have "from_chars (List.map cell_char (d # ds)) i cells
      = from_chars (List.map cell_char ds) (Suc i) (cells[i := d])"
    by (cases d) (simp_all add: cell_char_def)
  also have "\<dots> = (True, take (Suc i) (cells[i := d]) @ ds @ drop (Suc i + length ds) (cells[i := d]))"
    using Cons.prems by (intro Cons.IH) simp
  also have "take (Suc i) (cells[i := d]) = take i cells @ [d]"
    using Cons.prems by (simp add: take_Suc_conv_app_nth)
  finally show ?case using Cons.prems by simp
qed

text \<open>
  The text form loses nothing: reading back what \<open>ToString\<close> wrote gives the same cells, on
  any board the string is read into, with a fresh history and the turn asked for.
\<close>

theorem FromString_ToString:
  assumes "length (fCells p) = 64" and "length (fCells q) = 64"
  shows "FromString q (ToString p) turn
    = (True, q\<lparr>fCells := fCells p, fTurn := turn, fHistory := [], fLastMove := -1\<rparr>)"
  using assms by (simp add: FromString_def ToString_def from_chars_cells)

theorem FromString_ToString_witness:
  "FromString Reset (ToString Reset) kWhite
    = (True, Reset\<lparr>fCells := fCells Reset, fTurn := kWhite, fHistory := [], fLastMove := -1\<rparr>)"
  by (rule FromString_ToString) (simp_all add: Reset_def)

end
