(* ===== verification/OthelloSearch.thy ===== *)
theory OthelloSearch
  imports OthelloRules "HOL-Library.Multiset"
begin

text \<open>
  The machine player, \<open>Evaluate\<close> and class \<open>Search\<close> of \<open>proseothello/app/src/Othello.cpp\<close>, with
  the exhaustive \<open>BestFinish\<close> the self test compares it to. The static members \<open>fNodes\<close> and
  \<open>fStop\<close> are a state passed along. What the code reads from outside is an argument: \<open>late n\<close>
  says whether \<open>system_time()\<close> is past the deadline at the check made at node number \<open>n\<close>, and
  \<open>rnd\<close> is what \<open>rand_r\<close> returns. Search depths are never negative and are \<open>nat\<close>.
\<close>

section \<open>The value of a position\<close>

definition kWeights :: "int list" where
  "kWeights = [
    120, -20, 20, 5, 5, 20, -20, 120,
    -20, -40, -5, -5, -5, -5, -40, -20,
    20, -5, 15, 3, 3, 15, -5, 20,
    5, -5, 3, 3, 3, 3, -5, 5,
    5, -5, 3, 3, 3, 3, -5, 5,
    20, -5, 15, 3, 3, 15, -5, 20,
    -20, -40, -5, -5, -5, -5, -40, -20,
    120, -20, 20, 5, 5, 20, -20, 120]"

definition cornerOf :: "nat \<Rightarrow> int" where
  "cornerOf square = [
    0, 0, -1, -1, -1, -1, 7, 7,
    0, 0, -1, -1, -1, -1, 7, 7,
    -1, -1, -1, -1, -1, -1, -1, -1,
    -1, -1, -1, -1, -1, -1, -1, -1,
    -1, -1, -1, -1, -1, -1, -1, -1,
    -1, -1, -1, -1, -1, -1, -1, -1,
    56, 56, -1, -1, -1, -1, 63, 63,
    56, 56, -1, -1, -1, -1, 63, 63] ! square"

text \<open>
  The first loop of \<open>Evaluate\<close> keeps \<open>weights[2]\<close> and \<open>discs[2]\<close>, indexed by \<open>cell - 1\<close>:
  the two components of a pair are black's and white's.
\<close>

fun eval_cells :: "disc list \<Rightarrow> nat list \<Rightarrow> int \<times> int \<Rightarrow> int \<times> int \<Rightarrow> (int \<times> int) \<times> (int \<times> int)" where
  "eval_cells cells [] weights discs = (weights, discs)"
| "eval_cells cells (i # is) weights discs =
     (let cell = cells ! i; corner = cornerOf i;
          w = (if corner \<ge> 0 \<and> kWeights ! i < 0 \<and> cells ! nat corner = cell then 8 else kWeights ! i)
      in case cell of
        kEmpty \<Rightarrow> eval_cells cells is weights discs
      | kBlack \<Rightarrow> eval_cells cells is (fst weights + w, snd weights) (fst discs + 1, snd discs)
      | kWhite \<Rightarrow> eval_cells cells is (fst weights, snd weights + w) (fst discs, snd discs + 1))"

definition of_side :: "disc \<Rightarrow> int \<times> int \<Rightarrow> int" where
  "of_side side bw = (if side = kBlack then fst bw else snd bw)"

definition Evaluate :: "position \<Rightarrow> disc \<Rightarrow> int" where
  "Evaluate p forSide =
     (let (weights, discs) = eval_cells (fCells p) [0..<64] (0, 0) (0, 0);
          myMoves = int (length (LegalMoves p forSide));
          theirMoves = int (length (LegalMoves p (opponent forSide)));
          empties = 64 - fst discs - snd discs;
          score = of_side forSide weights - of_side (opponent forSide) weights
                  + 8 * (myMoves - theirMoves)
      in if empties \<le> 16
         then score + 4 * (of_side forSide discs - of_side (opponent forSide) discs)
         else score)"

section \<open>The search\<close>

definition kInfinity :: int where
  "kInfinity = 2 ^ 24"

record search_state =
  fNodes :: nat
  fStop :: bool

text \<open>
  \<open>Order\<close>: the outer loop takes the heaviest square not yet taken, the first of equals.
\<close>

definition pick_best :: "nat list \<Rightarrow> bool list \<Rightarrow> nat option" where
  "pick_best moves taken =
     foldl (\<lambda>best j. if taken ! j then best
         else case best of None \<Rightarrow> Some j
           | Some b \<Rightarrow> if kWeights ! (moves ! j) > kWeights ! (moves ! b) then Some j else best)
       None [0..<length moves]"

fun order_loop :: "nat list \<Rightarrow> bool list \<Rightarrow> nat \<Rightarrow> nat list" where
  "order_loop moves taken 0 = []"
| "order_loop moves taken (Suc n) =
     (case pick_best moves taken of
        None \<Rightarrow> []
      | Some b \<Rightarrow> moves ! b # order_loop moves (taken[b := True]) n)"

definition Order :: "nat list \<Rightarrow> nat list" where
  "Order moves = order_loop moves (replicate (length moves) False) (length moves)"

definition terminal_score :: "position \<Rightarrow> int" where
  "terminal_score p =
     (let (black, white) = Counts p;
          diff = (if fTurn p = kBlack then int black - int white else int white - int black)
      in if diff > 0 then 100000 + diff else if diff < 0 then -100000 + diff else 0)"

function (sequential)
  Negamax :: "(nat \<Rightarrow> bool) \<Rightarrow> position \<Rightarrow> nat \<Rightarrow> int \<Rightarrow> int \<Rightarrow> search_state \<Rightarrow> int \<times> search_state"
and
  negamax_moves :: "(nat \<Rightarrow> bool) \<Rightarrow> position \<Rightarrow> nat \<Rightarrow> nat list \<Rightarrow> int \<Rightarrow> int \<Rightarrow> int
     \<Rightarrow> search_state \<Rightarrow> int \<times> search_state" where
  "Negamax late p depth alpha beta st =
     (let st1 = st\<lparr>fNodes := Suc (fNodes st)\<rparr>; moves = LegalMoves p (fTurn p) in
      if moves = [] then
        if LegalMoves p (opponent (fTurn p)) = [] then (terminal_score p, st1)
        else if depth = 0 then (Evaluate p (fTurn p), st1)
        else (case Negamax late (PassTurn p) depth (- beta) (- alpha) st1 of (s, st2) \<Rightarrow> (- s, st2))
      else if depth = 0 then (Evaluate p (fTurn p), st1)
      else let st2 = (if fNodes st1 mod 1024 = 0 \<and> late (fNodes st1)
                      then st1\<lparr>fStop := True\<rparr> else st1) in
        if fStop st2 then (alpha, st2)
        else negamax_moves late p (depth - 1) (Order moves) (- kInfinity) alpha beta st2)"
| "negamax_moves late p d [] best alpha beta st = (best, st)"
| "negamax_moves late p d (m # ms) best alpha beta st =
     (if fStop st then (best, st)
      else let q = snd (Play p m) in
        case (if fTurn q = fTurn p then Negamax late q d alpha beta st
              else case Negamax late q d (- beta) (- alpha) st of (s, st') \<Rightarrow> (- s, st')) of
          (score, st') \<Rightarrow>
            let best' = (if score > best then score else best);
                alpha' = (if best' > alpha then best' else alpha)
            in if alpha' \<ge> beta then (best', st')
               else negamax_moves late p d ms best' alpha' beta st')"
  by pat_completeness auto
termination
  by (relation "measures [
      \<lambda>x. case x of Inl (late, p, depth, _) \<Rightarrow> 2 * depth + 1 | Inr (late, p, d, _) \<Rightarrow> 2 * d + 2,
      \<lambda>x. case x of Inl (late, p, depth, _) \<Rightarrow> (if LegalMoves p (fTurn p) = [] then 1 else 0)
        | Inr _ \<Rightarrow> 0,
      \<lambda>x. case x of Inl _ \<Rightarrow> 0 | Inr (late, p, d, ms, _) \<Rightarrow> length ms]")
    (auto simp: PassTurn_def)

declare Negamax.simps [simp del] negamax_moves.simps(2) [simp del]

datatype level = kEasy | kMedium | kHard | kExpert

record search_result =
  res_square :: int
  res_score :: int
  res_depth :: nat
  res_nodes :: nat

definition no_result :: search_result where
  "no_result = \<lparr>res_square = -1, res_score = 0, res_depth = 0, res_nodes = 0\<rparr>"

text \<open>The depth the level looks ahead, or the whole ending when little is left.\<close>

definition max_depth :: "level \<Rightarrow> nat \<Rightarrow> nat" where
  "max_depth level empties =
     (if level = kExpert \<and> empties \<le> 14 then empties
      else if level = kHard \<and> empties \<le> 10 then empties
      else case level of kMedium \<Rightarrow> 1 | kHard \<Rightarrow> 4 | _ \<Rightarrow> 9)"

text \<open>The loop over the root moves of one depth; it breaks as soon as the search was stopped.\<close>

fun root_moves :: "(nat \<Rightarrow> bool) \<Rightarrow> position \<Rightarrow> nat \<Rightarrow> nat list \<Rightarrow> nat \<times> int \<Rightarrow> search_state
    \<Rightarrow> (nat \<times> int) \<times> search_state" where
  "root_moves late p d [] best st = (best, st)"
| "root_moves late p d (m # ms) best st =
     (let q = snd (Play p m) in
      case (if fTurn q = fTurn p then Negamax late q d (- kInfinity) kInfinity st
            else case Negamax late q d (- kInfinity) (- snd best) st of (s, st') \<Rightarrow> (- s, st')) of
        (score, st') \<Rightarrow>
          if fStop st' then (best, st')
          else root_moves late p d ms (if score > snd best then (m, score) else best) st')"

text \<open>Iterative deepening: \<open>k\<close> more depths to go, the next is \<open>depth\<close>.\<close>

fun deepen :: "(nat \<Rightarrow> bool) \<Rightarrow> position \<Rightarrow> nat list \<Rightarrow> nat \<Rightarrow> nat \<Rightarrow> search_result \<Rightarrow> search_state
    \<Rightarrow> search_result \<times> search_state" where
  "deepen late p moves depth 0 result st = (result, st)"
| "deepen late p moves depth (Suc k) result st =
     (case root_moves late p (depth - 1) (Order moves) (hd moves, - kInfinity) st of
       ((square, score), st') \<Rightarrow>
         if fStop st' then (result, st')
         else deepen late p moves (Suc depth) k
           \<lparr>res_square = int square, res_score = score, res_depth = depth,
            res_nodes = fNodes st'\<rparr> st')"

text \<open>
  \<open>Think\<close>. Medium has no budget and its deadline is infinite: the clock is never late.
\<close>

definition Think :: "(nat \<Rightarrow> bool) \<Rightarrow> nat \<Rightarrow> position \<Rightarrow> level \<Rightarrow> search_result" where
  "Think late rnd p level =
     (let moves = LegalMoves p (fTurn p); none = no_result\<lparr>res_nodes := 1\<rparr> in
      if level = kEasy then
        if moves = [] then none
        else none\<lparr>res_square := int (moves ! (rnd mod length moves)), res_depth := 1\<rparr>
      else if moves = [] then none
      else let clock = (if level = kMedium then (\<lambda>_. False) else late) in
        case deepen clock p moves 1 (max_depth level (Empties p)) none
               \<lparr>fNodes = 0, fStop = False\<rparr> of
          (result, st) \<Rightarrow> result\<lparr>res_nodes := fNodes st\<rparr>)"

section \<open>Every ending tried\<close>

text \<open>
  \<open>BestFinish\<close>. The recursion ends because a move fills a square and a pass is answered by a
  move; the fuel counts the calls, and \<open>best_finish_total\<close> says how much is enough.
\<close>

fun best_finish :: "nat \<Rightarrow> position \<Rightarrow> int option" where
  "best_finish 0 p = None"
| "best_finish (Suc fuel) p =
     (if Over p then Some (int (fst (Counts p)) - int (snd (Counts p)))
      else let moves = LegalMoves p (fTurn p) in
        if moves = [] then best_finish fuel (PassTurn p)
        else foldl (\<lambda>acc m. case acc of None \<Rightarrow> None
              | Some best \<Rightarrow> (case best_finish fuel (snd (Play p m)) of None \<Rightarrow> None
                | Some diff \<Rightarrow> Some (if (if fTurn p = kBlack then diff > best else diff < best)
                    then diff else best)))
            (Some (if fTurn p = kBlack then -100 else 100)) moves)"

section \<open>Move ordering\<close>

definition untaken :: "nat list \<Rightarrow> bool list \<Rightarrow> nat list" where
  "untaken moves taken = List.map (\<lambda>j. moves ! j) (filter (\<lambda>j. \<not> taken ! j) [0..<length moves])"

lemma pick_best_prefix:
  assumes "n \<le> length moves"
  shows "case foldl (\<lambda>best j. if taken ! j then best
         else case best of None \<Rightarrow> Some j
           | Some b \<Rightarrow> if kWeights ! (moves ! j) > kWeights ! (moves ! b) then Some j else best)
       None [0..<n] of
      None \<Rightarrow> (\<forall>j<n. taken ! j)
    | Some b \<Rightarrow> b < n \<and> \<not> taken ! b
        \<and> (\<forall>j<n. \<not> taken ! j \<longrightarrow> kWeights ! (moves ! j) \<le> kWeights ! (moves ! b))"
  using assms
proof (induction n)
  case 0
  then show ?case by simp
next
  case (Suc n)
  then show ?case by (auto simp: less_Suc_eq split: option.splits if_splits)
qed

lemma pick_best:
  "case pick_best moves taken of
      None \<Rightarrow> untaken moves taken = []
    | Some b \<Rightarrow> b < length moves \<and> \<not> taken ! b
        \<and> (\<forall>m \<in> set (untaken moves taken). kWeights ! m \<le> kWeights ! (moves ! b))"
  using pick_best_prefix [of "length moves" moves taken]
  unfolding pick_best_def untaken_def by (auto simp: filter_empty_conv split: option.splits)

lemma mset_filter_neq:
  "distinct xs \<Longrightarrow> b \<in> set xs \<Longrightarrow> mset xs = add_mset b (mset (filter (\<lambda>j. j \<noteq> b) xs))"
proof (induction xs)
  case Nil
  then show ?case by simp
next
  case (Cons x xs)
  show ?case
  proof (cases "x = b")
    case True
    with Cons.prems have "filter (\<lambda>j. j \<noteq> b) xs = xs" by (auto simp: filter_id_conv)
    with True show ?thesis by simp
  next
    case False
    with Cons show ?thesis by simp
  qed
qed

lemma mset_untaken_update:
  assumes "b < length moves" and "\<not> taken ! b" and "length taken = length moves"
  shows "mset (untaken moves taken) = add_mset (moves ! b) (mset (untaken moves (taken[b := True])))"
proof -
  let ?P = "\<lambda>t j. \<not> t ! j"
  have "filter (?P (taken[b := True])) [0..<length moves]
      = filter (\<lambda>j. j \<noteq> b) (filter (?P taken) [0..<length moves])"
    using assms by (auto simp: nth_list_update intro!: filter_cong)
  moreover have "mset (filter (?P taken) [0..<length moves])
      = add_mset b (mset (filter (\<lambda>j. j \<noteq> b) (filter (?P taken) [0..<length moves])))"
    using assms by (intro mset_filter_neq) simp_all
  ultimately show ?thesis by (simp only: untaken_def mset_map image_mset_add_mset)
qed

lemma order_loop:
  assumes "length taken = length moves" and "n = length (untaken moves taken)"
  shows "mset (order_loop moves taken n) = mset (untaken moves taken)
    \<and> sorted_wrt (\<lambda>a b. kWeights ! a \<ge> kWeights ! b) (order_loop moves taken n)"
  using assms
proof (induction n arbitrary: taken)
  case 0
  then show ?case by simp
next
  case (Suc n)
  then obtain b where b: "pick_best moves taken = Some b" "b < length moves" "\<not> taken ! b"
      "\<forall>m \<in> set (untaken moves taken). kWeights ! m \<le> kWeights ! (moves ! b)"
    using pick_best [of moves taken] by (cases "pick_best moves taken") auto
  let ?t = "taken[b := True]"
  have m: "mset (untaken moves taken) = add_mset (moves ! b) (mset (untaken moves ?t))"
    by (rule mset_untaken_update) (use b Suc.prems in auto)
  then have "size (mset (untaken moves taken)) = Suc (size (mset (untaken moves ?t)))" by simp
  then have "n = length (untaken moves ?t)" using Suc.prems by simp
  then have IH: "mset (order_loop moves ?t n) = mset (untaken moves ?t)"
    "sorted_wrt (\<lambda>a b. kWeights ! a \<ge> kWeights ! b) (order_loop moves ?t n)"
    using Suc.IH [of ?t] Suc.prems by auto
  have "set (order_loop moves ?t n) \<subseteq> set (untaken moves taken)"
    using IH(1) m by (metis mset_eq_setD set_mset_mset set_mset_add_mset_insert subset_insertI)
  then show ?case using IH m b by auto
qed

lemma untaken_all: "untaken moves (replicate (length moves) False) = moves"
proof -
  have "filter (\<lambda>j. \<not> replicate (length moves) False ! j) [0..<length moves] = [0..<length moves]"
    by (rule filter_True) simp
  then show ?thesis by (simp add: untaken_def map_nth)
qed

lemma mset_Order [simp]: "mset (Order moves) = mset moves"
  using order_loop [of "replicate (length moves) False" moves "length moves"]
  by (simp add: Order_def untaken_all)

lemma set_Order [simp]: "set (Order moves) = set moves"
  using mset_Order mset_eq_setD by blast

lemma Order_sorted: "sorted_wrt (\<lambda>a b. kWeights ! a \<ge> kWeights ! b) (Order moves)"
  using order_loop [of "replicate (length moves) False" moves "length moves"]
  by (simp add: Order_def untaken_all)

section \<open>The value the search computes\<close>

text \<open>
  The reference: plain minimax without a window, without move ordering and without a clock. A
  pass costs no depth, and where the other side had to pass the value does not change sign.
\<close>

function game_value :: "position \<Rightarrow> nat \<Rightarrow> int" where
  "game_value p depth =
     (let moves = LegalMoves p (fTurn p) in
      if moves = [] then
        if LegalMoves p (opponent (fTurn p)) = [] then terminal_score p
        else if depth = 0 then Evaluate p (fTurn p)
        else - game_value (PassTurn p) depth
      else if depth = 0 then Evaluate p (fTurn p)
      else Max (set (List.map (\<lambda>m. let q = snd (Play p m) in
          if fTurn q = fTurn p then game_value q (depth - 1) else - game_value q (depth - 1)) moves)))"
  by pat_completeness auto
termination
  by (relation "measures [snd, \<lambda>(p, _). if LegalMoves p (fTurn p) = [] then 1 else 0]")
    (auto simp: PassTurn_def)

declare game_value.simps [simp del]

definition child_value :: "position \<Rightarrow> nat \<Rightarrow> nat \<Rightarrow> int" where
  "child_value p d m = (let q = snd (Play p m) in
     if fTurn q = fTurn p then game_value q d else - game_value q d)"

lemma game_value_moves:
  assumes "LegalMoves p (fTurn p) \<noteq> []"
  shows "game_value p (Suc d) = Max (child_value p d ` set (LegalMoves p (fTurn p)))"
  using assms by (subst game_value.simps) (simp add: child_value_def [abs_def] cong: if_cong)

subsection \<open>Scores stay below the search's infinity\<close>

lemma kWeights_bound: "i < 64 \<Longrightarrow> \<bar>kWeights ! i\<bar> \<le> 120"
proof -
  have "\<forall>i \<in> set [0..<64]. \<bar>kWeights ! i\<bar> \<le> 120" by code_simp
  then show "i < 64 \<Longrightarrow> \<bar>kWeights ! i\<bar> \<le> 120" by auto
qed

lemma eval_cells_bound:
  assumes "\<forall>i \<in> set is. i < 64" and "eval_cells cells is w d = (w', d')"
  shows "\<bar>fst w' - fst w\<bar> \<le> 120 * int (length is) \<and> \<bar>snd w' - snd w\<bar> \<le> 120 * int (length is)
    \<and> fst d \<le> fst d' \<and> snd d \<le> snd d'
    \<and> fst d' + snd d' \<le> fst d + snd d + int (length is)"
  using assms
proof (induction "is" arbitrary: w d)
  case Nil
  then show ?case by simp
next
  case (Cons i ixs)
  have "\<bar>kWeights ! i\<bar> \<le> 120" using Cons.prems(1) by (simp add: kWeights_bound)
  with Cons.prems show ?case
    by (auto simp: Let_def split: disc.splits if_splits dest!: Cons.IH [rotated])
qed

lemma length_LegalMoves: "length (LegalMoves p side) \<le> 64"
  using length_filter_le [of "\<lambda>i. FlipsFor p side i \<noteq> 0" "[0..<64]"] by (simp add: LegalMoves_def)

lemma Evaluate_bound: "\<bar>Evaluate p side\<bar> < 20000"
proof -
  obtain w d where e: "eval_cells (fCells p) [0..<64] (0, 0) (0, 0) = (w, d)"
    by (cases "eval_cells (fCells p) [0..<64] (0, 0) (0, 0)") blast
  have b: "\<bar>fst w\<bar> \<le> 7680" "\<bar>snd w\<bar> \<le> 7680" "0 \<le> fst d" "0 \<le> snd d" "fst d + snd d \<le> 64"
    using eval_cells_bound [OF _ e] by auto
  then have "\<bar>of_side side w - of_side (opponent side) w\<bar> \<le> 15360"
    "\<bar>of_side side d - of_side (opponent side) d\<bar> \<le> 64"
    by (auto simp: of_side_def)
  moreover have "\<bar>int (length (LegalMoves p side)) - int (length (LegalMoves p (opponent side)))\<bar> \<le> 64"
    using length_LegalMoves [of p side] length_LegalMoves [of p "opponent side"] by simp
  ultimately show ?thesis unfolding Evaluate_def e Let_def prod.case
      abs_le_iff abs_less_iff by (auto split: if_split)
qed

lemma Counts_bound:
  assumes "Counts p = (black, white)" and "length (fCells p) = 64"
  shows "black \<le> 64 \<and> white \<le> 64"
  using assms length_filter_le [of _ "fCells p"] by (auto simp: Counts_def)

lemma terminal_score_bound:
  assumes "length (fCells p) = 64"
  shows "\<bar>terminal_score p\<bar> < kInfinity"
proof -
  obtain black white where c: "Counts p = (black, white)" by fastforce
  from Counts_bound [OF c assms] show ?thesis
    by (auto simp: terminal_score_def c kInfinity_def Let_def)
qed

lemma wf_length [simp]: "wf_position p \<Longrightarrow> length (fCells p) = 64"
  by (simp add: wf_position_def)

lemma wf_PassTurn [wf_rules]: "wf_position p \<Longrightarrow> wf_position (PassTurn p)"
  by (simp add: wf_position_def PassTurn_def)

lemma wf_child:
  "wf_position p \<Longrightarrow> m \<in> set (LegalMoves p (fTurn p)) \<Longrightarrow> wf_position (snd (Play p m))"
  by (simp add: wf_Play LegalMoves_iff)

lemma game_value_bound: "wf_position p \<Longrightarrow> \<bar>game_value p depth\<bar> < kInfinity"
proof (induction p depth rule: game_value.induct)
  case (1 p depth)
  have e: "\<bar>Evaluate p (fTurn p)\<bar> < kInfinity"
    using Evaluate_bound [of p "fTurn p"] by (simp add: kInfinity_def)
  show ?case
  proof (cases "LegalMoves p (fTurn p) = []")
    case True
    with 1 e show ?thesis
      by (subst game_value.simps) (simp add: terminal_score_bound wf_PassTurn)
  next
    case moves: False
    show ?thesis
    proof (cases depth)
      case 0
      with moves e show ?thesis by (subst game_value.simps) simp
    next
      case (Suc d)
      have "\<bar>child_value p d m\<bar> < kInfinity" if "m \<in> set (LegalMoves p (fTurn p))" for m
        using "1.IH"(2,3) [OF refl moves _ that refl] "1.prems" that Suc
        by (auto simp: child_value_def Let_def wf_child)
      moreover have "Max (child_value p d ` set (LegalMoves p (fTurn p)))
          \<in> child_value p d ` set (LegalMoves p (fTurn p))"
        using moves by (intro Max_in) auto
      then obtain m where "m \<in> set (LegalMoves p (fTurn p))"
        "Max (child_value p d ` set (LegalMoves p (fTurn p))) = child_value p d m" by blast
      ultimately show ?thesis using Suc by (simp add: game_value_moves [OF moves])
    qed
  qed
qed

lemma child_value_bound:
  "wf_position p \<Longrightarrow> m \<in> set (LegalMoves p (fTurn p)) \<Longrightarrow> \<bar>child_value p d m\<bar> < kInfinity"
  using game_value_bound [OF wf_child] by (auto simp: child_value_def Let_def)

section \<open>Alpha-beta computes the value\<close>

text \<open>
  What a fail-soft result \<open>s\<close> for the window \<open>(alpha, beta)\<close> says of the true value \<open>v\<close>: an
  upper bound below the window, a lower bound above it, the value itself inside.
\<close>

definition brackets :: "int \<Rightarrow> int \<Rightarrow> int \<Rightarrow> int \<Rightarrow> bool" where
  "brackets alpha beta s v \<longleftrightarrow> (s \<le> alpha \<longrightarrow> v \<le> s) \<and> (alpha < s \<and> s < beta \<longrightarrow> v = s)
     \<and> (beta \<le> s \<longrightarrow> s \<le> v)"

lemma brackets_refl [simp]: "brackets alpha beta v v"
  by (simp add: brackets_def)

lemma brackets_neg: "brackets (- beta) (- alpha) s v \<Longrightarrow> brackets alpha beta (- s) (- v)"
  by (auto simp: brackets_def)

definition brackets_max :: "int \<Rightarrow> int \<Rightarrow> int \<Rightarrow> int set \<Rightarrow> bool" where
  "brackets_max alpha beta s V \<longleftrightarrow> (s < beta \<longrightarrow> (\<forall>v \<in> V. v \<le> s))
     \<and> (alpha < s \<and> s < beta \<longrightarrow> s \<in> V) \<and> (beta \<le> s \<longrightarrow> (\<exists>v \<in> V. s \<le> v))"

lemma brackets_max_Max:
  assumes "brackets_max alpha beta s V" and "finite V" and "V \<noteq> {}" and "alpha < beta"
  shows "brackets alpha beta s (Max V)"
  using assms unfolding brackets_max_def brackets_def
  by (auto intro: Max_eqI simp: Max_ge_iff)

text \<open>
  One step of the loop: the score of the first move against the window as it stands, then the
  result of the rest against the raised window.
\<close>

lemma brackets_max_cut:
  assumes "brackets alpha beta score v" and "beta \<le> max best score" and "best \<le> alpha" and "alpha < beta"
  shows "brackets_max alpha beta (max best score) (insert v V)"
  using assms by (auto simp: brackets_max_def brackets_def max_def split: if_splits)

lemma brackets_max_step:
  assumes "brackets alpha beta score v" and "best \<le> alpha" and "alpha < beta"
    and "brackets_max (max alpha score) beta s V" and "max best score \<le> s" and "max alpha score < beta"
  shows "brackets_max alpha beta s (insert v V)"
  using assms by (auto simp: brackets_max_def brackets_def max_def split: if_splits)

lemma stop_stays:
  "fStop st \<Longrightarrow> fStop (snd (Negamax late p depth alpha beta st))"
  "fStop st \<Longrightarrow> fStop (snd (negamax_moves late p d ms best alpha beta st))"
proof (induction late p depth alpha beta st and late p d ms best alpha beta st
    rule: Negamax_negamax_moves.induct)
  case (1 late p depth alpha beta st)
  then show ?case
    by (subst Negamax.simps) (auto simp: Let_def split: prod.splits)
next
  case (2 late p d best alpha beta st)
  then show ?case by simp
next
  case (3 late p d m ms best alpha beta st)
  then show ?case by (simp add: negamax_moves.simps(2))
qed

lemma negamax_moves_best_le:
  "best \<le> fst (negamax_moves late p d ms best alpha beta st)"
proof (induction ms arbitrary: best alpha st)
  case Nil
  then show ?case by simp
next
  case (Cons m ms)
  show ?case
    by (subst negamax_moves.simps(2))
      (auto simp: Let_def split: prod.splits intro: order_trans [OF _ Cons.IH] dest!: eq_fst_iff [THEN iffD1])
qed

text \<open>The score a move gets, whichever side moves next.\<close>

definition child_score :: "(nat \<Rightarrow> bool) \<Rightarrow> position \<Rightarrow> nat \<Rightarrow> nat \<Rightarrow> int \<Rightarrow> int \<Rightarrow> search_state
    \<Rightarrow> int \<times> search_state" where
  "child_score late p d m alpha beta st =
     (let q = snd (Play p m) in
      if fTurn q = fTurn p then Negamax late q d alpha beta st
      else case Negamax late q d (- beta) (- alpha) st of (s, st') \<Rightarrow> (- s, st'))"

lemma negamax_moves_Cons:
  "negamax_moves late p d (m # ms) best alpha beta st =
     (if fStop st then (best, st)
      else case child_score late p d m alpha beta st of
        (score, st') \<Rightarrow>
          if beta \<le> max alpha (max best score) then (max best score, st')
          else negamax_moves late p d ms (max best score) (max alpha (max best score)) beta st')"
proof (cases "child_score late p d m alpha beta st")
  case (Pair score st')
  have max: "(if score > best then score else best) = max best score"
    "(if max best score > alpha then max best score else alpha) = max alpha (max best score)"
    by (simp_all add: max_def)
  from Pair show ?thesis
    unfolding negamax_moves.simps(2) child_score_def Let_def by (simp only: prod.case max)
qed

lemma child_score_brackets:
  assumes same: "fTurn (snd (Play p m)) = fTurn p
      \<Longrightarrow> \<not> fStop (snd (Negamax late (snd (Play p m)) d alpha beta st))
      \<Longrightarrow> brackets alpha beta (fst (Negamax late (snd (Play p m)) d alpha beta st))
            (game_value (snd (Play p m)) d)"
    and other: "fTurn (snd (Play p m)) \<noteq> fTurn p
      \<Longrightarrow> \<not> fStop (snd (Negamax late (snd (Play p m)) d (- beta) (- alpha) st))
      \<Longrightarrow> brackets (- beta) (- alpha) (fst (Negamax late (snd (Play p m)) d (- beta) (- alpha) st))
            (game_value (snd (Play p m)) d)"
    and score: "child_score late p d m alpha beta st = (score, st')" "\<not> fStop st'"
  shows "brackets alpha beta score (child_value p d m)"
proof (cases "fTurn (snd (Play p m)) = fTurn p")
  case True
  with score have "Negamax late (snd (Play p m)) d alpha beta st = (score, st')"
    by (simp add: child_score_def)
  with same score(2) True show ?thesis by (simp add: child_value_def)
next
  case False
  with score obtain s where "Negamax late (snd (Play p m)) d (- beta) (- alpha) st = (s, st')"
    "score = - s"
    by (auto simp: child_score_def Let_def split: prod.splits)
  with other score(2) False show ?thesis
    by (auto simp: child_value_def intro: brackets_neg)
qed

lemma fStop_child_score:
  "fStop st \<Longrightarrow> child_score late p d m alpha beta st = (score, st') \<Longrightarrow> fStop st'"
  using stop_stays(1) [of st late "snd (Play p m)" d alpha beta]
    stop_stays(1) [of st late "snd (Play p m)" d "- beta" "- alpha"]
  by (auto simp: child_score_def Let_def split: if_splits prod.splits)

lemma Negamax_brackets:
  "wf_position p \<Longrightarrow> - kInfinity \<le> alpha \<Longrightarrow> alpha < beta \<Longrightarrow> beta \<le> kInfinity
    \<Longrightarrow> \<not> fStop (snd (Negamax late p depth alpha beta st))
    \<Longrightarrow> brackets alpha beta (fst (Negamax late p depth alpha beta st)) (game_value p depth)"
  "wf_position p \<Longrightarrow> set ms \<subseteq> set (LegalMoves p (fTurn p)) \<Longrightarrow> best \<le> alpha
    \<Longrightarrow> - kInfinity \<le> alpha \<Longrightarrow> alpha < beta \<Longrightarrow> beta \<le> kInfinity
    \<Longrightarrow> \<not> fStop (snd (negamax_moves late p d ms best alpha beta st))
    \<Longrightarrow> brackets_max alpha beta (fst (negamax_moves late p d ms best alpha beta st))
          (child_value p d ` set ms)"
proof (induction late p depth alpha beta st and late p d ms best alpha beta st
    rule: Negamax_negamax_moves.induct)
  case (1 late p depth alpha beta st)
  let ?st1 = "st\<lparr>fNodes := Suc (fNodes st)\<rparr>"
  let ?moves = "LegalMoves p (fTurn p)"
  consider (over) "?moves = []" "LegalMoves p (opponent (fTurn p)) = []"
    | (leaf) "depth = 0" "?moves \<noteq> [] \<or> LegalMoves p (opponent (fTurn p)) \<noteq> []"
    | (pass) "?moves = []" "LegalMoves p (opponent (fTurn p)) \<noteq> []" "depth \<noteq> 0"
    | (inner) "?moves \<noteq> []" "depth \<noteq> 0" by blast
  then show ?case
  proof cases
    case over
    then show ?thesis by (simp add: Negamax.simps game_value.simps [of p] Let_def)
  next
    case leaf
    then show ?thesis by (simp add: Negamax.simps game_value.simps [of p] Let_def)
  next
    case pass
    obtain s st2 where r: "Negamax late (PassTurn p) depth (- beta) (- alpha) ?st1 = (s, st2)"
      by (cases "Negamax late (PassTurn p) depth (- beta) (- alpha) ?st1") blast
    have eq: "Negamax late p depth alpha beta st = (- s, st2)"
      using pass by (subst Negamax.simps) (simp add: r)
    have "brackets (- beta) (- alpha) s (game_value (PassTurn p) depth)"
      using "1.IH"(1) [OF refl refl pass] "1.prems" r eq by (simp add: wf_PassTurn)
    then have "brackets alpha beta (- s) (- game_value (PassTurn p) depth)"
      by (rule brackets_neg)
    then show ?thesis using pass eq by (simp add: game_value.simps [of p])
  next
    case inner
    then obtain d where d: "depth = Suc d" by (cases depth) auto
    define st2 where "st2 = (if fNodes ?st1 mod 1024 = 0 \<and> late (fNodes ?st1)
        then ?st1\<lparr>fStop := True\<rparr> else ?st1)"
    have eq: "Negamax late p depth alpha beta st = (if fStop st2 then (alpha, st2)
        else negamax_moves late p d (Order ?moves) (- kInfinity) alpha beta st2)"
      using inner d by (subst Negamax.simps) (simp add: st2_def)
    then have run: "\<not> fStop st2" using "1.prems" by (auto split: if_splits)
    have "brackets_max alpha beta (fst (Negamax late p depth alpha beta st))
        (child_value p d ` set (Order ?moves))"
      using "1.IH"(2) [OF refl refl inner st2_def run] "1.prems" eq run d by simp
    then have "brackets alpha beta (fst (Negamax late p depth alpha beta st))
        (Max (child_value p d ` set ?moves))"
      using inner "1.prems" by (intro brackets_max_Max) auto
    then show ?thesis by (simp add: d game_value_moves [OF inner(1)])
  qed
next
  case (2 late p d best alpha beta st)
  then show ?case by (simp add: brackets_max_def)
next
  case (3 late p d m ms best alpha beta st)
  from "3.prems" have run: "\<not> fStop st" by (auto simp: negamax_moves_Cons)
  obtain score st' where sc: "child_score late p d m alpha beta st = (score, st')"
    by (cases "child_score late p d m alpha beta st") blast
  have wf: "wf_position (snd (Play p m))"
    using "3.prems" by (intro wf_child) auto
  let ?b = "max best score" and ?a = "max alpha (max best score)"
  have eq: "negamax_moves late p d (m # ms) best alpha beta st =
      (if beta \<le> ?a then (?b, st') else negamax_moves late p d ms ?b ?a beta st')"
    using run sc by (simp add: negamax_moves_Cons)
  then have run': "\<not> fStop st'"
    using "3.prems"(7) stop_stays(2) by (auto split: if_splits)
  have br: "brackets alpha beta score (child_value p d m)"
  proof (rule child_score_brackets [OF _ _ sc run'])
    show "brackets alpha beta (fst (Negamax late (snd (Play p m)) d alpha beta st))
        (game_value (snd (Play p m)) d)"
      if "fTurn (snd (Play p m)) = fTurn p"
        "\<not> fStop (snd (Negamax late (snd (Play p m)) d alpha beta st))"
      using "3.IH"(1) [OF run refl that(1) wf] "3.prems" that by simp
    show "brackets (- beta) (- alpha) (fst (Negamax late (snd (Play p m)) d (- beta) (- alpha) st))
        (game_value (snd (Play p m)) d)"
      if "fTurn (snd (Play p m)) \<noteq> fTurn p"
        "\<not> fStop (snd (Negamax late (snd (Play p m)) d (- beta) (- alpha) st))"
      using "3.IH"(2) [OF run refl that(1) wf] "3.prems" that by simp
  qed
  show ?case
  proof (cases "beta \<le> ?a")
    case True
    then have "beta \<le> ?b" using "3.prems" by linarith
    from brackets_max_cut [OF br this "3.prems"(3,5), of "child_value p d ` set ms"] True
    show ?thesis by (simp add: eq)
  next
    case False
    have b_if: "?b = (if best < score then score else best)"
      and a_if: "?a = (if alpha < ?b then ?b else alpha)" by (simp_all add: max_def)
    note wf_p = "3.prems"(1)
    have am: "?a = max alpha score" using "3.prems" by linarith
    have rest: "brackets_max ?a beta (fst (negamax_moves late p d ms ?b ?a beta st'))
        (child_value p d ` set ms)"
      using "3.IH"(3) [OF run refl sc [symmetric, unfolded child_score_def Let_def] b_if a_if False wf_p]
        "3.prems" False run' eq by simp
    show ?thesis
      unfolding eq using False am br rest "3.prems" negamax_moves_best_le [of ?b late p d ms ?a beta st']
      by (auto intro!: brackets_max_step [of alpha beta score _ best])
  qed
qed

section \<open>What the machine answers\<close>

lemma root_moves_Cons:
  "root_moves late p d (m # ms) best st =
     (case child_score late p d m (if fTurn (snd (Play p m)) = fTurn p then - kInfinity else snd best)
             kInfinity st of
        (score, st') \<Rightarrow> if fStop st' then (best, st')
          else root_moves late p d ms (if score > snd best then (m, score) else best) st')"
  by (simp add: child_score_def Let_def)

declare root_moves.simps(2) [simp del]

lemma fStop_root_moves: "fStop st \<Longrightarrow> fStop (snd (root_moves late p d ms best st))"
proof (induction ms)
  case Nil
  then show ?case by simp
next
  case (Cons m ms)
  then show ?case
    by (auto simp: root_moves_Cons split: prod.splits dest: fStop_child_score)
qed

text \<open>A completed loop over the root moves ends with the best of them.\<close>

definition best_so_far :: "position \<Rightarrow> nat \<Rightarrow> nat set \<Rightarrow> nat \<times> int \<Rightarrow> nat \<times> int \<Rightarrow> bool" where
  "best_so_far p d M best best' \<longleftrightarrow> snd best \<le> snd best' \<and> snd best' < kInfinity
     \<and> (\<forall>m \<in> M. child_value p d m \<le> snd best')
     \<and> (best' = best \<or> fst best' \<in> M \<and> child_value p d (fst best') = snd best')"

lemma root_score:
  assumes "wf_position p" and "m \<in> set (LegalMoves p (fTurn p))"
    and "- kInfinity \<le> sc" and "sc < kInfinity"
    and "child_score late p d m (if fTurn (snd (Play p m)) = fTurn p then - kInfinity else sc) kInfinity st
          = (score, st')"
    and "\<not> fStop st'"
  shows "if score > sc then score = child_value p d m else child_value p d m \<le> sc"
proof -
  let ?a = "if fTurn (snd (Play p m)) = fTurn p then - kInfinity else sc"
  note wf = wf_child [OF assms(1,2)]
  have "brackets ?a kInfinity score (child_value p d m)"
    using assms(3,4,6)
    by (intro child_score_brackets [OF _ _ assms(5,6)] Negamax_brackets(1) wf) auto
  then show ?thesis
    using child_value_bound [OF assms(1,2), of d] assms(3)
    by (auto simp: brackets_def split: if_splits)
qed

lemma root_moves_best:
  assumes "wf_position p" and "set ms \<subseteq> set (LegalMoves p (fTurn p))"
    and "- kInfinity \<le> snd best" and "snd best < kInfinity"
    and "\<not> fStop (snd (root_moves late p d ms best st))"
  shows "best_so_far p d (set ms) best (fst (root_moves late p d ms best st))"
  using assms
proof (induction ms arbitrary: best st)
  case Nil
  then show ?case by (simp add: best_so_far_def)
next
  case (Cons m ms)
  obtain score st' where sc: "child_score late p d m
      (if fTurn (snd (Play p m)) = fTurn p then - kInfinity else snd best) kInfinity st = (score, st')"
    by (meson surj_pair)
  let ?best = "if score > snd best then (m, score) else best"
  from Cons.prems(5) sc have run: "\<not> fStop st'"
    and rest: "\<not> fStop (snd (root_moves late p d ms ?best st'))"
    and eq: "root_moves late p d (m # ms) best st = root_moves late p d ms ?best st'"
    by (auto simp: root_moves_Cons split: if_splits)
  have m: "m \<in> set (LegalMoves p (fTurn p))" using Cons.prems(2) by simp
  note s = root_score [OF Cons.prems(1) m Cons.prems(3,4) sc run]
  have "best_so_far p d (set ms) ?best (fst (root_moves late p d ms ?best st'))"
    using s Cons.prems rest child_value_bound [OF Cons.prems(1) m, of d]
    by (intro Cons.IH) (auto split: if_splits)
  then show ?case
    unfolding eq best_so_far_def using s by (auto split: if_splits)
qed

lemma Negamax_leaf_fStop: "fStop (snd (Negamax late p 0 alpha beta st)) = fStop st"
  by (subst Negamax.simps) (simp add: Let_def)

lemma child_score_leaf_fStop:
  "child_score late p 0 m alpha beta st = (score, st') \<Longrightarrow> fStop st' = fStop st"
  using Negamax_leaf_fStop [of late "snd (Play p m)" alpha beta st]
    Negamax_leaf_fStop [of late "snd (Play p m)" "- beta" "- alpha" st]
  by (auto simp: child_score_def Let_def split: if_splits prod.splits)

lemma root_moves_leaf_fStop: "\<not> fStop st \<Longrightarrow> \<not> fStop (snd (root_moves late p 0 ms best st))"
  by (induction ms arbitrary: best st)
    (auto simp: root_moves_Cons split: prod.splits dest: child_score_leaf_fStop)

text \<open>The answer of a completed depth.\<close>

definition completed :: "position \<Rightarrow> search_result \<Rightarrow> bool" where
  "completed p r \<longleftrightarrow> 1 \<le> res_depth r
     \<and> (\<exists>m \<in> set (LegalMoves p (fTurn p)). res_square r = int m
          \<and> child_value p (res_depth r - 1) m = res_score r)
     \<and> (\<forall>m \<in> set (LegalMoves p (fTurn p)). child_value p (res_depth r - 1) m \<le> res_score r)"

lemma completed_root:
  assumes "wf_position p" and moves: "LegalMoves p (fTurn p) = moves" "moves \<noteq> []"
    and "root_moves late p d (Order moves) (hd moves, - kInfinity) st = ((square, score), st')"
    and "\<not> fStop st'"
  shows "completed p \<lparr>res_square = int square, res_score = score, res_depth = Suc d, res_nodes = n\<rparr>"
proof -
  have "best_so_far p d (set (Order moves)) (hd moves, - kInfinity) (square, score)"
    using root_moves_best [OF assms(1), of "Order moves" "(hd moves, - kInfinity)" late d st] assms
    by (simp add: kInfinity_def)
  moreover have "- kInfinity < child_value p d (hd moves)"
    using child_value_bound [OF assms(1), of "hd moves" d] moves by auto
  moreover have "hd moves \<in> set (Order moves)" using moves(2) by simp
  ultimately have "square \<in> set moves \<and> child_value p d square = score"
    "\<forall>m \<in> set moves. child_value p d m \<le> score"
    by (fastforce simp: best_so_far_def)+
  then show ?thesis using moves(1) by (simp add: completed_def)
qed

lemma deepen_completed:
  assumes "wf_position p" and "LegalMoves p (fTurn p) = moves" "moves \<noteq> []"
    and "1 \<le> depth" and "completed p result"
  shows "completed p (fst (deepen late p moves depth k result st))"
  using assms(4,5)
proof (induction k arbitrary: depth result st)
  case 0
  then show ?case by simp
next
  case (Suc k)
  obtain square score st' where r:
    "root_moves late p (depth - 1) (Order moves) (hd moves, - kInfinity) st = ((square, score), st')"
    by (metis prod.exhaust)
  show ?case
  proof (cases "fStop st'")
    case True
    with Suc.prems r show ?thesis by simp
  next
    case False
    have "completed p \<lparr>res_square = int square, res_score = score, res_depth = depth, res_nodes = fNodes st'\<rparr>"
      using completed_root [OF assms(1-3) r False] Suc.prems(1) by simp
    then show ?thesis using Suc.IH Suc.prems r False by simp
  qed
qed

lemma deepen_first:
  assumes "wf_position p" and "LegalMoves p (fTurn p) = moves" "moves \<noteq> []"
    and "1 \<le> k" and "\<not> fStop st"
  shows "completed p (fst (deepen late p moves 1 k result st))"
proof -
  obtain k' where k: "k = Suc k'" using assms(4) by (cases k) auto
  obtain square score st' where r:
    "root_moves late p 0 (Order moves) (hd moves, - kInfinity) st = ((square, score), st')"
    by (metis prod.exhaust)
  have run: "\<not> fStop st'" using root_moves_leaf_fStop [OF assms(5)] r by (metis snd_conv)
  have "completed p \<lparr>res_square = int square, res_score = score, res_depth = 1, res_nodes = fNodes st'\<rparr>"
    using completed_root [OF assms(1-3) r run] by simp
  from deepen_completed [OF assms(1-3) _ this] show ?thesis
    by (simp add: k r run)
qed

lemma max_depth_pos: "empties \<noteq> 0 \<Longrightarrow> 1 \<le> max_depth level empties"
  by (cases level) (auto simp: max_depth_def)

lemma completed_nodes [simp]: "completed p (r\<lparr>res_nodes := n\<rparr>) = completed p r"
  by (simp add: completed_def)

lemma Think_completed:
  assumes "wf_position p" and "LegalMoves p (fTurn p) \<noteq> []" and "level \<noteq> kEasy"
  shows "completed p (Think late rnd p level)"
proof -
  have "Empties p \<noteq> 0" using assms LegalMoves_full [of p] by auto
  then have "completed p (fst (deepen (if level = kMedium then (\<lambda>_. False) else late) p
      (LegalMoves p (fTurn p)) 1 (max_depth level (Empties p)) (no_result\<lparr>res_nodes := 1\<rparr>)
      \<lparr>fNodes = 0, fStop = False\<rparr>))"
    using assms by (intro deepen_first) (auto intro: max_depth_pos [unfolded One_nat_def])
  then show ?thesis using assms by (simp add: Think_def Let_def case_prod_unfold)
qed

section \<open>Endings counted out\<close>

definition disc_diff :: "position \<Rightarrow> int" where
  "disc_diff p = int (fst (Counts p)) - int (snd (Counts p))"

definition signed_for :: "disc \<Rightarrow> int \<Rightarrow> int" where
  "signed_for side d = (if side = kBlack then d else - d)"

definition loud :: "int \<Rightarrow> int" where
  "loud d = (if d > 0 then 100000 + d else if d < 0 then -100000 + d else 0)"

lemma loud_mono [simp]: "loud a \<le> loud b \<longleftrightarrow> a \<le> b"
  by (auto simp: loud_def)

lemma loud_neg: "loud (- d) = - loud d"
  by (simp add: loud_def)

lemma signed_for_opponent: "side \<noteq> kEmpty \<Longrightarrow> signed_for (opponent side) d = - signed_for side d"
  by (cases side) (simp_all add: signed_for_def opponent_def)

lemma terminal_score_loud: "terminal_score p = loud (signed_for (fTurn p) (disc_diff p))"
  by (simp add: terminal_score_def loud_def signed_for_def disc_diff_def Let_def case_prod_unfold)

lemma disc_diff_bound: "length (fCells p) = 64 \<Longrightarrow> \<bar>disc_diff p\<bar> \<le> 64"
  using Counts_bound [of p "fst (Counts p)" "snd (Counts p)"] by (auto simp: disc_diff_def abs_le_iff)

text \<open>The loop of \<open>BestFinish\<close>, when every ending below it is known.\<close>

lemma best_finish_loop:
  assumes "\<forall>m \<in> set ms. best_finish fuel (snd (Play p m)) = Some (g m)"
  shows "\<exists>r. foldl (\<lambda>acc m. case acc of None \<Rightarrow> None
              | Some best \<Rightarrow> (case best_finish fuel (snd (Play p m)) of None \<Rightarrow> None
                | Some diff \<Rightarrow> Some (if (if fTurn p = kBlack then diff > best else diff < best)
                    then diff else best))) (Some b) ms = Some r
    \<and> signed_for (fTurn p) b \<le> signed_for (fTurn p) r
    \<and> (\<forall>m \<in> set ms. signed_for (fTurn p) (g m) \<le> signed_for (fTurn p) r)
    \<and> (r = b \<or> (\<exists>m \<in> set ms. r = g m))"
  using assms
proof (induction ms arbitrary: b)
  case Nil
  then show ?case by simp
next
  case (Cons m ms)
  let ?b = "if (if fTurn p = kBlack then g m > b else g m < b) then g m else b"
  have b: "signed_for (fTurn p) b \<le> signed_for (fTurn p) ?b"
    "signed_for (fTurn p) (g m) \<le> signed_for (fTurn p) ?b"
    by (auto simp: signed_for_def)
  from Cons.prems have gm: "best_finish fuel (snd (Play p m)) = Some (g m)"
    and rest: "\<forall>m \<in> set ms. best_finish fuel (snd (Play p m)) = Some (g m)"
    by simp_all
  from Cons.IH [OF rest, of ?b] obtain r where r:
    "foldl (\<lambda>acc m. case acc of None \<Rightarrow> None
              | Some best \<Rightarrow> (case best_finish fuel (snd (Play p m)) of None \<Rightarrow> None
                | Some diff \<Rightarrow> Some (if (if fTurn p = kBlack then diff > best else diff < best)
                    then diff else best))) (Some ?b) ms = Some r"
    "signed_for (fTurn p) ?b \<le> signed_for (fTurn p) r"
    "\<forall>m \<in> set ms. signed_for (fTurn p) (g m) \<le> signed_for (fTurn p) r"
    "r = ?b \<or> (\<exists>m \<in> set ms. r = g m)"
    by blast
  have "r = b \<or> (\<exists>m \<in> set (m # ms). r = g m)"
    using r(4) by (auto split: if_splits)
  with r(1-3) b gm show ?case
    by (intro exI [of _ r]) auto
qed

definition finish_fuel :: "position \<Rightarrow> nat" where
  "finish_fuel p = 2 * Empties p + (if LegalMoves p (fTurn p) = [] then 1 else 0)"

definition finish_value :: "position \<Rightarrow> int \<Rightarrow> bool" where
  "finish_value p b \<longleftrightarrow> \<bar>b\<bar> \<le> 64
     \<and> (\<forall>depth \<ge> Empties p. game_value p depth = loud (signed_for (fTurn p) b))"

lemma finish_child:
  assumes "wf_position p" and "m \<in> set (LegalMoves p (fTurn p))"
  shows "Suc (Empties (snd (Play p m))) = Empties p"
    and "fTurn (snd (Play p m)) = fTurn p \<or> fTurn (snd (Play p m)) = opponent (fTurn p)"
proof -
  have "Play p m = (True, snd (Play p m))" "m < 64"
    using assms by (auto simp: Play_history LegalMoves_iff)
  from Play_turn [OF assms(1) this(2,1)]
  show "Suc (Empties (snd (Play p m))) = Empties p"
    "fTurn (snd (Play p m)) = fTurn p \<or> fTurn (snd (Play p m)) = opponent (fTurn p)"
    by auto
qed

lemma finish_value_moves:
  assumes wf: "wf_position p" and moves: "LegalMoves p (fTurn p) \<noteq> []"
    and sub: "\<forall>m \<in> set (LegalMoves p (fTurn p)). finish_value (snd (Play p m)) (g m)"
    and upper: "\<forall>m \<in> set (LegalMoves p (fTurn p)). signed_for (fTurn p) (g m) \<le> signed_for (fTurn p) r"
    and r: "r = g m0" "m0 \<in> set (LegalMoves p (fTurn p))"
  shows "finish_value p r"
proof -
  have turn: "fTurn p \<noteq> kEmpty" using wf by (simp add: wf_position_def)
  have child: "child_value p d m = loud (signed_for (fTurn p) (g m))"
    if "m \<in> set (LegalMoves p (fTurn p))" "Empties p \<le> Suc d" for d m
    using sub that finish_child [OF wf that(1)] turn
    by (auto simp: child_value_def finish_value_def Let_def signed_for_opponent loud_neg)
  have "game_value p depth = loud (signed_for (fTurn p) r)" if "Empties p \<le> depth" for depth
  proof -
    from finish_child(1) [OF wf r(2)] that obtain d where d: "depth = Suc d" by (cases depth) auto
    show ?thesis
      unfolding d game_value_moves [OF moves]
      by (rule Max_eqI) (use child upper r that d in auto)
  qed
  then show ?thesis using sub r by (simp add: finish_value_def)
qed

lemma best_finish_value:
  assumes "wf_position p" and "finish_fuel p < fuel"
  shows "\<exists>b. best_finish fuel p = Some b \<and> finish_value p b"
  using assms
proof (induction fuel arbitrary: p)
  case 0
  then show ?case by simp
next
  case (Suc fuel)
  note wf = Suc.prems(1)
  have turn: "fTurn p \<noteq> kEmpty" using wf by (simp add: wf_position_def)
  let ?moves = "LegalMoves p (fTurn p)"
  show ?case
  proof (cases "Over p")
    case True
    then have "game_value p depth = terminal_score p" for depth
      using wf by (subst game_value.simps) (simp add: Over_iff)
    with True wf show ?thesis
      by (simp add: finish_value_def terminal_score_loud disc_diff_bound disc_diff_def [symmetric])
  next
    case over: False
    show ?thesis
    proof (cases "?moves = []")
      case True
      with over wf have opp: "LegalMoves p (opponent (fTurn p)) \<noteq> []" by (simp add: Over_iff)
      then have "finish_fuel (PassTurn p) < fuel" "Empties p \<noteq> 0"
        using Suc.prems(2) True LegalMoves_full [of p] wf
        by (auto simp: finish_fuel_def PassTurn_def)
      with Suc.IH [OF wf_PassTurn [OF wf]] obtain b where
        b: "best_finish fuel (PassTurn p) = Some b" "finish_value (PassTurn p) b" by blast
      have "game_value p depth = loud (signed_for (fTurn p) b)" if "Empties p \<le> depth" for depth
        using b(2) that True opp \<open>Empties p \<noteq> 0\<close> turn
        by (subst game_value.simps)
          (auto simp: finish_value_def PassTurn_def signed_for_opponent loud_neg)
      with b over True show ?thesis by (simp add: finish_value_def)
    next
      case False
      have "\<exists>b. best_finish fuel (snd (Play p m)) = Some b \<and> finish_value (snd (Play p m)) b"
        if "m \<in> set ?moves" for m
        using finish_child(1) [OF wf that] Suc.prems(2)
        by (intro Suc.IH wf_child [OF wf that]) (simp add: finish_fuel_def split: if_splits)
      then obtain g where g: "\<forall>m \<in> set ?moves. best_finish fuel (snd (Play p m)) = Some (g m)"
        "\<forall>m \<in> set ?moves. finish_value (snd (Play p m)) (g m)" by metis
      let ?init = "if fTurn p = kBlack then -100 else 100 :: int"
      from best_finish_loop [OF g(1), of ?init] over False obtain r where
        r: "best_finish (Suc fuel) p = Some r"
          "\<forall>m \<in> set ?moves. signed_for (fTurn p) (g m) \<le> signed_for (fTurn p) r"
          "r = ?init \<or> (\<exists>m \<in> set ?moves. r = g m)"
        by (auto simp: Let_def)
      obtain m1 where m1: "m1 \<in> set ?moves" using False by (cases ?moves) auto
      have "r \<noteq> ?init"
      proof
        assume "r = ?init"
        moreover have "\<bar>g m1\<bar> \<le> 64" using g(2) m1 by (simp add: finish_value_def)
        moreover have "signed_for (fTurn p) (g m1) \<le> signed_for (fTurn p) r" using r(2) m1 by simp
        ultimately show False by (auto simp: signed_for_def split: if_splits)
      qed
      with r(3) obtain m0 where m0: "r = g m0" "m0 \<in> set ?moves" by blast
      from finish_value_moves [OF wf False g(2) r(2) m0] r(1) show ?thesis by blast
    qed
  qed
qed

section \<open>A search that is not stopped\<close>

lemma never_late_runs:
  "late = (\<lambda>_. False) \<Longrightarrow> \<not> fStop st \<Longrightarrow> \<not> fStop (snd (Negamax late p depth alpha beta st))"
  "late = (\<lambda>_. False) \<Longrightarrow> \<not> fStop st
    \<Longrightarrow> \<not> fStop (snd (negamax_moves late p d ms best alpha beta st))"
proof (induction late p depth alpha beta st and late p d ms best alpha beta st
    rule: Negamax_negamax_moves.induct)
  case (1 late p depth alpha beta st)
  show ?case
    using "1.IH"(1) [OF refl refl] "1.IH"(2) [OF refl refl _ _ refl] "1.prems"
    by (subst Negamax.simps) (auto simp: Let_def split: prod.splits)
next
  case (2 late p d best alpha beta st)
  then show ?case by simp
next
  case (3 late p d m ms best alpha beta st)
  obtain score st' where sc: "child_score late p d m alpha beta st = (score, st')"
    by (metis prod.exhaust)
  have run: "\<not> fStop st'"
    using sc "3.IH"(1) [OF "3.prems"(2) refl] "3.IH"(2) [OF "3.prems"(2) refl] "3.prems"
    by (auto simp: child_score_def Let_def split: if_splits prod.splits)
  let ?b = "max best score"
  have b: "?b = (if best < score then score else best)"
    "max alpha ?b = (if alpha < ?b then ?b else alpha)" by (simp_all add: max_def)
  show ?case
    using "3.IH"(3) [OF "3.prems"(2) refl sc [symmetric, unfolded child_score_def Let_def] b _ "3.prems"(1) run]
      run sc "3.prems" by (simp add: negamax_moves_Cons)
qed

lemmas Negamax_in_time = never_late_runs [OF refl]

lemma child_score_in_time:
  "\<not> fStop st \<Longrightarrow> child_score (\<lambda>_. False) p d m alpha beta st = (score, st') \<Longrightarrow> \<not> fStop st'"
  using Negamax_in_time(1) [of st "snd (Play p m)" d alpha beta]
    Negamax_in_time(1) [of st "snd (Play p m)" d "- beta" "- alpha"]
  by (auto simp: child_score_def Let_def split: if_splits prod.splits)

lemma root_moves_in_time:
  "\<not> fStop st \<Longrightarrow> \<not> fStop (snd (root_moves (\<lambda>_. False) p d ms best st))"
  by (induction ms arbitrary: best st)
    (auto simp: root_moves_Cons split: prod.splits dest: child_score_in_time)

lemma deepen_in_time:
  "\<not> fStop st \<Longrightarrow> res_depth (fst (deepen (\<lambda>_. False) p moves depth (Suc k) result st)) = depth + k"
proof (induction k arbitrary: depth result st)
  case 0
  obtain square score st' where r: "root_moves (\<lambda>_. False) p (depth - 1) (Order moves) (hd moves, - kInfinity) st = ((square, score), st')"
    by (metis prod.exhaust)
  then have "\<not> fStop st'" using root_moves_in_time [OF 0] by (metis snd_conv)
  with r show ?case by simp
next
  case (Suc k)
  obtain square score st' where r:
    "root_moves (\<lambda>_. False) p (depth - 1) (Order moves) (hd moves, - kInfinity) st = ((square, score), st')"
    by (metis prod.exhaust)
  then have "\<not> fStop st'" using root_moves_in_time [OF Suc.prems] by (metis snd_conv)
  then have "deepen (\<lambda>_. False) p moves depth (Suc (Suc k)) result st
      = deepen (\<lambda>_. False) p moves (Suc depth) (Suc k)
          \<lparr>res_square = int square, res_score = score, res_depth = depth, res_nodes = fNodes st'\<rparr> st'"
    using r by (subst deepen.simps(2)) simp
  with Suc.IH [OF \<open>\<not> fStop st'\<close>] show ?case by (simp only:)
qed

lemma Think_depth_in_time:
  assumes "LegalMoves p (fTurn p) \<noteq> []" and "wf_position p" and "level \<noteq> kEasy"
  shows "res_depth (Think (\<lambda>_. False) rnd p level) = max_depth level (Empties p)"
proof -
  have "Empties p \<noteq> 0" using assms LegalMoves_full [of p] by auto
  then obtain k where k: "max_depth level (Empties p) = Suc k"
    using max_depth_pos by (metis Suc_le_D One_nat_def)
  have "(if level = kMedium then (\<lambda>_. False) else (\<lambda>_. False)) = (\<lambda>_::nat. False)" by simp
  then show ?thesis
    using assms deepen_in_time [of "\<lparr>fNodes = 0, fStop = False\<rparr>" p _ 1 k]
    by (simp only: Think_def Let_def if_False assms k case_prod_unfold) simp
qed

section \<open>Properties of the machine player\<close>

lemma Think_legal:
  assumes "wf_position p" and "LegalMoves p (fTurn p) \<noteq> []"
  shows "\<exists>m. res_square (Think late rnd p level) = int m \<and> m \<in> set (LegalMoves p (fTurn p))"
proof (cases "level = kEasy")
  case True
  let ?moves = "LegalMoves p (fTurn p)"
  have "?moves ! (rnd mod length ?moves) \<in> set ?moves" using assms(2) by simp
  with True assms(2) show ?thesis
    by (auto simp: Think_def Let_def)
next
  case False
  from Think_completed [OF assms False, of late rnd] show ?thesis
    unfolding completed_def by auto
qed

text \<open>
  The machine answers with a legal move whenever there is one: on every level, however late
  the clock runs and whatever random number Easy gets. That a stopped depth is thrown away is
  no gap, because the first depth never looks at the clock.
\<close>

theorem Think_plays_legal:
  assumes "game p" and "LegalMoves p (fTurn p) \<noteq> []"
  shows "\<exists>m. res_square (Think late rnd p level) = int m \<and> m < 64 \<and> Legal p m"
  using Think_legal [OF game_wf [OF assms(1)] assms(2)] by (auto simp: Legal_def LegalMoves_iff)

text \<open>The opening has a legal move; shared by the witnesses.\<close>

lemma LegalMoves_nonempty: "m < 64 \<Longrightarrow> FlipsFor p side m \<noteq> 0 \<Longrightarrow> LegalMoves p side \<noteq> []"
  using LegalMoves_iff [of m p side] by auto

lemma Reset_moves: "LegalMoves Reset (fTurn Reset) \<noteq> []"
  by (rule LegalMoves_nonempty [OF _ Reset_d3]) simp

theorem Think_plays_legal_witness:
  "\<exists>m. res_square (Think (\<lambda>_. True) 7 Reset kHard) = int m \<and> m < 64 \<and> Legal Reset m"
  by (rule Think_plays_legal [OF game_reset Reset_moves])

text \<open>
  C1 Alpha-beta with ordered moves, passes that cost no depth and repeated turns computes the
  minimax value: with the full window, a search that was not stopped returns \<open>game_value\<close>.
\<close>

theorem Negamax_is_minimax:
  assumes "game p" and "\<not> fStop (snd (Negamax late p depth (- kInfinity) kInfinity st))"
  shows "fst (Negamax late p depth (- kInfinity) kInfinity st) = game_value p depth"
  using Negamax_brackets(1) [OF game_wf [OF assms(1)] _ _ _ assms(2)]
    game_value_bound [OF game_wf [OF assms(1)], of depth]
  by (auto simp: brackets_def kInfinity_def)

theorem Negamax_is_minimax_witness:
  "fst (Negamax (\<lambda>_. False) Reset 3 (- kInfinity) kInfinity \<lparr>fNodes = 0, fStop = False\<rparr>)
    = game_value Reset 3"
  by (rule Negamax_is_minimax [OF game_reset]) (simp add: Negamax_in_time)

text \<open>
  C23 The answer of Medium, Hard and Expert is a best move of the last depth completed, under
  every clock: no legal move has a higher minimax value at that depth, and the score reported
  is that value.
\<close>

theorem Think_picks_best:
  assumes "game p" and "LegalMoves p (fTurn p) \<noteq> []" and "level \<noteq> kEasy"
  shows "\<exists>m \<in> set (LegalMoves p (fTurn p)).
    let r = Think late rnd p level in
      1 \<le> res_depth r \<and> res_square r = int m \<and> res_score r = child_value p (res_depth r - 1) m
      \<and> (\<forall>m' \<in> set (LegalMoves p (fTurn p)).
            child_value p (res_depth r - 1) m' \<le> child_value p (res_depth r - 1) m)"
  using Think_completed [OF game_wf [OF assms(1)] assms(2,3), of late rnd]
  by (auto simp: completed_def Let_def)

theorem Think_picks_best_witness:
  "\<exists>m \<in> set (LegalMoves Reset (fTurn Reset)).
    let r = Think (\<lambda>n. n \<ge> 2048) 0 Reset kExpert in
      1 \<le> res_depth r \<and> res_square r = int m \<and> res_score r = child_value Reset (res_depth r - 1) m
      \<and> (\<forall>m' \<in> set (LegalMoves Reset (fTurn Reset)).
            child_value Reset (res_depth r - 1) m' \<le> child_value Reset (res_depth r - 1) m)"
  by (rule Think_picks_best [OF game_reset Reset_moves]) simp

text \<open>
  Move ordering loses no move and repeats none, and puts heavier squares first.
\<close>

theorem Order_permutes:
  "mset (Order moves) = mset moves
   \<and> sorted_wrt (\<lambda>a b. kWeights ! a \<ge> kWeights ! b) (Order moves)"
  by (simp add: Order_sorted)

text \<open>
  \<open>BestFinish\<close> ends: two calls for every empty square and two more are enough, and its
  answer is a disc difference between -64 and 64.
\<close>

theorem best_finish_total:
  assumes "game p"
  shows "\<exists>b. best_finish (2 * Empties p + 2) p = Some b \<and> \<bar>b\<bar> \<le> 64"
proof -
  have "finish_fuel p < 2 * Empties p + 2" by (simp add: finish_fuel_def)
  from best_finish_value [OF game_wf [OF assms] this] show ?thesis
    unfolding finish_value_def by blast
qed

theorem best_finish_total_witness:
  "\<exists>b. best_finish (2 * Empties Reset + 2) Reset = Some b \<and> \<bar>b\<bar> \<le> 64"
  by (rule best_finish_total [OF game_reset])

text \<open>
  C24 Endings are counted out exactly: Expert with at most 14 squares empty, and Hard with at
  most 10, given the time, choose a move after which best play by both sides (\<open>BestFinish\<close>,
  every ending tried) gives the mover the largest disc difference there is.
\<close>

theorem Think_ending_exact:
  assumes "game p" and "LegalMoves p (fTurn p) \<noteq> []"
    and "(level = kExpert \<and> Empties p \<le> 14) \<or> (level = kHard \<and> Empties p \<le> 10)"
  shows "\<exists>m \<in> set (LegalMoves p (fTurn p)). \<exists>b.
    res_square (Think (\<lambda>_. False) rnd p level) = int m
    \<and> best_finish (2 * Empties p + 2) (snd (Play p m)) = Some b
    \<and> (\<forall>m' \<in> set (LegalMoves p (fTurn p)). \<exists>b'.
          best_finish (2 * Empties p + 2) (snd (Play p m')) = Some b'
          \<and> signed_for (fTurn p) b' \<le> signed_for (fTurn p) b)"
proof -
  note wf = game_wf [OF assms(1)]
  have turn: "fTurn p \<noteq> kEmpty" using wf by (simp add: wf_position_def)
  let ?r = "Think (\<lambda>_. False) rnd p level" and ?f = "2 * Empties p + 2"
  have level: "level \<noteq> kEasy" using assms(3) by auto
  have depth: "res_depth ?r = Empties p"
    using Think_depth_in_time [OF assms(2) wf level] assms(3) by (auto simp: max_depth_def)
  have "\<exists>b. best_finish ?f (snd (Play p m)) = Some b
      \<and> child_value p (Empties p - 1) m = loud (signed_for (fTurn p) b)"
    if m: "m \<in> set (LegalMoves p (fTurn p))" for m
  proof -
    note c = finish_child [OF wf m]
    have "finish_fuel (snd (Play p m)) < ?f" using c(1) by (simp add: finish_fuel_def)
    from best_finish_value [OF wf_child [OF wf m] this] obtain b where
      b: "best_finish ?f (snd (Play p m)) = Some b" "finish_value (snd (Play p m)) b" by blast
    have "Empties (snd (Play p m)) \<le> Empties p - 1" using c(1) by simp
    with b c(2) turn show ?thesis
      by (auto simp: child_value_def finish_value_def Let_def signed_for_opponent loud_neg)
  qed
  then obtain g where g: "\<forall>m \<in> set (LegalMoves p (fTurn p)).
      best_finish ?f (snd (Play p m)) = Some (g m)
      \<and> child_value p (Empties p - 1) m = loud (signed_for (fTurn p) (g m))" by metis
  from Think_completed [OF wf assms(2) level, of "\<lambda>_. False" rnd] obtain m where
    m: "m \<in> set (LegalMoves p (fTurn p))" "res_square ?r = int m"
      "child_value p (Empties p - 1) m = res_score ?r"
      "\<forall>m' \<in> set (LegalMoves p (fTurn p)). child_value p (Empties p - 1) m' \<le> res_score ?r"
    unfolding completed_def depth by blast
  show ?thesis
  proof (intro bexI exI conjI ballI)
    fix m' assume m': "m' \<in> set (LegalMoves p (fTurn p))"
    show "best_finish ?f (snd (Play p m')) = Some (g m')" using g m' by simp
    have "loud (signed_for (fTurn p) (g m')) \<le> loud (signed_for (fTurn p) (g m))"
      using g m m' by (metis (no_types, lifting))
    then show "signed_for (fTurn p) (g m') \<le> signed_for (fTurn p) (g m)" by simp
  qed (use g m in simp_all)
qed

text \<open>A position with two empty squares.\<close>

definition ending_board :: string where
  "ending_board = ''.wbbbbbbbbbbbbbbbbbbbbbbbbbbbbbbbbbbbbbbbbbbbbbbbbbbbbbbbbbbbw.b''"

definition ending :: position where
  "ending = snd (FromString Reset ending_board kBlack)"

lemma ending_game: "game ending"
proof -
  have "fst (FromString Reset ending_board kBlack)" by code_simp
  then have "FromString Reset ending_board kBlack = (True, ending)"
    by (simp add: prod_eq_iff ending_def)
  then show ?thesis by (rule game_from_string) (simp_all add: Reset_def)
qed

theorem Think_ending_exact_witness:
  "\<exists>m \<in> set (LegalMoves ending (fTurn ending)). \<exists>b.
    res_square (Think (\<lambda>_. False) 0 ending kExpert) = int m
    \<and> best_finish (2 * Empties ending + 2) (snd (Play ending m)) = Some b
    \<and> (\<forall>m' \<in> set (LegalMoves ending (fTurn ending)). \<exists>b'.
          best_finish (2 * Empties ending + 2) (snd (Play ending m')) = Some b'
          \<and> signed_for (fTurn ending) b' \<le> signed_for (fTurn ending) b)"
proof -
  have "FlipsFor ending (fTurn ending) 0 \<noteq> 0" by code_simp
  then have "LegalMoves ending (fTurn ending) \<noteq> []" by (rule LegalMoves_nonempty [rotated]) simp
  moreover have "Empties ending \<le> 14" by code_simp
  ultimately show ?thesis by (intro Think_ending_exact [OF ending_game]) simp_all
qed

end
