(* ===== verification/OthelloGame.thy ===== *)
theory OthelloGame
  imports OthelloSearch
begin

text \<open>
  The game window, class \<open>GameWindow\<close> of \<open>proseothello/app/src/Othello.cpp\<close>: its fields, the
  messages it handles and the thinker thread. The window's looper handles one message at a
  time; the thread runs beside it and touches the window twice, when it copies the game, the
  level and the generation at its start, and when it posts its answer. \<open>window_step\<close> is the
  interleaving of these steps. The drawing, the menus and the alerts are not part of the state.
  \<open>spawn_ok\<close> says whether \<open>spawn_thread\<close> succeeds.
\<close>

section \<open>State and messages\<close>

datatype thinker_thread =
    Spawned
  | Searching (snapshot: position) (snap_level: level) (snap_generation: nat)

datatype message =
    MSG_NEW_GAME
  | MSG_UNDO
  | MSG_LEVEL "int option"
  | MSG_HINTS "bool option"
  | MSG_AI_MOVE int nat
  | MSG_SCRIPT_PLAY int int int  \<comment> \<open>the fields square, row, col; -1 where one is missing\<close>
  | MSG_SCRIPT_THINK
  | MSG_ABOUT

record game_window =
  fGame :: position
  fLevel :: level
  fShowHints :: bool
  fGeneration :: nat
  fThinking :: bool
  fThreads :: "thinker_thread list"
  fQueue :: "message list"

definition initial_window :: game_window where
  "initial_window = \<lparr>fGame = Reset, fLevel = kMedium, fShowHints = True, fGeneration = 0,
     fThinking = False, fThreads = [], fQueue = []\<rparr>"

section \<open>Operations\<close>

definition NewGame :: "game_window \<Rightarrow> game_window" where
  "NewGame w = w\<lparr>fGeneration := Suc (fGeneration w), fGame := Reset\<rparr>"

definition StartThinking :: "bool \<Rightarrow> game_window \<Rightarrow> game_window" where
  "StartThinking spawn_ok w =
     (if fThinking w then w
      else if spawn_ok then w\<lparr>fThinking := True, fThreads := fThreads w @ [Spawned]\<rparr>
      else w\<lparr>fThinking := False\<rparr>)"

definition PlayMove :: "bool \<Rightarrow> nat \<Rightarrow> game_window \<Rightarrow> game_window" where
  "PlayMove spawn_ok square w =
     (case Play (fGame w) square of
        (False, _) \<Rightarrow> w
      | (True, g) \<Rightarrow>
          if Over g then w\<lparr>fGame := g\<rparr>
          else if fTurn g = kWhite then StartThinking spawn_ok (w\<lparr>fGame := g\<rparr>)
          else w\<lparr>fGame := g\<rparr>)"

definition FinishAiMove :: "bool \<Rightarrow> int \<Rightarrow> nat \<Rightarrow> game_window \<Rightarrow> game_window" where
  "FinishAiMove spawn_ok square generation w0 =
     (let w = w0\<lparr>fThinking := False\<rparr> in
      if generation \<noteq> fGeneration w then w
      else if square < 0 \<or> Over (fGame w) \<or> fTurn (fGame w) \<noteq> kWhite then w
      else case Play (fGame w) (nat square) of
        (False, _) \<Rightarrow> w
      | (True, g) \<Rightarrow>
          if Over g then w\<lparr>fGame := g\<rparr>
          else if fTurn g = kWhite then StartThinking spawn_ok (w\<lparr>fGame := g\<rparr>)
          else w\<lparr>fGame := g\<rparr>)"

definition level_of :: "int \<Rightarrow> level option" where
  "level_of i = (if i = 0 then Some kEasy else if i = 1 then Some kMedium
     else if i = 2 then Some kHard else if i = 3 then Some kExpert else None)"

definition level_number :: "level \<Rightarrow> int" where
  "level_number l = (case l of kEasy \<Rightarrow> 0 | kMedium \<Rightarrow> 1 | kHard \<Rightarrow> 2 | kExpert \<Rightarrow> 3)"

definition script_square :: "int \<Rightarrow> int \<Rightarrow> int \<Rightarrow> int" where
  "script_square square row col =
     (if square < 0 \<and> row \<ge> 0 \<and> col \<ge> 0 then row * 8 + col else square)"

text \<open>\<open>GameWindow::MessageReceived\<close>.\<close>

fun MessageReceived :: "bool \<Rightarrow> message \<Rightarrow> game_window \<Rightarrow> game_window" where
  "MessageReceived ok MSG_NEW_GAME w = NewGame w"
| "MessageReceived ok MSG_UNDO w =
     w\<lparr>fGeneration := Suc (fGeneration w), fGame := snd (Undo (snd (Undo (fGame w))))\<rparr>"
| "MessageReceived ok (MSG_LEVEL field) w =
     (case Option.bind field level_of of Some l \<Rightarrow> w\<lparr>fLevel := l\<rparr> | None \<Rightarrow> w)"
| "MessageReceived ok (MSG_HINTS field) w =
     (if field = Some (fShowHints w) then w else w\<lparr>fShowHints := \<not> fShowHints w\<rparr>)"
| "MessageReceived ok (MSG_AI_MOVE square generation) w = FinishAiMove ok square generation w"
| "MessageReceived ok (MSG_SCRIPT_PLAY square row col) w =
     (let s = script_square square row col in
      if 0 \<le> s \<and> s < 64 then PlayMove ok (nat s) w else w)"
| "MessageReceived ok MSG_SCRIPT_THINK w = StartThinking ok w"
| "MessageReceived ok MSG_ABOUT w = w"

text \<open>\<open>BoardView::MouseDown\<close>, after the point was turned into a column and a row.\<close>

definition MouseDown :: "int \<Rightarrow> int \<Rightarrow> game_window \<Rightarrow> game_window" where
  "MouseDown x y w =
     (if Over (fGame w) \<or> fTurn (fGame w) \<noteq> kBlack then w
      else if x < 0 \<or> x > 7 \<or> y < 0 \<or> y > 7 then w
      else w\<lparr>fQueue := fQueue w @ [MSG_SCRIPT_PLAY (y * 8 + x) (-1) (-1)]\<rparr>)"

text \<open>\<open>GameWindow::Thinker\<close>: its copy of the window's state, and its answer.\<close>

definition thinker_start :: "game_window \<Rightarrow> thinker_thread" where
  "thinker_start w = Searching (fGame w) (fLevel w) (fGeneration w)"

definition thinker_answer :: "(nat \<Rightarrow> bool) \<Rightarrow> nat \<Rightarrow> thinker_thread \<Rightarrow> message" where
  "thinker_answer late rnd t =
     MSG_AI_MOVE (res_square (Think late rnd (snapshot t) (snap_level t))) (snap_generation t)"

inductive window_step :: "game_window \<Rightarrow> game_window \<Rightarrow> bool" where
  step_post: "\<not> (\<exists>s g. m = MSG_AI_MOVE s g) \<Longrightarrow> window_step w (w\<lparr>fQueue := fQueue w @ [m]\<rparr>)"
| step_mouse: "window_step w (MouseDown x y w)"
| step_handle: "fQueue w = m # ms \<Longrightarrow> window_step w (MessageReceived ok m (w\<lparr>fQueue := ms\<rparr>))"
| step_start: "fThreads w = ts @ Spawned # us \<Longrightarrow>
     window_step w (w\<lparr>fThreads := ts @ thinker_start w # us\<rparr>)"
| step_answer: "fThreads w = ts @ Searching g l n # us \<Longrightarrow>
     window_step w (w\<lparr>fThreads := ts @ us,
       fQueue := fQueue w @ [thinker_answer late rnd (Searching g l n)]\<rparr>)"

inductive reachable :: "game_window \<Rightarrow> bool" where
  reach_init: "reachable initial_window"
| reach_step: "reachable w \<Longrightarrow> window_step w w' \<Longrightarrow> reachable w'"

section \<open>What the window says\<close>

definition ellipsis :: string where
  "ellipsis = List.map char_of [226, 128, 166 :: nat]"

definition StatusText :: "game_window \<Rightarrow> string" where
  "StatusText w =
     (let (black, white) = Counts (fGame w) in
      if Over (fGame w) then
        (if black > white then ''you win'' else if white > black then ''the machine wins''
         else ''a draw'') @ '' ''
        @ show_nat (if black > white then black else if white > black then white else black)
        @ ellipsis
        @ show_nat (if black > white then white else if white > black then black else black)
      else if fTurn (fGame w) = kBlack then
        ''your move ('' @ show_nat (length (LegalMoves (fGame w) kBlack)) @ '')''
      else ''the machine is thinking'')"

text \<open>The text \<open>AnnounceEnd\<close> shows.\<close>

definition announce_text :: "position \<Rightarrow> string" where
  "announce_text g =
     (let (black, white) = Counts g in
      if black > white then ''You win, '' @ show_nat black @ '' to '' @ show_nat white @ ''.''
      else if white > black then
        ''The machine wins, '' @ show_nat white @ '' to '' @ show_nat black @ ''.''
      else ''A draw, 32 all.'')"

section \<open>The scripting surface\<close>

datatype script_what = B_GET_PROPERTY | B_SET_PROPERTY | B_EXECUTE_PROPERTY

datatype script_data = DNone | DInt int | DString string | DBool bool

datatype reply = ReplyString string | ReplyInt int | ReplyError string

text \<open>The \<open>"%d"\<close> conversion of \<open>sscanf\<close>: white space, a sign, at least one digit.\<close>

definition is_space :: "char \<Rightarrow> bool" where
  "is_space c \<longleftrightarrow> c = CHR '' '' \<or> (CHR 0x09 \<le> c \<and> c \<le> CHR 0x0D)"

definition scan_int :: "string \<Rightarrow> (int \<times> string) option" where
  "scan_int s =
     (let t = dropWhile is_space s;
          (neg, u) = (case t of c # cs \<Rightarrow> if c = CHR ''-'' then (True, cs)
            else if c = CHR ''+'' then (False, cs) else (False, t) | [] \<Rightarrow> (False, t))
      in case u of [] \<Rightarrow> None
         | c # cs \<Rightarrow> if is_digit c
             then (case read_digits u 0 of (n, rest) \<Rightarrow> Some (if neg then - int n else int n, rest))
             else None)"

text \<open>\<open>sscanf(s, "%d %d", ...) == 2\<close>; the blank in the format skips white space, as \<open>%d\<close> does.\<close>

definition scan_row_col :: "string \<Rightarrow> (int \<times> int) option" where
  "scan_row_col s = (case scan_int s of None \<Rightarrow> None
     | Some (row, rest) \<Rightarrow> (case scan_int rest of None \<Rightarrow> None | Some (col, _) \<Rightarrow> Some (row, col)))"

text \<open>
  \<open>GameWindow::HandleScripting\<close>: the messages it posts to the window and its reply, or
  \<open>None\<close> where it returns false. \<open>Activate\<close> also brings the window to the front.
\<close>

definition HandleScripting ::
    "game_window \<Rightarrow> script_data \<Rightarrow> string \<Rightarrow> script_what \<Rightarrow> (message list \<times> reply) option" where
  "HandleScripting w data property what =
     (if property = ''Activate'' \<and> what = B_EXECUTE_PROPERTY then Some ([], ReplyString '''')
      else if property = ''NewGame'' \<and> what = B_EXECUTE_PROPERTY then
        let level = (case data of DInt i \<Rightarrow> i | _ \<Rightarrow> level_number (fLevel w)) in
        Some (if 0 \<le> level \<and> level < 4 then [MSG_NEW_GAME, MSG_LEVEL (Some level)]
              else [MSG_NEW_GAME], ReplyString '''')
      else if property = ''Play'' \<and> what = B_EXECUTE_PROPERTY then
        let square = (case data of DInt i \<Rightarrow> i
          | DString s \<Rightarrow> (case scan_row_col s of Some (row, col) \<Rightarrow> row * 8 + col | None \<Rightarrow> -1)
          | _ \<Rightarrow> -1) in
        Some ([MSG_SCRIPT_PLAY square (-1) (-1)], ReplyString '''')
      else if property = ''Think'' \<and> what = B_EXECUTE_PROPERTY then
        Some ([MSG_SCRIPT_THINK], ReplyString '''')
      else if property = ''Score'' \<and> what = B_GET_PROPERTY then
        let (black, white) = Counts (fGame w) in
        Some ([], ReplyString (show_nat black @ '' '' @ show_nat white))
      else if property = ''Board'' \<and> what = B_GET_PROPERTY then
        Some ([], ReplyString (ToString (fGame w)))
      else if property = ''Turn'' \<and> what = B_GET_PROPERTY then
        Some ([], ReplyString (if fTurn (fGame w) = kBlack then ''black'' else ''white''))
      else if property = ''Level'' \<and> what = B_GET_PROPERTY then
        Some ([], ReplyInt (level_number (fLevel w)))
      else if property = ''Level'' \<and> what = B_SET_PROPERTY then
        (case data of
           DInt level \<Rightarrow> if 0 \<le> level \<and> level < 4 then Some ([MSG_LEVEL (Some level)], ReplyString '''')
             else Some ([], ReplyError ''level: 0..3'')
         | _ \<Rightarrow> Some ([], ReplyError ''level: 0..3''))
      else if property = ''Hints'' \<and> what = B_GET_PROPERTY then
        Some ([], ReplyInt (if fShowHints w then 1 else 0))
      else if property = ''Hints'' \<and> what = B_SET_PROPERTY then
        let show = (case data of DBool b \<Rightarrow> b | _ \<Rightarrow> fShowHints w) in
        Some (if show \<noteq> fShowHints w then [MSG_HINTS None] else [], ReplyString '''')
      else None)"

section \<open>One search at a time\<close>

fun is_answer :: "message \<Rightarrow> bool" where
  "is_answer (MSG_AI_MOVE s g) = True"
| "is_answer _ = False"

text \<open>Searches in flight: threads, and answers that are posted but not handled.\<close>

definition in_flight :: "game_window \<Rightarrow> nat" where
  "in_flight w = length (fThreads w) + length (filter is_answer (fQueue w))"

fun thread_ok :: "nat \<Rightarrow> thinker_thread \<Rightarrow> bool" where
  "thread_ok gen Spawned = True"
| "thread_ok gen (Searching g l n) \<longleftrightarrow> game g \<and> n \<le> gen"

definition window_inv :: "game_window \<Rightarrow> bool" where
  "window_inv w \<longleftrightarrow> game (fGame w) \<and> in_flight w = (if fThinking w then 1 else 0)
     \<and> (\<forall>t \<in> set (fThreads w). thread_ok (fGeneration w) t)"

lemma thread_ok_mono: "thread_ok n t \<Longrightarrow> n \<le> n' \<Longrightarrow> thread_ok n' t"
  by (cases t) auto

lemma game_Play_snd: "game p \<Longrightarrow> square < 64 \<Longrightarrow> Play p square = (b, q) \<Longrightarrow> game q"
  using game_play by fastforce

lemma StartThinking_inv: "window_inv w \<Longrightarrow> window_inv (StartThinking ok w)"
  by (auto simp: StartThinking_def window_inv_def in_flight_def)

lemma window_inv_game: "window_inv w \<Longrightarrow> game g \<Longrightarrow> window_inv (w\<lparr>fGame := g\<rparr>)"
  by (simp add: window_inv_def in_flight_def)

lemma window_inv_frame:
  "window_inv w \<Longrightarrow> window_inv (w\<lparr>fLevel := l\<rparr>)"
  "window_inv w \<Longrightarrow> window_inv (w\<lparr>fShowHints := b\<rparr>)"
  by (simp_all add: window_inv_def in_flight_def)

lemma window_inv_generation:
  "window_inv w \<Longrightarrow> game g \<Longrightarrow> window_inv (w\<lparr>fGeneration := Suc (fGeneration w), fGame := g\<rparr>)"
  by (auto simp: window_inv_def in_flight_def intro: thread_ok_mono)

lemma PlayMove_inv:
  assumes "window_inv w" and "square < 64"
  shows "window_inv (PlayMove ok square w)"
proof -
  have g: "game (fGame w)" using assms(1) by (simp add: window_inv_def)
  show ?thesis
    using assms(1) game_Play_snd [OF g assms(2)]
    by (auto simp: PlayMove_def split: prod.splits bool.splits
        intro!: StartThinking_inv dest: window_inv_game)
qed

text \<open>The machine's answer is a square of the board, so handling it keeps the game a game.\<close>

lemma FinishAiMove_inv:
  assumes "window_inv (w\<lparr>fThinking := False\<rparr>)" and "square < 64"
  shows "window_inv (FinishAiMove ok square generation w)"
proof -
  have g: "game (fGame w)" using assms(1) by (simp add: window_inv_def)
  have sq: "nat square < 64" if "\<not> square < 0" using assms(2) that by simp
  show ?thesis
    using assms(1) game_Play_snd [OF g, of "nat square"] sq
    by (auto simp: FinishAiMove_def Let_def split: prod.splits bool.splits
        intro!: StartThinking_inv dest: window_inv_game)
qed

text \<open>Answers carry squares below 64 because searches look at games only.\<close>

fun answer_ok :: "nat \<Rightarrow> message \<Rightarrow> bool" where
  "answer_ok gen (MSG_AI_MOVE s n) \<longleftrightarrow> s < 64 \<and> n \<le> gen"
| "answer_ok gen _ \<longleftrightarrow> True"

lemma answer_ok_mono: "answer_ok n m \<Longrightarrow> n \<le> n' \<Longrightarrow> answer_ok n' m"
  by (cases m) auto

lemma thinker_answer_ok:
  assumes "game g" and "n \<le> gen"
  shows "answer_ok gen (thinker_answer late rnd (Searching g l n))"
proof (cases "LegalMoves g (fTurn g) = []")
  case True
  then show ?thesis using assms(2) by (simp add: thinker_answer_def Think_def Let_def no_result_def)
next
  case False
  with Think_legal [OF game_wf [OF assms(1)] False, of late rnd l] assms(2) show ?thesis
    by (auto simp: thinker_answer_def LegalMoves_iff)
qed

definition queue_ok :: "game_window \<Rightarrow> bool" where
  "queue_ok w \<longleftrightarrow> (\<forall>m \<in> set (fQueue w). answer_ok (fGeneration w) m)"

lemma generation_mono: "fGeneration w \<le> fGeneration (MessageReceived ok m w)"
  by (cases m) (auto simp: NewGame_def StartThinking_def PlayMove_def FinishAiMove_def Let_def
      split: option.splits prod.splits bool.splits)

lemma queue_same: "fQueue (MessageReceived ok m w) = fQueue w"
  by (cases m) (auto simp: NewGame_def StartThinking_def PlayMove_def FinishAiMove_def Let_def
      split: option.splits prod.splits bool.splits)

lemma window_inv_tail:
  assumes "window_inv w" and "fQueue w = m # ms"
  shows "is_answer m \<Longrightarrow> window_inv (w\<lparr>fQueue := ms, fThinking := False\<rparr>)"
    and "\<not> is_answer m \<Longrightarrow> window_inv (w\<lparr>fQueue := ms\<rparr>)"
  using assms by (auto simp: window_inv_def in_flight_def split: if_splits)

lemma handle_inv:
  assumes "window_inv w" and "queue_ok w" and "fQueue w = m # ms"
  shows "window_inv (MessageReceived ok m (w\<lparr>fQueue := ms\<rparr>))"
proof (cases "is_answer m")
  case True
  then obtain s n where m: "m = MSG_AI_MOVE s n" by (cases m) auto
  with assms(2,3) have "s < 64" by (simp add: queue_ok_def)
  with window_inv_tail(1) [OF assms(1,3) True] show ?thesis
    unfolding m MessageReceived.simps by (intro FinishAiMove_inv) (simp_all add: fun_upd_def)
next
  case False
  note inv = window_inv_tail(2) [OF assms(1,3) False]
  have g: "game (fGame w)" using assms(1) by (simp add: window_inv_def)
  show ?thesis
  proof (cases m)
    case MSG_NEW_GAME
    then show ?thesis
      using window_inv_generation [OF inv game_reset] by (simp add: NewGame_def)
  next
    case MSG_UNDO
    then show ?thesis
      using window_inv_generation [OF inv game_undo [OF game_undo [OF g]]] by simp
  next
    case (MSG_SCRIPT_PLAY s r c)
    then show ?thesis using inv PlayMove_inv [OF inv, of "nat (script_square s r c)" ok]
      by (auto simp: Let_def)
  qed (use False inv in \<open>auto intro: window_inv_frame StartThinking_inv split: option.splits\<close>)
qed

lemma window_step_inv: "window_step w w' \<Longrightarrow> window_inv w \<and> queue_ok w \<Longrightarrow> window_inv w' \<and> queue_ok w'"
proof (induction rule: window_step.induct)
  case (step_post m w)
  then have "\<not> is_answer m" "answer_ok (fGeneration w) m" by (cases m; auto)+
  with step_post show ?case by (auto simp: window_inv_def in_flight_def queue_ok_def)
next
  case (step_mouse w x y)
  then show ?case by (auto simp: MouseDown_def window_inv_def in_flight_def queue_ok_def)
next
  case (step_handle w m ms ok)
  then have "queue_ok (MessageReceived ok m (w\<lparr>fQueue := ms\<rparr>))"
    using generation_mono [of "w\<lparr>fQueue := ms\<rparr>" ok m]
    by (auto simp: queue_ok_def queue_same intro: answer_ok_mono)
  with step_handle show ?case by (simp add: handle_inv)
next
  case (step_start w ts us)
  then show ?case by (auto simp: window_inv_def in_flight_def queue_ok_def thinker_start_def)
next
  case (step_answer w ts g l n us late rnd)
  then have "game g" "n \<le> fGeneration w" by (auto simp: window_inv_def)
  with step_answer thinker_answer_ok [of g n "fGeneration w"] show ?case
    by (auto simp: window_inv_def in_flight_def queue_ok_def thinker_answer_def split: if_splits)
qed

lemma reachable_inv: "reachable w \<Longrightarrow> window_inv w \<and> queue_ok w"
proof (induction rule: reachable.induct)
  case reach_init
  show ?case by (simp add: initial_window_def window_inv_def in_flight_def queue_ok_def game_reset)
next
  case (reach_step w w')
  then show ?case by (blast dest: window_step_inv)
qed

section \<open>Properties of the window\<close>

text \<open>
  C21 One search at a time: in every reachable state the game is a game of the rules, and the
  flag \<open>fThinking\<close> is up exactly while one search is in flight, as a thread or as an answer not
  yet handled; never are there two.
\<close>

theorem one_search_at_a_time:
  assumes "reachable w"
  shows "game (fGame w)
    \<and> length (fThreads w) + length (filter is_answer (fQueue w)) = (if fThinking w then 1 else 0)"
  using reachable_inv [OF assms] by (simp add: window_inv_def in_flight_def)

theorem one_search_at_a_time_witness:
  "game (fGame initial_window) \<and> length (fThreads initial_window)
    + length (filter is_answer (fQueue initial_window)) = (if fThinking initial_window then 1 else 0)"
  by (rule one_search_at_a_time [OF reach_init])

text \<open>
  The machine moves for white only, only in the game it was asked about, and only by the
  rules: handling an answer leaves the game as it is or plays one legal white move, and a
  stale answer, of a generation before the last \<open>New\<close> or \<open>Undo\<close>, leaves it as it is.
\<close>

theorem answers_play_white:
  assumes "reachable w" and "fQueue w = MSG_AI_MOVE s n # ms"
  shows "let w' = MessageReceived ok (MSG_AI_MOVE s n) (w\<lparr>fQueue := ms\<rparr>) in
    fGame w' = fGame w
    \<or> n = fGeneration w \<and> fTurn (fGame w) = kWhite \<and> 0 \<le> s \<and> s < 64
       \<and> Play (fGame w) (nat s) = (True, fGame w')"
proof -
  have "s < 64" using reachable_inv [OF assms(1)] assms(2) by (simp add: queue_ok_def)
  then show ?thesis
    by (auto simp: FinishAiMove_def StartThinking_def Let_def split: prod.splits bool.splits)
qed

text \<open>
  A search the game waits for is played: where the answer belongs to the game on the board
  and white is to move, handling it plays the machine's move.
\<close>

theorem awaited_answer_is_played:
  assumes "reachable w" and "fTurn (fGame w) = kWhite" and "LegalMoves (fGame w) kWhite \<noteq> []"
    and "fQueue w = thinker_answer late rnd (thinker_start w) # ms"
  shows "\<exists>m g. Play (fGame w) m = (True, g)
    \<and> fGame (MessageReceived ok (thinker_answer late rnd (thinker_start w)) (w\<lparr>fQueue := ms\<rparr>)) = g
    \<and> Empties (fGame w) = Suc (Empties g)"
proof -
  have wf: "wf_position (fGame w)"
    using reachable_inv [OF assms(1)] by (simp add: window_inv_def game_wf)
  from Think_legal [OF wf, of late rnd "fLevel w"] assms(2,3) obtain m where
    m: "res_square (Think late rnd (fGame w) (fLevel w)) = int m"
      "m \<in> set (LegalMoves (fGame w) (fTurn (fGame w)))" by auto
  then have m64: "m < 64" and "Play (fGame w) m = (True, snd (Play (fGame w) m))"
    by (auto simp: LegalMoves_iff Play_history [OF wf])
  then obtain g where g: "Play (fGame w) m = (True, g)" by blast
  have "\<not> Over (fGame w)" using assms(2,3) wf by (simp add: Over_iff)
  then have "fGame (MessageReceived ok (thinker_answer late rnd (thinker_start w))
      (w\<lparr>fQueue := ms\<rparr>)) = g"
    using m g assms(2)
    by (simp add: thinker_answer_def thinker_start_def FinishAiMove_def Let_def StartThinking_def)
  with g Play_turn(3) [OF wf m64 g] show ?thesis by blast
qed

subsection \<open>Games left waiting for nobody\<close>

text \<open>
  Nothing is in flight, the queue is empty, white is to move and the game is not over: the
  status says that the machine is thinking, and clicks do nothing.
\<close>

definition stranded :: "game_window \<Rightarrow> bool" where
  "stranded w \<longleftrightarrow> fThreads w = [] \<and> fQueue w = [] \<and> \<not> fThinking w
     \<and> fTurn (fGame w) = kWhite \<and> \<not> Over (fGame w)"

lemma stranded_ignores_clicks: "stranded w \<Longrightarrow> MouseDown x y w = w"
  by (simp add: stranded_def MouseDown_def)

lemma reach_trans: "reachable w \<Longrightarrow> window_step w w' \<Longrightarrow> w' = w'' \<Longrightarrow> reachable w''"
  using reach_step by blast

text \<open>The opening d3 c3 b3 and what the window needs to know of it.\<close>

definition after_d3 :: position where
  "after_d3 = (moved Reset 19)\<lparr>fTurn := kWhite\<rparr>"

definition after_c3 :: position where
  "after_c3 = (moved after_d3 18)\<lparr>fTurn := kBlack\<rparr>"

definition after_b3 :: position where
  "after_b3 = (moved after_c3 17)\<lparr>fTurn := kWhite\<rparr>"

lemma opening_flips:
  "FlipsFor after_d3 kWhite 18 \<noteq> 0" "FlipsFor after_c3 kBlack 17 \<noteq> 0"
  "FlipsFor after_b3 kWhite 9 \<noteq> 0"
  by code_simp+

lemma opening_turns [simp]:
  "fTurn Reset = kBlack" "fTurn after_d3 = kWhite" "fTurn after_c3 = kBlack" "fTurn after_b3 = kWhite"
  by (simp_all add: Reset_def after_d3_def after_c3_def after_b3_def)

lemma opponent_values [simp]: "opponent kBlack = kWhite" "opponent kWhite = kBlack"
  by (simp_all add: opponent_def)

lemma FlipsFor_turn [simp]: "FlipsFor (p\<lparr>fTurn := t\<rparr>) = FlipsFor p"
  by (rule FlipsFor_cong) simp

lemma opening_plays [simp]:
  "Play Reset 19 = (True, after_d3)" "Play after_d3 18 = (True, after_c3)"
  "Play after_c3 17 = (True, after_b3)"
proof -
  show 1: "Play Reset 19 = (True, after_d3)"
    using Play_answered [OF wf_Reset _ Reset_d3, of 18] opening_flips(1) by (simp add: after_d3_def)
  from wf_Play [OF wf_Reset, of 19] 1 have wf1: "wf_position after_d3" by simp
  then show 2: "Play after_d3 18 = (True, after_c3)"
    using Play_answered [OF wf1, of 18 17] opening_flips by (simp add: after_c3_def)
  from wf_Play [OF wf1, of 18] 2 have wf2: "wf_position after_c3" by simp
  then show "Play after_c3 17 = (True, after_b3)"
    using Play_answered [OF wf2, of 17 9] opening_flips by (simp add: after_b3_def)
qed

lemma opening_open [simp]: "\<not> Over Reset" "\<not> Over after_d3" "\<not> Over after_c3" "\<not> Over after_b3"
proof -
  have wf: "wf_position after_d3" "wf_position after_c3" "wf_position after_b3"
    using wf_Play [OF wf_Reset, of 19] wf_Play [of after_d3 18] wf_Play [of after_c3 17] by simp_all
  show "\<not> Over Reset" "\<not> Over after_d3" "\<not> Over after_c3" "\<not> Over after_b3"
    using Reset_moves opening_flips wf wf_Reset
      LegalMoves_nonempty [of 18 after_d3] LegalMoves_nonempty [of 17 after_c3]
      LegalMoves_nonempty [of 9 after_b3]
    by (auto simp: Over_iff)
qed

lemma Over_lastmove [simp]: "Over (p\<lparr>fLastMove := x\<rparr>) = Over p"
  by (simp add: Over_def Empties_def)

lemma undo_b3: "snd (Undo (snd (Undo after_b3))) = after_d3"
proof -
  have wf: "wf_position after_d3" "wf_position after_c3"
    using wf_Play [OF wf_Reset, of 19] wf_Play [of after_d3 18] by simp_all
  have m: "AdvanceTurn (moved after_c3 17) = after_b3" "AdvanceTurn (moved after_d3 18) = after_c3"
    using Play_history [OF wf(2), of 17] Play_history [OF wf(1), of 18] opening_flips by simp_all
  have h: "fHistory after_c3 = fHistory (moved after_d3 18)" "fLastMove after_c3 = 18"
    "fHistory after_d3 = fHistory (moved Reset 19)" "fLastMove after_d3 = 19"
    by (simp_all add: after_c3_def after_d3_def)
  have "Undo after_b3 = (True, after_c3)"
    using Undo_moved [OF wf(2), of 17] opening_flips m h by (simp add: moved_def)
  moreover have "Undo after_c3 = (True, after_d3)"
    using Undo_moved [OF wf(1), of 18] opening_flips m h by (simp add: moved_def)
  ultimately show ?thesis by simp
qed

lemma reach_handle:
  "reachable w \<Longrightarrow> fQueue w = m # ms \<Longrightarrow> MessageReceived ok m (w\<lparr>fQueue := ms\<rparr>) = w' \<Longrightarrow> reachable w'"
  using reach_step step_handle by blast

lemma reach_click:
  "reachable w \<Longrightarrow> MouseDown x y w = w' \<Longrightarrow> reachable w'"
  using reach_step step_mouse by blast

lemma reach_post:
  "reachable w \<Longrightarrow> \<not> is_answer m \<Longrightarrow> reachable (w\<lparr>fQueue := fQueue w @ [m]\<rparr>)"
  by (rule reach_step [OF _ step_post]) auto

lemma reach_start:
  "reachable w \<Longrightarrow> fThreads w = [Spawned] \<Longrightarrow> reachable (w\<lparr>fThreads := [thinker_start w]\<rparr>)"
  using reach_step [OF _ step_start [of w "[]" "[]"]] by simp

lemma reach_answer:
  "reachable w \<Longrightarrow> fThreads w = [Searching g l n]
    \<Longrightarrow> reachable (w\<lparr>fThreads := [], fQueue := fQueue w @ [thinker_answer late rnd (Searching g l n)]\<rparr>)"
  using reach_step [OF _ step_answer [of w "[]" g l n "[]" late rnd]] by simp

text \<open>A window at rest, and one whose machine is searching.\<close>

definition at_rest :: "position \<Rightarrow> level \<Rightarrow> nat \<Rightarrow> game_window" where
  "at_rest g l n = initial_window\<lparr>fGame := g, fLevel := l, fGeneration := n\<rparr>"

definition searching :: "position \<Rightarrow> level \<Rightarrow> nat \<Rightarrow> position \<Rightarrow> nat \<Rightarrow> game_window" where
  "searching g l n g0 n0 = (at_rest g l n)\<lparr>fThinking := True, fThreads := [Searching g0 l n0]\<rparr>"

lemmas window_states = at_rest_def searching_def initial_window_def

text \<open>Black clicks a square that white can answer.\<close>

lemma reach_black_move:
  assumes "reachable (at_rest g l n)" and "fTurn g = kBlack" "\<not> Over g"
    and "0 \<le> x" "x < 8" "0 \<le> y" "y < 8" and "Play g (nat (y * 8 + x)) = (True, g')"
    and "fTurn g' = kWhite" "\<not> Over g'"
  shows "reachable (searching g' l n g' n)"
proof -
  let ?w = "at_rest g l n" and ?m = "MSG_SCRIPT_PLAY (y * 8 + x) (-1) (-1)"
  have "reachable (?w\<lparr>fQueue := [?m]\<rparr>)"
    using assms by (intro reach_click [OF assms(1), of x y]) (simp add: MouseDown_def window_states)
  then have "reachable (?w\<lparr>fGame := g', fThinking := True, fThreads := [Spawned]\<rparr>)"
    by (rule reach_handle [where ok = True and m = ?m and ms = "[]"])
      (use assms in \<open>simp_all add: script_square_def PlayMove_def StartThinking_def window_states\<close>)
  from reach_start [OF this] show ?thesis
    by (simp add: thinker_start_def window_states)
qed

text \<open>
  \<open>New\<close> while the machine is thinking can strand the new game: black moves before the old
  search has answered, \<open>StartThinking\<close> sees the flag of the old search and starts nothing, and
  the old answer, when it comes, is dropped as stale and clears the flag. White is to move and
  nobody will.
\<close>

theorem new_game_strands_white:
  "\<exists>w. reachable w \<and> stranded w \<and> fGeneration w = 1 \<and> (\<forall>x y. MouseDown x y w = w)"
proof -
  let ?s = "searching after_d3 kMedium 0 after_d3 0"
  have "reachable (at_rest Reset kMedium 0)"
    using reach_init by (simp add: window_states)
  from reach_black_move [OF this, of 3 2 after_d3] have "reachable ?s" by simp
  then have "reachable (?s\<lparr>fQueue := [MSG_NEW_GAME]\<rparr>)"
    using reach_post [of ?s MSG_NEW_GAME] by (simp add: window_states)
  then have "reachable (searching Reset kMedium 1 after_d3 0)"
    by (rule reach_handle [where ok = True and m = MSG_NEW_GAME and ms = "[]"])
      (simp_all add: NewGame_def window_states)
  then have "reachable ((searching Reset kMedium 1 after_d3 0)
      \<lparr>fQueue := [MSG_SCRIPT_PLAY 19 (-1) (-1)]\<rparr>)"
    by (rule reach_click [of _ 3 2]) (simp add: MouseDown_def window_states)
  then have "reachable (searching after_d3 kMedium 1 after_d3 0)"
    by (rule reach_handle [where ok = True and m = "MSG_SCRIPT_PLAY 19 (-1) (-1)" and ms = "[]"])
      (simp_all add: script_square_def PlayMove_def StartThinking_def window_states)
  from reach_answer [OF this, where g = after_d3 and l = kMedium and n = 0] 
  have "reachable ((at_rest after_d3 kMedium 1)\<lparr>fThinking := True,
      fQueue := [thinker_answer (\<lambda>_. False) 0 (Searching after_d3 kMedium 0)]\<rparr>)"
    by (simp add: window_states)
  then have "reachable (at_rest after_d3 kMedium 1)"
    by (rule reach_handle [where ok = True and ms = "[]"
          and m = "thinker_answer (\<lambda>_. False) 0 (Searching after_d3 kMedium 0)"])
      (simp_all add: thinker_answer_def FinishAiMove_def window_states)
  moreover have "stranded (at_rest after_d3 kMedium 1)"
    by (simp add: stranded_def window_states)
  moreover have "fGeneration (at_rest after_d3 kMedium 1) = 1"
    by (simp add: window_states)
  ultimately show ?thesis using stranded_ignores_clicks by blast
qed

text \<open>
  A stale answer arrives: it clears the flag and nothing else.
\<close>

lemma reach_stale_answer:
  assumes "reachable (searching g l n g0 n0)" and "n0 \<noteq> n"
  shows "reachable (at_rest g l n)"
proof -
  let ?a = "thinker_answer (\<lambda>_. False) 0 (Searching g0 l n0)"
  from reach_answer [OF assms(1), where g = g0 and l = l and n = n0]
  have "reachable ((at_rest g l n)\<lparr>fThinking := True, fQueue := [?a]\<rparr>)"
    by (simp add: window_states)
  then show ?thesis
    by (rule reach_handle [where ok = True and ms = "[]" and m = ?a])
      (use assms(2) in \<open>simp_all add: thinker_answer_def FinishAiMove_def window_states\<close>)
qed

text \<open>On Easy the random number can choose any legal reply.\<close>

lemma reach_easy_reply:
  assumes "reachable (searching g kEasy n g n)" and "fTurn g = kWhite" "\<not> Over g"
    and "m \<in> set (LegalMoves g kWhite)" and "Play g m = (True, g')" and "fTurn g' = kBlack"
  shows "reachable (at_rest g' kEasy n)"
proof -
  obtain i where i: "i < length (LegalMoves g kWhite)" "LegalMoves g kWhite ! i = m"
    using assms(4) by (auto simp: in_set_conv_nth)
  let ?a = "thinker_answer (\<lambda>_. False) i (Searching g kEasy n)"
  have a: "?a = MSG_AI_MOVE (int m) n"
    using i assms(2) by (auto simp: thinker_answer_def Think_def Let_def)
  from reach_answer [OF assms(1), where g = g and l = kEasy and n = n and rnd = i and late = "\<lambda>_. False"]
  have "reachable ((at_rest g kEasy n)\<lparr>fThinking := True, fQueue := [?a]\<rparr>)"
    by (simp add: window_states)
  then show ?thesis
    by (rule reach_handle [where ok = True and ms = "[]" and m = ?a])
      (use assms in \<open>simp_all add: a FinishAiMove_def window_states Let_def\<close>)
qed

lemma reach_undo:
  assumes "reachable (searching g l n g0 n0)"
  shows "reachable (searching (snd (Undo (snd (Undo g)))) l (Suc n) g0 n0)"
proof -
  have "reachable ((searching g l n g0 n0)\<lparr>fQueue := [MSG_UNDO]\<rparr>)"
    using reach_post [OF assms, of MSG_UNDO] by (simp add: window_states)
  then show ?thesis
    by (rule reach_handle [where ok = True and m = MSG_UNDO and ms = "[]"])
      (simp_all add: window_states)
qed

text \<open>
  \<open>Undo\<close> while the machine is thinking strands the game too. It always takes back two moves
  ("the machine's answer and your move"), but while the machine thinks the last two are black's
  move and the answer before it: white is to move again, the search in flight has become stale,
  and no new one is started.
\<close>

theorem undo_while_thinking_strands_white:
  "\<exists>w. reachable w \<and> stranded w \<and> fGeneration w = 1 \<and> fCells (fGame w) = fCells after_d3
    \<and> (\<forall>x y. MouseDown x y w = w)"
proof -
  let ?undone = "snd (Undo (snd (Undo after_b3)))"
  have "reachable (initial_window\<lparr>fQueue := [MSG_LEVEL (Some 0)]\<rparr>)"
    using reach_post [OF reach_init, of "MSG_LEVEL (Some 0)"] by (simp add: initial_window_def)
  then have "reachable (at_rest Reset kEasy 0)"
    by (rule reach_handle [where ok = True and m = "MSG_LEVEL (Some 0)" and ms = "[]"])
      (simp_all add: level_of_def window_states)
  from reach_black_move [OF this, of 3 2 after_d3] have "reachable (searching after_d3 kEasy 0 after_d3 0)"
    by simp
  from reach_easy_reply [OF this, of 18 after_c3] have "reachable (at_rest after_c3 kEasy 0)"
    using opening_flips(1) by (simp add: LegalMoves_iff)
  from reach_black_move [OF this, of 1 2 after_b3] have "reachable (searching after_b3 kEasy 0 after_b3 0)"
    by simp
  from reach_stale_answer [OF reach_undo [OF this]] have "reachable (at_rest ?undone kEasy 1)"
    by simp
  moreover have undone: "fCells ?undone = fCells after_d3" "fTurn ?undone = kWhite"
    by (simp_all add: undo_b3)
  moreover have "\<not> Over ?undone"
    using opening_open(2) by (simp add: undo_b3)
  ultimately have "reachable (at_rest ?undone kEasy 1) \<and> stranded (at_rest ?undone kEasy 1)"
    by (simp add: stranded_def window_states)
  moreover have "fGame (at_rest ?undone kEasy 1) = ?undone" "fGeneration (at_rest ?undone kEasy 1) = 1"
    by (simp_all add: window_states)
  ultimately show ?thesis using stranded_ignores_clicks undone(1) by metis
qed

text \<open>The opening move is made and the machine is searching; then its answer is posted.\<close>

lemma reach_searching_d3: "reachable (searching after_d3 kMedium 0 after_d3 0)"
proof -
  have "reachable (at_rest Reset kMedium 0)"
    using reach_init by (simp add: window_states)
  from reach_black_move [OF this, of 3 2 after_d3] show ?thesis by simp
qed

definition answer_posted :: game_window where
  "answer_posted = (at_rest after_d3 kMedium 0)\<lparr>fThinking := True,
     fQueue := [thinker_answer (\<lambda>_. False) 0 (Searching after_d3 kMedium 0)]\<rparr>"

lemma reach_answer_posted: "reachable answer_posted"
  using reach_answer [OF reach_searching_d3, where g = after_d3 and l = kMedium and n = 0]
  by (simp add: answer_posted_def window_states)

theorem awaited_answer_is_played_witness:
  "\<exists>m g. Play after_d3 m = (True, g) \<and> Empties after_d3 = Suc (Empties g)"
proof -
  have "LegalMoves after_d3 kWhite \<noteq> []"
    using opening_flips(1) by (intro LegalMoves_nonempty [of 18]) simp_all
  then show ?thesis
    using awaited_answer_is_played [OF reach_answer_posted, of "\<lambda>_. False" 0 "[]" True]
    by (auto simp: answer_posted_def thinker_start_def window_states)
qed

theorem answers_play_white_witness:
  "\<exists>s. fQueue answer_posted = [MSG_AI_MOVE s 0] \<and>
    (let w' = MessageReceived True (MSG_AI_MOVE s 0) (answer_posted\<lparr>fQueue := []\<rparr>) in
      fGame w' = after_d3 \<or> Play after_d3 (nat s) = (True, fGame w'))"
proof -
  obtain s where q: "fQueue answer_posted = [MSG_AI_MOVE s 0]"
    by (simp add: answer_posted_def thinker_answer_def)
  have "fGame answer_posted = after_d3" by (simp add: answer_posted_def window_states)
  with q answers_play_white [OF reach_answer_posted q, of True] show ?thesis
    by (auto simp: Let_def)
qed

subsection \<open>Scripting\<close>

lemma scan_show_nat:
  assumes "rest = [] \<or> \<not> is_digit (hd rest)"
  shows "scan_int (show_nat n @ rest) = Some (int n, rest)"
proof -
  obtain d ds where s: "show_nat n = d # ds" by (cases "show_nat n") auto
  have d: "is_digit d" using show_nat_digits [of d n] s by simp
  then have "\<not> is_space d" "d \<noteq> CHR ''-''" "d \<noteq> CHR ''+''"
    by (auto simp: is_digit_def is_space_def less_eq_char_iff)
  then show ?thesis
    using read_show_nat [OF assms, of n] d by (simp add: scan_int_def s)
qed

lemma scan_int_space: "scan_int (CHR '' '' # s) = scan_int s"
  by (simp add: scan_int_def is_space_def)

text \<open>
  A move scripted as text reaches the board as the move meant: for any row and column on the
  board the decimal text "row col" makes \<open>Play\<close> post the square \<open>row * 8 + col\<close>, and the window,
  handling it, plays exactly that square.
\<close>

theorem scripted_move_is_played:
  assumes "row < 8" and "col < 8"
  shows "HandleScripting w (DString (show_nat row @ '' '' @ show_nat col)) ''Play'' B_EXECUTE_PROPERTY
      = Some ([MSG_SCRIPT_PLAY (int (row * 8 + col)) (-1) (-1)], ReplyString '''')
    \<and> MessageReceived ok (MSG_SCRIPT_PLAY (int (row * 8 + col)) (-1) (-1)) w
      = PlayMove ok (row * 8 + col) w"
proof -
  have "\<not> is_digit CHR '' ''" by (simp add: is_digit_def less_eq_char_iff)
  then have "scan_row_col (show_nat row @ '' '' @ show_nat col) = Some (int row, int col)"
    using scan_show_nat [of "'' '' @ show_nat col" row] scan_show_nat [of "[]" col]
    by (simp add: scan_row_col_def scan_int_space)
  moreover have "nat (int row * 8 + int col) = row * 8 + col" by simp
  ultimately show ?thesis
    using assms by (simp add: HandleScripting_def script_square_def Let_def)
qed

theorem scripted_move_is_played_witness:
  "HandleScripting initial_window (DString (show_nat 2 @ '' '' @ show_nat 3)) ''Play'' B_EXECUTE_PROPERTY
      = Some ([MSG_SCRIPT_PLAY (int (2 * 8 + 3)) (-1) (-1)], ReplyString '''')
    \<and> MessageReceived True (MSG_SCRIPT_PLAY (int (2 * 8 + 3)) (-1) (-1)) initial_window
      = PlayMove True (2 * 8 + 3) initial_window"
  by (rule scripted_move_is_played) simp_all

text \<open>
  A draw is announced as "32 all" whatever the count: on a board where neither side can move
  and each holds one disc the game is over, and the text says 32.
\<close>

theorem draw_announced_as_32:
  "let g = snd (FromString Reset (''b'' @ replicate 62 CHR ''.'' @ ''w'') kBlack) in
    Over g \<and> Counts g = (1, 1) \<and> announce_text g = ''A draw, 32 all.''"
proof -
  let ?g = "snd (FromString Reset (''b'' @ replicate 62 CHR ''.'' @ ''w'') kBlack)"
  have "Over ?g" by code_simp
  moreover have "Counts ?g = (1, 1)" by code_simp
  ultimately show ?thesis by (simp add: Let_def announce_text_def)
qed

end
