(* ===== verification/Json.thy ===== *)
theory Json
  imports Prelude
begin

text \<open>
  The JSON reader and writer of the clangd server, \<open>clangdserver/app/src/json.h\<close> and
  \<open>json.cpp\<close>. A \<open>JVal\<close> has all the fields of the class at once, as the code has; which of them
  count is \<open>fKind\<close>. Text is a list of bytes. The number type is a parameter: \<open>num_lib\<close> holds
  what the code takes from the C library and the kit, \<open>strtod\<close>, the conversions between
  \<open>double\<close> and \<open>int64\<close>, and the printing of a \<open>double\<close>.
\<close>

section \<open>Values\<close>

datatype Kind = KNull | KBool | KNumber | KString | KArray | KObject

datatype 'n JVal = JV (fKind: Kind) (fBool: bool) (fNumber: 'n) (fString: string)
  (fArray: "'n JVal list") (fKeys: "string list")

record 'n num_lib =
  strtod :: "string \<Rightarrow> 'n"
  of_int64 :: "int \<Rightarrow> 'n"
  to_int64 :: "'n \<Rightarrow> int"
  show_double :: "'n \<Rightarrow> string"

definition JNull :: "'n :: zero JVal" where
  "JNull = JV KNull False 0 [] [] []"

definition JBool :: "bool \<Rightarrow> 'n :: zero JVal" where
  "JBool b = JV KBool b 0 [] [] []"

definition JNumber :: "'n :: zero \<Rightarrow> 'n JVal" where
  "JNumber n = JV KNumber False n [] [] []"

definition JString :: "string \<Rightarrow> 'n :: zero JVal" where
  "JString s = JV KString False 0 s [] []"

definition AsInt :: "'n num_lib \<Rightarrow> 'n JVal \<Rightarrow> int" where
  "AsInt L v = to_int64 L (fNumber v)"

definition Add :: "'n JVal \<Rightarrow> 'n JVal \<Rightarrow> 'n JVal" where
  "Add a v = JV KArray (fBool a) (fNumber a) (fString a) (fArray a @ [v]) (fKeys a)"

definition Count :: "'n JVal \<Rightarrow> nat" where
  "Count a = length (fArray a)"

definition BecomeObject :: "'n JVal \<Rightarrow> 'n JVal" where
  "BecomeObject a = JV KObject (fBool a) (fNumber a) (fString a) (fArray a) (fKeys a)"

text \<open>The search for a key, as the loops of \<open>Set\<close>, \<open>Has\<close> and \<open>Get\<close> do it: the first match.\<close>

fun key_index :: "string list \<Rightarrow> string \<Rightarrow> nat option" where
  "key_index [] key = None"
| "key_index (k # ks) key = (if k = key then Some 0 else map_option Suc (key_index ks key))"

definition JSet :: "'n JVal \<Rightarrow> string \<Rightarrow> 'n JVal \<Rightarrow> 'n JVal" where
  "JSet a key v =
     (case key_index (fKeys a) key of
        Some i \<Rightarrow> JV KObject (fBool a) (fNumber a) (fString a) ((fArray a)[i := v]) (fKeys a)
      | None \<Rightarrow> JV KObject (fBool a) (fNumber a) (fString a) (fArray a @ [v]) (fKeys a @ [key]))"

definition Has :: "'n JVal \<Rightarrow> string \<Rightarrow> bool" where
  "Has a key = (key_index (fKeys a) key \<noteq> None)"

definition Get :: "'n :: zero JVal \<Rightarrow> string \<Rightarrow> 'n JVal" where
  "Get a key = (case key_index (fKeys a) key of Some i \<Rightarrow> fArray a ! i | None \<Rightarrow> JNull)"

section \<open>The writer\<close>

text \<open>A \<open>const char*\<close> ends at the first NUL.\<close>

definition c_string :: "string \<Rightarrow> string" where
  "c_string s = takeWhile (\<lambda>c. c \<noteq> CHR 0x00) s"

definition byte :: "char \<Rightarrow> nat" where
  "byte c = of_char c"

definition hex_digit :: "nat \<Rightarrow> char" where
  "hex_digit d = (if d < 10 then char_of (48 + d) else char_of (87 + d))"

text \<open>\<open>"\u%04x"\<close> of a byte.\<close>

definition unicode_escape :: "nat \<Rightarrow> string" where
  "unicode_escape n = [CHR 0x5C, CHR ''u'', hex_digit (n div 4096 mod 16),
     hex_digit (n div 256 mod 16), hex_digit (n div 16 mod 16), hex_digit (n mod 16)]"

definition escape_char :: "char \<Rightarrow> string" where
  "escape_char c =
     (if c = CHR 0x22 then [CHR 0x5C, CHR 0x22]
      else if c = CHR 0x5C then [CHR 0x5C, CHR 0x5C]
      else if c = CHR 0x0A then [CHR 0x5C, CHR ''n'']
      else if c = CHR 0x0D then [CHR 0x5C, CHR ''r'']
      else if c = CHR 0x09 then [CHR 0x5C, CHR ''t'']
      else if byte c < 0x20 then unicode_escape (byte c) else [c])"

definition JEscape :: "string \<Rightarrow> string" where
  "JEscape text = CHR 0x22 # concat (List.map escape_char (c_string text)) @ [CHR 0x22]"

fun join_comma :: "string list \<Rightarrow> string" where
  "join_comma [] = []"
| "join_comma [x] = x"
| "join_comma (x # y # xs) = x @ '','' @ join_comma (y # xs)"

fun ToJson :: "'n num_lib \<Rightarrow> 'n JVal \<Rightarrow> string" where
  "ToJson L (JV k b n s vs ks) =
     (case k of
        KNull \<Rightarrow> ''null''
      | KBool \<Rightarrow> if b then ''true'' else ''false''
      | KNumber \<Rightarrow> if n = of_int64 L (to_int64 L n) then show_int (to_int64 L n) else show_double L n
      | KString \<Rightarrow> JEscape s
      | KArray \<Rightarrow> ''['' @ join_comma (List.map (ToJson L) vs) @ '']''
      | KObject \<Rightarrow> ''{'' @ join_comma (List.map2 (\<lambda>key t. JEscape key @ '':'' @ t) ks
          (List.map (ToJson L) vs)) @ ''}'')"

section \<open>The reader\<close>

text \<open>
  The functions of \<open>struct Reader\<close> take the text from \<open>p\<close> to \<open>end\<close> and return the value and the
  text left, or the message of the failure (the first failure ends the parse, so it is the one
  \<open>JParse\<close> reports).
\<close>

text \<open>The messages that hold a quote or a backslash.\<close>

definition quoted :: "char \<Rightarrow> string" where
  "quoted c = [CHR 0x27, c, CHR 0x27]"

definition short_escape :: string where
  "short_escape = ''short '' @ [CHR 0x5C] @ ''u escape''"

definition bad_hex_digit :: string where
  "bad_hex_digit = ''bad hex digit in '' @ [CHR 0x5C] @ ''u escape''"

definition colon_expected :: string where
  "colon_expected = quoted (CHR '':'') @ '' expected''"

definition comma_or_brace_expected :: string where
  "comma_or_brace_expected = quoted (CHR '','') @ '' or '' @ quoted (CHR 0x7D) @ '' expected''"

definition comma_or_bracket_expected :: string where
  "comma_or_bracket_expected = quoted (CHR '','') @ '' or '' @ quoted (CHR 0x5D) @ '' expected''"

definition is_json_space :: "char \<Rightarrow> bool" where
  "is_json_space c \<longleftrightarrow> c = CHR '' '' \<or> c = CHR 0x09 \<or> c = CHR 0x0A \<or> c = CHR 0x0D"

definition SkipSpace :: "string \<Rightarrow> string" where
  "SkipSpace s = dropWhile is_json_space s"

definition hex_value :: "char \<Rightarrow> nat option" where
  "hex_value h =
     (if CHR ''0'' \<le> h \<and> h \<le> CHR ''9'' then Some (byte h - 48)
      else if CHR ''a'' \<le> h \<and> h \<le> CHR ''f'' then Some (byte h - 97 + 10)
      else if CHR ''A'' \<le> h \<and> h \<le> CHR ''F'' then Some (byte h - 65 + 10)
      else None)"

fun hex_digits :: "string \<Rightarrow> nat \<Rightarrow> nat option" where
  "hex_digits [] v = Some v"
| "hex_digits (h # hs) v = (case hex_value h of None \<Rightarrow> None | Some d \<Rightarrow> hex_digits hs (16 * v + d))"

text \<open>\<open>ParseUnicode\<close> reads four digits; on success the reader moves on by four.\<close>

definition ParseUnicode :: "string \<Rightarrow> string + nat" where
  "ParseUnicode s =
     (if length s < 4 then Inl short_escape
      else case hex_digits (take 4 s) 0 of
        None \<Rightarrow> Inl bad_hex_digit
      | Some v \<Rightarrow> if 0xDC00 \<le> v \<and> v \<le> 0xDFFF then Inl ''lone low surrogate'' else Inr v)"

text \<open>\<open>BString::Append(buf, n)\<close> takes the bytes of a C string, so none from a NUL on.\<close>

definition AppendUtf8 :: "string \<Rightarrow> nat \<Rightarrow> string option" where
  "AppendUtf8 out cp =
     (if cp > 0x10FFFF then None
      else Some (out @ c_string (List.map char_of
        (if cp < 0x80 then [cp]
         else if cp < 0x800 then [0xC0 OR drop_bit 6 cp, 0x80 OR (cp AND 0x3F)]
         else if cp < 0x10000 then
           [0xE0 OR drop_bit 12 cp, 0x80 OR (drop_bit 6 cp AND 0x3F), 0x80 OR (cp AND 0x3F)]
         else [0xF0 OR drop_bit 18 cp, 0x80 OR (drop_bit 12 cp AND 0x3F),
           0x80 OR (drop_bit 6 cp AND 0x3F), 0x80 OR (cp AND 0x3F)]))))"

definition simple_escape :: "char \<Rightarrow> char option" where
  "simple_escape e =
     (if e = CHR 0x22 then Some (CHR 0x22) else if e = CHR 0x5C then Some (CHR 0x5C)
      else if e = CHR ''/'' then Some (CHR ''/'') else if e = CHR ''b'' then Some (CHR 0x08)
      else if e = CHR ''f'' then Some (CHR 0x0C) else if e = CHR ''n'' then Some (CHR 0x0A)
      else if e = CHR ''r'' then Some (CHR 0x0D) else if e = CHR ''t'' then Some (CHR 0x09)
      else None)"

text \<open>
  The case \<open>'u'\<close> of \<open>ParseString\<close>, \<open>s\<close> being the text after the \<open>u\<close>: the code point and how many
  bytes it took.
\<close>

definition parse_u_escape :: "string \<Rightarrow> string + nat \<times> nat" where
  "parse_u_escape s =
     (case ParseUnicode s of
        Inl e \<Rightarrow> Inl e
      | Inr cp \<Rightarrow>
          let p = drop 4 s in
          if 0xD800 \<le> cp \<and> cp \<le> 0xDBFF \<and> length p \<ge> 6 \<and> take 2 p = [CHR 0x5C, CHR ''u''] then
            (case ParseUnicode (drop 2 p) of
               Inl e \<Rightarrow> Inl e
             | Inr lo \<Rightarrow> if 0xDC00 \<le> lo \<and> lo \<le> 0xDFFF
                 then Inr (0x10000 + 1024 * (cp - 0xD800) + (lo - 0xDC00), 10)
                 else Inl ''bad low surrogate'')
          else Inr (cp, 4))"

function ParseString :: "string \<Rightarrow> string \<Rightarrow> string + string \<times> string" where
  "ParseString s out =
     (case s of
        [] \<Rightarrow> Inl ''string not closed''
      | c # cs \<Rightarrow>
          if c = CHR 0x22 then Inr (out, cs)
          else if c = CHR 0x5C then
            (case cs of
               [] \<Rightarrow> Inl ''escape at end of string''
             | e # es \<Rightarrow>
                 if e = CHR ''u'' then
                   (case parse_u_escape es of
                      Inl msg \<Rightarrow> Inl msg
                    | Inr (cp, n) \<Rightarrow> (case AppendUtf8 out cp of
                        None \<Rightarrow> Inl ''bad code point''
                      | Some out' \<Rightarrow> ParseString (drop n es) out'))
                 else (case simple_escape e of
                     None \<Rightarrow> Inl ''unknown escape''
                   | Some x \<Rightarrow> ParseString es (out @ [x])))
          else if byte c < 0x20 then Inl ''control character in string''
          else ParseString cs (out @ [c]))"
  by pat_completeness auto
termination
  by (relation "measure (\<lambda>(s, out). length s)") (auto split: list.splits)

declare ParseString.simps [simp del]

text \<open>\<open>ParseNumber\<close>: the lexeme is what \<open>p\<close> runs over.\<close>

definition sign_span :: "string \<Rightarrow> string \<times> string" where
  "sign_span s = (case s of c # cs \<Rightarrow> if c = CHR ''-'' \<or> c = CHR ''+'' then ([c], cs) else ([], s)
     | [] \<Rightarrow> ([], s))"

definition digit_span :: "string \<Rightarrow> string \<times> string" where
  "digit_span s = (takeWhile is_digit s, dropWhile is_digit s)"

definition fraction_span :: "string \<Rightarrow> string \<times> bool \<times> string" where
  "fraction_span s = (case s of
       c # cs \<Rightarrow> if c = CHR ''.'' then (case digit_span cs of (fs, r) \<Rightarrow> (c # fs, fs \<noteq> [], r))
         else ([], False, s)
     | [] \<Rightarrow> ([], False, s))"

definition exponent_span :: "string \<Rightarrow> string \<times> string" where
  "exponent_span s = (case s of
       c # cs \<Rightarrow> if c = CHR ''e'' \<or> c = CHR ''E'' then
           (case sign_span cs of (sg, r) \<Rightarrow> case digit_span r of (es, r') \<Rightarrow> (c # sg @ es, r'))
         else ([], s)
     | [] \<Rightarrow> ([], s))"

definition number_span :: "string \<Rightarrow> string \<times> bool \<times> string" where
  "number_span s =
     (case sign_span s of (sign, s1) \<Rightarrow>
      case digit_span s1 of (ds, s2) \<Rightarrow>
      case fraction_span s2 of (frac, fdigits, s3) \<Rightarrow>
      case exponent_span s3 of (ex, s4) \<Rightarrow> (sign @ ds @ frac @ ex, ds \<noteq> [] \<or> fdigits, s4))"

datatype 'a outcome = OutOfFuel | Fail string | Ok 'a string

definition ParseNumber :: "'n :: zero num_lib \<Rightarrow> string \<Rightarrow> 'n JVal outcome" where
  "ParseNumber L s =
     (case number_span s of (lexeme, digits, rest) \<Rightarrow>
        if \<not> digits then Fail ''not a number''
        else if length lexeme \<ge> 64 then Fail ''number too long''
        else Ok (JNumber (strtod L lexeme)) rest)"

definition parse_literal :: "string \<Rightarrow> 'n JVal \<Rightarrow> string \<Rightarrow> 'n JVal outcome" where
  "parse_literal word v s =
     (if take (length word) s = word then Ok v (drop (length word) s) else Fail ''bad literal'')"

text \<open>
  The recursive part. The two loops and the two functions around them take the nested
  \<open>ParseValue\<close> as an argument, \<open>nested\<close>: it is the call \<open>ParseValue(v, depth + 1)\<close> on a fresh
  \<open>v\<close>. The fuel of a loop counts its rounds, that of \<open>ParseValue\<close> the nested calls;
  \<open>JParse_returns\<close> shows that both always suffice.
\<close>

fun object_loop :: "(string \<Rightarrow> 'n JVal outcome) \<Rightarrow> nat \<Rightarrow> string \<Rightarrow> 'n JVal \<Rightarrow> 'n JVal outcome" where
  "object_loop nested 0 s out = OutOfFuel"
| "object_loop nested (Suc rounds) s out =
     (case SkipSpace s of
        [] \<Rightarrow> Fail ''object key expected''
      | c # cs \<Rightarrow>
          if c \<noteq> CHR 0x22 then Fail ''object key expected''
          else case ParseString cs [] of
            Inl e \<Rightarrow> Fail e
          | Inr (key, r1) \<Rightarrow>
              (case SkipSpace r1 of
                 [] \<Rightarrow> Fail colon_expected
               | c1 # r2 \<Rightarrow>
                   if c1 \<noteq> CHR '':'' then Fail colon_expected
                   else case nested r2 of
                     OutOfFuel \<Rightarrow> OutOfFuel
                   | Fail e \<Rightarrow> Fail e
                   | Ok v r3 \<Rightarrow>
                       (case SkipSpace r3 of
                          [] \<Rightarrow> Fail comma_or_brace_expected
                        | c2 # r4 \<Rightarrow>
                            if c2 = CHR '','' then object_loop nested rounds r4 (JSet out (c_string key) v)
                            else if c2 = CHR 0x7D then Ok (JSet out (c_string key) v) r4
                            else Fail comma_or_brace_expected)))"

fun array_loop :: "(string \<Rightarrow> 'n JVal outcome) \<Rightarrow> nat \<Rightarrow> string \<Rightarrow> 'n JVal \<Rightarrow> 'n JVal outcome" where
  "array_loop nested 0 s out = OutOfFuel"
| "array_loop nested (Suc rounds) s out =
     (case nested s of
        OutOfFuel \<Rightarrow> OutOfFuel
      | Fail e \<Rightarrow> Fail e
      | Ok v r \<Rightarrow>
          (case SkipSpace r of
             [] \<Rightarrow> Fail comma_or_bracket_expected
           | c2 # r' \<Rightarrow>
               if c2 = CHR '','' then array_loop nested rounds r' (Add out v)
               else if c2 = CHR 0x5D then Ok (Add out v) r'
               else Fail comma_or_bracket_expected))"

definition ParseObject :: "(string \<Rightarrow> 'n JVal outcome) \<Rightarrow> string \<Rightarrow> 'n JVal \<Rightarrow> 'n JVal outcome" where
  "ParseObject nested cs out =
     (case SkipSpace cs of
        c # r \<Rightarrow> if c = CHR 0x7D then Ok (BecomeObject out) r
          else object_loop nested (Suc (length cs)) (c # r) (BecomeObject out)
      | [] \<Rightarrow> object_loop nested (Suc (length cs)) [] (BecomeObject out))"

definition ParseArray :: "(string \<Rightarrow> 'n :: zero JVal outcome) \<Rightarrow> string \<Rightarrow> 'n JVal outcome" where
  "ParseArray nested cs =
     (case SkipSpace cs of
        c # r \<Rightarrow> if c = CHR 0x5D then Ok JNull r
          else array_loop nested (Suc (length cs)) (c # r) JNull
      | [] \<Rightarrow> array_loop nested (Suc (length cs)) [] JNull)"

primrec ParseValue :: "'n :: zero num_lib \<Rightarrow> nat \<Rightarrow> nat \<Rightarrow> string \<Rightarrow> 'n JVal \<Rightarrow> 'n JVal outcome" where
  "ParseValue L 0 depth s out = OutOfFuel"
| "ParseValue L (Suc fuel) depth s out =
     (if depth > 64 then Fail ''nesting deeper than 64''
      else case SkipSpace s of
        [] \<Rightarrow> Fail ''value expected at end of text''
      | c # cs \<Rightarrow>
          if c = CHR 0x7B then ParseObject (\<lambda>r. ParseValue L fuel (Suc depth) r JNull) cs out
          else if c = CHR 0x5B then ParseArray (\<lambda>r. ParseValue L fuel (Suc depth) r JNull) cs
          else if c = CHR 0x22 then (case ParseString cs [] of
              Inl e \<Rightarrow> Fail e
            | Inr (str, rest) \<Rightarrow> Ok (JString str) rest)
          else if c = CHR ''t'' then parse_literal ''true'' (JBool True) (c # cs)
          else if c = CHR ''f'' then parse_literal ''false'' (JBool False) (c # cs)
          else if c = CHR ''n'' then parse_literal ''null'' JNull (c # cs)
          else ParseNumber L (c # cs))"

text \<open>The depth starts at 0 and 65 is refused: 66 nested calls.\<close>

definition parse_fuel :: nat where
  "parse_fuel = 66"

text \<open>\<open>JParse\<close>: the value, or the error text; \<open>None\<close> would be a parse that does not return.\<close>

definition JParse :: "'n :: zero num_lib \<Rightarrow> string \<Rightarrow> 'n JVal \<Rightarrow> (string + 'n JVal) option" where
  "JParse L text out =
     (case ParseValue L parse_fuel 0 text out of
        OutOfFuel \<Rightarrow> None
      | Fail e \<Rightarrow> Some (Inl e)
      | Ok v rest \<Rightarrow> if SkipSpace rest \<noteq> [] then Some (Inl ''text after the document'')
          else Some (Inr v))"

section \<open>Every parse returns\<close>

lemma SkipSpace_length: "length (SkipSpace s) \<le> length s"
  by (simp add: SkipSpace_def length_dropWhile_le)

lemma SkipSpace_Cons_length: "SkipSpace s = c # r \<Longrightarrow> length r < length s"
  using SkipSpace_length [of s] by simp

lemma ParseString_length: "ParseString s out = Inr (text, rest) \<Longrightarrow> length rest < length s"
proof (induction s out rule: ParseString.induct)
  case (1 s out)
  show ?case
    using "1.prems" "1.IH"
    by (subst (asm) ParseString.simps)
      (force simp: Let_def split: list.splits if_splits sum.splits prod.splits option.splits
        dest: less_SucI)
qed

lemma sign_span_split: "sign_span s = (a, b) \<Longrightarrow> a @ b = s"
  by (auto simp: sign_span_def split: list.splits if_splits)

lemma digit_span_split: "digit_span s = (a, b) \<Longrightarrow> a @ b = s"
  by (auto simp: digit_span_def)

lemma fraction_span_split: "fraction_span s = (a, d, b) \<Longrightarrow> a @ b = s"
  by (auto simp: fraction_span_def split: list.splits if_splits prod.splits dest!: digit_span_split)

lemma exponent_span_split: "exponent_span s = (a, b) \<Longrightarrow> a @ b = s"
  by (auto simp: exponent_span_def split: list.splits if_splits prod.splits
      dest!: sign_span_split digit_span_split)

lemma number_span_split: "number_span s = (lexeme, digits, rest) \<Longrightarrow> lexeme @ rest = s"
  by (auto simp: number_span_def split: prod.splits
      dest!: sign_span_split digit_span_split fraction_span_split exponent_span_split)

lemma number_span_rest_length:
  "number_span s = (lexeme, digits, rest) \<Longrightarrow> length rest \<le> length s"
  by (auto dest: number_span_split)

lemma ParseNumber_result:
  "ParseNumber L s \<noteq> OutOfFuel"
  "ParseNumber L s = Ok v rest \<Longrightarrow> length rest \<le> length s"
  by (auto simp: ParseNumber_def number_span_rest_length split: prod.splits if_splits)

lemma parse_literal_result:
  "parse_literal w v s \<noteq> OutOfFuel"
  "parse_literal w v s = Ok v' rest \<Longrightarrow> length rest \<le> length s"
  by (auto simp: parse_literal_def split: if_splits)

text \<open>What \<open>ParseValue\<close> owes its callers: it returns, and leaves no more text than it was given.\<close>

definition returns_within :: "('n JVal outcome) \<Rightarrow> nat \<Rightarrow> bool" where
  "returns_within r n = (case r of OutOfFuel \<Rightarrow> False | Fail e \<Rightarrow> True | Ok v rest \<Rightarrow> length rest \<le> n)"

lemma returns_within_mono: "returns_within r m \<Longrightarrow> m \<le> n \<Longrightarrow> returns_within r n"
  by (auto simp: returns_within_def split: outcome.splits)

lemma object_loop_returns:
  assumes nested: "\<And>s. returns_within (nested s) (length s)"
  shows "length s < rounds \<Longrightarrow> returns_within (object_loop nested rounds s out) (length s)"
proof (induction rounds arbitrary: s out)
  case (Suc rounds)
  have IH: "returns_within (object_loop nested rounds r out') (length s)" if "length r < length s"
    for r out'
    using Suc that by (intro returns_within_mono [OF Suc.IH]) simp_all
  show ?case
  proof (cases "SkipSpace s")
    case (Cons c cs)
    note s = SkipSpace_Cons_length [OF Cons]
    show ?thesis
    proof (cases "ParseString cs []")
      case (Inr p)
      obtain key r1 where p: "p = (key, r1)" by fastforce
      note r1 = ParseString_length [OF Inr [unfolded p]]
      show ?thesis
      proof (cases "SkipSpace r1")
        case r2: (Cons c1 r2)
        note nested [of r2] SkipSpace_Cons_length [OF r2]
        then show ?thesis
          using s r1 Cons Inr p r2 IH
          by (cases "nested r2")
            (auto simp: returns_within_def split: list.splits dest!: SkipSpace_Cons_length)
      qed (simp add: Cons Inr p returns_within_def)
    qed (simp add: Cons returns_within_def)
  qed (simp add: returns_within_def)
qed simp

lemma array_loop_returns:
  assumes nested: "\<And>s. returns_within (nested s) (length s)"
  shows "length s < rounds \<Longrightarrow> returns_within (array_loop nested rounds s out) (length s)"
proof (induction rounds arbitrary: s out)
  case (Suc rounds)
  have IH: "returns_within (array_loop nested rounds r out') (length s)" if "length r < length s"
    for r out'
    using Suc that by (intro returns_within_mono [OF Suc.IH]) simp_all
  show ?case
    using nested [of s] IH
    by (cases "nested s")
      (auto simp: returns_within_def split: list.splits dest!: SkipSpace_Cons_length)
qed simp

lemma ParseObject_returns:
  assumes "\<And>s. returns_within (nested s) (length s)"
  shows "returns_within (ParseObject nested cs out) (length cs)"
proof (cases "SkipSpace cs")
  case Nil
  with object_loop_returns [OF assms, of "[]" "Suc (length cs)"] show ?thesis
    by (auto simp: ParseObject_def intro: returns_within_mono)
next
  case (Cons c r)
  then have le: "length (c # r) \<le> length cs"
    using SkipSpace_length [of cs] by simp
  then have "returns_within (object_loop nested (Suc (length cs)) (c # r) (BecomeObject out)) (length cs)"
    by (intro returns_within_mono [OF object_loop_returns [OF assms]]) simp_all
  with Cons le show ?thesis
    by (simp add: ParseObject_def) (simp add: returns_within_def)
qed

lemma ParseArray_returns:
  assumes "\<And>s. returns_within (nested s) (length s)"
  shows "returns_within (ParseArray nested cs) (length cs)"
proof (cases "SkipSpace cs")
  case Nil
  with array_loop_returns [OF assms, of "[]" "Suc (length cs)"] show ?thesis
    by (auto simp: ParseArray_def intro: returns_within_mono)
next
  case (Cons c r)
  then have le: "length (c # r) \<le> length cs"
    using SkipSpace_length [of cs] by simp
  then have "returns_within (array_loop nested (Suc (length cs)) (c # r) JNull) (length cs)"
    by (intro returns_within_mono [OF array_loop_returns [OF assms]]) simp_all
  with Cons le show ?thesis
    by (simp add: ParseArray_def) (simp add: returns_within_def)
qed

lemma parse_leaf_returns:
  "returns_within (ParseNumber L s) (length s)"
  "returns_within (parse_literal w v s) (length s)"
  using ParseNumber_result [of L s] parse_literal_result [of w v s]
  by (auto simp: returns_within_def split: outcome.splits)

lemma ParseValue_returns:
  "0 < fuel \<Longrightarrow> 66 \<le> fuel + depth \<Longrightarrow> returns_within (ParseValue L fuel depth s out) (length s)"
proof (induction fuel arbitrary: depth s out)
  case (Suc fuel)
  show ?case
  proof (cases "depth > 64")
    case False
    with Suc have nested: "returns_within (ParseValue L fuel (Suc depth) r JNull) (length r)" for r
      by simp
    show ?thesis
    proof (cases "SkipSpace s")
      case (Cons c cs)
      then have le: "length (c # cs) \<le> length s"
        using SkipSpace_length [of s] by simp
      have "returns_within (ParseNumber L (c # cs)) (length s)"
        "returns_within (parse_literal w v (c # cs)) (length s)" for w v
        using parse_leaf_returns le by (metis returns_within_mono)+
      moreover have "returns_within (ParseObject (\<lambda>r. ParseValue L fuel (Suc depth) r JNull) cs out)
          (length s)"
        "returns_within (ParseArray (\<lambda>r. ParseValue L fuel (Suc depth) r JNull) cs) (length s)"
        using le by (auto intro!: returns_within_mono [OF ParseObject_returns]
            returns_within_mono [OF ParseArray_returns] nested)
      moreover have "returns_within (case ParseString cs [] of Inl e \<Rightarrow> Fail e
          | Inr (str, rest) \<Rightarrow> Ok (JString str) rest) (length s)"
        using le by (auto simp: returns_within_def split: sum.splits dest!: ParseString_length)
      ultimately show ?thesis
        using False Cons by (simp only: ParseValue.simps list.case if_False split: if_split) auto
    qed (simp add: returns_within_def)
  qed (simp add: returns_within_def)
qed simp

text \<open>
  C25 Every parse returns: for every text, however malformed or deeply nested, \<open>JParse\<close> gives a
  value or an error message.
\<close>

theorem JParse_returns: "\<exists>result. JParse L text out = Some result"
proof -
  have "returns_within (ParseValue L parse_fuel 0 text out) (length text)"
    by (rule ParseValue_returns) (simp_all add: parse_fuel_def)
  then show ?thesis
    by (auto simp: JParse_def returns_within_def split: outcome.splits)
qed

section \<open>Strings\<close>

lemma hex_value_hex_digit [simp]:
  assumes "d < 16"
  shows "hex_value (hex_digit d) = Some d"
proof (cases "d < 10")
  case True
  define h where "h = hex_digit d"
  have "of_char h = 48 + d"
    using True by (simp add: h_def hex_digit_def)
  with True show ?thesis
    unfolding h_def [symmetric] by (simp add: hex_value_def byte_def less_eq_char_iff)
next
  case False
  define h where "h = hex_digit d"
  obtain e where d: "d = 10 + e"
    using False by (metis le_iff_add not_less)
  then have e: "e < 6" and h: "of_char h = 97 + e"
    using assms by (simp_all add: h_def hex_digit_def)
  have "\<not> h \<le> CHR ''9''" "CHR ''a'' \<le> h" "h \<le> CHR ''f''"
    using e by (simp_all only: less_eq_char_iff h of_char_Char) simp_all
  then have "hex_value h = Some (byte h - 97 + 10)"
    by (simp add: hex_value_def)
  with h d show ?thesis
    by (simp add: byte_def h_def)
qed

lemma ParseUnicode_escape:
  assumes "n < 0x100"
  shows "ParseUnicode (drop 2 (unicode_escape n) @ rest) = Inr n"
proof -
  have "n div 4096 = 0" "n div 256 = 0" "n div 16 mod 16 = n div 16" "n div 16 < 16"
    using assms by (simp_all add: less_mult_imp_div_less)
  moreover have "16 * (n div 16) + n mod 16 = n"
    by simp
  ultimately show ?thesis
    using assms by (simp add: ParseUnicode_def unicode_escape_def)
qed

lemma c_string_id [simp]: "CHR 0x00 \<notin> set s \<Longrightarrow> c_string s = s"
  by (auto simp: c_string_def takeWhile_eq_all_conv)

lemma c_string_no_nul [simp]: "CHR 0x00 \<notin> set (c_string s)"
  by (auto simp: c_string_def dest: set_takeWhileD)

lemma char_of_byte [simp]: "char_of (byte c) = c"
  by (simp add: byte_def)

lemma byte_char_of [simp]: "byte (char_of n) = n mod 256"
  by (simp add: byte_def)

lemma byte_less [simp]: "byte c < 256"
  by (metis byte_char_of char_of_byte mod_less_divisor zero_less_numeral)

lemma byte_inject: "byte c = byte d \<longleftrightarrow> c = d"
  by (metis char_of_byte)

lemma byte_eq_0 [simp]: "byte c = 0 \<longleftrightarrow> c = CHR 0x00"
  using byte_inject [of c "CHR 0x00"] by (simp add: byte_def)

lemma AppendUtf8_ascii:
  assumes "0 < n" "n < 0x80"
  shows "AppendUtf8 out n = Some (out @ [char_of n])"
proof -
  have "char_of n \<noteq> CHR 0x00"
    using assms byte_eq_0 [of "char_of n"] by simp
  then show ?thesis
    using assms by (simp add: AppendUtf8_def c_string_def)
qed

lemma ParseString_escape:
  assumes "c \<noteq> CHR 0x00"
  shows "ParseString (escape_char c @ s) out = ParseString s (out @ [c])"
proof (cases "byte c < 0x20 \<and> c \<notin> {CHR 0x0A, CHR 0x0D, CHR 0x09}")
  case True
  define n where "n = byte c"
  then have n: "0 < n" "n < 32" "char_of n = c"
    using True assms byte_eq_0 [of c] by (auto simp del: byte_eq_0)
  have c: "c \<noteq> CHR 0x22" "c \<noteq> CHR 0x5C"
    using True by (auto simp: byte_def)
  have e: "parse_u_escape (drop 2 (unicode_escape n) @ s) = Inr (n, 4)"
    using n ParseUnicode_escape [of n s] by (simp add: parse_u_escape_def)
  from c True have "escape_char c = unicode_escape n"
    by (simp add: escape_char_def n_def)
  moreover have "ParseString (unicode_escape n @ s) out = ParseString s (out @ [c])"
    using e n AppendUtf8_ascii [of n out]
    by (subst ParseString.simps) (simp add: unicode_escape_def)
  ultimately show ?thesis by simp
next
  case False
  then show ?thesis
    by (subst ParseString.simps) (auto simp: escape_char_def simple_escape_def)
qed

lemma ParseString_escapes:
  "CHR 0x00 \<notin> set s \<Longrightarrow>
    ParseString (concat (List.map escape_char s) @ CHR 0x22 # rest) out = Inr (out @ s, rest)"
proof (induction s arbitrary: out)
  case Nil
  show ?case by (subst ParseString.simps) simp
qed (auto simp: ParseString_escape)

text \<open>
  A string survives the wire: reading what \<open>JEscape\<close> wrote for any C string, whatever follows
  it, gives that string back and leaves exactly what follows.
\<close>

theorem ParseString_JEscape: "ParseString (tl (JEscape s) @ rest) [] = Inr (c_string s, rest)"
  by (simp add: JEscape_def ParseString_escapes)

section \<open>Code points\<close>

text \<open>UTF-8 as its table defines it: the code point a sequence of bytes stands for.\<close>

fun continuation :: "nat \<Rightarrow> bool" where
  "continuation b \<longleftrightarrow> 0x80 \<le> b \<and> b < 0xC0"

fun utf8_value :: "nat list \<Rightarrow> nat option" where
  "utf8_value [a] = (if a < 0x80 then Some a else None)"
| "utf8_value [a, b] = (if 0xC2 \<le> a \<and> a < 0xE0 \<and> continuation b
     then Some (64 * (a - 0xC0) + (b - 0x80)) else None)"
| "utf8_value [a, b, c] = (if 0xE0 \<le> a \<and> a < 0xF0 \<and> continuation b \<and> continuation c
      \<and> (a = 0xE0 \<longrightarrow> 0xA0 \<le> b)
     then Some (4096 * (a - 0xE0) + 64 * (b - 0x80) + (c - 0x80)) else None)"
| "utf8_value [a, b, c, d] = (if 0xF0 \<le> a \<and> a < 0xF8 \<and> continuation b \<and> continuation c
      \<and> continuation d \<and> (a = 0xF0 \<longrightarrow> 0x90 \<le> b)
     then Some (262144 * (a - 0xF0) + 4096 * (b - 0x80) + 64 * (c - 0x80) + (d - 0x80)) else None)"
| "utf8_value _ = None"

lemma or_low_bits:
  assumes "x < 2 ^ n"
  shows "(q * 2 ^ n) OR x = q * 2 ^ n + (x :: nat)"
proof -
  have "(q * 2 ^ n) AND x = 0"
  proof (rule bit_eqI)
    fix i
    have "\<not> bit x i" if "n \<le> i"
      using assms that by (metis bit_take_bit_iff leD take_bit_nat_eq_self)
    then show "bit ((q * 2 ^ n) AND x) i \<longleftrightarrow> bit (0 :: nat) i"
      by (auto simp: bit_and_iff simp flip: push_bit_eq_mult) (auto simp: bit_push_bit_iff)
  qed
  then show ?thesis by (rule disjunctive_add_eq_or [symmetric])
qed

lemma low_six: "cp AND 0x3F = cp mod (64 :: nat)"
  using and_exp_eq_0_iff_not_bit take_bit_eq_mask [of 6 cp]
  by (simp add: take_bit_eq_mod mask_eq_exp_minus_1)

lemma continuation_byte: "0x80 OR (cp AND 0x3F) = 128 + cp mod (64 :: nat)"
  using or_low_bits [of "cp mod 64" 6 2] by (simp add: low_six)

lemma lead_bytes:
  "x < 0x20 \<Longrightarrow> 0xC0 OR x = 0xC0 + (x :: nat)"
  "x < 0x10 \<Longrightarrow> 0xE0 OR x = 0xE0 + (x :: nat)"
  "x < 8 \<Longrightarrow> 0xF0 OR x = 0xF0 + (x :: nat)"
  using or_low_bits [of x 5 6] or_low_bits [of x 4 14] or_low_bits [of x 3 30] by simp_all

lemma c_string_bytes:
  "\<forall>b \<in> set bs. 0 < b \<and> b < (256 :: nat) \<Longrightarrow> c_string (List.map char_of bs) = List.map char_of bs"
proof (rule c_string_id)
  assume b: "\<forall>b \<in> set bs. 0 < b \<and> b < (256 :: nat)"
  show "CHR 0x00 \<notin> set (List.map char_of bs)"
  proof
    assume "CHR 0x00 \<in> set (List.map char_of bs)"
    then obtain n :: nat where n: "n \<in> set bs" "char_of n = CHR 0x00" by auto
    then have "n mod 256 = 0"
      using byte_char_of [of n] byte_eq_0 [of "CHR 0x00"] by simp
    with b n show False by auto
  qed
qed

lemma AppendUtf8_shortest:
  assumes "0 < cp" "cp \<le> 0x10FFFF"
  shows "\<exists>bs. AppendUtf8 out cp = Some (out @ List.map char_of bs) \<and> utf8_value bs = Some cp"
proof -
  define t q s r where "t = cp div 262144" and "q = cp div 4096 mod 64" and "s = cp div 64 mod 64"
    and "r = cp mod 64"
  have less: "q < 64" "s < 64" "r < 64"
    by (simp_all add: q_def s_def r_def)
  have d2: "cp div 4096 = 64 * t + q"
    by (simp add: t_def q_def div_mult2_eq [of cp 4096 64, simplified])
  have d1: "cp div 64 = 4096 * t + 64 * q + s"
  proof -
    have "64 * (cp div 64 div 64) + s = cp div 64"
      by (simp only: s_def mult_div_mod_eq)
    then show ?thesis
      using d2 div_mult2_eq [of cp 64 64] by simp
  qed
  have cp: "cp = 262144 * t + 4096 * q + 64 * s + r"
    using mult_div_mod_eq [of 64 cp] d1 r_def by linarith
  have digits: "cp mod 64 = r" "cp div 64 mod 64 = s" "cp div 4096 mod 64 = q" "cp div 262144 = t"
    by (simp_all add: t_def q_def s_def r_def)
  note enc = AppendUtf8_def c_string_bytes [of "[_, _]", simplified]
    c_string_bytes [of "[_, _, _]", simplified] c_string_bytes [of "[_, _, _, _]", simplified]
    continuation_byte lead_bytes drop_bit_eq_div digits
    digits(2) [unfolded d1] digits(3) [unfolded d2]
  consider "cp < 0x80" | "0x80 \<le> cp" "t = 0" "q = 0" "s < 32" | "t = 0" "q < 16" "0x800 \<le> cp"
    | "0x10000 \<le> cp"
    using cp less by linarith
  then show ?thesis
  proof cases
    case 1
    with assms AppendUtf8_ascii [of cp out] show ?thesis
      by (intro exI [of _ "[cp]"]) simp
  next
    case 2
    then show ?thesis
      using cp less d1 d2
      by (intro exI [of _ "[0xC0 + s, 128 + r]"]) (simp add: enc)
  next
    case 3
    have sum: "4096 * q + 64 * s + r = cp" "q = 0 \<Longrightarrow> 32 \<le> s"
      using cp less 3 by simp_all
    then show ?thesis
      using 3 less d1 d2
      by (intro exI [of _ "[0xE0 + q, 128 + s, 128 + r]"]) (simp add: enc)
  next
    case 4
    have sum: "262144 * t + 4096 * q + 64 * s + r = cp" "t < 8" "t = 0 \<Longrightarrow> 16 \<le> q"
      using cp less assms 4 by simp_all
    then show ?thesis
      using 4 less d1 d2 assms
      by (intro exI [of _ "[0xF0 + t, 128 + q, 128 + s, 128 + r]"]) (simp add: enc)
  qed
qed

text \<open>
  The encoder is right: what \<open>AppendUtf8\<close> adds for a code point other than 0 is the shortest
  UTF-8 sequence that stands for it, and the text before it is kept.
\<close>

theorem AppendUtf8_encodes:
  assumes "0 < cp" "cp \<le> 0x10FFFF"
  shows "\<exists>bs. AppendUtf8 out cp = Some (out @ List.map char_of bs) \<and> utf8_value bs = Some cp"
  using assms by (rule AppendUtf8_shortest)

theorem AppendUtf8_encodes_witness:
  "\<exists>bs. AppendUtf8 ''a'' 0x20AC = Some (''a'' @ List.map char_of bs) \<and> utf8_value bs = Some 0x20AC"
  by (rule AppendUtf8_encodes) simp_all

section \<open>Objects\<close>

lemma key_index_length: "key_index ks k = Some i \<Longrightarrow> i < length ks"
  by (induction ks arbitrary: i) (auto split: if_splits)

lemma key_index_nth: "key_index ks k = Some i \<Longrightarrow> ks ! i = k"
  by (induction ks arbitrary: i) (auto split: if_splits)

lemma key_index_inj: "key_index ks j = Some i \<Longrightarrow> key_index ks k = Some i \<Longrightarrow> j = k"
  by (metis key_index_nth)

lemma key_index_None: "key_index ks k = None \<longleftrightarrow> k \<notin> set ks"
  by (induction ks) auto

lemma key_index_append:
  "key_index (ks @ [x]) k = (case key_index ks k of Some i \<Rightarrow> Some i
     | None \<Rightarrow> if x = k then Some (length ks) else None)"
  by (induction ks) (auto split: option.split)

text \<open>An object has as many values as keys; \<open>Set\<close> keeps that, and never doubles a key.\<close>

definition object_ok :: "'n JVal \<Rightarrow> bool" where
  "object_ok a \<longleftrightarrow> length (fArray a) = length (fKeys a) \<and> distinct (fKeys a)"

lemma JSet_object_ok [wf_rules]: "object_ok a \<Longrightarrow> object_ok (JSet a k v)"
  by (auto simp: object_ok_def JSet_def key_index_None split: option.split)

lemma Get_JSet_same:
  "object_ok a \<Longrightarrow> Get (JSet a k v) k = v"
  by (auto simp: object_ok_def JSet_def Get_def key_index_append nth_append
      split: option.split dest: key_index_length)

lemma Get_JSet_other:
  "object_ok a \<Longrightarrow> j \<noteq> k \<Longrightarrow> Get (JSet a k v) j = Get a j"
  using key_index_inj [of "fKeys a" j _ k]
  by (auto simp: object_ok_def JSet_def Get_def key_index_append nth_append
      split: option.split dest: key_index_length intro!: nth_list_update_neq)

interpretation json_object: key_store object_ok JSet Get JNull JNull
  by unfold_locales
    (auto simp: Get_JSet_same Get_JSet_other JSet_object_ok, simp_all add: object_ok_def JNull_def Get_def)

lemma Has_JSet: "Has (JSet a k v) j \<longleftrightarrow> j = k \<or> Has a j"
  using key_index_None [of "fKeys a" k]
  by (auto simp: Has_def JSet_def key_index_append split: option.split)

section \<open>What the reader makes of values the writer can write\<close>

datatype json = JsNull | JsBool bool | JsInt int | JsStr string | JsArr "json list"
  | JsObj "(string \<times> json) list"

text \<open>The \<open>JVal\<close> a client builds for a document, with the constructors, \<open>Add\<close> and \<open>Set\<close>.\<close>

fun encode :: "'n :: zero num_lib \<Rightarrow> json \<Rightarrow> 'n JVal" where
  "encode L JsNull = JNull"
| "encode L (JsBool b) = JBool b"
| "encode L (JsInt i) = JNumber (of_int64 L i)"
| "encode L (JsStr s) = JString s"
| "encode L (JsArr js) = foldl Add JNull (List.map (encode L) js)"
| "encode L (JsObj kvs) = foldl (\<lambda>o' (k, v). JSet o' k v) (BecomeObject JNull)
     (List.map (\<lambda>(k, j). (k, encode L j)) kvs)"

fun json_depth :: "json \<Rightarrow> nat" where
  "json_depth (JsArr js) = Suc (Max (insert 0 (set (List.map json_depth js))))"
| "json_depth (JsObj kvs) = Suc (Max (insert 0 (set (List.map (\<lambda>(k, j). json_depth j) kvs))))"
| "json_depth _ = 0"

text \<open>Text without NULs, distinct keys, exactly representable numbers, no empty array.\<close>

fun sendable :: "json \<Rightarrow> bool" where
  "sendable (JsInt i) \<longleftrightarrow> \<bar>i\<bar> \<le> 2 ^ 53"
| "sendable (JsStr s) \<longleftrightarrow> CHR 0x00 \<notin> set s"
| "sendable (JsArr js) \<longleftrightarrow> js \<noteq> [] \<and> (\<forall>j \<in> set js. sendable j)"
| "sendable (JsObj kvs) \<longleftrightarrow> distinct (List.map fst kvs) \<and> (\<forall>(k, j) \<in> set kvs. CHR 0x00 \<notin> set k \<and> sendable j)"
| "sendable _ \<longleftrightarrow> True"

text \<open>
  What is asked of the number library: integers up to \<open>2 ^ 53\<close> convert to \<open>double\<close> and back
  without loss, and \<open>strtod\<close> of their decimal form is that \<open>double\<close>.
\<close>

definition exact_numbers :: "'n num_lib \<Rightarrow> bool" where
  "exact_numbers L \<longleftrightarrow> (\<forall>i. \<bar>i\<bar> \<le> 2 ^ 53 \<longrightarrow>
     to_int64 L (of_int64 L i) = i \<and> strtod L (show_int i) = of_int64 L i)"

lemma foldl_Add:
  "foldl Add a vs = (if vs = [] then a
     else JV KArray (fBool a) (fNumber a) (fString a) (fArray a @ vs) (fKeys a))"
  by (induction vs arbitrary: a) (auto simp: Add_def)

lemma foldl_JSet:
  "fKind a = KObject \<Longrightarrow> distinct (fKeys a @ List.map fst kvs) \<Longrightarrow> length (fArray a) = length (fKeys a) \<Longrightarrow>
    foldl (\<lambda>o' (k, v). JSet o' k v) a kvs =
    JV KObject (fBool a) (fNumber a) (fString a) (fArray a @ List.map snd kvs) (fKeys a @ List.map fst kvs)"
proof (induction kvs arbitrary: a)
  case Nil
  then show ?case by (cases a) simp
next
  case (Cons kv kvs)
  obtain k v where kv: "kv = (k, v)" by fastforce
  have "key_index (fKeys a) k = None"
    using Cons.prems by (auto simp: key_index_None kv)
  then have "JSet a k v = JV KObject (fBool a) (fNumber a) (fString a) (fArray a @ [v]) (fKeys a @ [k])"
    by (simp add: JSet_def)
  with Cons kv show ?case by simp
qed

lemma encode_JsObj:
  assumes "distinct (List.map fst kvs)"
  shows "encode L (JsObj kvs) = JV KObject False 0 [] (List.map (\<lambda>(k, j). encode L j) kvs) (List.map fst kvs)"
  using foldl_JSet [of "BecomeObject JNull" "List.map (\<lambda>(k, j). (k, encode L j)) kvs"] assms
  by (simp add: BecomeObject_def JNull_def comp_def case_prod_unfold)

lemma encode_JsArr:
  "js \<noteq> [] \<Longrightarrow> encode L (JsArr js) = JV KArray False 0 [] (List.map (encode L) js) []"
  by (simp add: foldl_Add JNull_def)

section \<open>The reader gives back what the writer wrote\<close>

definition closes :: "string \<Rightarrow> bool" where
  "closes r \<longleftrightarrow> (case r of [] \<Rightarrow> True | c # cs \<Rightarrow> c = CHR '','' \<or> c = CHR 0x5D \<or> c = CHR 0x7D)"

lemma closes_simps [simp]:
  "closes []" "closes (CHR '','' # r)" "closes (CHR 0x5D # r)" "closes (CHR 0x7D # r)"
  by (simp_all add: closes_def)

lemma SkipSpace_Cons [simp]: "\<not> is_json_space c \<Longrightarrow> SkipSpace (c # cs) = c # cs"
  by (simp add: SkipSpace_def)

lemma SkipSpace_Nil [simp]: "SkipSpace [] = []"
  by (simp add: SkipSpace_def)

lemma not_json_space [simp]:
  "\<not> is_json_space (CHR '','')" "\<not> is_json_space (CHR '':'')" "\<not> is_json_space (CHR 0x22)"
  "\<not> is_json_space (CHR 0x5D)" "\<not> is_json_space (CHR 0x7D)" "\<not> is_json_space (CHR 0x5B)"
  "\<not> is_json_space (CHR 0x7B)"
  by (simp_all add: is_json_space_def)

lemma digit_char_cases:
  assumes "is_digit c"
  shows "\<not> is_json_space c" "c \<notin> {CHR 0x7B, CHR 0x5B, CHR 0x22, CHR ''t'', CHR ''f'', CHR ''n'',
    CHR 0x5D, CHR ''-'', CHR ''+'', CHR ''.'', CHR ''e'', CHR ''E''}"
  using assms by (auto simp: is_digit_def is_json_space_def less_eq_char_iff)

lemma closes_not_number:
  assumes "closes r"
  shows "takeWhile is_digit r = []" "dropWhile is_digit r = r" "fraction_span r = ([], False, r)"
    "exponent_span r = ([], r)"
  using assms by (auto simp: closes_def fraction_span_def exponent_span_def is_digit_def
      less_eq_char_iff split: list.splits)

lemma number_span_show_int:
  assumes "closes r"
  shows "number_span (show_int i @ r) = (show_int i, True, r)"
proof -
  have ds: "digit_span (show_nat n @ r) = (show_nat n, r)" for n
    using show_nat_digits [of _ n] closes_not_number [OF assms]
    by (auto simp: digit_span_def takeWhile_append dropWhile_append)
  have "sign_span (show_nat n @ r) = ([], show_nat n @ r)" for n
    using show_nat_digits [of "hd (show_nat n)" n] digit_char_cases(2) [of "hd (show_nat n)"]
    by (cases "show_nat n") (auto simp: sign_span_def)
  then have "sign_span (show_int i @ r) =
      (if i < 0 then (''-'', show_nat (nat (- i)) @ r) else ([], show_nat (nat i) @ r))"
    by (simp add: show_int_def sign_span_def)
  with ds closes_not_number [OF assms] show ?thesis
    by (simp add: number_span_def show_int_def)
qed

lemma length_show_nat: "n < 10 ^ Suc k \<Longrightarrow> length (show_nat n) \<le> Suc k"
proof (induction k arbitrary: n)
  case (Suc k)
  then have "n div 10 < 10 ^ Suc k"
    by (simp add: less_mult_imp_div_less)
  with Suc.IH show ?case by (subst show_nat.simps) simp
qed (subst show_nat.simps, simp)

lemma length_show_int: "\<bar>i\<bar> \<le> 2 ^ 53 \<Longrightarrow> length (show_int i) < 64"
proof -
  assume i: "\<bar>i\<bar> \<le> 2 ^ 53"
  then have "nat i < 10 ^ Suc 15" "nat (- i) < 10 ^ Suc 15"
    by (auto simp: nat_less_iff)
  then have "length (show_nat (nat i)) \<le> 16" "length (show_nat (nat (- i))) \<le> 16"
    using length_show_nat [of _ 15] by simp_all
  then show ?thesis
    by (simp add: show_int_def)
qed

lemma ParseNumber_show_int:
  assumes "exact_numbers L" "\<bar>i\<bar> \<le> 2 ^ 53" "closes r"
  shows "ParseNumber L (show_int i @ r) = Ok (JNumber (of_int64 L i)) r"
  using assms length_show_int [of i]
  by (simp add: ParseNumber_def number_span_show_int exact_numbers_def)

lemma show_int_start:
  "\<exists>c cs. show_int i = c # cs \<and> (c = CHR ''-'' \<or> is_digit c)"
  using show_nat_digits [of "hd (show_nat (nat i))" "nat i"]
  by (cases "show_nat (nat i)") (auto simp: show_int_def)

text \<open>A value starts with none of the characters the reader's loops look for.\<close>

definition starts_value :: "string \<Rightarrow> bool" where
  "starts_value t \<longleftrightarrow> (case t of [] \<Rightarrow> False | c # cs \<Rightarrow> \<not> is_json_space c \<and> c \<noteq> CHR 0x5D)"

lemma ToJson_encode_start:
  assumes "exact_numbers L" "sendable j"
  shows "starts_value (ToJson L (encode L j))"
proof (cases j)
  case (JsInt i)
  with assms show_int_start [of i] show ?thesis
    by (auto simp: starts_value_def JNumber_def exact_numbers_def is_json_space_def
        is_digit_def less_eq_char_iff)
next
  case (JsObj kvs)
  with assms show ?thesis
    by (simp only: encode_JsObj sendable.simps) (simp add: starts_value_def)
qed (use assms in \<open>auto simp: starts_value_def JNull_def JBool_def JString_def JEscape_def
    is_json_space_def encode_JsArr simp del: encode.simps(5)\<close>)

lemma array_loop_writes:
  assumes "\<And>v r. v \<in> set vs \<Longrightarrow> closes r \<Longrightarrow> nested (T v @ r) = Ok (E v) r"
    and "vs \<noteq> []" and "length vs \<le> rounds"
  shows "array_loop nested rounds (join_comma (List.map T vs) @ CHR 0x5D # rest) out
    = Ok (foldl Add out (List.map E vs)) rest"
  using assms
proof (induction vs arbitrary: rounds out)
  case (Cons v vs)
  obtain n where n: "rounds = Suc n"
    using Cons.prems by (cases rounds) auto
  show ?case
  proof (cases vs)
    case Nil
    then show ?thesis using Cons.prems n by simp
  next
    case (Cons w ws)
    then show ?thesis
      using Cons.IH [of n "Add out (E v)"] Cons.prems n by simp
  qed
qed simp

lemma object_loop_writes:
  assumes "\<And>k v r. (k, v) \<in> set kvs \<Longrightarrow> closes r \<Longrightarrow> nested (T v @ r) = Ok (E v) r"
    and "\<And>k v. (k, v) \<in> set kvs \<Longrightarrow> CHR 0x00 \<notin> set k"
    and "kvs \<noteq> []" and "length kvs \<le> rounds"
  shows "object_loop nested rounds
      (join_comma (List.map (\<lambda>(k, v). JEscape k @ CHR '':'' # T v) kvs) @ CHR 0x7D # rest) out
    = Ok (foldl (\<lambda>o' (k, v). JSet o' k v) out (List.map (\<lambda>(k, v). (k, E v)) kvs)) rest"
  using assms
proof (induction kvs arbitrary: rounds out)
  case (Cons kv kvs)
  obtain k v where kv: "kv = (k, v)" by fastforce
  obtain n where n: "rounds = Suc n"
    using Cons.prems by (cases rounds) auto
  obtain e where e: "JEscape k = CHR 0x22 # e"
    by (simp add: JEscape_def)
  have key: "ParseString (e @ r) [] = Inr (k, r)" for r
    using Cons.prems(2) [of k v] e by (auto simp: ParseString_escapes JEscape_def kv)
  have k: "c_string k = k"
    using Cons.prems(2) [of k v] by (simp add: kv)
  note member = Cons.prems(1) [of k v]
  show ?case
  proof (cases kvs)
    case Nil
    then show ?thesis
      using member n by (simp add: kv e key k)
  next
    case kvs: (Cons w ws)
    have "object_loop nested n
        (join_comma (List.map (\<lambda>(k, v). JEscape k @ CHR '':'' # T v) kvs) @ CHR 0x7D # rest) (JSet out k (E v))
      = Ok (foldl (\<lambda>o' (k, v). JSet o' k v) (JSet out k (E v)) (List.map (\<lambda>(k, v). (k, E v)) kvs)) rest"
    proof (rule Cons.IH)
      show "CHR 0x00 \<notin> set k'" if "(k', v') \<in> set kvs" for k' v'
        using Cons.prems(2) [of k' v'] that by simp
    qed (use Cons.prems(1,4) kvs n in auto)
    then show ?thesis
      using kvs member n by (simp add: kv e key k)
  qed
qed simp

lemma number_char:
  assumes "c = CHR ''-'' \<or> is_digit c"
  shows "\<not> is_json_space c" "c \<noteq> CHR 0x7B" "c \<noteq> CHR 0x5B" "c \<noteq> CHR 0x22"
    "c \<noteq> CHR ''t''" "c \<noteq> CHR ''f''" "c \<noteq> CHR ''n''"
proof -
  have "\<not> is_json_space c \<and> c \<notin> {CHR 0x7B, CHR 0x5B, CHR 0x22, CHR ''t'', CHR ''f'', CHR ''n''}"
  proof (cases "is_digit c")
    case True
    with digit_char_cases [of c] show ?thesis by blast
  next
    case False
    with assms show ?thesis by (simp add: is_json_space_def)
  qed
  then show "\<not> is_json_space c" "c \<noteq> CHR 0x7B" "c \<noteq> CHR 0x5B" "c \<noteq> CHR 0x22"
    "c \<noteq> CHR ''t''" "c \<noteq> CHR ''f''" "c \<noteq> CHR ''n''" by simp_all
qed

lemma starts_value_append: "starts_value t \<Longrightarrow> starts_value (t @ r)"
  by (cases t) (simp_all add: starts_value_def)

lemma starts_value_join: "starts_value x \<Longrightarrow> starts_value (join_comma (x # xs) @ r)"
  by (cases xs) (simp_all add: starts_value_append)

lemma length_join_comma: "length xs \<le> Suc (length (join_comma xs))"
  by (induction xs rule: join_comma.induct) simp_all

lemma ParseArray_starts:
  "starts_value cs \<Longrightarrow> ParseArray nested cs = array_loop nested (Suc (length cs)) cs JNull"
  by (cases cs) (simp_all add: starts_value_def ParseArray_def)

lemma ToJson_JsArr:
  "js \<noteq> [] \<Longrightarrow> ToJson L (encode L (JsArr js))
    = CHR 0x5B # join_comma (List.map (\<lambda>j. ToJson L (encode L j)) js) @ [CHR 0x5D]"
  by (simp add: encode_JsArr comp_def del: encode.simps(5))

lemma ToJson_JsObj:
  "distinct (List.map fst kvs) \<Longrightarrow> ToJson L (encode L (JsObj kvs)) = CHR 0x7B #
    join_comma (List.map (\<lambda>(k, j). JEscape k @ CHR '':'' # ToJson L (encode L j)) kvs) @ [CHR 0x7D]"
proof -
  have "List.map2 (\<lambda>key t. JEscape key @ '':'' @ t) (List.map fst kvs)
      (List.map (ToJson L) (List.map (\<lambda>(k, j). encode L j) kvs))
    = List.map (\<lambda>(k, j). JEscape k @ CHR '':'' # ToJson L (encode L j)) kvs"
    by (induction kvs) auto
  then show "distinct (List.map fst kvs) \<Longrightarrow> ?thesis"
    by (simp only: encode_JsObj ToJson.simps) simp
qed

lemma json_depth_member:
  "j \<in> set js \<Longrightarrow> json_depth j < json_depth (JsArr js)"
  "(k, j) \<in> set kvs \<Longrightarrow> json_depth j < json_depth (JsObj kvs)"
  by (auto simp: less_Suc_eq_le intro!: Max_ge rev_image_eqI)

lemma ParseValue_ToJson:
  assumes "exact_numbers L"
  shows "sendable j \<Longrightarrow> json_depth j + depth \<le> 64 \<Longrightarrow> json_depth j < fuel \<Longrightarrow> closes rest
    \<Longrightarrow> ParseValue L fuel depth (ToJson L (encode L j) @ rest) JNull = Ok (encode L j) rest"
proof (induction j arbitrary: depth fuel rest)
  case (JsInt i)
  then obtain n where n: "fuel = Suc n" by (cases fuel) auto
  obtain c cs where c: "show_int i = c # cs" "c = CHR ''-'' \<or> is_digit c"
    using show_int_start by blast
  note c' = number_char [OF c(2)]
  have "ParseNumber L (c # cs @ rest) = Ok (JNumber (of_int64 L i)) rest"
    using ParseNumber_show_int [OF assms, of i rest] JsInt.prems c by simp
  with c' c n JsInt.prems assms show ?case
    by (simp add: JNumber_def exact_numbers_def)
next
  case (JsStr s)
  then obtain n where n: "fuel = Suc n" by (cases fuel) auto
  with JsStr show ?case
    using ParseString_escapes [of s rest "[]"] by (simp add: JString_def JEscape_def)
next
  case (JsArr js)
  then obtain n where n: "fuel = Suc n" by (cases fuel) auto
  define T where "T = (\<lambda>j. ToJson L (encode L j))"
  define nested where "nested = (\<lambda>r. ParseValue L n (Suc depth) r JNull)"
  define cs where "cs = join_comma (List.map T js) @ CHR 0x5D # rest"
  obtain j0 js' where js: "js = j0 # js'" "sendable j0"
    using JsArr.prems by (cases js) auto
  have "starts_value cs"
    using ToJson_encode_start [OF assms js(2)] by (simp add: cs_def js T_def starts_value_join)
  moreover have "array_loop nested (Suc (length cs)) cs JNull = Ok (foldl Add JNull (List.map (encode L) js)) rest"
    unfolding cs_def
  proof (rule array_loop_writes)
    show "nested (T j @ r) = Ok (encode L j) r" if "j \<in> set js" "closes r" for j r
      using JsArr that n json_depth_member(1) [OF that(1)]
      by (auto simp: nested_def T_def simp del: json_depth.simps)
  qed (use js length_join_comma [of "List.map T js"] in auto)
  moreover have "ToJson L (encode L (JsArr js)) @ rest = CHR 0x5B # cs"
    using ToJson_JsArr [of js L] js(1) by (simp add: cs_def T_def)
  moreover have "\<not> 64 < depth"
    using JsArr.prems by simp
  ultimately show ?case
    using n by (simp add: ParseArray_starts nested_def)
next
  case (JsObj kvs)
  then obtain n where n: "fuel = Suc n" by (cases fuel) auto
  define T where "T = (\<lambda>j. ToJson L (encode L j))"
  define nested where "nested = (\<lambda>r. ParseValue L n (Suc depth) r JNull)"
  define cs where "cs = join_comma (List.map (\<lambda>(k, j). JEscape k @ CHR '':'' # T j) kvs) @ CHR 0x7D # rest"
  have obj_text: "ToJson L (encode L (JsObj kvs)) @ rest = CHR 0x7B # cs"
    using ToJson_JsObj [of kvs L] JsObj.prems by (simp add: cs_def T_def del: encode.simps)
  have depth: "\<not> 64 < depth"
    using JsObj.prems by simp
  have "ParseObject nested cs JNull = Ok (encode L (JsObj kvs)) rest"
  proof (cases kvs)
    case Nil
    then show ?thesis by (simp add: cs_def ParseObject_def)
  next
    case (Cons kv kvs')
    obtain c where c: "cs = CHR 0x22 # c"
      by (cases kv, cases kvs') (auto simp: cs_def Cons JEscape_def)
    have "object_loop nested (Suc (length cs)) cs (BecomeObject JNull)
        = Ok (foldl (\<lambda>o' (k, v). JSet o' k v) (BecomeObject JNull) (List.map (\<lambda>(k, j). (k, encode L j)) kvs)) rest"
      unfolding cs_def
    proof (rule object_loop_writes)
      show "nested (T j @ r) = Ok (encode L j) r" if "(k, j) \<in> set kvs" "closes r" for k j r
        using JsObj that n json_depth_member(2) [OF that(1)]
        by (fastforce simp: nested_def T_def simp del: json_depth.simps)
      show "CHR 0x00 \<notin> set k" if "(k, j) \<in> set kvs" for k j
        using JsObj.prems that by auto
    qed (use Cons length_join_comma [of "List.map (\<lambda>(k, j). JEscape k @ CHR '':'' # T j) kvs"] in auto)
    then show ?thesis
      by (simp add: ParseObject_def c)
  qed
  with obj_text depth n show ?case
    by (simp add: nested_def)
qed (auto simp: JNull_def JBool_def parse_literal_def is_json_space_def split: if_splits elim!: less_natE)

lemma written_document_reads_back:
  assumes "exact_numbers L" and "sendable j" and "json_depth j \<le> 64"
  shows "JParse L (ToJson L (encode L j)) JNull = Some (Inr (encode L j))"
  using ParseValue_ToJson [OF assms(1,2), of 0 parse_fuel "[]"] assms(3)
  by (simp add: JParse_def parse_fuel_def)

text \<open>
  C11 A document survives the wire: for every value the clients can build (text without NULs,
  distinct keys, arrays that are not empty, whole numbers that a \<open>double\<close> holds, nesting of at
  most 64), parsing what \<open>ToJson\<close> wrote gives back that very \<open>JVal\<close>.
\<close>

theorem JParse_ToJson:
  assumes "exact_numbers L" and "sendable j" and "json_depth j \<le> 64"
  shows "JParse L (ToJson L (encode L j)) JNull = Some (Inr (encode L j))"
  using assms by (rule written_document_reads_back)

text \<open>A number library on the integers, for the concrete instances.\<close>

definition int_lib :: "int num_lib" where
  "int_lib = \<lparr>strtod = (\<lambda>s. case s of [] \<Rightarrow> 0 | c # cs \<Rightarrow>
       if c = CHR ''-'' then - int (fst (read_digits cs 0)) else int (fst (read_digits s 0))),
     of_int64 = id, to_int64 = id, show_double = show_int\<rparr>"

lemma exact_int_lib: "exact_numbers int_lib"
proof -
  have "strtod int_lib (show_int i) = i" for i
  proof (cases "i < 0")
    case True
    then show ?thesis
      using read_show_nat [of "[]" "nat (- i)"] by (simp add: int_lib_def show_int_def)
  next
    case False
    obtain c cs where c: "show_nat (nat i) = c # cs" by (cases "show_nat (nat i)") auto
    then have "c \<noteq> CHR ''-''"
      using show_nat_digits [of c "nat i"] digit_char_cases(2) [of c] by auto
    with False c show ?thesis
      using read_show_nat [of "[]" "nat i"] by (simp add: int_lib_def show_int_def)
  qed
  then show ?thesis by (simp add: exact_numbers_def) (simp add: int_lib_def)
qed

theorem JParse_ToJson_witness:
  "JParse int_lib (ToJson int_lib (encode int_lib
      (JsObj [(''id'', JsInt (-7)), (''ok'', JsArr [JsBool True, JsNull, JsStr ''x''])]))) JNull
    = Some (Inr (encode int_lib (JsObj [(''id'', JsInt (-7)), (''ok'', JsArr [JsBool True, JsNull, JsStr ''x''])])))"
  by (rule JParse_ToJson [OF exact_int_lib]) simp_all

section \<open>Where the reader departs from JSON\<close>

text \<open>
  No surrogate pair can be read: in a string, an escaped high surrogate followed by an escaped
  low one always fails, because \<open>ParseUnicode\<close> refuses every low surrogate before the code that
  joins the two gets to see it. So no character above U+FFFF can come in escaped.
\<close>

theorem surrogate_pairs_fail:
  assumes "length hi = 4" "hex_digits hi 0 = Some h" "0xD800 \<le> h" "h \<le> 0xDBFF"
    and "length lo = 4" "hex_digits lo 0 = Some l" "0xDC00 \<le> l" "l \<le> 0xDFFF"
  shows "ParseString ([CHR 0x5C, CHR ''u''] @ hi @ [CHR 0x5C, CHR ''u''] @ lo @ rest) out
    = Inl ''lone low surrogate''"
proof -
  have "ParseUnicode (hi @ CHR 0x5C # CHR ''u'' # lo @ rest) = Inr h"
    "ParseUnicode (lo @ rest) = Inl ''lone low surrogate''"
    using assms by (simp_all add: ParseUnicode_def)
  then have "parse_u_escape (hi @ CHR 0x5C # CHR ''u'' # lo @ rest) = Inl ''lone low surrogate''"
    using assms by (simp add: parse_u_escape_def)
  then show ?thesis
    by (subst ParseString.simps) simp
qed

theorem surrogate_pairs_fail_witness:
  "ParseString ([CHR 0x5C, CHR ''u''] @ ''d83d'' @ [CHR 0x5C, CHR ''u''] @ ''de00'' @ [CHR 0x22]) []
    = Inl ''lone low surrogate''"
  by (rule surrogate_pairs_fail [where hi = "''d83d''" and lo = "''de00''" and h = "0xD83D" and l = "0xDE00"])
    (simp_all add: hex_value_def byte_def less_eq_char_iff)

text \<open>
  A duplicated key takes the last value: after the reader's \<open>Set\<close>s of a list of members, each
  key reads as the last value it was given, and a key that was not there reads as null.
\<close>

theorem last_duplicate_wins:
  "Get (foldl (\<lambda>o' (k, v). JSet o' k v) JNull kvs) key =
    (case map_of (rev kvs) key of Some v \<Rightarrow> v | None \<Rightarrow> JNull)"
  using json_object.get_puts_empty [of kvs key] by (simp add: json_object.puts_def)

text \<open>
  An empty array comes in as null: the reader makes an array only by adding to it, so \<open>[]\<close>
  reads as the same value as \<open>null\<close>, whatever spaces it holds.
\<close>

theorem empty_array_reads_as_null:
  assumes "\<forall>c \<in> set spaces. is_json_space c"
  shows "JParse L (CHR 0x5B # spaces @ [CHR 0x5D]) out = JParse L ''null'' out"
proof -
  have "SkipSpace (spaces @ [CHR 0x5D]) = [CHR 0x5D]"
    using assms by (induction spaces) (simp_all add: SkipSpace_def)
  then have "JParse L (CHR 0x5B # spaces @ [CHR 0x5D]) out = Some (Inr JNull)"
    by (simp add: JParse_def parse_fuel_def eval_nat_numeral ParseArray_def)
  moreover have "\<not> is_json_space (CHR ''n'')"
    by (simp add: is_json_space_def)
  then have "JParse L ''null'' out = Some (Inr JNull)"
    by (simp add: JParse_def parse_fuel_def eval_nat_numeral parse_literal_def)
  ultimately show ?thesis by simp
qed

theorem empty_array_reads_as_null_witness:
  "JParse int_lib [CHR 0x5B, CHR 0x20, CHR 0x5D] JNull = JParse int_lib ''null'' JNull"
  using empty_array_reads_as_null [of "[CHR 0x20]" int_lib JNull] by (simp add: is_json_space_def)

end
