(* ===== verification/LspText.thy ===== *)
theory LspText
  imports Json
begin

text \<open>
  The text arithmetic of \<open>clangdserver/app/src/lsp.cpp\<close>: columns between bytes and UTF-16 units, and
  file names as URIs.
\<close>

section \<open>Columns\<close>

text \<open>
  Reading \<open>s[i]\<close> of a C string: its bytes, then the NUL; what lies further is not the string's
  (\<open>None\<close>).
\<close>

definition char_at :: "string \<Rightarrow> nat \<Rightarrow> nat option" where
  "char_at s i = (if i < length s then Some (byte (s ! i)) else if i = length s then Some 0 else None)"

text \<open>
  The loop of \<open>Utf16FromByte\<close>, with its \<open>units\<close> and \<open>i\<close>. A four-byte character counts one unit
  before the test for a column inside the character, and one after it.
\<close>

function utf16_loop :: "string \<Rightarrow> int \<Rightarrow> int \<Rightarrow> nat \<Rightarrow> int option" where
  "utf16_loop s byteCol units i =
     (case char_at s i of
        None \<Rightarrow> None
      | Some c \<Rightarrow>
          if c = 0 \<or> \<not> int i < byteCol then Some units
          else
            let (i', units') =
              (if c < 0x80 then (i + 1, units)
               else if c AND 0xE0 = 0xC0 then (i + 2, units)
               else if c AND 0xF0 = 0xE0 then (i + 3, units)
               else if c AND 0xF8 = 0xF0 then (i + 4, units + 1)
               else (i + 1, units))
            in if int i' > byteCol then Some units' else utf16_loop s byteCol (units' + 1) i')"
  by pat_completeness auto
termination
  by (relation "measure (\<lambda>(s, byteCol, units, i). length s - i)")
    (auto simp: char_at_def split: if_splits)

declare utf16_loop.simps [simp del]

definition Utf16FromByte :: "string \<Rightarrow> int \<Rightarrow> int option" where
  "Utf16FromByte s byteCol = utf16_loop s byteCol 0 0"

function byte_loop :: "string \<Rightarrow> int \<Rightarrow> int \<Rightarrow> nat \<Rightarrow> int option" where
  "byte_loop s utf16Col units i =
     (case char_at s i of
        None \<Rightarrow> None
      | Some c \<Rightarrow>
          if c = 0 \<or> \<not> units < utf16Col then Some (int i)
          else
            let (n, units') =
              (if c < 0x80 then (1, units)
               else if c AND 0xE0 = 0xC0 then (2, units)
               else if c AND 0xF0 = 0xE0 then (3, units)
               else if c AND 0xF8 = 0xF0 then (4, units + 1)
               else (1, units))
            in byte_loop s utf16Col (units' + 1) (i + n))"
  by pat_completeness auto
termination
  by (relation "measure (\<lambda>(s, utf16Col, units, i). length s - i)")
    (auto simp: char_at_def split: if_splits)

declare byte_loop.simps [simp del]

definition ByteFromUtf16 :: "string \<Rightarrow> int \<Rightarrow> int option" where
  "ByteFromUtf16 s utf16Col = byte_loop s utf16Col 0 0"

section \<open>URIs\<close>

definition UriSafe :: "char \<Rightarrow> bool" where
  "UriSafe c \<longleftrightarrow> (CHR ''a'' \<le> c \<and> c \<le> CHR ''z'') \<or> (CHR ''A'' \<le> c \<and> c \<le> CHR ''Z'')
    \<or> (CHR ''0'' \<le> c \<and> c \<le> CHR ''9'') \<or> c = CHR ''/'' \<or> c = CHR ''-'' \<or> c = CHR ''_''
    \<or> c = CHR ''.'' \<or> c = CHR ''~'' \<or> c = CHR ''+'' \<or> c = CHR '':''"

definition upper_hex_digit :: "nat \<Rightarrow> char" where
  "upper_hex_digit d = (if d < 10 then char_of (48 + d) else char_of (55 + d))"

definition uri_char :: "char \<Rightarrow> string" where
  "uri_char c = (if UriSafe c then [c]
     else [CHR ''%'', upper_hex_digit (byte c div 16), upper_hex_digit (byte c mod 16)])"

definition FileUriOf :: "string \<Rightarrow> string" where
  "FileUriOf path = ''file://'' @ concat (List.map uri_char (c_string path))"

text \<open>
  \<open>strtol(hex, NULL, 16)\<close> of a two-character string, as a \<open>char\<close>: spaces and a sign may lead, a
  digit string may be empty. \<open>strtol16\<close> reads what is left after them.
\<close>

fun strtol16 :: "string \<Rightarrow> nat \<Rightarrow> nat" where
  "strtol16 [] v = v"
| "strtol16 (h # hs) v = (case hex_value h of None \<Rightarrow> v | Some d \<Rightarrow> strtol16 hs (16 * v + d))"

definition c_space :: "char \<Rightarrow> bool" where
  "c_space c \<longleftrightarrow> c = CHR '' '' \<or> (9 \<le> byte c \<and> byte c \<le> 13)"

definition hex_pair_char :: "char \<Rightarrow> char \<Rightarrow> char" where
  "hex_pair_char a b =
     (case dropWhile c_space [a, b] of
        [] \<Rightarrow> CHR 0x00
      | c # cs \<Rightarrow>
          if c = CHR ''-'' then char_of (256 - strtol16 cs 0)
          else if c = CHR ''+'' then char_of (strtol16 cs 0)
          else char_of (strtol16 (c # cs) 0))"

fun uri_chars :: "string \<Rightarrow> string" where
  "uri_chars [] = []"
| "uri_chars (c # cs) =
     (case cs of
        a # b # r \<Rightarrow> if c = CHR ''%'' then hex_pair_char a b # uri_chars r else c # uri_chars cs
      | _ \<Rightarrow> c # uri_chars cs)"

definition PathOfUri :: "string \<Rightarrow> string option" where
  "PathOfUri uri = (if take 7 uri = ''file://'' then Some (uri_chars (drop 7 (c_string uri))) else None)"

section \<open>The URI of a path names that path\<close>

lemma upper_hex_value [simp]:
  assumes "d < 16"
  shows "hex_value (upper_hex_digit d) = Some d"
proof (cases "d < 10")
  case True
  define h where "h = upper_hex_digit d"
  have "of_char h = 48 + d"
    using True by (simp add: h_def upper_hex_digit_def)
  with True show ?thesis
    unfolding h_def [symmetric] by (simp add: hex_value_def byte_def less_eq_char_iff)
next
  case False
  define h where "h = upper_hex_digit d"
  obtain e where d: "d = 10 + e"
    using False by (metis le_iff_add not_less)
  then have e: "e < 6" and h: "of_char h = 65 + e"
    using assms by (simp_all add: h_def upper_hex_digit_def)
  have "\<not> h \<le> CHR ''9''" "\<not> CHR ''a'' \<le> h" "CHR ''A'' \<le> h" "h \<le> CHR ''F''"
    using e by (simp_all only: less_eq_char_iff h of_char_Char) simp_all
  then have "hex_value h = Some (byte h - 65 + 10)"
    by (simp add: hex_value_def)
  with h d show ?thesis
    by (simp add: byte_def h_def)
qed

lemma hex_value_not_space:
  assumes "hex_value c = Some d"
  shows "\<not> c_space c" "c \<noteq> CHR ''-''" "c \<noteq> CHR ''+''"
  using assms by (auto simp: hex_value_def c_space_def byte_def less_eq_char_iff split: if_splits)

lemma hex_pair_char_upper:
  assumes "n < 256"
  shows "hex_pair_char (upper_hex_digit (n div 16)) (upper_hex_digit (n mod 16)) = char_of n"
proof -
  have "hex_value (upper_hex_digit (n div 16)) = Some (n div 16)"
    using assms by (simp add: less_mult_imp_div_less)
  then show ?thesis
    using hex_value_not_space by (simp add: hex_pair_char_def)
qed

lemma uri_chars_uri_char: "uri_chars (uri_char c @ r) = c # uri_chars r"
proof (cases "UriSafe c")
  case True
  then have "c \<noteq> CHR ''%''"
    by (auto simp: UriSafe_def less_eq_char_iff)
  with True show ?thesis
    by (auto simp: uri_char_def split: list.split)
next
  case False
  then show ?thesis
    by (simp add: uri_char_def hex_pair_char_upper)
qed

lemma uri_char_no_nul: "c \<noteq> CHR 0x00 \<Longrightarrow> CHR 0x00 \<notin> set (uri_char c)"
proof -
  have "hex_value (CHR 0x00) = None"
    by (simp add: hex_value_def less_eq_char_iff)
  then have "upper_hex_digit d \<noteq> CHR 0x00" if "d < 16" for d
    using that upper_hex_value [of d] by (metis option.distinct(1))
  moreover have "byte c div 16 < 16"
    using byte_less [of c] by (simp add: less_mult_imp_div_less del: byte_less)
  ultimately show "c \<noteq> CHR 0x00 \<Longrightarrow> ?thesis"
    by (simp add: uri_char_def) (metis mod_less_divisor zero_less_numeral)
qed

lemma file_uri_names_path: "PathOfUri (FileUriOf path) = Some (c_string path)"
proof -
  define u where "u = concat (List.map uri_char (c_string path))"
  have "uri_chars (concat (List.map uri_char s)) = s" for s
    by (induction s) (simp_all add: uri_chars_uri_char)
  then have u: "uri_chars u = c_string path"
    by (simp add: u_def)
  have "CHR 0x00 \<notin> set (concat (List.map uri_char s))" if "CHR 0x00 \<notin> set s" for s
    using that by (induction s) (auto simp: uri_char_no_nul)
  from this [OF c_string_no_nul [of path]] have "c_string (''file://'' @ u) = ''file://'' @ u"
    by (intro c_string_id) (simp add: u_def)
  then show ?thesis
    by (simp add: PathOfUri_def FileUriOf_def u_def [symmetric] u)
qed

text \<open>
  A document's name survives the wire: \<open>PathOfUri\<close> of \<open>FileUriOf\<close> of any path is that path,
  spaces, percent signs and bytes above 127 included.
\<close>

theorem PathOfUri_FileUriOf: "PathOfUri (FileUriOf path) = Some (c_string path)"
  by (rule file_uri_names_path)

section \<open>Columns of whole characters\<close>

text \<open>
  A line as a list of code points: its bytes, as \<open>AppendUtf8\<close> writes them, and its UTF-16 units.
\<close>

definition utf8 :: "nat \<Rightarrow> string" where
  "utf8 cp = the (AppendUtf8 [] cp)"

definition utf8_line :: "nat list \<Rightarrow> string" where
  "utf8_line cps = concat (List.map utf8 cps)"

definition utf16_units :: "nat list \<Rightarrow> int" where
  "utf16_units cps = sum_list (List.map (\<lambda>cp. if cp < 0x10000 then 1 else 2) cps)"

definition code_point :: "nat \<Rightarrow> bool" where
  "code_point cp \<longleftrightarrow> 0 < cp \<and> cp \<le> 0x10FFFF"

text \<open>What the lead byte tells the two loops: how many bytes, and how many units more than one.\<close>

definition lead_length :: "nat \<Rightarrow> nat" where
  "lead_length c = (if c < 0x80 then 1 else if c AND 0xE0 = 0xC0 then 2
     else if c AND 0xF0 = 0xE0 then 3 else if c AND 0xF8 = 0xF0 then 4 else 1)"

lemma lead_length:
  "a < 0x80 \<Longrightarrow> lead_length a = 1"
  "0xC0 \<le> a \<Longrightarrow> a < 0xE0 \<Longrightarrow> lead_length a = 2"
  "0xE0 \<le> a \<Longrightarrow> a < 0xF0 \<Longrightarrow> lead_length a = 3"
  "0xF0 \<le> a \<Longrightarrow> a < 0xF8 \<Longrightarrow> lead_length a = 4"
proof -
  have "\<forall>a \<in> {0xC0..<0xE0}. lead_length a = 2" "\<forall>a \<in> {0xE0..<0xF0}. lead_length a = 3"
    "\<forall>a \<in> {0xF0..<0xF8}. lead_length a = 4"
    by (simp_all only: set_upt [symmetric]) (simp_all add: upt_rec lead_length_def)
  then show "0xC0 \<le> a \<Longrightarrow> a < 0xE0 \<Longrightarrow> lead_length a = 2"
    "0xE0 \<le> a \<Longrightarrow> a < 0xF0 \<Longrightarrow> lead_length a = 3"
    "0xF0 \<le> a \<Longrightarrow> a < 0xF8 \<Longrightarrow> lead_length a = 4"
    by simp_all
qed (simp add: lead_length_def)

lemma utf8_lead:
  assumes "code_point cp"
  shows "\<exists>a bs. utf8 cp = char_of a # bs \<and> 0 < a \<and> a < (256 :: nat) \<and> lead_length a = Suc (length bs)
    \<and> (lead_length a = 4 \<longleftrightarrow> 0x10000 \<le> cp)"
proof -
  obtain bs where bs: "utf8 cp = List.map char_of bs" "utf8_value bs = Some cp"
    using AppendUtf8_shortest [of cp "[]"] assms by (auto simp: code_point_def utf8_def)
  from bs(2) show ?thesis
  proof (cases bs rule: utf8_value.cases)
    case (1 a)
    with bs assms show ?thesis
      by (intro exI [of _ a] exI [of _ "List.map char_of []"]) (auto simp: code_point_def lead_length split: if_splits)
  next
    case (2 a b)
    with bs show ?thesis
      by (intro exI [of _ a] exI [of _ "List.map char_of [b]"]) (auto simp: lead_length split: if_splits)
  next
    case (3 a b c)
    with bs show ?thesis
      by (intro exI [of _ a] exI [of _ "List.map char_of [b, c]"]) (auto simp: lead_length split: if_splits)
  next
    case (4 a b c d)
    with bs show ?thesis
      by (intro exI [of _ a] exI [of _ "List.map char_of [b, c, d]"]) (auto simp: lead_length split: if_splits)
  qed simp_all
qed

text \<open>One round of each loop, in terms of the lead byte.\<close>

definition extra_unit :: "nat \<Rightarrow> int" where
  "extra_unit c = (if lead_length c = 4 then 1 else 0)"

lemma utf16_loop_step:
  "utf16_loop s col units i = (case char_at s i of None \<Rightarrow> None | Some c \<Rightarrow>
     if c = 0 \<or> \<not> int i < col then Some units
     else if int (i + lead_length c) > col then Some (units + extra_unit c)
     else utf16_loop s col (units + extra_unit c + 1) (i + lead_length c))"
  by (subst utf16_loop.simps) (simp add: lead_length_def extra_unit_def split: option.split)

lemma byte_loop_step:
  "byte_loop s col units i = (case char_at s i of None \<Rightarrow> None | Some c \<Rightarrow>
     if c = 0 \<or> \<not> units < col then Some (int i)
     else byte_loop s col (units + extra_unit c + 1) (i + lead_length c))"
  by (subst byte_loop.simps) (simp add: lead_length_def extra_unit_def split: option.split)

lemma utf8_line_append [simp]: "utf8_line (xs @ ys) = utf8_line xs @ utf8_line ys"
  by (simp add: utf8_line_def)

lemma utf8_line_Cons: "utf8_line (x # xs) = utf8 x @ utf8_line xs"
  by (simp add: utf8_line_def)

lemma utf16_units_simps [simp]: "utf16_units [] = 0"
  "utf16_units (x # xs) = (if x < 0x10000 then 1 else 2) + utf16_units xs"
  by (simp_all add: utf16_units_def)

lemma utf16_units_nonneg: "0 \<le> utf16_units xs"
  by (induction xs) simp_all

text \<open>What the loops see at the start of a character.\<close>

lemma char_at_character:
  assumes "code_point cp"
  obtains a where "char_at (p @ utf8 cp @ r) (length p) = Some a" "a \<noteq> 0"
    "lead_length a = length (utf8 cp)" "extra_unit a + 1 = (if cp < 0x10000 then 1 else 2)"
proof -
  from utf8_lead [OF assms] obtain a bs where "utf8 cp = char_of a # bs" "0 < a" "a < (256 :: nat)"
    "lead_length a = Suc (length bs)" "lead_length a = 4 \<longleftrightarrow> 0x10000 \<le> cp" by blast
  then show thesis
    by (intro that [of a]) (auto simp: char_at_def extra_unit_def nth_append)
qed

text \<open>Both loops run over whole characters as long as the column is not passed.\<close>

lemma utf16_loop_skip:
  assumes "\<forall>cp \<in> set cps. code_point cp"
    and "int (length p + length (utf8_line cps)) \<le> col"
  shows "utf16_loop (p @ utf8_line cps @ r) col units (length p)
    = utf16_loop (p @ utf8_line cps @ r) col (units + utf16_units cps) (length p + length (utf8_line cps))"
  using assms
proof (induction cps arbitrary: p units)
  case Nil
  show ?case by (simp add: utf8_line_def)
next
  case (Cons cp cps)
  from Cons.prems obtain a where a:
    "char_at (p @ utf8 cp @ utf8_line cps @ r) (length p) = Some a" "a \<noteq> 0"
    "lead_length a = length (utf8 cp)" "extra_unit a + 1 = (if cp < 0x10000 then 1 else 2)"
    using char_at_character [of cp p "utf8_line cps @ r"] by auto
  have fits: "int (length p) < col" "\<not> col < int (length p + lead_length a)"
    using Cons.prems utf8_lead [of cp] a(3) by (auto simp: utf8_line_Cons)
  have "utf16_loop ((p @ utf8 cp) @ utf8_line cps @ r) col (units + extra_unit a + 1) (length (p @ utf8 cp))
    = utf16_loop ((p @ utf8 cp) @ utf8_line cps @ r) col (units + extra_unit a + 1 + utf16_units cps)
        (length (p @ utf8 cp) + length (utf8_line cps))"
    using Cons.prems by (intro Cons.IH) (simp_all add: utf8_line_Cons)
  moreover have "units + extra_unit a + 1 + utf16_units cps = units + utf16_units (cp # cps)"
    using a(4) by simp
  ultimately show ?case
    using a(1-3) fits
    by (subst utf16_loop_step) (simp add: utf8_line_Cons add.assoc del: utf16_units_simps)
qed

lemma byte_loop_skip:
  assumes "\<forall>cp \<in> set cps. code_point cp" and "units + utf16_units cps \<le> col"
  shows "byte_loop (p @ utf8_line cps @ r) col units (length p)
    = byte_loop (p @ utf8_line cps @ r) col (units + utf16_units cps) (length p + length (utf8_line cps))"
  using assms
proof (induction cps arbitrary: p units)
  case Nil
  show ?case by (simp add: utf8_line_def)
next
  case (Cons cp cps)
  from Cons.prems obtain a where a:
    "char_at (p @ utf8 cp @ utf8_line cps @ r) (length p) = Some a" "a \<noteq> 0"
    "lead_length a = length (utf8 cp)" "extra_unit a + 1 = (if cp < 0x10000 then 1 else 2)"
    using char_at_character [of cp p "utf8_line cps @ r"] by auto
  have units: "units + extra_unit a + 1 + utf16_units cps = units + utf16_units (cp # cps)"
    using a(4) by simp
  then have fits: "units < col"
    using Cons.prems utf16_units_nonneg [of cps] by (auto split: if_splits)
  have "byte_loop ((p @ utf8 cp) @ utf8_line cps @ r) col (units + extra_unit a + 1) (length (p @ utf8 cp))
    = byte_loop ((p @ utf8 cp) @ utf8_line cps @ r) col (units + extra_unit a + 1 + utf16_units cps)
        (length (p @ utf8 cp) + length (utf8_line cps))"
    using Cons.prems units by (intro Cons.IH) (simp_all del: utf16_units_simps)
  with units show ?case
    using a(1-3) fits
    by (subst byte_loop_step) (simp add: utf8_line_Cons add.assoc del: utf16_units_simps)
qed

lemma utf16_loop_here: "utf16_loop (p @ r) (int (length p)) units (length p) = Some units"
  by (subst utf16_loop_step) (simp add: char_at_def)

lemma byte_loop_here: "byte_loop (p @ r) units units (length p) = Some (int (length p))"
  by (subst byte_loop_step) (simp add: char_at_def)

text \<open>
  Columns convert exactly: at every boundary between characters of a line, however its
  characters mix one to four bytes, \<open>Utf16FromByte\<close> of the byte column is the number of UTF-16
  units before it, and \<open>ByteFromUtf16\<close> of that number is the byte column again.
\<close>

theorem columns_convert:
  assumes "\<forall>cp \<in> set (before @ after). code_point cp"
  shows "Utf16FromByte (utf8_line (before @ after)) (int (length (utf8_line before))) = Some (utf16_units before)
    \<and> ByteFromUtf16 (utf8_line (before @ after)) (utf16_units before) = Some (int (length (utf8_line before)))"
  using assms utf16_loop_skip [of before "[]" _ "utf8_line after" 0]
    byte_loop_skip [of before 0 _ "[]" "utf8_line after"]
  by (simp add: Utf16FromByte_def ByteFromUtf16_def utf16_loop_here byte_loop_here)

theorem columns_convert_witness:
  "Utf16FromByte (utf8_line ([0x61, 0xE9, 0x65E5] @ [0x1D11E])) (int (length (utf8_line [0x61, 0xE9, 0x65E5])))
      = Some (utf16_units [0x61, 0xE9, 0x65E5])
    \<and> ByteFromUtf16 (utf8_line ([0x61, 0xE9, 0x65E5] @ [0x1D11E])) (utf16_units [0x61, 0xE9, 0x65E5])
      = Some (int (length (utf8_line [0x61, 0xE9, 0x65E5])))"
  by (rule columns_convert) (simp add: code_point_def)

text \<open>
  A column inside a surrogate pair does not snap to the character's first byte, as the header
  promises: after any text, the second half of a pair converts to the byte after the character, and
  a byte column inside its four bytes counts the first half of the pair.
\<close>

theorem columns_inside_a_pair:
  assumes "\<forall>cp \<in> set before. code_point cp" and "0x10000 \<le> cp" "cp \<le> 0x10FFFF"
    and "0 < k" "k < 4"
  shows "ByteFromUtf16 (utf8_line (before @ cp # after)) (utf16_units before + 1)
      = Some (int (length (utf8_line before)) + 4)
    \<and> Utf16FromByte (utf8_line (before @ cp # after)) (int (length (utf8_line before)) + k)
      = Some (utf16_units before + 1)"
proof -
  define p where "p = utf8_line before"
  define r where "r = utf8_line after"
  have line: "utf8_line (before @ cp # after) = p @ utf8 cp @ r"
    by (simp add: p_def r_def utf8_line_Cons)
  obtain a where a: "char_at (p @ utf8 cp @ r) (length p) = Some a" "a \<noteq> 0"
    "lead_length a = length (utf8 cp)" "extra_unit a + 1 = 2"
    using char_at_character [of cp p r] assms(2,3) by (auto simp: code_point_def p_def)
  then have four: "extra_unit a = 1" "lead_length a = 4"
    by (auto simp: extra_unit_def split: if_splits)
  have ends: "int (length p) + 4 \<le> int (length (p @ utf8 cp @ r))"
    using four a by simp
  have "byte_loop (p @ utf8 cp @ r) (utf16_units before + 1) (utf16_units before) (length p)
      = Some (int (length p) + 4)"
    using a four ends
    by (subst byte_loop_step, simp) (subst byte_loop_step, auto simp: char_at_def)
  moreover have "utf16_loop (p @ utf8 cp @ r) (int (length p) + k) (utf16_units before) (length p)
      = Some (utf16_units before + 1)"
    using a four assms(4,5) by (subst utf16_loop_step) simp
  ultimately show ?thesis
    using assms(1,4) utf16_loop_skip [of before "[]" "int (length p) + k" "utf8 cp @ r" 0]
      byte_loop_skip [of before 0 "utf16_units before + 1" "[]" "utf8 cp @ r"]
    unfolding Utf16FromByte_def ByteFromUtf16_def line by (simp flip: p_def)
qed

theorem columns_inside_a_pair_witness:
  "ByteFromUtf16 (utf8_line ([0x61] @ 0x1D11E # [0x62])) (utf16_units [0x61] + 1)
      = Some (int (length (utf8_line [0x61])) + 4)
    \<and> Utf16FromByte (utf8_line ([0x61] @ 0x1D11E # [0x62])) (int (length (utf8_line [0x61])) + 2)
      = Some (utf16_units [0x61] + 1)"
  by (rule columns_inside_a_pair) (simp_all add: code_point_def)

text \<open>
  A character cut short at the end of a line is run over: when a line ends in a lead byte whose
  continuation bytes are missing (a line that is not UTF-8, say) and the column lies behind it,
  \<open>ByteFromUtf16\<close> goes on reading behind the NUL that ends the line.
\<close>

theorem cut_character_is_overrun:
  assumes "\<forall>cp \<in> set before. code_point cp" and "0 < a" "a < 256"
    and "Suc (length bs) < lead_length a"
    and "utf16_units before + extra_unit a + 1 < col"
  shows "ByteFromUtf16 (utf8_line before @ char_of a # bs) col = None"
proof -
  define p where "p = utf8_line before"
  have "char_at (p @ char_of a # bs) (length p) = Some a"
    using assms(3) by (simp add: char_at_def)
  moreover have "char_at (p @ char_of a # bs) (length p + lead_length a) = None"
    using assms(4) by (simp add: char_at_def)
  moreover have "0 \<le> extra_unit a"
    by (simp add: extra_unit_def)
  ultimately have "byte_loop (p @ char_of a # bs) col (utf16_units before) (length p) = None"
    using assms(2,5) by (subst byte_loop_step, simp) (subst byte_loop_step, simp)
  then show ?thesis
    using assms(1,5) \<open>0 \<le> extra_unit a\<close> byte_loop_skip [of before 0 col "[]" "char_of a # bs"]
    unfolding ByteFromUtf16_def by (simp flip: p_def)
qed

theorem cut_character_is_overrun_witness:
  "ByteFromUtf16 (utf8_line [0x61] @ char_of (0xE9 :: nat) # []) 3 = None"
  by (rule cut_character_is_overrun)
    (simp_all add: code_point_def lead_length extra_unit_def)

end
