(* ===== verification/LspSession.thy ===== *)
theory LspSession
  imports LspText "HOL-Library.Sublist"
begin

text \<open>
  A session with one clangd child, \<open>LspSession\<close> of \<open>clangdserver/app/src/lsp.cpp\<close>: the frames
  written to its stdin, the frames cut from its stdout, the bookkeeping of requests and replies,
  and the document notifications. The pipe is a parameter: what each \<open>write\<close> returns, and the
  chunks \<open>read\<close> gives.
\<close>

section \<open>Sending\<close>

definition CRLF :: string where
  "CRLF = [CHR 0x0D, CHR 0x0A]"

definition frame_head :: "nat \<Rightarrow> string" where
  "frame_head n = ''Content-Length: '' @ show_int (int n) @ CRLF @ CRLF"

text \<open>
  The loop around \<open>write\<close>: \<open>w k n\<close> is what the \<open>k\<close>-th call returns when it is offered \<open>n\<close> bytes.
  The result is what has been written, whether all of it was, and the number of the next call.
\<close>

function write_loop :: "(nat \<Rightarrow> nat \<Rightarrow> int) \<Rightarrow> nat \<Rightarrow> string \<Rightarrow> string \<times> bool \<times> nat" where
  "write_loop w k bytes =
     (if bytes = [] then ([], True, k)
      else let n = w k (length bytes) in
        if n \<le> 0 then ([], False, k + 1)
        else case write_loop w (k + 1) (drop (nat n) bytes) of
          (out, ok, k') \<Rightarrow> (take (nat n) bytes @ out, ok, k'))"
  by pat_completeness auto
termination
  by (relation "measure (\<lambda>(w, k, bytes). length bytes)") auto

declare write_loop.simps [simp del]

definition Send :: "(nat \<Rightarrow> nat \<Rightarrow> int) \<Rightarrow> nat \<Rightarrow> int \<Rightarrow> string \<Rightarrow> string \<times> bool \<times> nat" where
  "Send w k fStdin body =
     (if fStdin < 0 then ([], False, k)
      else case write_loop w k (frame_head (length body)) of
        (out, ok, k1) \<Rightarrow>
          if \<not> ok then (out, False, k1)
          else case write_loop w k1 body of (out', ok', k2) \<Rightarrow> (out @ out', ok', k2))"

section \<open>Receiving\<close>

definition kMaxFrame :: nat where
  "kMaxFrame = 16 * 1024 * 1024"

text \<open>\<open>BString::FindFirst\<close>: where the pattern first occurs.\<close>

fun find_first :: "string \<Rightarrow> string \<Rightarrow> nat option" where
  "find_first pat [] = (if pat = [] then Some 0 else None)"
| "find_first pat (c # cs) =
     (if take (length pat) (c # cs) = pat then Some 0 else map_option Suc (find_first pat cs))"

definition lower :: "char \<Rightarrow> char" where
  "lower c = (if CHR ''A'' \<le> c \<and> c \<le> CHR ''Z'' then char_of (byte c + 32) else c)"

text \<open>\<open>atoll\<close>: spaces, a sign, the digits. (A number beyond 64 bits is undefined in C.)\<close>

definition atoll :: "string \<Rightarrow> int" where
  "atoll s =
     (case dropWhile c_space s of
        [] \<Rightarrow> 0
      | c # cs \<Rightarrow>
          if c = CHR ''-'' then - int (fst (read_digits cs 0))
          else if c = CHR ''+'' then int (fst (read_digits cs 0))
          else int (fst (read_digits (c # cs) 0)))"

definition head_length :: "string \<Rightarrow> int" where
  "head_length head =
     (if List.map lower (take 15 head) = List.map lower ''Content-Length:'' then atoll (drop 15 head) else -1)"

text \<open>
  \<open>PumpReader\<close> cuts the complete frames out of \<open>fInBuf\<close>; the bodies it hands to \<open>HandleDocument\<close>
  and the buffer left. A header it cannot use empties the buffer.
\<close>

function PumpReader :: "string \<Rightarrow> string list \<times> string" where
  "PumpReader fInBuf =
     (case find_first (CRLF @ CRLF) fInBuf of
        None \<Rightarrow> ([], fInBuf)
      | Some headEnd \<Rightarrow>
          let lineEnd = the (find_first CRLF fInBuf);
              len = head_length (take lineEnd fInBuf)
          in if len < 0 \<or> len > int kMaxFrame then ([], [])
             else let bodyStart = headEnd + 4 in
               if length fInBuf < bodyStart + nat len then ([], fInBuf)
               else case PumpReader (drop (bodyStart + nat len) fInBuf) of
                 (docs, b) \<Rightarrow> (take (nat len) (drop bodyStart fInBuf) # docs, b))"
  by pat_completeness auto
termination
proof (relation "measure length")
  fix fInBuf headEnd lineEnd len bodyStart
  assume "find_first (CRLF @ CRLF) fInBuf = Some headEnd" "bodyStart = headEnd + 4"
  then show "(drop (bodyStart + nat len) fInBuf, fInBuf) \<in> measure length"
    by (cases fInBuf) (auto simp: CRLF_def)
qed simp

declare PumpReader.simps [simp del]

text \<open>
  \<open>ReaderLoop\<close>: the documents handled over the chunks \<open>read\<close> returns, an empty one being its end;
  \<open>Append\<close> takes the bytes of a chunk up to a NUL.
\<close>

fun ReaderLoop :: "string \<Rightarrow> string list \<Rightarrow> string list" where
  "ReaderLoop fInBuf [] = []"
| "ReaderLoop fInBuf (chunk # chunks) =
     (if chunk = [] then []
      else let b = fInBuf @ c_string chunk in
        if length b > kMaxFrame then []
        else case PumpReader b of (docs, b') \<Rightarrow> docs @ ReaderLoop b' chunks)"

section \<open>A message sent is one whole frame\<close>

definition frame :: "string \<Rightarrow> string" where
  "frame body = frame_head (length body) @ body"

lemma write_loop_prefix:
  "write_loop w k bytes = (out, ok, k') \<Longrightarrow> prefix out bytes \<and> (ok \<longleftrightarrow> out = bytes)"
proof (induction w k bytes arbitrary: out ok k' rule: write_loop.induct)
  case (1 w k bytes)
  show ?case
  proof (cases "bytes = [] \<or> w k (length bytes) \<le> 0")
    case True
    with "1.prems" show ?thesis
      by (subst (asm) write_loop.simps) (auto simp: Let_def split: if_splits)
  next
    case False
    define n where "n = nat (w k (length bytes))"
    obtain o2 ok2 k2 where r: "write_loop w (k + 1) (drop n bytes) = (o2, ok2, k2)"
      by (metis prod_cases3)
    with False "1.prems" have out: "out = take n bytes @ o2" "ok = ok2"
      by (auto simp: write_loop.simps [of w k bytes] Let_def n_def)
    from False r "1.IH" have "prefix o2 (drop n bytes) \<and> (ok2 \<longleftrightarrow> o2 = drop n bytes)"
      by (simp add: n_def)
    then have "prefix (take n bytes @ o2) (take n bytes @ drop n bytes)
        \<and> (ok2 \<longleftrightarrow> take n bytes @ o2 = take n bytes @ drop n bytes)"
      by (simp only: same_prefix_prefix same_append_eq)
    with out show ?thesis by simp
  qed
qed

text \<open>
  A message sent is one whole frame: whatever the pipe takes at each \<open>write\<close>, the bytes
  \<open>Send\<close> has written are a prefix of the header with the body's length followed by the body, and
  it reports success exactly when they are all of it.
\<close>

theorem Send_writes_frame:
  assumes "0 \<le> fStdin" and "Send w k fStdin body = (out, ok, k')"
  shows "prefix out (frame body) \<and> (ok \<longleftrightarrow> out = frame body)"
proof -
  obtain o1 ok1 k1 where h: "write_loop w k (frame_head (length body)) = (o1, ok1, k1)"
    by (metis prod_cases3)
  obtain o2 ok2 k2 where b: "write_loop w k1 body = (o2, ok2, k2)"
    by (metis prod_cases3)
  note parts = write_loop_prefix [OF h] write_loop_prefix [OF b]
  show ?thesis
    using assms h b parts by (cases ok1) (auto simp: Send_def frame_def prefix_def)
qed

theorem Send_writes_frame_witness:
  "prefix (fst (Send (\<lambda>k n. 7) 0 3 ''hi'')) (frame ''hi'')
    \<and> (fst (snd (Send (\<lambda>k n. 7) 0 3 ''hi'')) \<longleftrightarrow> fst (Send (\<lambda>k n. 7) 0 3 ''hi'') = frame ''hi'')"
  by (rule Send_writes_frame [where fStdin = 3 and w = "\<lambda>k n. 7" and k = 0
      and k' = "snd (snd (Send (\<lambda>k n. 7) 0 3 ''hi''))"]) simp_all

section \<open>The frames come out as they went in\<close>

lemma find_first_skip:
  "c \<notin> set h \<Longrightarrow> find_first (c # pat) (h @ t) = map_option (\<lambda>n. length h + n) (find_first (c # pat) t)"
proof (induction h)
  case (Cons x h)
  then show ?case by (cases "find_first (c # pat) t") auto
qed (cases "find_first (c # pat) t", simp_all)

definition head_line :: "nat \<Rightarrow> string" where
  "head_line n = ''Content-Length: '' @ show_int (int n)"

lemma frame_head_line: "frame body = head_line (length body) @ CRLF @ CRLF @ body"
  by (simp add: frame_def frame_head_def head_line_def)

lemma CR_not_in_head_line: "CHR 0x0D \<notin> set (head_line n)"
proof -
  have "\<not> is_digit (CHR 0x0D)"
    by (simp add: is_digit_def less_eq_char_iff)
  then show ?thesis
    using show_nat_digits by (auto simp: head_line_def show_int_def)
qed

lemma head_length_head_line: "head_length (head_line n) = int n"
proof -
  obtain c cs where c: "show_nat n = c # cs" by (cases "show_nat n") auto
  then have d: "is_digit c"
    using show_nat_digits [of c n] by simp
  have n: "c \<noteq> CHR ''-''" "c \<noteq> CHR ''+''"
    using digit_char_cases(2) [OF d] by auto
  have sp: "\<not> c_space c"
    using d by (auto simp: is_digit_def c_space_def less_eq_char_iff byte_def)
  have "c_space (CHR '' '')"
    by (simp add: c_space_def)
  then have "atoll (CHR '' '' # show_nat n) = int n"
    using n sp c read_show_nat [of "[]" n] by (simp add: atoll_def del: read_digits.simps)
  then show ?thesis
    by (simp add: head_length_def head_line_def show_int_def)
qed

lemma PumpReader_header:
  assumes "take 4 t = CRLF @ CRLF" "n \<le> kMaxFrame"
  shows "PumpReader (head_line n @ t) =
    (if length t < 4 + n then ([], head_line n @ t)
     else case PumpReader (drop (4 + n) t) of (docs, b) \<Rightarrow> (take n (drop 4 t) # docs, b))"
proof -
  obtain u where t: "t = CRLF @ CRLF @ u"
    using assms(1) by (metis append.assoc append_take_drop_id)
  have "find_first (CRLF @ CRLF) (head_line n @ t) = Some (length (head_line n))"
    "find_first CRLF (head_line n @ t) = Some (length (head_line n))"
    using find_first_skip [OF CR_not_in_head_line [of n]] by (simp_all add: t CRLF_def)
  then show ?thesis
    using assms(2) head_length_head_line [of n]
    by (subst PumpReader.simps) (auto simp: Let_def t split: prod.split)
qed

lemma PumpReader_frame:
  "length body \<le> kMaxFrame \<Longrightarrow> PumpReader (frame body @ rest) =
    (case PumpReader rest of (docs, b) \<Rightarrow> (body # docs, b))"
proof -
  have "drop (4 + length body) (CRLF @ CRLF @ body @ rest) = drop (length body) (drop 4 (CRLF @ CRLF @ body @ rest))"
    by (simp only: drop_drop add.commute)
  then have "drop (4 + length body) (CRLF @ CRLF @ body @ rest) = rest"
    by (simp add: CRLF_def)
  moreover have "take 4 (CRLF @ CRLF @ x) = CRLF @ CRLF" "drop 4 (CRLF @ CRLF @ x) = x"
    "length (CRLF @ CRLF @ x) = 4 + length x" for x
    by (simp_all add: CRLF_def)
  ultimately show "length body \<le> kMaxFrame \<Longrightarrow> ?thesis"
    using PumpReader_header [of "CRLF @ CRLF @ body @ rest" "length body"]
    by (simp add: frame_head_line)
qed

lemma PumpReader_waits:
  assumes "strict_prefix p (frame body)" "length body \<le> kMaxFrame"
  shows "PumpReader p = ([], p)"
proof -
  have none: "PumpReader p = ([], p)" if "find_first (CRLF @ CRLF) p = None"
    using that by (subst PumpReader.simps) simp
  from assms(1) consider "prefix p (head_line (length body))"
    | t where "p = head_line (length body) @ t" "strict_prefix t (CRLF @ CRLF @ body)"
    by (auto simp: frame_head_line strict_prefix_def prefix_append)
  then show ?thesis
  proof cases
    case 1
    then have "CHR 0x0D \<notin> set p"
      using CR_not_in_head_line [of "length body"] set_mono_prefix by blast
    then show ?thesis
      using none find_first_skip [of "CHR 0x0D" p "CRLF @ [CHR 0x0A]" "[]"]
        find_first_skip [of "CHR 0x0D" p _ "[]"] by (simp add: CRLF_def)
  next
    case 2
    from 2(2) consider "t = []" | "t = [CHR 0x0D]" | "t = CRLF" | "t = CRLF @ [CHR 0x0D]"
      | u where "t = CRLF @ CRLF @ u" "strict_prefix u body"
      by (auto simp: CRLF_def strict_prefix_def prefix_Cons)
    then show ?thesis
    proof cases
      case (5 u)
      then have "length u < length body"
        by (simp add: prefix_length_less)
      with 5 2 assms(2) show ?thesis
        using PumpReader_header [of t "length body"] by (simp add: CRLF_def)
    qed (use none 2 find_first_skip [OF CR_not_in_head_line [of "length body"], where t = t] in \<open>simp_all add: CRLF_def\<close>)
  qed
qed

text \<open>What is left in the buffer: nothing, or a part of the next frame.\<close>

definition part_of_next :: "string \<Rightarrow> string list \<Rightarrow> bool" where
  "part_of_next p bodies = (case bodies of [] \<Rightarrow> p = [] | b # _ \<Rightarrow> strict_prefix p (frame b))"

definition stream :: "string list \<Rightarrow> string" where
  "stream bodies = concat (List.map frame bodies)"

lemma PumpReader_stream:
  assumes "\<forall>b \<in> set bodies. length b \<le> kMaxFrame" "prefix p (stream bodies)"
  shows "\<exists>done left p'. bodies = done @ left \<and> PumpReader p = (done, p')
    \<and> p = stream done @ p' \<and> part_of_next p' left"
  using assms
proof (induction bodies arbitrary: p)
  case Nil
  then show ?case
    by (auto simp: stream_def part_of_next_def PumpReader.simps [of "[]"] CRLF_def)
next
  case (Cons body bodies)
  from Cons.prems(2) have "prefix p (frame body) \<or> (\<exists>q. p = frame body @ q \<and> prefix q (stream bodies))"
    by (simp add: stream_def prefix_append)
  then consider "strict_prefix p (frame body)"
    | q where "p = frame body @ q" "prefix q (stream bodies)"
    by (metis append_Nil2 Nil_prefix strict_prefixI)
  then show ?case
  proof cases
    case 1
    with Cons.prems(1) show ?thesis
      by (intro exI [of _ "[]"] exI [of _ "body # bodies"] exI [of _ p])
        (simp add: stream_def part_of_next_def PumpReader_waits)
  next
    case (2 q)
    with Cons.IH [of q] Cons.prems(1) obtain d l p' where
      "bodies = d @ l" "PumpReader q = (d, p')" "q = stream d @ p'" "part_of_next p' l" by auto
    with 2 Cons.prems(1) show ?thesis
      by (intro exI [of _ "body # d"] exI [of _ l] exI [of _ p'])
        (simp add: stream_def PumpReader_frame)
  qed
qed

lemma frame_no_nul: "CHR 0x00 \<notin> set body \<Longrightarrow> CHR 0x00 \<notin> set (frame body)"
proof -
  have "\<not> is_digit (CHR 0x00)"
    by (simp add: is_digit_def less_eq_char_iff)
  then show "CHR 0x00 \<notin> set body \<Longrightarrow> ?thesis"
    using show_nat_digits by (auto simp: frame_head_line head_line_def show_int_def CRLF_def)
qed

lemma ReaderLoop_stream:
  assumes "\<forall>b \<in> set bodies. CHR 0x00 \<notin> set b \<and> length (frame b) + 16384 \<le> kMaxFrame"
    and "\<forall>c \<in> set chunks. c \<noteq> [] \<and> length c \<le> 16384"
    and "part_of_next buf bodies" and "buf @ concat chunks = stream bodies"
  shows "ReaderLoop buf chunks = bodies"
  using assms
proof (induction chunks arbitrary: buf bodies)
  case Nil
  then show ?case
    by (cases bodies) (auto simp: part_of_next_def stream_def strict_prefix_def)
next
  case (Cons c chunks)
  have no_nul: "c_string c = c"
  proof (rule c_string_id)
    have "set c \<subseteq> set (stream bodies)"
      using Cons.prems(4) by (metis Un_iff concat.simps(2) set_append subsetI)
    then show "CHR 0x00 \<notin> set c"
      using Cons.prems(1) frame_no_nul by (fastforce simp: stream_def)
  qed
  have small: "\<not> length (buf @ c) > kMaxFrame"
  proof (cases bodies)
    case Nil
    then show ?thesis using Cons.prems by (simp add: part_of_next_def stream_def)
  next
    case (Cons b bs)
    then show ?thesis
      using Cons.prems prefix_length_less [of buf "frame b"] by (auto simp: part_of_next_def)
  qed
  have "prefix (buf @ c) (stream bodies)"
    using Cons.prems(4) by (metis append.assoc concat.simps(2) prefixI)
  moreover have "\<forall>b \<in> set bodies. length b \<le> kMaxFrame"
    using Cons.prems(1) by (auto simp: frame_def)
  ultimately obtain d l p' where p: "bodies = d @ l" "PumpReader (buf @ c) = (d, p')"
    "buf @ c = stream d @ p'" "part_of_next p' l"
    using PumpReader_stream [of bodies "buf @ c"] by blast
  have "ReaderLoop p' chunks = l"
  proof (rule Cons.IH)
    show "p' @ concat chunks = stream l"
      using Cons.prems(4) p by (simp add: stream_def) (metis append.assoc same_append_eq)
  qed (use Cons.prems p in auto)
  then show ?case
    using Cons.prems(2) no_nul small p by simp
qed

text \<open>
  C2 The reader gives back the documents that were framed, each once and in order, however the
  pipe cuts the stream into chunks.
\<close>

theorem reader_reassembles:
  assumes "concat chunks = concat (List.map frame bodies)"
    and "\<forall>c \<in> set chunks. c \<noteq> [] \<and> length c \<le> 16384"
    and "\<forall>b \<in> set bodies. CHR 0x00 \<notin> set b \<and> length (frame b) + 16384 \<le> kMaxFrame"
  shows "ReaderLoop [] chunks = bodies"
proof (rule ReaderLoop_stream)
  show "part_of_next [] bodies"
    by (cases bodies) (auto simp: part_of_next_def frame_head_line CRLF_def strict_prefix_def)
qed (use assms in \<open>simp_all add: stream_def\<close>)

theorem reader_reassembles_witness:
  "ReaderLoop [] [take 5 (frame ''hi''), drop 5 (frame ''hi'') @ frame [CHR 0x7B, CHR 0x7D]]
    = [''hi'', [CHR 0x7B, CHR 0x7D]]"
  by (rule reader_reassembles)
    (simp_all add: frame_def frame_head_def CRLF_def kMaxFrame_def show_int_def show_nat.simps)

section \<open>Requests and replies\<close>

datatype status = B_OK | B_ERROR | B_TIMED_OUT

datatype 'n reply = Reply (reply_id: int) (reply_error: bool) (reply_value: "'n JVal")

record 'n session =
  fNextId :: int
  fReplies :: "'n reply list"
  fReaderGone :: bool

definition new_session :: "'n session" where
  "new_session = \<lparr>fNextId = 0, fReplies = [], fReaderGone = False\<rparr>"

definition request_message :: "'n :: zero num_lib \<Rightarrow> int \<Rightarrow> string \<Rightarrow> 'n JVal \<Rightarrow> 'n JVal" where
  "request_message L rid meth params =
     JSet (JSet (JSet (JSet JNull ''jsonrpc'' (JString ''2.0'')) ''id'' (JNumber (of_int64 L rid)))
       ''method'' (JString meth)) ''params'' params"

definition notification_message :: "string \<Rightarrow> 'n :: zero JVal \<Rightarrow> 'n JVal" where
  "notification_message meth params =
     JSet (JSet (JSet JNull ''jsonrpc'' (JString ''2.0'')) ''method'' (JString meth)) ''params'' params"

text \<open>A new id, under the lock.\<close>

definition take_id :: "'n session \<Rightarrow> int \<times> 'n session" where
  "take_id st = (fNextId st + 1, st\<lparr>fNextId := fNextId st + 1\<rparr>)"

text \<open>\<open>Deliver\<close>: a response is kept for its request, a notification is passed on (\<open>Some\<close>).\<close>

definition is_response :: "'n JVal \<Rightarrow> bool" where
  "is_response msg \<longleftrightarrow> Has msg ''id'' \<and> (Has msg ''result'' \<or> Has msg ''error'')"

definition reply_of :: "'n :: zero num_lib \<Rightarrow> 'n JVal \<Rightarrow> 'n reply" where
  "reply_of L msg = Reply (AsInt L (Get msg ''id'')) (Has msg ''error'')
     (if Has msg ''error'' then Get msg ''error'' else Get msg ''result'')"

definition Deliver :: "'n :: zero num_lib \<Rightarrow> 'n JVal \<Rightarrow> 'n session \<Rightarrow> 'n session \<times> 'n JVal option" where
  "Deliver L msg st =
     (if is_response msg then (st\<lparr>fReplies := fReplies st @ [reply_of L msg]\<rparr>, None)
      else (st, if Has msg ''method'' then Some msg else None))"

definition HandleDocument :: "'n :: zero num_lib \<Rightarrow> string \<Rightarrow> 'n session \<Rightarrow> 'n session \<times> 'n JVal option" where
  "HandleDocument L body st =
     (case JParse L body JNull of
        Some (Inr msg) \<Rightarrow> Deliver L msg st
      | _ \<Rightarrow> (st, None))"

text \<open>
  One look of \<open>Request\<close> at the replies, under the lock: the first with its id is taken out; if
  there is none and the reader is gone, the request fails.
\<close>

fun take_reply :: "int \<Rightarrow> 'n reply list \<Rightarrow> ('n reply \<times> 'n reply list) option" where
  "take_reply rid [] = None"
| "take_reply rid (r # rs) = (if reply_id r = rid then Some (r, rs)
     else map_option (\<lambda>(x, rs'). (x, r # rs')) (take_reply rid rs))"

definition look :: "int \<Rightarrow> 'n session \<Rightarrow> (status \<times> 'n JVal option) option \<times> 'n session" where
  "look rid st =
     (case take_reply rid (fReplies st) of
        Some (r, rs) \<Rightarrow>
          (Some (if reply_error r then B_ERROR else B_OK, Some (reply_value r)), st\<lparr>fReplies := rs\<rparr>)
      | None \<Rightarrow> (if fReaderGone st then Some (B_ERROR, None) else None, st))"

text \<open>
  What other threads do between two looks of a request: the reader thread handles a document or
  ends, another request takes an rid or looks for its own reply.
\<close>

datatype event = Document string | ReaderEnds | TakesId | LooksFor int

definition event_step :: "'n :: zero num_lib \<Rightarrow> event \<Rightarrow> 'n session \<Rightarrow> 'n session" where
  "event_step L e st =
     (case e of
        Document body \<Rightarrow> fst (HandleDocument L body st)
      | ReaderEnds \<Rightarrow> st\<lparr>fReaderGone := True\<rparr>
      | TakesId \<Rightarrow> snd (take_id st)
      | LooksFor j \<Rightarrow> snd (look j st))"

definition events :: "'n :: zero num_lib \<Rightarrow> event list \<Rightarrow> 'n session \<Rightarrow> 'n session" where
  "events L es st = fold (event_step L) es st"

text \<open>
  The waiting loop of \<open>Request\<close>. A round is what happens before the look and the clock read after
  it; \<open>None\<close> when the rounds given end before the request does.
\<close>

fun Request_wait :: "'n :: zero num_lib \<Rightarrow> int \<Rightarrow> int \<Rightarrow> (event list \<times> int) list \<Rightarrow> 'n session
    \<Rightarrow> ((status \<times> 'n JVal option) \<times> 'n session) option" where
  "Request_wait L rid deadline [] st = None"
| "Request_wait L rid deadline ((es, now) # rounds) st =
     (case look rid (events L es st) of
        (Some answer, st') \<Rightarrow> Some (answer, st')
      | (None, st') \<Rightarrow>
          if now \<ge> deadline then Some ((B_TIMED_OUT, None), st')
          else Request_wait L rid deadline rounds st')"

section \<open>Each request gets its own answer\<close>

text \<open>The documents that answer request \<open>id\<close>.\<close>

definition answers :: "'n :: zero num_lib \<Rightarrow> int \<Rightarrow> event \<Rightarrow> bool" where
  "answers L rid e = (case e of Document body \<Rightarrow>
     (case JParse L body JNull of Some (Inr msg) \<Rightarrow> is_response msg \<and> AsInt L (Get msg ''id'') = rid
      | _ \<Rightarrow> False) | _ \<Rightarrow> False)"

definition replies_to :: "int \<Rightarrow> 'n session \<Rightarrow> 'n reply list" where
  "replies_to rid st = filter (\<lambda>r. reply_id r = rid) (fReplies st)"

lemma take_reply_None: "take_reply rid rs = None \<longleftrightarrow> filter (\<lambda>r. reply_id r = rid) rs = []"
  by (induction rs) auto

lemma take_reply_Some:
  "take_reply rid rs = Some (r, rs') \<Longrightarrow> filter (\<lambda>r. reply_id r = rid) rs = r # filter (\<lambda>r. reply_id r = rid) rs'"
  by (induction rs arbitrary: rs') (auto split: if_splits)

lemma take_reply_other:
  "take_reply rid rs = Some (r, rs') \<Longrightarrow> j \<noteq> rid \<Longrightarrow>
    filter (\<lambda>r. reply_id r = j) rs' = filter (\<lambda>r. reply_id r = j) rs"
  by (induction rs arbitrary: rs') (auto split: if_splits)

lemma look_other:
  "j \<noteq> rid \<Longrightarrow> replies_to rid (snd (look j st)) = replies_to rid st"
  by (auto simp: look_def replies_to_def take_reply_other split: option.split)

lemma event_step_replies:
  assumes "e \<noteq> LooksFor rid" "\<not> answers L rid e"
  shows "replies_to rid (event_step L e st) = replies_to rid st"
proof (cases e)
  case (Document body)
  with assms show ?thesis
    by (auto simp: event_step_def HandleDocument_def Deliver_def answers_def replies_to_def reply_of_def
        split: option.split sum.split)
next
  case (LooksFor j)
  with assms look_other [of j rid st] show ?thesis by (simp add: event_step_def)
qed (simp_all add: event_step_def take_id_def replies_to_def)

lemma event_step_gone:
  "e \<noteq> ReaderEnds \<Longrightarrow> fReaderGone (event_step L e st) = fReaderGone st"
  by (cases e) (simp_all add: event_step_def HandleDocument_def Deliver_def take_id_def look_def
      split: option.split sum.split prod.split)

lemma events_replies:
  "\<forall>e \<in> set es. e \<noteq> LooksFor rid \<and> \<not> answers L rid e \<Longrightarrow> replies_to rid (events L es st) = replies_to rid st"
  by (induction es arbitrary: st) (simp_all add: events_def event_step_replies)

lemma events_gone:
  "ReaderEnds \<notin> set es \<Longrightarrow> fReaderGone (events L es st) = fReaderGone st"
proof (induction es arbitrary: st)
  case (Cons e es)
  have "fReaderGone (event_step L e st) = fReaderGone st"
    by (rule event_step_gone) (use Cons.prems in auto)
  with Cons show ?case by (simp add: events_def)
qed (simp add: events_def)

lemma events_append: "events L (es @ fs) st = events L fs (events L es st)"
  by (simp add: events_def)

lemma event_keeps_first:
  assumes "replies_to rid st = r # rs" "e \<noteq> LooksFor rid"
  shows "\<exists>rs'. replies_to rid (event_step L e st) = r # rs'"
proof (cases "answers L rid e")
  case True
  then show ?thesis
    using assms by (cases e) (auto simp: answers_def event_step_def HandleDocument_def Deliver_def
        replies_to_def split: option.splits sum.splits)
next
  case False
  with assms event_step_replies [of e rid L st] show ?thesis by simp
qed

lemma events_keep_first:
  "replies_to rid st = r # rs \<Longrightarrow> LooksFor rid \<notin> set es \<Longrightarrow> \<exists>rs'. replies_to rid (events L es st) = r # rs'"
proof (induction es arbitrary: st rs)
  case (Cons e es)
  then obtain rs' where "replies_to rid (event_step L e st) = r # rs'"
    using event_keeps_first by (metis list.set_intros(1))
  with Cons show ?case by (simp add: events_def)
qed (simp add: events_def)

lemma look_None:
  "replies_to rid st = [] \<Longrightarrow> \<not> fReaderGone st \<Longrightarrow> look rid st = (None, st)"
  using take_reply_None [of rid "fReplies st"] by (auto simp: look_def replies_to_def split: option.split)

lemma look_first:
  assumes "replies_to rid st = r # rs"
  shows "fst (look rid st) = Some (if reply_error r then B_ERROR else B_OK, Some (reply_value r))"
proof -
  obtain r' rs' where "take_reply rid (fReplies st) = Some (r', rs')"
    using assms take_reply_None [of rid "fReplies st"] by (auto simp: replies_to_def)
  then show ?thesis
    using assms take_reply_Some by (fastforce simp: look_def replies_to_def)
qed

text \<open>
  C22 A request gets its answer: if the first document that answers it arrives in some round, the
  clock was before the deadline in the rounds before it, the reader was alive in them, and no one
  else looks for that rid, then \<open>Request\<close> returns there, with \<open>B_OK\<close> and the result or with
  \<open>B_ERROR\<close> and the error object, whatever other documents and requests come in between.
\<close>

theorem request_gets_its_answer:
  assumes "replies_to rid st = []" and "\<not> fReaderGone st"
    and quiet: "\<forall>(es, now) \<in> set waiting. now < deadline \<and> ReaderEnds \<notin> set es
      \<and> (\<forall>e \<in> set es. e \<noteq> LooksFor rid \<and> \<not> answers L rid e)"
    and before: "\<forall>e \<in> set es1. e \<noteq> LooksFor rid \<and> \<not> answers L rid e"
    and after: "LooksFor rid \<notin> set es2"
    and doc: "JParse L body JNull = Some (Inr msg)" "is_response msg" "AsInt L (Get msg ''id'') = rid"
  shows "map_option fst (Request_wait L rid deadline
      (waiting @ (es1 @ Document body # es2, now) # later) st)
    = Some (if Has msg ''error'' then (B_ERROR, Some (Get msg ''error''))
            else (B_OK, Some (Get msg ''result'')))"
  using assms(1,2) quiet
proof (induction waiting arbitrary: st)
  case Nil
  define st1 where "st1 = events L es1 st"
  have "replies_to rid st1 = []"
    using Nil before by (simp add: st1_def events_replies)
  then have "replies_to rid (event_step L (Document body) st1) = [reply_of L msg]"
    using doc by (simp add: event_step_def HandleDocument_def Deliver_def replies_to_def reply_of_def)
  then obtain rs where "replies_to rid (events L (es1 @ Document body # es2) st) = reply_of L msg # rs"
    using events_keep_first [of rid "event_step L (Document body) st1" "reply_of L msg" "[]" es2 L] after
    by (auto simp: events_def st1_def)
  then have "fst (look rid (events L (es1 @ Document body # es2) st))
      = Some (if Has msg ''error'' then (B_ERROR, Some (Get msg ''error''))
            else (B_OK, Some (Get msg ''result'')))"
    using look_first by (fastforce simp: reply_of_def)
  then show ?case
    by (auto split: prod.split)
next
  case (Cons w waiting)
  obtain es t where w: "w = (es, t)" by fastforce
  have "replies_to rid (events L es st) = []" "\<not> fReaderGone (events L es st)"
    using Cons.prems w by (auto simp: events_replies events_gone)
  then have "look rid (events L es st) = (None, events L es st)"
    by (rule look_None)
  with Cons w \<open>replies_to rid (events L es st) = []\<close> \<open>\<not> fReaderGone (events L es st)\<close>
  show ?case by simp
qed

definition answer_7 :: json where
  "answer_7 = JsObj [(''id'', JsInt 1), (''result'', JsBool True)]"

lemma answer_7: "encode int_lib answer_7 =
  JV KObject False 0 [] [JNumber 1, JBool True] [''id'', ''result'']"
  unfolding answer_7_def by (subst encode_JsObj) (simp_all add: int_lib_def)

theorem request_gets_its_answer_witness:
  "map_option fst (Request_wait int_lib 1 10
      ([([TakesId], 5)] @ ([LooksFor 2] @ Document (ToJson int_lib (encode int_lib answer_7)) # [], 7) # [])
      new_session)
    = Some (if Has (encode int_lib answer_7) ''error'' then (B_ERROR, Some (Get (encode int_lib answer_7) ''error''))
            else (B_OK, Some (Get (encode int_lib answer_7) ''result'')))"
proof (rule request_gets_its_answer)
  show "JParse int_lib (ToJson int_lib (encode int_lib answer_7)) JNull = Some (Inr (encode int_lib answer_7))"
    by (rule written_document_reads_back [OF exact_int_lib]) (simp_all add: answer_7_def)
  show "is_response (encode int_lib answer_7)" "AsInt int_lib (Get (encode int_lib answer_7) ''id'') = 1"
    unfolding answer_7 by (simp_all add: is_response_def Has_def Get_def AsInt_def int_lib_def JNumber_def)
qed (simp_all add: new_session_def replies_to_def answers_def)

text \<open>The ids that requests take over a run.\<close>

fun ids_taken :: "'n :: zero num_lib \<Rightarrow> event list \<Rightarrow> 'n session \<Rightarrow> int list" where
  "ids_taken L [] st = []"
| "ids_taken L (e # es) st =
     (if e = TakesId then [fst (take_id st)] else []) @ ids_taken L es (event_step L e st)"

lemma event_step_next_id:
  "fNextId (event_step L e st) = (if e = TakesId then fNextId st + 1 else fNextId st)"
  by (cases e) (simp_all add: event_step_def HandleDocument_def Deliver_def take_id_def look_def
      split: option.split sum.split prod.split)

lemma ids_taken_above: "j \<in> set (ids_taken L es st) \<Longrightarrow> fNextId st < j"
proof (induction es arbitrary: st)
  case (Cons e es)
  then show ?case
    using event_step_next_id [of L e st] by (fastforce simp: take_id_def split: if_splits)
qed simp

text \<open>No two requests of a session ever share an id.\<close>

lemma ids_are_new: "distinct (ids_taken L es st)"
proof (induction es arbitrary: st)
  case (Cons e es)
  show ?case
    using Cons.IH ids_taken_above [of "fNextId st + 1" L es "event_step L e st"]
      event_step_next_id [of L e st]
    by (auto simp: take_id_def)
qed simp

text \<open>
  The answer to a request that has timed out is never let go: once such an answer has come in,
  it stays among the replies over everything that can happen later, because nothing but a look for
  its own id takes a reply out, and ids are never used again.
\<close>

theorem late_answer_is_kept:
  assumes "map_option fst (Request_wait L rid deadline rounds st) = Some (B_TIMED_OUT, None)"
    and "LooksFor rid \<notin> set es1" "answers L rid (Document body)" "LooksFor rid \<notin> set es2"
  shows "\<exists>r. reply_id r = rid \<and> r \<in> set (fReplies (events L (es1 @ Document body # es2)
    (snd (the (Request_wait L rid deadline rounds st)))))"
proof -
  define st1 where "st1 = events L es1 (snd (the (Request_wait L rid deadline rounds st)))"
  have "replies_to rid (event_step L (Document body) st1) \<noteq> []"
    using assms(3) by (auto simp: answers_def event_step_def HandleDocument_def Deliver_def
        replies_to_def reply_of_def split: option.splits sum.splits)
  then obtain r rs where "replies_to rid (event_step L (Document body) st1) = r # rs"
    by (cases "replies_to rid (event_step L (Document body) st1)") auto
  then obtain rs' where "replies_to rid (events L es2 (event_step L (Document body) st1)) = r # rs'"
    using events_keep_first assms(4) by blast
  then have "r \<in> set (replies_to rid (events L es2 (event_step L (Document body) st1)))"
    by simp
  then show ?thesis
    by (auto simp: replies_to_def events_def st1_def)
qed

theorem late_answer_is_kept_witness:
  "\<exists>r. reply_id r = 1 \<and> r \<in> set (fReplies (events int_lib
      ([TakesId] @ Document (ToJson int_lib (encode int_lib answer_7)) # [LooksFor 2])
      (snd (the (Request_wait int_lib 1 10 [([], 5), ([], 12)] new_session)))))"
proof (rule late_answer_is_kept)
  have "JParse int_lib (ToJson int_lib (encode int_lib answer_7)) JNull = Some (Inr (encode int_lib answer_7))"
    by (rule written_document_reads_back [OF exact_int_lib]) (simp_all add: answer_7_def)
  then show "answers int_lib 1 (Document (ToJson int_lib (encode int_lib answer_7)))"
    unfolding answer_7 by (simp add: answers_def is_response_def Has_def Get_def AsInt_def int_lib_def JNumber_def)
qed (simp_all add: new_session_def look_def events_def)

section \<open>Documents\<close>

definition VersionedText :: "'n :: zero num_lib \<Rightarrow> string \<Rightarrow> int \<Rightarrow> string \<Rightarrow> 'n JVal" where
  "VersionedText L uri version txt =
     JSet (JSet (JSet (JSet JNull ''uri'' (JString uri)) ''languageId'' (JString ''cpp''))
       ''version'' (JNumber (of_int64 L version))) ''text'' (JString txt)"

definition DidOpen :: "'n :: zero num_lib \<Rightarrow> string \<Rightarrow> string \<Rightarrow> 'n JVal" where
  "DidOpen L path txt =
     notification_message ''textDocument/didOpen''
       (JSet JNull ''textDocument'' (VersionedText L (FileUriOf path) 1 txt))"

definition DidChange :: "'n :: zero num_lib \<Rightarrow> string \<Rightarrow> string \<Rightarrow> 'n JVal" where
  "DidChange L path txt =
     notification_message ''textDocument/didChange''
       (JSet (JSet JNull ''textDocument''
           (JSet (JSet JNull ''uri'' (JString (FileUriOf path))) ''version'' (JNumber (of_int64 L 2))))
         ''contentChanges'' (Add JNull (JSet JNull ''text'' (JString txt))))"

definition DidClose :: "string \<Rightarrow> 'n :: zero JVal" where
  "DidClose path =
     notification_message ''textDocument/didClose''
       (JSet JNull ''textDocument'' (JSet JNull ''uri'' (JString (FileUriOf path))))"

text \<open>What the server reads from a notification: the document it names, and its text.\<close>

definition named_path :: "'n :: zero JVal \<Rightarrow> string option" where
  "named_path msg = PathOfUri (fString (Get (Get (Get msg ''params'') ''textDocument'') ''uri''))"

text \<open>
  Open, change and close name the document they are about and carry the text given, and every
  change is sent under version 2, however many went before it.
\<close>

theorem notifications_carry_the_document:
  fixes L :: "'n :: zero num_lib"
  shows "named_path (DidOpen L path txt) = Some (c_string path)
   \<and> named_path (DidChange L path txt) = Some (c_string path)
   \<and> named_path (DidClose path :: 'n JVal) = Some (c_string path)
   \<and> fString (Get (Get (Get (DidOpen L path txt) ''params'') ''textDocument'') ''text'') = txt
   \<and> fString (Get (fArray (Get (Get (DidChange L path txt) ''params'') ''contentChanges'') ! 0) ''text'') = txt
   \<and> Get (Get (Get (DidChange L path txt) ''params'') ''textDocument'') ''version'' = JNumber (of_int64 L 2)"
proof -
  have ok: "object_ok (JNull :: 'n JVal)"
    by (simp add: object_ok_def JNull_def)
  note rules = ok JSet_object_ok Get_JSet_same Get_JSet_other
  have n: "Get (notification_message meth params :: 'n JVal) ''params'' = params" for meth params
    by (simp add: notification_message_def rules)
  have a: "fArray (Add (JNull :: 'n JVal) v) ! 0 = v" for v
    by (simp add: Add_def JNull_def)
  show ?thesis
    by (simp add: named_path_def DidOpen_def DidChange_def DidClose_def VersionedText_def n a rules
        file_uri_names_path JString_def)
qed

end
