(* ===== verification/ClangdServer.thy ===== *)
theory ClangdServer
  imports LspSession
begin

text \<open>
  The clangd server application, \<open>clangdserver/app/src/main.cpp\<close>: the sessions of the editors, the
  texts they told the server, the messages the server handles, the worker threads that ask clangd
  and the notifications it pushes. Sessions live in a heap of their own, \<open>fSessions\<close> and the worker
  threads hold their addresses, so that what the code frees is gone for everyone.
\<close>

section \<open>Labels and lines\<close>

definition label_start :: "char \<Rightarrow> bool" where
  "label_start c \<longleftrightarrow> 0x20 < byte c \<and> byte c < 0x80"

fun CleanLabel :: "string \<Rightarrow> string" where
  "CleanLabel [] = []"
| "CleanLabel (c # cs) = (if label_start c then c # cs else CleanLabel cs)"

text \<open>The walk of \<open>LineOf\<close> to the start of a line, by \<open>FindFirst\<close> of newlines.\<close>

fun skip_lines :: "nat \<Rightarrow> string \<Rightarrow> string option" where
  "skip_lines 0 body = Some body"
| "skip_lines (Suc n) body =
     (case find_first [CHR 0x0A] body of None \<Rightarrow> None | Some nl \<Rightarrow> skip_lines n (drop (nl + 1) body))"

definition line_text :: "string \<Rightarrow> int \<Rightarrow> string" where
  "line_text body line =
     (case skip_lines (nat line) body of
        None \<Rightarrow> []
      | Some r \<Rightarrow> (case find_first [CHR 0x0A] r of None \<Rightarrow> r | Some e \<Rightarrow> take e r))"

section \<open>A session and its texts\<close>

record 'n editor =
  token :: int
  notify :: nat
  lsp :: "'n session"
  docNames :: "string list"
  docTexts :: "string list"

definition RememberText :: "'n editor \<Rightarrow> string \<Rightarrow> string \<Rightarrow> 'n editor" where
  "RememberText s name body =
     (case key_index (docNames s) name of
        Some i \<Rightarrow> s\<lparr>docTexts := (docTexts s)[i := body]\<rparr>
      | None \<Rightarrow> s\<lparr>docNames := docNames s @ [name], docTexts := docTexts s @ [body]\<rparr>)"

definition erase :: "nat \<Rightarrow> 'a list \<Rightarrow> 'a list" where
  "erase i xs = take i xs @ drop (Suc i) xs"

definition ForgetText :: "'n editor \<Rightarrow> string \<Rightarrow> 'n editor" where
  "ForgetText s name =
     (case key_index (docNames s) name of
        Some i \<Rightarrow> s\<lparr>docNames := erase i (docNames s), docTexts := erase i (docTexts s)\<rparr>
      | None \<Rightarrow> s)"

definition LineOf :: "'n editor \<Rightarrow> string \<Rightarrow> int \<Rightarrow> string" where
  "LineOf s name line =
     (case key_index (docNames s) name of
        Some i \<Rightarrow> line_text (docTexts s ! i) line
      | None \<Rightarrow> [])"

section \<open>What is pushed to the editor\<close>

record completion =
  label :: string
  kind :: int
  detail :: string

record diagnostic =
  diag_line :: int
  diag_col :: "int option"
  diag_sev :: int
  diag_text :: string

datatype pushed =
    SessionReply int
  | CompleteReply int nat "completion list"
  | DefinitionReply int bool "(string \<times> int \<times> int) option"
  | Diagnostics string nat "diagnostic list"

definition MAX_COMPLETIONS :: nat where
  "MAX_COMPLETIONS = 200"

text \<open>The lowest 32 bits, as a signed number: the cast to \<open>int32\<close>.\<close>

definition to_int32 :: "int \<Rightarrow> int" where
  "to_int32 i = (i + 2 ^ 31) mod 2 ^ 32 - 2 ^ 31"

definition path_of :: "string \<Rightarrow> string" where
  "path_of uri = (case PathOfUri uri of Some p \<Rightarrow> p | None \<Rightarrow> [])"

definition items_of :: "'n :: zero JVal \<Rightarrow> 'n JVal list" where
  "items_of reply = fArray (if Has reply ''items'' then Get reply ''items'' else reply)"

definition completion_of :: "'n :: zero num_lib \<Rightarrow> 'n JVal \<Rightarrow> completion" where
  "completion_of L it = \<lparr>label = CleanLabel (fString (Get it ''label'')),
     kind = to_int32 (AsInt L (Get it ''kind'')), detail = fString (Get it ''detail'')\<rparr>"

definition complete_reply :: "'n :: zero num_lib \<Rightarrow> int \<Rightarrow> status \<Rightarrow> 'n JVal \<Rightarrow> pushed" where
  "complete_reply L reqid err reply =
     (if err = B_OK then
        let n = min (length (items_of reply)) MAX_COMPLETIONS in
        CompleteReply reqid n (List.map (\<lambda>i. completion_of L (items_of reply ! i)) [0..<n])
      else CompleteReply reqid 0 [])"

definition definition_reply :: "'n :: zero num_lib \<Rightarrow> int \<Rightarrow> status \<Rightarrow> 'n JVal \<Rightarrow> pushed" where
  "definition_reply L reqid err reply =
     (if err = B_OK \<and> Count reply > 0 then
        let loc = fArray reply ! 0; uri = fString (Get loc ''uri'');
          start = Get (Get loc ''range'') ''start'' in
        DefinitionReply reqid (PathOfUri uri \<noteq> None)
          (Some (path_of uri, to_int32 (AsInt L (Get start ''line'')), to_int32 (AsInt L (Get start ''character''))))
      else DefinitionReply reqid False None)"

definition diagnostic_of :: "'n :: zero num_lib \<Rightarrow> 'n editor \<Rightarrow> string \<Rightarrow> 'n JVal \<Rightarrow> diagnostic" where
  "diagnostic_of L s path d =
     (let start = Get (Get d ''range'') ''start'';
          line = to_int32 (AsInt L (Get start ''line''));
          col16 = to_int32 (AsInt L (Get start ''character''))
      in \<lparr>diag_line = line, diag_col = ByteFromUtf16 (LineOf s path line) col16,
          diag_sev = to_int32 (AsInt L (Get d ''severity'')), diag_text = fString (Get d ''message'')\<rparr>)"

definition SessionNotify :: "'n :: zero num_lib \<Rightarrow> 'n editor \<Rightarrow> 'n JVal \<Rightarrow> pushed option" where
  "SessionNotify L s notification =
     (if fString (Get notification ''method'') \<noteq> ''textDocument/publishDiagnostics'' then None
      else
        let p = Get notification ''params'' in
        case PathOfUri (fString (Get p ''uri'')) of
          None \<Rightarrow> None
        | Some path \<Rightarrow>
            let items = fArray (Get p ''diagnostics'') in
            Some (Diagnostics path (length items) (List.map (diagnostic_of L s path) (take 200 items))))"

section \<open>The server\<close>

datatype what = LSP_COMPLETE | LSP_DEFINITION

record work =
  session :: nat
  work_what :: what
  reqid :: int
  work_name :: string
  work_line :: int
  work_col :: int

record 'n server =
  fSessions :: "nat list"
  fNextToken :: int
  heap :: "nat \<Rightarrow> 'n editor option"
  fresh :: nat
  works :: "work list"

text \<open>
  The messages, with the fields the handler looks for. \<open>LSP_SESSION\<close> carries the notify messenger
  and whether clangd was found and started, which is the environment's to say.
\<close>

datatype message =
    LSP_SESSION nat bool
  | LSP_OPEN int "string option" "string option"
  | LSP_CHANGE int "string option" "string option"
  | LSP_CLOSE int "string option"
  | LSP_ASK what int "string option" "int option" "int option" "int option"
  | LSP_END int

fun message_token :: "message \<Rightarrow> int" where
  "message_token (LSP_SESSION _ _) = 0"
| "message_token (LSP_OPEN t _ _) = t"
| "message_token (LSP_CHANGE t _ _) = t"
| "message_token (LSP_CLOSE t _) = t"
| "message_token (LSP_ASK _ t _ _ _ _) = t"
| "message_token (LSP_END t) = t"

definition SessionByToken :: "'n server \<Rightarrow> int \<Rightarrow> nat option" where
  "SessionByToken sv t = find (\<lambda>a. map_option token (heap sv a) = Some t) (fSessions sv)"

text \<open>
  \<open>NewSession\<close>: the token is taken before clangd is started, and stays taken when it does not
  start.
\<close>

definition NewSession :: "nat \<Rightarrow> bool \<Rightarrow> 'n server \<Rightarrow> 'n server \<times> int" where
  "NewSession messenger started sv =
     (let t = fNextToken sv + 1; a = fresh sv;
          s = \<lparr>token = t, notify = messenger, lsp = new_session, docNames = [], docTexts = []\<rparr> in
      if started then
        (sv\<lparr>fNextToken := t, fresh := a + 1, heap := (heap sv)(a := Some s), fSessions := fSessions sv @ [a]\<rparr>, t)
      else (sv\<lparr>fNextToken := t, fresh := a + 1\<rparr>, 0))"

definition update_editor :: "nat \<Rightarrow> ('n editor \<Rightarrow> 'n editor) \<Rightarrow> 'n server \<Rightarrow> 'n server" where
  "update_editor a f sv = sv\<lparr>heap := (heap sv)(a := map_option f (heap sv a))\<rparr>"

definition or_zero :: "int option \<Rightarrow> int" where
  "or_zero i = (case i of Some v \<Rightarrow> v | None \<Rightarrow> 0)"

text \<open>
  \<open>Handle\<close>: the new state, the reply to the sender, and the notification sent to the session's
  clangd. \<open>spawned\<close> says whether \<open>spawn_thread\<close> gives a thread; without one the question is dropped.
\<close>

definition Handle :: "'n :: zero num_lib \<Rightarrow> bool \<Rightarrow> message \<Rightarrow> 'n server
    \<Rightarrow> 'n server \<times> pushed option \<times> (nat \<times> 'n JVal) option" where
  "Handle L spawned m sv =
     (case m of
        LSP_SESSION messenger started \<Rightarrow>
          (case NewSession messenger started sv of (sv', t) \<Rightarrow> (sv', Some (SessionReply t), None))
      | _ \<Rightarrow>
        (case SessionByToken sv (message_token m) of
           None \<Rightarrow> (sv, None, None)
         | Some a \<Rightarrow>
           (case m of
              LSP_OPEN _ (Some name) (Some body) \<Rightarrow>
                (update_editor a (\<lambda>s. RememberText s name body) sv, None, Some (a, DidOpen L name body))
            | LSP_CHANGE _ (Some name) (Some body) \<Rightarrow>
                (update_editor a (\<lambda>s. RememberText s name body) sv, None, Some (a, DidChange L name body))
            | LSP_CLOSE _ (Some name) \<Rightarrow>
                (update_editor a (\<lambda>s. ForgetText s name) sv, None, Some (a, DidClose name))
            | LSP_END _ \<Rightarrow>
                (sv\<lparr>heap := (heap sv)(a := None), fSessions := remove1 a (fSessions sv)\<rparr>, None, None)
            | LSP_ASK w _ name rq line col \<Rightarrow>
                (if \<not> spawned then sv else sv\<lparr>works := works sv @ [\<lparr>session = a, work_what = w, reqid = or_zero rq,
                   work_name = (case name of Some n \<Rightarrow> n | None \<Rightarrow> []),
                   work_line = or_zero line, work_col = or_zero col\<rparr>]\<rparr>, None, None)
            | _ \<Rightarrow> (sv, None, None))))"

text \<open>
  The worker thread: the question it sends, and, once \<open>Request\<close> has returned, the answer it pushes.
  \<open>None\<close> is a read of what is not the server's: a session that has been freed, or
  what lies behind a line (see \<open>Utf16FromByte\<close>).
\<close>

definition worker_params :: "'n :: zero num_lib \<Rightarrow> 'n server \<Rightarrow> work \<Rightarrow> 'n JVal option" where
  "worker_params L sv w =
     (case heap sv (session w) of
        None \<Rightarrow> None
      | Some s \<Rightarrow>
          map_option (\<lambda>col16.
            JSet (JSet JNull ''textDocument'' (JSet JNull ''uri'' (JString (FileUriOf (work_name w)))))
              ''position'' (JSet (JSet JNull ''line'' (JNumber (of_int64 L (work_line w))))
                ''character'' (JNumber (of_int64 L col16))))
            (Utf16FromByte (LineOf s (work_name w) (work_line w)) (work_col w)))"

definition worker_push :: "'n :: zero num_lib \<Rightarrow> 'n server \<Rightarrow> work \<Rightarrow> status \<Rightarrow> 'n JVal \<Rightarrow> (nat \<times> pushed) option" where
  "worker_push L sv w err reply =
     (case heap sv (session w) of
        None \<Rightarrow> None
      | Some s \<Rightarrow> Some (notify s,
          (case work_what w of
             LSP_COMPLETE \<Rightarrow> complete_reply L (reqid w) err reply
           | LSP_DEFINITION \<Rightarrow> definition_reply L (reqid w) err reply)))"

definition initial_server :: "'n server" where
  "initial_server = \<lparr>fSessions = [], fNextToken = 0, heap = (\<lambda>_. None), fresh = 0, works = []\<rparr>"

text \<open>
  The states of the server: it handles a message, or a worker thread gets to its answer and ends.
\<close>

inductive server_step :: "'n :: zero num_lib \<Rightarrow> 'n server \<Rightarrow> 'n server \<Rightarrow> bool" for L where
  handles: "server_step L sv (fst (Handle L spawned m sv))"
| answered: "w \<in> set (works sv) \<Longrightarrow> server_step L sv (sv\<lparr>works := remove1 w (works sv)\<rparr>)"

inductive server_reachable :: "'n :: zero num_lib \<Rightarrow> 'n server \<Rightarrow> bool" for L where
  start: "server_reachable L initial_server"
| step: "server_reachable L sv \<Longrightarrow> server_step L sv sv' \<Longrightarrow> server_reachable L sv'"

inductive_cases server_stepE: "server_step L sv sv'"

section \<open>The texts\<close>

definition docs_ok :: "'n editor \<Rightarrow> bool" where
  "docs_ok s \<longleftrightarrow> length (docTexts s) = length (docNames s) \<and> distinct (docNames s)"

definition TextOf :: "'n editor \<Rightarrow> string \<Rightarrow> string" where
  "TextOf s name = (case key_index (docNames s) name of Some i \<Rightarrow> docTexts s ! i | None \<Rightarrow> [])"

definition no_texts :: "'n editor" where
  "no_texts = \<lparr>token = 0, notify = 0, lsp = new_session, docNames = [], docTexts = []\<rparr>"

lemma docs_ok_RememberText [wf_rules]: "docs_ok s \<Longrightarrow> docs_ok (RememberText s name body)"
  by (auto simp: docs_ok_def RememberText_def key_index_None split: option.split)

lemma TextOf_RememberText:
  assumes "docs_ok s"
  shows "TextOf (RememberText s name body) name' = (if name' = name then body else TextOf s name')"
  using assms key_index_inj [of "docNames s" name _ name']
  by (auto simp: docs_ok_def TextOf_def RememberText_def key_index_append nth_append
      split: option.split dest: key_index_length intro!: nth_list_update_neq)

interpretation texts: key_store docs_ok RememberText TextOf no_texts "[]"
  by unfold_locales (simp_all add: TextOf_RememberText docs_ok_RememberText,
    simp_all add: docs_ok_def no_texts_def TextOf_def)

lemma erase_simps [simp]: "erase 0 (x # xs) = xs" "erase (Suc n) (x # xs) = x # erase n xs"
  by (simp_all add: erase_def)

lemma key_index_erase:
  "distinct ks \<Longrightarrow> key_index ks k = Some i \<Longrightarrow> key_index (erase i ks) j =
    (if j = k then None else map_option (\<lambda>n. if n < i then n else n - 1) (key_index ks j))"
proof (induction ks arbitrary: i)
  case (Cons x ks)
  show ?case
  proof (cases "x = k")
    case True
    with Cons.prems have "i = 0" "key_index ks k = None" by (auto simp: key_index_None)
    with True show ?thesis
      by (cases "key_index ks j") auto
  next
    case False
    with Cons.prems obtain n where n: "i = Suc n" "key_index ks k = Some n" by auto
    have IH: "key_index (erase n ks) j =
        (if j = k then None else map_option (\<lambda>m. if m < n then m else m - 1) (key_index ks j))"
      using Cons n by simp
    have "m \<noteq> n" if "key_index ks j = Some m" "j \<noteq> k" for m
      using that n key_index_inj by metis
    with False n IH show ?thesis
      by (cases "key_index ks j") (auto simp: not_less)
  qed
qed simp

lemma nth_erase:
  "n < i \<Longrightarrow> i < length xs \<Longrightarrow> erase i xs ! n = xs ! n"
  "i < n \<Longrightarrow> n < length xs \<Longrightarrow> erase i xs ! (n - Suc 0) = xs ! n"
  by (auto simp: erase_def nth_append min_def)

lemma TextOf_ForgetText:
  assumes "docs_ok s"
  shows "TextOf (ForgetText s name) name' = (if name' = name then [] else TextOf s name')"
proof (cases "key_index (docNames s) name")
  case (Some i)
  have "key_index (docNames s) name' \<noteq> Some i" if "name' \<noteq> name"
    using that Some key_index_inj [of "docNames s" name i name'] by auto
  then show ?thesis
    using assms Some key_index_erase [of "docNames s" name i name']
    by (auto simp: TextOf_def ForgetText_def docs_ok_def nth_erase not_less order_le_less
        split: option.split dest: key_index_length)
qed (simp add: TextOf_def ForgetText_def)

lemma docs_ok_ForgetText [wf_rules]: "docs_ok s \<Longrightarrow> docs_ok (ForgetText s name)"
  by (auto simp: docs_ok_def ForgetText_def erase_def set_take_disj_set_drop_if_distinct
      split: option.split dest: key_index_length)

text \<open>The lines of a text, as one counts them.\<close>

fun text_lines :: "string \<Rightarrow> string list" where
  "text_lines [] = [[]]"
| "text_lines (c # cs) = (if c = CHR 0x0A then [] # text_lines cs
     else (c # hd (text_lines cs)) # tl (text_lines cs))"

lemma text_lines_nonempty [simp]: "text_lines body \<noteq> []"
  by (induction body) auto

lemma find_newline:
  "find_first [CHR 0x0A] body = (if CHR 0x0A \<in> set body
     then Some (length (takeWhile (\<lambda>c. c \<noteq> CHR 0x0A) body)) else None)"
  by (induction body) auto

lemma text_lines_split:
  "text_lines body = takeWhile (\<lambda>c. c \<noteq> CHR 0x0A) body #
    (if CHR 0x0A \<in> set body then text_lines (tl (dropWhile (\<lambda>c. c \<noteq> CHR 0x0A) body)) else [])"
  by (induction body) auto

lemma skip_lines_text_lines:
  "skip_lines n body = None \<longleftrightarrow> length (text_lines body) \<le> n"
  "skip_lines n body = Some r \<Longrightarrow> text_lines r = drop n (text_lines body)"
proof (induction n arbitrary: body)
  case (Suc n)
  have tl: "drop (Suc (length (takeWhile P xs))) xs = tl (dropWhile P xs)" for P and xs :: string
    by (simp add: dropWhile_eq_drop drop_Suc tl_drop)
  {
    case 1
    then show ?case
      using Suc.IH(1) by (subst text_lines_split) (auto simp: find_newline tl)
  next
    case 2
    then show ?case
      using Suc.IH(2) by (subst text_lines_split) (auto simp: find_newline tl split: if_splits)
  }
qed (simp_all add: Suc_le_eq)

lemma line_text_nth:
  "line_text body line = (if nat line < length (text_lines body) then text_lines body ! nat line else [])"
proof (cases "skip_lines (nat line) body")
  case None
  then show ?thesis
    using skip_lines_text_lines(1) [of "nat line" body] by (simp add: line_text_def)
next
  case (Some r)
  have len: "nat line < length (text_lines body)"
    using Some skip_lines_text_lines(1) [of "nat line" body] by (metis not_less option.distinct(1))
  then have "text_lines body ! nat line = hd (text_lines r)"
    using skip_lines_text_lines(2) [OF Some] by (simp add: hd_drop_conv_nth)
  also have "hd (text_lines r) = takeWhile (\<lambda>c. c \<noteq> CHR 0x0A) r"
    by (subst text_lines_split) simp
  finally have "text_lines body ! nat line = takeWhile (\<lambda>c. c \<noteq> CHR 0x0A) r" .
  then show ?thesis
    using Some len
    by (auto simp: line_text_def find_newline takeWhile_eq_take [symmetric]
        intro!: takeWhile_eq_all_conv [THEN iffD2, symmetric])
qed

lemma LineOf_TextOf: "LineOf s name line = line_text (TextOf s name) line"
  by (simp add: LineOf_def TextOf_def line_text_nth split: option.split)

text \<open>
  The line a column is counted in is the right one: over any number of texts told to the
  session, the last one told for a document is the one \<open>LineOf\<close> reads, and line \<open>n\<close> is its \<open>n\<close>-th
  line, empty when there are fewer; a document forgotten reads as empty and leaves the others.
\<close>

theorem LineOf_is_the_line:
  assumes "docs_ok s" and "nm \<noteq> other"
  shows "LineOf (foldl (\<lambda>s (name, body). RememberText s name body) s (told @ [(nm, body)])) nm line
      = (if nat line < length (text_lines body) then text_lines body ! nat line else [])
    \<and> LineOf (ForgetText s other) nm line = LineOf s nm line \<and> LineOf (ForgetText s nm) nm line = []"
proof -
  have "docs_ok (texts.puts s told)"
    using assms(1) by (rule texts.ok_puts)
  moreover have "foldl (\<lambda>s (name, body). RememberText s name body) s (told @ [(nm, body)])
      = RememberText (texts.puts s told) nm body"
    by (simp add: texts.puts_def)
  moreover have "line_text [] line = []"
    by (cases "nat line") (simp_all add: line_text_nth)
  ultimately show ?thesis
    using assms by (simp only: LineOf_TextOf TextOf_RememberText TextOf_ForgetText)
      (simp add: line_text_nth)
qed

theorem LineOf_is_the_line_witness:
  "LineOf (foldl (\<lambda>s (name, body). RememberText s name body) (no_texts :: int editor) ([(''b'', ''x'')] @ [(''a'', ''p'' @ CHR 0x0A # ''q'')])) ''a'' 1
      = (if nat 1 < length (text_lines (''p'' @ CHR 0x0A # ''q'')) then text_lines (''p'' @ CHR 0x0A # ''q'') ! nat 1 else [])
    \<and> LineOf (ForgetText (no_texts :: int editor) ''b'') ''a'' 1 = LineOf (no_texts :: int editor) ''a'' 1 \<and> LineOf (ForgetText (no_texts :: int editor) ''a'') ''a'' 1 = []"
  by (rule LineOf_is_the_line [of no_texts "''a''" "''b''"]) (simp_all add: docs_ok_def no_texts_def)

section \<open>The sessions\<close>

definition server_ok :: "'n server \<Rightarrow> bool" where
  "server_ok sv \<longleftrightarrow> distinct (fSessions sv) \<and> 0 \<le> fNextToken sv
     \<and> (\<forall>a. heap sv a \<noteq> None \<longleftrightarrow> a \<in> set (fSessions sv))
     \<and> (\<forall>a \<in> set (fSessions sv). a < fresh sv)
     \<and> (\<forall>a s. heap sv a = Some s \<longrightarrow> 0 < token s \<and> token s \<le> fNextToken sv \<and> docs_ok s)
     \<and> (\<forall>a b s r. heap sv a = Some s \<and> heap sv b = Some r \<and> token s = token r \<longrightarrow> a = b)"

lemma server_okI:
  assumes "distinct (fSessions sv)" "0 \<le> fNextToken sv"
    "\<And>a. heap sv a \<noteq> None \<longleftrightarrow> a \<in> set (fSessions sv)"
    "\<And>a. a \<in> set (fSessions sv) \<Longrightarrow> a < fresh sv"
    "\<And>a s. heap sv a = Some s \<Longrightarrow> 0 < token s \<and> token s \<le> fNextToken sv \<and> docs_ok s"
    "\<And>a b s r. heap sv a = Some s \<Longrightarrow> heap sv b = Some r \<Longrightarrow> token s = token r \<Longrightarrow> a = b"
  shows "server_ok sv"
  using assms unfolding server_ok_def by blast

lemma server_okD:
  assumes "server_ok sv"
  shows "distinct (fSessions sv)" "0 \<le> fNextToken sv"
    "heap sv a \<noteq> None \<longleftrightarrow> a \<in> set (fSessions sv)"
    "a \<in> set (fSessions sv) \<Longrightarrow> a < fresh sv"
    "heap sv a = Some s \<Longrightarrow> 0 < token s \<and> token s \<le> fNextToken sv \<and> docs_ok s"
    "heap sv a = Some s \<Longrightarrow> heap sv b = Some r \<Longrightarrow> token s = token r \<Longrightarrow> a = b"
  using assms unfolding server_ok_def by blast+

lemma NewSession_ok [wf_rules]:
  assumes "server_ok sv"
  shows "server_ok (fst (NewSession m started sv))"
proof (rule server_okI)
  note ok = server_okD [OF assms]
  let ?sv = "fst (NewSession m started sv)"
  have fresh: "fresh sv \<notin> set (fSessions sv)"
    using ok(4) by blast
  then have none: "heap sv (fresh sv) = None"
    using ok(3) by blast
  show "distinct (fSessions ?sv)" "0 \<le> fNextToken ?sv"
    using ok(1,2) fresh by (simp_all add: NewSession_def Let_def)
  show "heap ?sv a \<noteq> None \<longleftrightarrow> a \<in> set (fSessions ?sv)" for a
    using ok(3) [of a] by (auto simp: NewSession_def Let_def)
  show "a \<in> set (fSessions ?sv) \<Longrightarrow> a < fresh ?sv" for a
    using ok(4) [of a] by (auto simp: NewSession_def Let_def less_Suc_eq split: if_splits)
  show "heap ?sv a = Some s \<Longrightarrow> 0 < token s \<and> token s \<le> fNextToken ?sv \<and> docs_ok s" for a s
    using ok(5) [of a s] ok(2)
    by (auto simp: NewSession_def Let_def docs_ok_def split: if_splits)
  have new: "token s = fNextToken sv + 1" if "heap ?sv a = Some s" "heap sv a \<noteq> Some s" for a s
    using that by (auto simp: NewSession_def Let_def split: if_splits)
  have same: "a = fresh sv" if "heap ?sv a = Some s" "heap sv a \<noteq> Some s" for a s
    using that by (auto simp: NewSession_def Let_def split: if_splits)
  show "a = b" if h: "heap ?sv a = Some s" "heap ?sv b = Some r" "token s = token r" for a b s r
  proof (cases "heap sv a = Some s"; cases "heap sv b = Some r")
    assume "heap sv a = Some s" "heap sv b = Some r"
    then show ?thesis using ok(6) h(3) by blast
  next
    assume "heap sv a = Some s" "heap sv b \<noteq> Some r"
    then show ?thesis using ok(5) [of a s] new [OF h(2)] h(3) by simp
  next
    assume "heap sv a \<noteq> Some s" "heap sv b = Some r"
    then show ?thesis using ok(5) [of b r] new [OF h(1)] h(3) by simp
  next
    assume "heap sv a \<noteq> Some s" "heap sv b \<noteq> Some r"
    then show ?thesis using same [OF h(1)] same [OF h(2)] by simp
  qed
qed

lemma update_editor_ok [wf_rules]:
  assumes "server_ok sv" and "\<And>s. token (f s) = token s" "\<And>s. docs_ok s \<Longrightarrow> docs_ok (f s)"
  shows "server_ok (update_editor a f sv)"
proof (rule server_okI)
  note ok = server_okD [OF assms(1)]
  let ?sv = "update_editor a f sv"
  show "heap ?sv b \<noteq> None \<longleftrightarrow> b \<in> set (fSessions ?sv)" for b
    using ok(3) [of b] by (auto simp: update_editor_def)
  show "heap ?sv b = Some s \<Longrightarrow> 0 < token s \<and> token s \<le> fNextToken ?sv \<and> docs_ok s" for b s
    using ok(5) [of b] assms(2,3) by (auto simp: update_editor_def split: if_splits)
  show "heap ?sv b = Some s \<Longrightarrow> heap ?sv c = Some r \<Longrightarrow> token s = token r \<Longrightarrow> b = c" for b c s r
    using ok(6) [of b _ c] assms(2) by (force simp: update_editor_def split: if_splits)
qed (use server_okD [OF assms(1)] in \<open>simp_all add: update_editor_def\<close>)

lemma end_session_ok [wf_rules]:
  assumes "server_ok sv"
  shows "server_ok (sv\<lparr>heap := (heap sv)(a := None), fSessions := remove1 a (fSessions sv)\<rparr>)"
proof (rule server_okI, goal_cases)
  case (6 b c s r)
  then show ?case using server_okD(6) [OF assms, of b s c r] by (simp split: if_splits)
qed (use server_okD [OF assms] in \<open>auto split: if_splits dest: notin_set_remove1\<close>)

lemma texts_keep [simp]:
  "token (RememberText s name body) = token s" "notify (RememberText s name body) = notify s"
  "token (ForgetText s name) = token s" "notify (ForgetText s name) = notify s"
  by (simp_all add: RememberText_def ForgetText_def split: option.split)

lemma works_ok [wf_rules]: "server_ok sv \<Longrightarrow> server_ok (sv\<lparr>works := ws\<rparr>)"
  by (simp add: server_ok_def)

lemma Handle_ok: "server_ok sv \<Longrightarrow> server_ok (fst (Handle L spawned m sv))"
  by (simp add: Handle_def wf_rules docs_ok_RememberText docs_ok_ForgetText case_prod_unfold
      split: message.split option.split)

lemma reachable_ok: "server_reachable L sv \<Longrightarrow> server_ok sv"
proof (induction rule: server_reachable.induct)
  case start
  show ?case by (simp add: server_ok_def initial_server_def)
next
  case (step sv sv')
  from step.hyps(2) step.IH show ?case
    by (cases rule: server_step.cases) (auto simp: Handle_ok works_ok)
qed

text \<open>
  C38 Tokens name sessions: in every state the server can reach, the sessions have distinct tokens
  above 0, the token of a session finds that very session, and a token that finds none belongs to
  none.
\<close>

theorem tokens_name_sessions:
  assumes "server_reachable L sv"
  shows "SessionByToken sv t = Some a \<longleftrightarrow> (\<exists>s. heap sv a = Some s \<and> token s = t \<and> 0 < t)"
proof -
  note ok = server_okD [OF reachable_ok [OF assms]]
  have find: "SessionByToken sv t = Some a \<Longrightarrow> \<exists>s. heap sv a = Some s \<and> token s = t" for a
    by (auto simp: SessionByToken_def find_Some_iff)
  have "SessionByToken sv t = Some a" if s: "heap sv a = Some s" "token s = t" for s
  proof (cases "SessionByToken sv t")
    case None
    with s ok(3) [of a] show ?thesis
      by (auto simp: SessionByToken_def find_None_iff)
  next
    case (Some b)
    with find [of b] s ok(6) [of a s b] show ?thesis by auto
  qed
  with find [of a] ok(5) [of a] show ?thesis by auto
qed

lemma one_session:
  "server_reachable L (fst (Handle L True (LSP_SESSION 5 True) initial_server))"
  by (rule server_reachable.step [OF server_reachable.start server_step.handles])

theorem tokens_name_sessions_witness:
  "SessionByToken (fst (Handle int_lib True (LSP_SESSION 5 True) initial_server)) 1 = Some 0
    \<longleftrightarrow> (\<exists>s. heap (fst (Handle int_lib True (LSP_SESSION 5 True) initial_server)) 0 = Some s \<and> token s = 1 \<and> (0 :: int) < 1)"
  by (rule tokens_name_sessions [OF one_session])

section \<open>Questions and answers\<close>

text \<open>A session never changes its editor while it lives, and an address is never used again.\<close>

definition older :: "'n server \<Rightarrow> nat \<Rightarrow> nat \<Rightarrow> int \<Rightarrow> bool" where
  "older sv a n t \<longleftrightarrow> a < fresh sv \<and> (\<forall>s. heap sv a = Some s \<longrightarrow> notify s = n \<and> token s = t)"

lemma older_Handle: "older sv a n t \<Longrightarrow> older (fst (Handle L spawned m sv)) a n t"
  by (auto simp: older_def Handle_def NewSession_def update_editor_def Let_def
      split: message.split option.split)

lemma older_steps: "(server_step L)\<^sup>*\<^sup>* sv sv' \<Longrightarrow> older sv a n t \<Longrightarrow> older sv' a n t"
proof (induction rule: rtranclp_induct)
  case (step sv1 sv2)
  from step.hyps(2) step.IH step.prems show ?case
    by (cases rule: server_step.cases) (auto simp: older_Handle, auto simp: older_def)
qed

definition reply_reqid :: "pushed \<Rightarrow> int" where
  "reply_reqid p = (case p of CompleteReply r _ _ \<Rightarrow> r | DefinitionReply r _ _ \<Rightarrow> r
     | SessionReply r \<Rightarrow> r | Diagnostics _ _ _ \<Rightarrow> 0)"

text \<open>
  C39 Answers go to the asker: a question of an editor's session starts exactly one worker when a thread
  can be spawned, and in every later state in which the session is still open, whatever happened in
  between, that worker pushes its one answer, under the request's own \<open>reqid\<close>, to the messenger of
  that session. When no thread can be spawned the question is dropped: no worker, no answer, nothing
  changes.
\<close>

theorem answers_go_to_the_asker:
  assumes "server_reachable L sv" and "SessionByToken sv t = Some a" and "heap sv a = Some s"
    and asked: "Handle L spawned (LSP_ASK question t name (Some rq) line col) sv = (sv1, pushed, call)"
    and later: "(server_step L)\<^sup>*\<^sup>* sv1 sv2" "SessionByToken sv2 t = Some a"
  shows "pushed = None \<and> (if spawned
    then \<exists>w. works sv1 = works sv @ [w] \<and> (\<exists>p. worker_push L sv2 w err reply = Some (notify s, p) \<and> reply_reqid p = rq)
    else sv1 = sv)"
proof (cases spawned)
  case True
  define w where "w = \<lparr>session = a, work_what = question, reqid = rq,
    work_name = (case name of Some n \<Rightarrow> n | None \<Rightarrow> []), work_line = or_zero line, work_col = or_zero col\<rparr>"
  note ok = server_okD [OF reachable_ok [OF assms(1)]]
  have w: "sv1 = sv\<lparr>works := works sv @ [w]\<rparr>" "pushed = None"
    using asked assms(2) True by (simp_all add: Handle_def w_def or_zero_def)
  have "older sv1 a (notify s) (token s)"
    using assms(3) ok(3,4) [of a] w by (auto simp: older_def)
  then have "older sv2 a (notify s) (token s)"
    using later(1) older_steps by blast
  moreover obtain s2 where "heap sv2 a = Some s2"
    using later(2) by (auto simp: SessionByToken_def find_Some_iff)
  ultimately have "worker_push L sv2 w err reply = Some (notify s,
      (case question of LSP_COMPLETE \<Rightarrow> complete_reply L rq err reply
       | LSP_DEFINITION \<Rightarrow> definition_reply L rq err reply))"
    by (simp add: older_def worker_push_def w_def split: what.split)
  moreover have "reply_reqid (complete_reply L rq err reply) = rq"
    "reply_reqid (definition_reply L rq err reply) = rq"
    by (simp_all add: complete_reply_def definition_reply_def reply_reqid_def Let_def)
  ultimately show ?thesis
    using w True by (cases question) auto
next
  case False
  then show ?thesis using asked assms(2) by (simp add: Handle_def)
qed

theorem answers_go_to_the_asker_witness:
  "let sv = fst (Handle int_lib True (LSP_SESSION 5 True) initial_server);
       sv1 = fst (Handle int_lib True (LSP_ASK LSP_COMPLETE 1 None (Some 9) None None) sv) in
    (\<exists>w. works sv1 = works sv @ [w] \<and> (\<exists>p. worker_push int_lib sv1 w B_OK JNull = Some (5, p) \<and> reply_reqid p = 9))
    \<and> fst (Handle int_lib False (LSP_ASK LSP_COMPLETE 1 None (Some 9) None None) sv) = sv"
proof -
  let ?sv = "fst (Handle int_lib True (LSP_SESSION 5 True) initial_server)"
  let ?ask = "\<lambda>spawned. Handle int_lib spawned (LSP_ASK LSP_COMPLETE 1 None (Some 9) None None) ?sv"
  have sv: "SessionByToken ?sv 1 = Some 0" "heap ?sv 0 = Some \<lparr>token = 1, notify = 5, lsp = (new_session :: int session), docNames = [], docTexts = []\<rparr>"
    by (simp_all add: Handle_def NewSession_def Let_def initial_server_def SessionByToken_def)
  have token: "SessionByToken (fst (?ask spawned)) 1 = Some 0" for spawned
    by (simp add: Handle_def NewSession_def Let_def initial_server_def SessionByToken_def)
  have parts: "?ask spawned = (fst (?ask spawned), fst (snd (?ask spawned)), snd (snd (?ask spawned)))" for spawned by simp
  show ?thesis
    using answers_go_to_the_asker [OF one_session sv parts rtranclp.rtrancl_refl token, of True B_OK JNull]
      answers_go_to_the_asker [OF one_session sv parts rtranclp.rtrancl_refl token, of False B_OK JNull] by simp
qed

text \<open>
  A worker can outlive its session: when an editor ends its session while one of its questions
  is still with clangd, the server reaches a state in which the worker thread is still there and
  its session has been freed, so that whatever clangd answers, the worker reads freed memory.
\<close>

theorem worker_outlives_session:
  assumes "server_reachable L sv" and "w \<in> set (works sv)" and "SessionByToken sv t = Some (session w)"
  shows "server_reachable L (fst (Handle L spawned (LSP_END t) sv))
    \<and> w \<in> set (works (fst (Handle L spawned (LSP_END t) sv)))
    \<and> worker_push L (fst (Handle L spawned (LSP_END t) sv)) w err reply = None"
proof -
  have "server_reachable L (fst (Handle L spawned (LSP_END t) sv))"
    by (rule server_reachable.step [OF assms(1) server_step.handles])
  moreover have "fst (Handle L spawned (LSP_END t) sv) = sv\<lparr>heap := (heap sv)(session w := None),
      fSessions := remove1 (session w) (fSessions sv)\<rparr>"
    using assms(3) by (simp add: Handle_def)
  ultimately show ?thesis
    using assms(2) by (simp add: worker_push_def)
qed

lemma one_question:
  "server_reachable int_lib (fst (Handle int_lib True (LSP_ASK LSP_COMPLETE 1 None (Some 9) None None)
    (fst (Handle int_lib True (LSP_SESSION 5 True) initial_server))))"
  by (rule server_reachable.step [OF one_session server_step.handles])

theorem worker_outlives_session_witness:
  "let sv = fst (Handle int_lib True (LSP_ASK LSP_COMPLETE 1 None (Some 9) None None)
      (fst (Handle int_lib True (LSP_SESSION 5 True) initial_server))); w = hd (works sv) in
    server_reachable int_lib (fst (Handle int_lib True (LSP_END 1) sv))
    \<and> w \<in> set (works (fst (Handle int_lib True (LSP_END 1) sv)))
    \<and> worker_push int_lib (fst (Handle int_lib True (LSP_END 1) sv)) w B_OK JNull = None"
  unfolding Let_def
  by (rule worker_outlives_session [OF one_question])
    (simp_all add: Handle_def NewSession_def Let_def initial_server_def SessionByToken_def)

text \<open>
  The diagnostics pushed are those of clangd for the file, with columns turned back to bytes of
  the text the editor sent; but the count is that of all of them while at most 200 entries follow,
  so with more it promises entries that are not there.
\<close>

theorem diagnostics_counted_and_cut:
  assumes "PathOfUri (fString (Get (Get msg ''params'') ''uri'')) = Some path"
    and "fString (Get msg ''method'') = ''textDocument/publishDiagnostics''"
  shows "\<exists>ds. SessionNotify L s msg = Some (Diagnostics path (Count (Get (Get msg ''params'') ''diagnostics'')) ds)
    \<and> length ds = min 200 (Count (Get (Get msg ''params'') ''diagnostics''))
    \<and> (\<forall>i < length ds. diag_col (ds ! i) = ByteFromUtf16 (LineOf s path (diag_line (ds ! i)))
        (to_int32 (AsInt L (Get (Get (Get (fArray (Get (Get msg ''params'') ''diagnostics'') ! i) ''range'')
          ''start'') ''character''))))"
  using assms by (simp add: SessionNotify_def Let_def Count_def diagnostic_of_def min.commute)

theorem diagnostics_counted_and_cut_witness:
  "let msg = JSet (JSet JNull ''method'' (JString ''textDocument/publishDiagnostics'')) ''params''
      (JSet (JSet JNull ''uri'' (JString (FileUriOf ''a''))) ''diagnostics''
        (JV KArray False 0 [] (replicate 300 JNull) [])) in
   \<exists>ds. SessionNotify int_lib no_texts msg = Some (Diagnostics ''a'' (Count (Get (Get msg ''params'') ''diagnostics'')) ds)
    \<and> length ds = min 200 (Count (Get (Get msg ''params'') ''diagnostics''))
    \<and> (\<forall>i < length ds. diag_col (ds ! i) = ByteFromUtf16 (LineOf (no_texts :: int editor) ''a'' (diag_line (ds ! i)))
        (to_int32 (AsInt int_lib (Get (Get (Get (fArray (Get (Get msg ''params'') ''diagnostics'') ! i) ''range'')
          ''start'') ''character''))))"
proof -
  have ok: "object_ok (JNull :: int JVal)"
    by (simp add: object_ok_def JNull_def)
  note rules = ok JSet_object_ok Get_JSet_same Get_JSet_other JString_def
  show ?thesis
    unfolding Let_def
    by (rule diagnostics_counted_and_cut) (simp_all add: rules file_uri_names_path)
qed

text \<open>
  A label is cleaned of its padding only if the name itself starts with a printable ASCII
  character: any run of spaces, controls and bytes above 127 before such a character goes, be it
  padding or the beginning of the name.
\<close>

theorem CleanLabel_drops_up_to_ascii:
  assumes "\<forall>c \<in> set pad. byte c \<le> 0x20 \<or> 0x80 \<le> byte c"
    and "0x20 < byte c" "byte c < 0x80"
  shows "CleanLabel (pad @ c # cs) = c # cs"
  using assms by (induction pad) (auto simp: label_start_def)

theorem CleanLabel_drops_up_to_ascii_witness:
  "CleanLabel ([CHR 0xC3, CHR 0xA9] @ CHR ''t'' # ''at'') = CHR ''t'' # ''at''"
  by (rule CleanLabel_drops_up_to_ascii)
    (simp_all add: byte_def)

end
