(* ===== verification/PaintPixels.thy ===== *)
theory PaintPixels
  imports Prelude Complex_Main
begin

text \<open>
  The pixel arithmetic of ProsePaint, \<open>prosepaint/app/src/PPDocument.cpp\<close>: one pixel over another,
  an erased pixel, a dab of a brush mask, and the composite of a stack of layers. A byte is a number
  below 256, and the products are those of \<open>uint32\<close>, which they never overflow; a cast to \<open>uint8\<close>
  is written out.
\<close>

section \<open>Pixels and bitmaps\<close>

text \<open>The four bytes of a pixel in memory order.\<close>

datatype pixel = Px (blue: nat) (green: nat) (red: nat) (alpha: nat)

definition clear :: pixel where
  "clear = Px 0 0 0 0"

definition pixel_ok :: "pixel \<Rightarrow> bool" where
  "pixel_ok p \<longleftrightarrow> blue p < 256 \<and> green p < 256 \<and> red p < 256 \<and> alpha p < 256"

text \<open>A bitmap by column and row.\<close>

type_synonym bitmap = "int \<times> int \<Rightarrow> pixel"

definition to_uint8 :: "nat \<Rightarrow> nat" where
  "to_uint8 n = n mod 256"

section \<open>One pixel over another\<close>

text \<open>
  The body of the inner loops of \<open>DabColour\<close>, \<open>StrokeEnd\<close> and \<open>Composite\<close>: a source colour at
  coverage \<open>sa\<close> over a pixel.
\<close>

definition out_alpha :: "nat \<Rightarrow> nat \<Rightarrow> nat" where
  "out_alpha sa da = sa + da * (255 - sa) div 255"

definition blend_channel :: "nat \<Rightarrow> nat \<Rightarrow> nat \<Rightarrow> nat \<Rightarrow> nat" where
  "blend_channel s sa d da =
     to_uint8 (min 255 ((s * sa + d * da * (255 - sa) div 255) div out_alpha sa da))"

definition over :: "nat \<Rightarrow> pixel \<Rightarrow> pixel \<Rightarrow> pixel" where
  "over sa s d = Px (blend_channel (blue s) sa (blue d) (alpha d))
     (blend_channel (green s) sa (green d) (alpha d))
     (blend_channel (red s) sa (red d) (alpha d))
     (to_uint8 (out_alpha sa (alpha d)))"

text \<open>\<open>Composite\<close>: a layer's pixel at its opacity onto what is below.\<close>

definition composite_pixel :: "nat \<Rightarrow> pixel \<Rightarrow> pixel \<Rightarrow> pixel" where
  "composite_pixel opacity s d =
     (let layerA = alpha s * opacity div 255 in
      if out_alpha layerA (alpha d) = 0 then clear else over layerA s d)"

text \<open>\<open>StrokeEnd\<close>: the stroke buffer's pixel lands on the layer.\<close>

definition land_colour :: "nat \<Rightarrow> pixel \<Rightarrow> pixel \<Rightarrow> pixel" where
  "land_colour opacity s d =
     (let sa = alpha s * opacity div 255 in
      if sa = 0 \<or> out_alpha sa (alpha d) = 0 then d else over sa s d)"

text \<open>An erased pixel: \<open>DabErase\<close> outside a stroke, and \<open>StrokeEnd\<close> of an erasing one.\<close>

definition erase_pixel :: "nat \<Rightarrow> pixel \<Rightarrow> pixel" where
  "erase_pixel m d =
     (let a = alpha d * (255 - m) div 255 in
      Px (to_uint8 (blue d * a div 255)) (to_uint8 (green d * a div 255)) (to_uint8 (red d * a div 255))
        (to_uint8 a))"

definition land_erase :: "nat \<Rightarrow> pixel \<Rightarrow> pixel \<Rightarrow> pixel" where
  "land_erase opacity s d =
     (let m = alpha s * opacity div 255 in if m = 0 then d else erase_pixel m d)"

section \<open>Dabs\<close>

text \<open>
  The two loops over a brush mask: every pixel of the square that is on the canvas is changed by
  \<open>f\<close> of its place in the mask.
\<close>

definition mask_cell :: "int \<Rightarrow> int \<Rightarrow> int \<Rightarrow> (nat \<Rightarrow> pixel \<Rightarrow> pixel) \<Rightarrow> nat \<Rightarrow> bitmap \<Rightarrow> bitmap" where
  "mask_cell x0 w py f mx bits =
     (let px = x0 + int mx in
      if px < 0 \<or> w \<le> px then bits else bits((px, py) := f mx (bits (px, py))))"

definition mask_row :: "int \<Rightarrow> int \<Rightarrow> nat \<Rightarrow> int \<Rightarrow> int \<Rightarrow> (nat \<Rightarrow> nat \<Rightarrow> pixel \<Rightarrow> pixel) \<Rightarrow> nat \<Rightarrow> bitmap \<Rightarrow> bitmap" where
  "mask_row x0 y0 sz w h f my bits =
     (let py = y0 + int my in
      if py < 0 \<or> h \<le> py then bits else fold (mask_cell x0 w py (f my)) [0..<sz] bits)"

definition for_mask ::
    "int \<Rightarrow> int \<Rightarrow> nat \<Rightarrow> int \<Rightarrow> int \<Rightarrow> (nat \<Rightarrow> nat \<Rightarrow> pixel \<Rightarrow> pixel) \<Rightarrow> bitmap \<Rightarrow> bitmap" where
  "for_mask x0 y0 sz w h f bits = fold (mask_row x0 y0 sz w h f) [0..<sz] bits"

text \<open>The mask byte at the brush's flow.\<close>

definition mask_flow :: "(nat \<Rightarrow> nat) \<Rightarrow> nat \<Rightarrow> nat \<Rightarrow> nat \<Rightarrow> nat \<Rightarrow> nat" where
  "mask_flow stamp bpr flow my mx = to_uint8 (stamp (my * bpr + mx) * flow div 255)"

definition dab_colour_pixel :: "pixel \<Rightarrow> nat \<Rightarrow> pixel \<Rightarrow> pixel" where
  "dab_colour_pixel colour m d = (if m = 0 \<or> out_alpha m (alpha d) = 0 then d else over m colour d)"

definition dab_mask_pixel :: "nat \<Rightarrow> pixel \<Rightarrow> pixel" where
  "dab_mask_pixel m d = (if m = 0 then d else if m > alpha d then Px (blue d) (green d) (red d) m else d)"

definition dab_erase_pixel :: "nat \<Rightarrow> pixel \<Rightarrow> pixel" where
  "dab_erase_pixel m d = (if m = 0 then d else erase_pixel m d)"

section \<open>The loops, pixel by pixel\<close>

lemma mask_cell_at:
  "mask_cell x0 w py f mx bits (px, qy) =
    (if px = x0 + int mx \<and> qy = py \<and> 0 \<le> px \<and> px < w then f mx (bits (px, qy)) else bits (px, qy))"
  by (auto simp: mask_cell_def Let_def)

lemma fold_mask_cell:
  "fold (mask_cell x0 w py f) [0..<n] bits (px, qy)
    = (if qy = py \<and> 0 \<le> px \<and> px < w \<and> x0 \<le> px \<and> px < x0 + int n
       then f (nat (px - x0)) (bits (px, qy)) else bits (px, qy))"
  by (induction n) (auto simp: mask_cell_at)

lemma mask_row_at:
  "mask_row x0 y0 sz w h f my bits (px, py) =
    (if py = y0 + int my \<and> 0 \<le> py \<and> py < h \<and> 0 \<le> px \<and> px < w \<and> x0 \<le> px \<and> px < x0 + int sz
     then f my (nat (px - x0)) (bits (px, py)) else bits (px, py))"
  by (auto simp: mask_row_def Let_def fold_mask_cell)

lemma fold_mask_row:
  "fold (mask_row x0 y0 sz w h f) [0..<n] bits (px, py)
    = (if 0 \<le> px \<and> px < w \<and> 0 \<le> py \<and> py < h \<and> x0 \<le> px \<and> px < x0 + int sz
          \<and> y0 \<le> py \<and> py < y0 + int n
       then f (nat (py - y0)) (nat (px - x0)) (bits (px, py)) else bits (px, py))"
  by (induction n) (auto simp: mask_row_at)

lemma for_mask_at:
  "for_mask x0 y0 sz w h f bits (px, py)
    = (if 0 \<le> px \<and> px < w \<and> 0 \<le> py \<and> py < h \<and> x0 \<le> px \<and> px < x0 + int sz
          \<and> y0 \<le> py \<and> py < y0 + int sz
       then f (nat (py - y0)) (nat (px - x0)) (bits (px, py)) else bits (px, py))"
  by (simp add: for_mask_def fold_mask_row)


section \<open>What a blend does to a channel\<close>

lemma out_alpha_bound:
  assumes "sa \<le> 255" and "da \<le> 255"
  shows "out_alpha sa da \<le> 255" and "sa \<le> out_alpha sa da"
proof -
  have "da * (255 - sa) div 255 \<le> 255 * (255 - sa) div 255"
    using assms(2) by (intro div_le_mono mult_le_mono1)
  then show "out_alpha sa da \<le> 255"
    using assms(1) by (simp add: out_alpha_def)
qed (simp add: out_alpha_def)

lemma out_alpha_opaque: "sa \<le> 255 \<Longrightarrow> out_alpha sa 255 = 255"
  by (simp add: out_alpha_def)

lemma out_alpha_opaque_source [simp]: "out_alpha 255 da = 255"
  by (simp add: out_alpha_def)

lemma blend_channel_bound: "blend_channel s sa d da < 256"
  by (simp add: blend_channel_def to_uint8_def)

lemma over_ok: "pixel_ok (over sa s d)"
  by (simp add: over_def pixel_ok_def blend_channel_bound to_uint8_def)

lemma blend_channel_opaque_source:
  assumes "s < 256"
  shows "blend_channel s 255 d da = s"
  using assms by (simp add: blend_channel_def out_alpha_opaque to_uint8_def)

lemma blend_channel_opaque_target:
  assumes "sa \<le> 255" and "s < 256" and "d < 256"
  shows "min s d \<le> blend_channel s sa d 255" and "blend_channel s sa d 255 \<le> max s d"
proof -
  define lo hi where "lo = min s d" and "hi = max s d"
  have parts: "lo * 255 = lo * sa + lo * (255 - sa)" "hi * 255 = hi * sa + hi * (255 - sa)"
    using assms(1) by (simp_all flip: add_mult_distrib2)
  have low: "lo * 255 \<le> s * sa + d * (255 - sa)"
    unfolding parts by (intro add_mono mult_le_mono1) (simp_all add: lo_def)
  have high: "s * sa + d * (255 - sa) \<le> hi * 255"
    unfolding parts by (intro add_mono mult_le_mono1) (simp_all add: hi_def)
  have "blend_channel s sa d 255 = (s * sa + d * (255 - sa)) div 255"
  proof -
    have "d * 255 * (255 - sa) div 255 = d * (255 - sa)"
      by (metis div_mult_self1_is_m mult.assoc mult.commute zero_less_numeral)
    moreover have "(s * sa + d * (255 - sa)) div 255 < 256"
      using high assms(2,3) by (intro div_less_iff_less_mult[THEN iffD2]) (auto simp: hi_def)
    ultimately show ?thesis
      by (simp add: blend_channel_def out_alpha_opaque assms(1) to_uint8_def)
  qed
  moreover have "lo \<le> (s * sa + d * (255 - sa)) div 255"
    using low by (simp add: less_eq_div_iff_mult_less_eq)
  moreover have "(s * sa + d * (255 - sa)) div 255 \<le> hi"
    using div_le_mono[OF high, of 255] by simp
  ultimately show "min s d \<le> blend_channel s sa d 255" "blend_channel s sa d 255 \<le> max s d"
    by (simp_all add: lo_def hi_def)
qed

text \<open>
  A pixel painted at full coverage is the source's colour exactly, whatever it covers.
\<close>

theorem opaque_paint_covers:
  assumes "pixel_ok s" and "alpha s = 255"
  shows "composite_pixel 255 s d = s \<and> land_colour 255 s d = s"
proof -
  obtain b g r a where s: "s = Px b g r a" by (cases s)
  have "over 255 s d = s"
    using assms by (simp add: over_def s blend_channel_opaque_source out_alpha_opaque pixel_ok_def
        to_uint8_def)
  then show ?thesis
    using assms(2) by (simp add: composite_pixel_def land_colour_def out_alpha_opaque Let_def)
qed

theorem opaque_paint_covers_witness:
  "composite_pixel 255 (Px 1 2 3 255) (Px 9 9 9 77) = Px 1 2 3 255"
  using opaque_paint_covers[of "Px 1 2 3 255" "Px 9 9 9 77"] by (simp add: pixel_ok_def)

text \<open>
  Over an opaque pixel the blend of any layer pixel at any opacity stays opaque, and every
  channel lies between the two colours: truncation never leaves the interval or overflows a byte.
\<close>

theorem composite_over_opaque:
  assumes "pixel_ok s" and "pixel_ok d" and "alpha d = 255" and "opacity \<le> 255"
    and "c \<in> {blue, green, red}"
  shows "alpha (composite_pixel opacity s d) = 255
    \<and> min (c s) (c d) \<le> c (composite_pixel opacity s d)
    \<and> c (composite_pixel opacity s d) \<le> max (c s) (c d)"
proof -
  define sa where "sa = alpha s * opacity div 255"
  have sa: "sa \<le> 255"
  proof -
    have "alpha s * opacity \<le> 255 * 255"
      using assms(1,4) by (intro mult_le_mono) (auto simp: pixel_ok_def)
    from div_le_mono[OF this, of 255] show ?thesis by (simp add: sa_def)
  qed
  have eq: "composite_pixel opacity s d = over sa s d"
    using sa assms(3) by (simp add: composite_pixel_def Let_def flip: sa_def)
      (simp add: out_alpha_opaque)
  have bound: "min (c s) (c d) \<le> blend_channel (c s) sa (c d) 255"
      "blend_channel (c s) sa (c d) 255 \<le> max (c s) (c d)"
    using assms(1,2,5) by (auto intro!: blend_channel_opaque_target[OF sa] simp: pixel_ok_def)
  show ?thesis
    using assms(3,5) bound by (auto simp: eq over_def out_alpha_opaque[OF sa] to_uint8_def)
qed

theorem composite_over_opaque_witness:
  "alpha (composite_pixel 128 (Px 200 0 0 90) (Px 255 255 255 255)) = 255"
  using composite_over_opaque[of "Px 200 0 0 90" "Px 255 255 255 255" 128 blue]
  by (simp add: pixel_ok_def)

text \<open>
  A stroke lands at its opacity and no stronger: however often the stroke buffer was dabbed, a
  transparent pixel of the layer ends at most at the opacity the stroke began with.
\<close>

theorem stroke_lands_at_most_at_opacity:
  assumes "opacity \<le> 255"
  shows "alpha (land_colour opacity (fold (\<lambda>(colour, m). dab_colour_pixel colour m) dabs clear) clear)
    \<le> opacity"
proof -
  let ?s = "fold (\<lambda>(colour, m). dab_colour_pixel colour m) dabs clear"
  have ok: "pixel_ok (fold (\<lambda>(colour, m). dab_colour_pixel colour m) ds p)" if "pixel_ok p" for ds p
    using that by (induction ds arbitrary: p) (auto simp: dab_colour_pixel_def over_ok)
  have "pixel_ok ?s" by (rule ok) (simp add: pixel_ok_def clear_def)
  then have "alpha ?s * opacity \<le> 255 * opacity"
    by (intro mult_le_mono1) (simp add: pixel_ok_def)
  from div_le_mono[OF this, of 255] have sa: "alpha ?s * opacity div 255 \<le> opacity" by simp
  then show ?thesis
    using assms by (auto simp: land_colour_def Let_def over_def clear_def out_alpha_def to_uint8_def)
qed

theorem stroke_lands_at_most_at_opacity_witness:
  "alpha (land_colour 128 (fold (\<lambda>(colour, m). dab_colour_pixel colour m)
     [(Px 0 0 200 255, 255), (Px 0 0 200 255, 255)] clear) clear) \<le> 128"
  by (rule stroke_lands_at_most_at_opacity) simp

text \<open>
  Inside one stroke partial stamps do build up: a second stamp of the same partial strength
  makes the buffer's pixel strictly more opaque, below three quarters of full strength.
\<close>

theorem stamps_build_up:
  assumes "2 \<le> m" and "m < 192" and "pixel_ok colour"
  shows "alpha (dab_colour_pixel colour m clear) = m
    \<and> m < alpha (dab_colour_pixel colour m (dab_colour_pixel colour m clear))"
proof -
  have first: "alpha (dab_colour_pixel colour m clear) = m"
    using assms by (simp add: dab_colour_pixel_def out_alpha_def over_def clear_def to_uint8_def)
  have pos: "0 < m * (255 - m) div 255"
  proof (cases "m \<le> 64")
    case True
    then have "2 * 191 \<le> m * (255 - m)" using assms by (intro mult_le_mono) auto
    then show ?thesis by (simp add: div_greater_zero_iff)
  next
    case False
    then have "64 * 64 \<le> m * (255 - m)" using assms by (intro mult_le_mono) auto
    then show ?thesis by (simp add: div_greater_zero_iff)
  qed
  have "m + m * (255 - m) div 255 \<le> 255"
    using out_alpha_bound(1)[of m m] assms by (simp add: out_alpha_def)
  then have "alpha (dab_colour_pixel colour m (dab_colour_pixel colour m clear))
      = m + m * (255 - m) div 255"
    using assms first by (simp add: dab_colour_pixel_def[of _ _ "dab_colour_pixel colour m clear"]
        out_alpha_def over_def to_uint8_def)
  with first pos show ?thesis by simp
qed

theorem stamps_build_up_witness:
  "40 < alpha (dab_colour_pixel (Px 0 0 255 255) 40 (dab_colour_pixel (Px 0 0 255 255) 40 clear))"
  using stamps_build_up[of 40 "Px 0 0 255 255"] by (simp add: pixel_ok_def)

text \<open>
  Erasing at less than full strength darkens: pixels carry straight alpha, but the eraser also
  scales the colour channels, so white paint half erased over white paper shows grey.
\<close>

theorem half_erased_white_is_grey:
  "erase_pixel 128 (Px 255 255 255 255) = Px 127 127 127 127
   \<and> composite_pixel 255 (erase_pixel 128 (Px 255 255 255 255)) (Px 255 255 255 255)
     = Px 191 191 191 255"
  by (simp add: erase_pixel_def composite_pixel_def over_def blend_channel_def out_alpha_def
      to_uint8_def Let_def)

end
