(* ===== verification/PaintFill.thy ===== *)
theory PaintFill
  imports PaintPixels
begin

text \<open>
  The flood fill of ProsePaint, \<open>PPDocument::FillAt\<close> in \<open>prosepaint/app/src/PPDocument.cpp\<close>: the
  scanline loop over a stack of pixel indices and a map of visited ones. The main lemma shows that
  the loop returns, and that it paints exactly the pixels connected with the seed.
\<close>

section \<open>The loop\<close>

definition channel_far :: "nat \<Rightarrow> nat \<Rightarrow> nat \<Rightarrow> bool" where
  "channel_far tolerance p s \<longleftrightarrow> to_uint8 (nat \<bar>int p - int s\<bar>) > tolerance"

definition near :: "nat \<Rightarrow> pixel \<Rightarrow> pixel \<Rightarrow> bool" where
  "near tolerance seed p =
     (if tolerance = 0 then blue p = blue seed \<and> green p = green seed \<and> red p = red seed \<and> alpha p = alpha seed
      else \<not> (channel_far tolerance (blue p) (blue seed) \<or> channel_far tolerance (green p) (green seed)
        \<or> channel_far tolerance (red p) (red seed) \<or> channel_far tolerance (alpha p) (alpha seed)))"

text \<open>The walks to the left and to the right end of a run of near pixels; \<open>n\<close> columns remain.\<close>

fun walk_left :: "(int \<Rightarrow> bool) \<Rightarrow> nat \<Rightarrow> int" where
  "walk_left ok 0 = 0"
| "walk_left ok (Suc n) = (if ok (int n) then walk_left ok n else int (Suc n))"

fun walk_right :: "(int \<Rightarrow> bool) \<Rightarrow> nat \<Rightarrow> int \<Rightarrow> int" where
  "walk_right ok 0 right = right"
| "walk_right ok (Suc n) right = (if ok (right + 1) then walk_right ok n (right + 1) else right)"

definition paint_cell ::
    "int \<Rightarrow> int \<Rightarrow> pixel \<Rightarrow> int \<Rightarrow> (int \<Rightarrow> bool) \<times> bitmap \<times> nat \<Rightarrow> (int \<Rightarrow> bool) \<times> bitmap \<times> nat" where
  "paint_cell w py colour fx = (\<lambda>(visited, bits, filled).
     (visited(py * w + fx := True),
      bits((fx, py) := Px (blue colour) (green colour) (red colour) 255), filled + 1))"

definition push_if :: "(int \<Rightarrow> bool) \<Rightarrow> bool \<Rightarrow> int \<Rightarrow> int list \<Rightarrow> int list" where
  "push_if visited ok i stack = (if \<not> visited i \<and> ok then i # stack else stack)"

definition seed_rows ::
    "int \<Rightarrow> int \<Rightarrow> int \<Rightarrow> (pixel \<Rightarrow> bool) \<Rightarrow> (int \<Rightarrow> bool) \<Rightarrow> bitmap \<Rightarrow> int \<Rightarrow> int list \<Rightarrow> int list" where
  "seed_rows w h py nr visited bits fx stack =
     (let above = (if py > 0 then push_if visited (nr (bits (fx, py - 1))) ((py - 1) * w + fx) stack else stack)
      in if py < h - 1 then push_if visited (nr (bits (fx, py + 1))) ((py + 1) * w + fx) above else above)"

text \<open>One turn of the loop for an index that was not visited.\<close>

definition fill_run ::
    "int \<Rightarrow> int \<Rightarrow> (pixel \<Rightarrow> bool) \<Rightarrow> pixel \<Rightarrow> int \<Rightarrow> (int \<Rightarrow> bool) \<Rightarrow> bitmap \<Rightarrow> int list \<Rightarrow> nat
      \<Rightarrow> (int \<Rightarrow> bool) \<times> bitmap \<times> int list \<times> nat" where
  "fill_run w h nr colour idx visited bits stack filled =
     (let px = idx mod w; py = idx div w;
        ok = (\<lambda>fx. \<not> visited (py * w + fx) \<and> nr (bits (fx, py)));
        left = walk_left ok (nat px);
        right = walk_right ok (nat (w - 1 - px)) px;
        (visited', bits', filled') = fold (paint_cell w py colour) [left..right] (visited, bits, filled)
      in (visited', bits', fold (seed_rows w h py nr visited' bits') [left..right] stack, filled'))"

partial_function (option) fill_loop ::
    "int \<Rightarrow> int \<Rightarrow> (pixel \<Rightarrow> bool) \<Rightarrow> pixel \<Rightarrow> (int \<Rightarrow> bool) \<times> bitmap \<times> int list \<times> nat \<Rightarrow> (bitmap \<times> nat) option" where
  "fill_loop w h nr colour s =
     (if fst (snd (snd s)) = [] then Some (fst (snd s), snd (snd (snd s)))
      else let idx = hd (fst (snd (snd s))); stack = tl (fst (snd (snd s))) in
        if fst s idx then fill_loop w h nr colour (fst s, fst (snd s), stack, snd (snd (snd s)))
        else fill_loop w h nr colour (fill_run w h nr colour idx (fst s) (fst (snd s)) stack (snd (snd (snd s)))))"

definition flood ::
    "int \<Rightarrow> int \<Rightarrow> int \<Rightarrow> int \<Rightarrow> pixel \<Rightarrow> nat \<Rightarrow> bitmap \<Rightarrow> (bitmap \<times> nat) option" where
  "flood w h x y colour tolerance bits =
     fill_loop w h (near tolerance (bits (x, y))) colour (\<lambda>i. False, bits, [y * w + x], 0)"

lemma fill_loop_simps:
  "fill_loop w h nr colour (visited, bits, [], filled) = Some (bits, filled)"
  "fill_loop w h nr colour (visited, bits, idx # stack, filled) =
    (if visited idx then fill_loop w h nr colour (visited, bits, stack, filled)
     else fill_loop w h nr colour (fill_run w h nr colour idx visited bits stack filled))"
  by (subst fill_loop.simps, simp add: Let_def)+

section \<open>The pieces of one turn\<close>

lemma walk_left_spec:
  "0 \<le> walk_left ok n \<and> walk_left ok n \<le> int n \<and> (\<forall>fx. walk_left ok n \<le> fx \<and> fx < int n \<longrightarrow> ok fx)
    \<and> (walk_left ok n = 0 \<or> \<not> ok (walk_left ok n - 1))"
proof (induction n)
  case (Suc n)
  then show ?case
    by (auto) (metis not_less_iff_gr_or_eq zless_add1_eq add.commute)+
qed auto

lemma walk_right_spec:
  "right \<le> walk_right ok n right \<and> walk_right ok n right \<le> right + int n
    \<and> (\<forall>fx. right < fx \<and> fx \<le> walk_right ok n right \<longrightarrow> ok fx)
    \<and> (walk_right ok n right = right + int n \<or> \<not> ok (walk_right ok n right + 1))"
proof (induction n arbitrary: right)
  case (Suc n)
  show ?case
  proof (cases "ok (right + 1)")
    case True
    have "ok fx" if "right < fx" "fx \<le> walk_right ok n (right + 1)" for fx
      using that True Suc[of "right + 1"] by (cases "fx = right + 1") auto
    then show ?thesis using True Suc[of "right + 1"] by (auto simp: algebra_simps)
  qed auto
qed auto

lemma fold_paint_cell:
  assumes "distinct xs"
  shows "fold (paint_cell w py colour) xs (visited, bits, filled) =
    ((\<lambda>i. visited i \<or> (\<exists>fx \<in> set xs. i = py * w + fx)),
     (\<lambda>(qx, qy). if qy = py \<and> qx \<in> set xs then Px (blue colour) (green colour) (red colour) 255 else bits (qx, qy)),
     filled + length xs)"
  using assms
  by (induction xs arbitrary: visited bits filled) (auto simp: paint_cell_def fun_eq_iff)

definition row_seeds ::
    "int \<Rightarrow> int \<Rightarrow> int \<Rightarrow> (pixel \<Rightarrow> bool) \<Rightarrow> (int \<Rightarrow> bool) \<Rightarrow> bitmap \<Rightarrow> int \<Rightarrow> int set" where
  "row_seeds w h py nr visited bits fx = {i. \<not> visited i
     \<and> (py > 0 \<and> i = (py - 1) * w + fx \<and> nr (bits (fx, py - 1))
       \<or> py < h - 1 \<and> i = (py + 1) * w + fx \<and> nr (bits (fx, py + 1)))}"

lemma seed_rows_spec:
  "set (seed_rows w h py nr visited bits fx stack) = set stack \<union> row_seeds w h py nr visited bits fx
   \<and> length (seed_rows w h py nr visited bits fx stack) \<le> length stack + 2"
  by (auto simp: seed_rows_def push_if_def row_seeds_def Let_def)

lemma fold_seed_rows_spec:
  "set (fold (seed_rows w h py nr visited bits) xs stack)
      = set stack \<union> (\<Union>fx \<in> set xs. row_seeds w h py nr visited bits fx)
   \<and> length (fold (seed_rows w h py nr visited bits) xs stack) \<le> length stack + 2 * length xs"
proof (induction xs arbitrary: stack)
  case (Cons a xs)
  show ?case
    using Cons[of "seed_rows w h py nr visited bits a stack"]
      seed_rows_spec[of w h py nr visited bits a stack] by auto
qed simp


section \<open>The connected pixels\<close>

definition on_canvas :: "int \<Rightarrow> int \<Rightarrow> int \<times> int \<Rightarrow> bool" where
  "on_canvas w h p \<longleftrightarrow> 0 \<le> fst p \<and> fst p < w \<and> 0 \<le> snd p \<and> snd p < h"

definition next_to :: "int \<times> int \<Rightarrow> int \<times> int \<Rightarrow> bool" where
  "next_to p q \<longleftrightarrow> \<bar>fst p - fst q\<bar> + \<bar>snd p - snd q\<bar> = 1"

text \<open>What a fill should reach: the seed, and every near pixel beside one that is reached.\<close>

inductive reached :: "int \<Rightarrow> int \<Rightarrow> (int \<times> int \<Rightarrow> bool) \<Rightarrow> int \<times> int \<Rightarrow> int \<times> int \<Rightarrow> bool"
  for w h ok seed where
  reached_seed: "reached w h ok seed seed"
| reached_next: "reached w h ok seed p \<Longrightarrow> next_to p q \<Longrightarrow> on_canvas w h q \<Longrightarrow> ok q \<Longrightarrow> reached w h ok seed q"

definition index_of :: "int \<Rightarrow> int \<times> int \<Rightarrow> int" where
  "index_of w p = snd p * w + fst p"

definition point_at :: "int \<Rightarrow> int \<Rightarrow> int \<times> int" where
  "point_at w i = (i mod w, i div w)"

lemma point_at_index [simp]: "on_canvas w h p \<Longrightarrow> point_at w (index_of w p) = p"
  by (cases p) (auto simp: point_at_def index_of_def on_canvas_def)

lemma index_of_eq [simp]:
  "on_canvas w h p \<Longrightarrow> on_canvas w h q \<Longrightarrow> index_of w p = index_of w q \<longleftrightarrow> p = q"
  by (metis point_at_index)

lemma on_canvas_finite: "finite {p. on_canvas w h p}"
  by (rule finite_subset[of _ "{0..<w} \<times> {0..<h}"]) (auto simp: on_canvas_def)

lemma reached_on_canvas: "reached w h ok seed p \<Longrightarrow> on_canvas w h seed \<Longrightarrow> on_canvas w h p"
  by (induction rule: reached.induct) auto

text \<open>A run of near pixels from a reached one is reached.\<close>

lemma reached_run:
  assumes "reached w h ok seed (px, py)" and "on_canvas w h (px, py)"
    and "0 \<le> left" and "right < w"
    and "\<forall>fx. left \<le> fx \<and> fx < px \<longrightarrow> ok (fx, py)" and "\<forall>fx. px < fx \<and> fx \<le> right \<longrightarrow> ok (fx, py)"
  shows "left \<le> fx \<Longrightarrow> fx \<le> right \<Longrightarrow> reached w h ok seed (fx, py)"
proof -
  have left: "left \<le> px - int n \<Longrightarrow> reached w h ok seed (px - int n, py)" for n
  proof (induction n)
    case (Suc n)
    then have "reached w h ok seed (px - int n, py)" by simp
    then show ?case
      by (rule reached_next) (use Suc.prems assms in \<open>auto simp: next_to_def on_canvas_def\<close>)
  qed (use assms(1) in simp)
  have right: "px + int n \<le> right \<Longrightarrow> reached w h ok seed (px + int n, py)" for n
  proof (induction n)
    case (Suc n)
    then have "reached w h ok seed (px + int n, py)" by simp
    then show ?case
      by (rule reached_next) (use Suc.prems assms in \<open>auto simp: next_to_def on_canvas_def\<close>)
  qed (use assms(1) in simp)
  show "left \<le> fx \<Longrightarrow> fx \<le> right \<Longrightarrow> reached w h ok seed (fx, py)"
    using left[of "nat (px - fx)"] right[of "nat (fx - px)"] by (cases "fx \<le> px") auto
qed

section \<open>The invariant of the loop\<close>

definition seen :: "int \<Rightarrow> int \<Rightarrow> (int \<Rightarrow> bool) \<Rightarrow> (int \<times> int) set" where
  "seen w h visited = {p. on_canvas w h p \<and> visited (index_of w p)}"

definition fill_inv ::
    "int \<Rightarrow> int \<Rightarrow> (pixel \<Rightarrow> bool) \<Rightarrow> pixel \<Rightarrow> int \<times> int \<Rightarrow> bitmap \<Rightarrow> (int \<Rightarrow> bool) \<times> bitmap \<times> int list \<times> nat \<Rightarrow> bool" where
  "fill_inv w h nr colour seed b0 = (\<lambda>(visited, bits, stack, filled).
     (\<forall>p \<in> seen w h visited. reached w h (\<lambda>q. nr (b0 q)) seed p)
   \<and> (\<forall>i \<in> set stack. \<exists>p. on_canvas w h p \<and> i = index_of w p \<and> reached w h (\<lambda>q. nr (b0 q)) seed p)
   \<and> (\<forall>p. bits p = (if p \<in> seen w h visited then Px (blue colour) (green colour) (red colour) 255 else b0 p))
   \<and> filled = card (seen w h visited)
   \<and> (\<forall>p \<in> seen w h visited. \<forall>q. next_to p q \<and> on_canvas w h q \<and> nr (b0 q)
        \<longrightarrow> q \<in> seen w h visited \<or> index_of w q \<in> set stack)
   \<and> (seed \<in> seen w h visited \<or> index_of w seed \<in> set stack))"

lemma fill_invD:
  assumes "fill_inv w h nr colour seed b0 (visited, bits, stack, filled)"
  shows "p \<in> seen w h visited \<Longrightarrow> reached w h (\<lambda>q. nr (b0 q)) seed p"
    and "i \<in> set stack \<Longrightarrow> \<exists>p. on_canvas w h p \<and> i = index_of w p \<and> reached w h (\<lambda>q. nr (b0 q)) seed p"
    and "bits p = (if p \<in> seen w h visited then Px (blue colour) (green colour) (red colour) 255 else b0 p)"
    and "filled = card (seen w h visited)"
    and "p \<in> seen w h visited \<Longrightarrow> next_to p q \<Longrightarrow> on_canvas w h q \<Longrightarrow> nr (b0 q)
          \<Longrightarrow> q \<in> seen w h visited \<or> index_of w q \<in> set stack"
    and "seed \<in> seen w h visited \<or> index_of w seed \<in> set stack"
  using assms unfolding fill_inv_def split_conv by blast+

lemma fill_invI:
  assumes "\<And>p. p \<in> seen w h visited \<Longrightarrow> reached w h (\<lambda>q. nr (b0 q)) seed p"
    and "\<And>i. i \<in> set stack \<Longrightarrow> \<exists>p. on_canvas w h p \<and> i = index_of w p \<and> reached w h (\<lambda>q. nr (b0 q)) seed p"
    and "\<And>p. bits p = (if p \<in> seen w h visited then Px (blue colour) (green colour) (red colour) 255 else b0 p)"
    and "filled = card (seen w h visited)"
    and "\<And>p q. p \<in> seen w h visited \<Longrightarrow> next_to p q \<Longrightarrow> on_canvas w h q \<Longrightarrow> nr (b0 q)
          \<Longrightarrow> q \<in> seen w h visited \<or> index_of w q \<in> set stack"
    and "seed \<in> seen w h visited \<or> index_of w seed \<in> set stack"
  shows "fill_inv w h nr colour seed b0 (visited, bits, stack, filled)"
  using assms unfolding fill_inv_def split_conv by blast

lemma fill_inv_final:
  assumes "fill_inv w h nr colour seed b0 (visited, bits, [], filled)"
  shows "seen w h visited = {p. reached w h (\<lambda>q. nr (b0 q)) seed p}"
proof -
  have "p \<in> seen w h visited" if "reached w h (\<lambda>q. nr (b0 q)) seed p" for p
    using that
  proof induction
    case reached_seed
    show ?case using fill_invD(6)[OF assms] by simp
  next
    case (reached_next p q)
    then show ?case using fill_invD(5)[OF assms, of p q] by simp
  qed
  then show ?thesis using fill_invD(1)[OF assms] by blast
qed

lemma fill_inv_skip:
  assumes inv: "fill_inv w h nr colour seed b0 (visited, bits, i # stack, filled)" and "visited i"
    and seed: "on_canvas w h seed"
  shows "fill_inv w h nr colour seed b0 (visited, bits, stack, filled)"
proof -
  have i: "index_of w q = i \<Longrightarrow> on_canvas w h q \<Longrightarrow> q \<in> seen w h visited" for q
    using \<open>visited i\<close> by (simp add: seen_def)
  show ?thesis
  proof (rule fill_invI)
    show "\<And>j. j \<in> set stack \<Longrightarrow> \<exists>p. on_canvas w h p \<and> j = index_of w p \<and> reached w h (\<lambda>q. nr (b0 q)) seed p"
      using fill_invD(2)[OF inv] by simp
    show "\<And>p q. p \<in> seen w h visited \<Longrightarrow> next_to p q \<Longrightarrow> on_canvas w h q \<Longrightarrow> nr (b0 q)
          \<Longrightarrow> q \<in> seen w h visited \<or> index_of w q \<in> set stack"
      using fill_invD(5)[OF inv] i by (metis set_ConsD)
    show "seed \<in> seen w h visited \<or> index_of w seed \<in> set stack"
      using fill_invD(6)[OF inv] i seed by (metis set_ConsD)
  qed (rule fill_invD[OF inv], assumption?)+
qed

text \<open>One turn marks a nonempty run, and pushes at most two indices for each of its pixels.\<close>

lemma fill_run_step:
  assumes inv: "fill_inv w h nr colour seed b0 (visited, bits, i # stack, filled)"
    and new: "\<not> visited i" and seed: "on_canvas w h seed"
  shows "\<exists>visited' bits' stack' filled' run.
      fill_run w h nr colour i visited bits stack filled = (visited', bits', stack', filled')
    \<and> fill_inv w h nr colour seed b0 (visited', bits', stack', filled')
    \<and> seen w h visited' = seen w h visited \<union> run \<and> seen w h visited \<inter> run = {}
    \<and> 0 < card run \<and> run \<subseteq> {p. on_canvas w h p} \<and> length stack' \<le> length stack + 2 * card run"
proof -
  let ?R = "reached w h (\<lambda>q. nr (b0 q)) seed"
  obtain px py where p: "on_canvas w h (px, py)" "i = index_of w (px, py)" "?R (px, py)"
    using inv by (auto simp: fill_inv_def)
  have bounds: "0 \<le> px" "px < w" "0 \<le> py" "py < h" using p(1) by (auto simp: on_canvas_def)
  have at: "i mod w = px" "i div w = py"
    using point_at_index[OF p(1)] by (simp_all add: point_at_def p(2))
  define ok where "ok = (\<lambda>fx. \<not> visited (py * w + fx) \<and> nr (bits (fx, py)))"
  define left where "left = walk_left ok (nat px)"
  define right where "right = walk_right ok (nat (w - 1 - px)) px"
  define run where "run = (\<lambda>fx. (fx, py)) ` {left..right}"
  define visited' where "visited' = (\<lambda>j. visited j \<or> (\<exists>fx \<in> {left..right}. j = py * w + fx))"
  define bits' where "bits' = (\<lambda>(qx, qy). if qy = py \<and> qx \<in> {left..right}
    then Px (blue colour) (green colour) (red colour) 255 else bits (qx, qy))"
  define stack' where "stack' = fold (seed_rows w h py nr visited' bits') [left..right] stack"
  have left: "0 \<le> left" "left \<le> px" "\<And>fx. left \<le> fx \<Longrightarrow> fx < px \<Longrightarrow> ok fx" "left = 0 \<or> \<not> ok (left - 1)"
    using walk_left_spec[of ok "nat px"] bounds by (auto simp: left_def)
  have right: "px \<le> right" "right < w" "\<And>fx. px < fx \<Longrightarrow> fx \<le> right \<Longrightarrow> ok fx"
      "right = w - 1 \<or> \<not> ok (right + 1)"
    using walk_right_spec[of px ok "nat (w - 1 - px)"] bounds by (auto simp: right_def)
  have result: "fill_run w h nr colour i visited bits stack filled
      = (visited', bits', stack', filled + card run)"
  proof -
    have "card run = length [left..right]"
      by (simp add: run_def card_image inj_on_def)
    then show ?thesis
      by (simp add: fill_run_def at Let_def fold_paint_cell flip: ok_def)
        (simp add: left_def[symmetric] right_def[symmetric] visited'_def bits'_def stack'_def)
  qed
  have seen': "seen w h visited' = seen w h visited \<union> run"
  proof -
    have "(\<exists>fx \<in> {left..right}. index_of w q = py * w + fx) \<longleftrightarrow> q \<in> run" if "on_canvas w h q" for q
    proof -
      have "on_canvas w h (fx, py)" if "fx \<in> {left..right}" for fx
        using that bounds left(1) right(2) by (auto simp: on_canvas_def)
      then have "index_of w q = py * w + fx \<longleftrightarrow> q = (fx, py)" if "fx \<in> {left..right}" for fx
        using index_of_eq[OF \<open>on_canvas w h q\<close>, of "(fx, py)"] that by (simp add: index_of_def)
      then show ?thesis by (auto simp: run_def)
    qed
    moreover have "run \<subseteq> {p. on_canvas w h p}"
      using bounds left(1) right(2) by (auto simp: run_def on_canvas_def)
    ultimately show ?thesis by (auto simp: seen_def visited'_def)
  qed
  have canvas: "run \<subseteq> {p. on_canvas w h p}"
    using bounds left(1) right(2) by (auto simp: run_def on_canvas_def)
  have fresh: "seen w h visited \<inter> run = {}"
  proof -
    have "\<not> visited (py * w + fx)" if "left \<le> fx" "fx \<le> right" for fx
      using that left(3)[of fx] right(3)[of fx] new p(2)
      by (cases fx px rule: linorder_cases) (auto simp: ok_def index_of_def)
    then show ?thesis by (auto simp: seen_def run_def index_of_def)
  qed
  have old_bits: "bits q = b0 q" if "q \<notin> seen w h visited" for q
    using that fill_invD(3)[OF inv, of q] by simp
  have ok_b0: "nr (b0 (fx, py))" if "ok fx" "left \<le> fx" "fx \<le> right" for fx
    using that(1) old_bits[of "(fx, py)"] by (simp add: ok_def seen_def index_of_def)
  have reach: "?R q" if "q \<in> run" for q
  proof -
    have "\<forall>fx. left \<le> fx \<and> fx < px \<longrightarrow> nr (b0 (fx, py))"
      using ok_b0 left(3) right(1) by fastforce
    moreover have "\<forall>fx. px < fx \<and> fx \<le> right \<longrightarrow> nr (b0 (fx, py))"
      using ok_b0 right(3) left(2) by fastforce
    ultimately show ?thesis
      using that reached_run[OF p(3,1) left(1) right(2)] by (auto simp: run_def)
  qed
  have bits': "bits' q = (if q \<in> seen w h visited' then Px (blue colour) (green colour) (red colour) 255 else b0 q)" for q
    using fill_invD(3)[OF inv, of q] by (cases q) (auto simp: bits'_def seen' run_def)
  have stack_set: "set stack' = set stack \<union> (\<Union>fx \<in> {left..right}. row_seeds w h py nr visited' bits' fx)"
    and stack_len: "length stack' \<le> length stack + 2 * card run"
    using fold_seed_rows_spec[of w h py nr visited' bits' "[left..right]" stack]
    by (simp_all add: stack'_def run_def card_image inj_on_def)
  have seeds: "\<exists>q. on_canvas w h q \<and> j = index_of w q \<and> ?R q"
    if "j \<in> row_seeds w h py nr visited' bits' fx" "left \<le> fx" "fx \<le> right" for j fx
  proof -
    from that(1) obtain qy where q: "j = index_of w (fx, qy)" "\<not> visited' j" "nr (bits' (fx, qy))"
        "\<bar>py - qy\<bar> = 1" "0 \<le> qy" "qy < h"
      using bounds by (auto simp: row_seeds_def index_of_def)
    have on: "on_canvas w h (fx, qy)" using q bounds that left(1) right(2) by (auto simp: on_canvas_def)
    moreover have "nr (b0 (fx, qy))"
      using q(1-3) bits'[of "(fx, qy)"] by (simp add: seen_def)
    ultimately have "?R (fx, qy)"
      using reach[of "(fx, py)"] that q(4) by (auto intro!: reached_next[of w h _ seed "(fx, py)"] simp: run_def next_to_def)
    then show ?thesis using on q(1) by blast
  qed
  have beside: "q \<in> seen w h visited' \<or> index_of w q \<in> set stack'"
    if "q' \<in> run" "next_to q' q" "on_canvas w h q" "nr (b0 q)" for q' q
  proof -
    obtain fx where "q' = (fx, py)" "left \<le> fx" "fx \<le> right"
      using \<open>q' \<in> run\<close> by (auto simp: run_def)
    moreover obtain qx qy where "q = (qx, qy)" by (cases q)
    ultimately have q: "q' = (fx, py)" "left \<le> fx" "fx \<le> right" "q = (qx, qy)" by auto
    have on: "0 \<le> qx" "qx < w" "0 \<le> qy" "qy < h" using that(3) q(4) by (auto simp: on_canvas_def)
    consider "qy = py" "\<bar>fx - qx\<bar> = 1" | "qx = fx" "qy = py - 1" | "qx = fx" "qy = py + 1"
      using \<open>next_to q' q\<close> by (simp add: q(1,4) next_to_def) linarith
    then show ?thesis
    proof cases
      case 1
      have "q \<in> run \<or> \<not> ok qx"
      proof (cases "left \<le> qx \<and> qx \<le> right")
        case True
        then show ?thesis using 1 q(4) by (simp add: run_def)
      next
        case False
        then have "qx = left - 1 \<or> qx = right + 1" using 1 q(2,3) by linarith
        then show ?thesis using on left(4) right(4) by auto
      qed
      moreover have "q \<in> seen w h visited" if "\<not> ok qx"
      proof (rule ccontr)
        assume "q \<notin> seen w h visited"
        then show False
          using that old_bits[of q] \<open>nr (b0 q)\<close> \<open>on_canvas w h q\<close> 1(1) q(4)
          by (simp add: ok_def seen_def index_of_def)
      qed
      ultimately show ?thesis unfolding seen' by blast
    next
      case 2
      then have "index_of w q \<in> row_seeds w h py nr visited' bits' fx" if "q \<notin> seen w h visited'"
        using that \<open>nr (b0 q)\<close> bits'[of q] on q(4) \<open>on_canvas w h q\<close>
        by (auto simp: row_seeds_def index_of_def seen_def)
      then show ?thesis using q(2,3) stack_set by auto
    next
      case 3
      then have "index_of w q \<in> row_seeds w h py nr visited' bits' fx" if "q \<notin> seen w h visited'"
        using that \<open>nr (b0 q)\<close> bits'[of q] on q(4) \<open>on_canvas w h q\<close>
        by (auto simp: row_seeds_def index_of_def seen_def)
      then show ?thesis using q(2,3) stack_set by auto
    qed
  qed
  have self: "(px, py) \<in> run" using left(2) right(1) by (auto simp: run_def)
  have keep: "q \<in> seen w h visited' \<or> index_of w q \<in> set stack'"
    if "q \<in> seen w h visited \<or> index_of w q \<in> set (i # stack)" "on_canvas w h q" for q
    using that self p(1,2) stack_set by (auto simp: seen')
  have "fill_inv w h nr colour seed b0 (visited', bits', stack', filled + card run)"
  proof (rule fill_invI)
    show "\<And>q. q \<in> seen w h visited' \<Longrightarrow> ?R q"
      using fill_invD(1)[OF inv] reach by (auto simp: seen')
    show "\<And>j. j \<in> set stack' \<Longrightarrow> \<exists>q. on_canvas w h q \<and> j = index_of w q \<and> ?R q"
      using fill_invD(2)[OF inv] seeds by (auto simp: stack_set)
    show "filled + card run = card (seen w h visited')"
    proof -
      have "finite (seen w h visited)" "finite run"
        by (auto simp: seen_def run_def intro: finite_subset[OF _ on_canvas_finite])
      then show ?thesis
        using fresh fill_invD(4)[OF inv] by (simp add: seen' card_Un_disjoint)
    qed
    show "\<And>p q. p \<in> seen w h visited' \<Longrightarrow> next_to p q \<Longrightarrow> on_canvas w h q \<Longrightarrow> nr (b0 q)
          \<Longrightarrow> q \<in> seen w h visited' \<or> index_of w q \<in> set stack'"
      using beside keep fill_invD(5)[OF inv] unfolding seen' by blast
    show "seed \<in> seen w h visited' \<or> index_of w seed \<in> set stack'"
      using keep[OF fill_invD(6)[OF inv] seed] .
  qed (rule bits')
  moreover have "0 < card run"
    using self by (auto simp: card_gt_0_iff run_def)
  ultimately show ?thesis
    using result seen' fresh canvas stack_len by blast
qed

section \<open>The fill is the connected set\<close>

lemma fill_loop_result:
  assumes "fill_inv w h nr colour seed b0 (visited, bits, stack, filled)" and "on_canvas w h seed"
  shows "\<exists>visited' bits' filled'. fill_loop w h nr colour (visited, bits, stack, filled) = Some (bits', filled')
    \<and> fill_inv w h nr colour seed b0 (visited', bits', [], filled')"
  using assms(1)
proof (induction "3 * card ({p. on_canvas w h p} - seen w h visited) + length stack"
    arbitrary: visited bits stack filled rule: less_induct)
  case less
  show ?case
  proof (cases stack)
    case Nil
    then show ?thesis using less.prems by (auto simp: fill_loop_simps)
  next
    case (Cons i rest)
    show ?thesis
    proof (cases "visited i")
      case True
      have "fill_inv w h nr colour seed b0 (visited, bits, rest, filled)"
        using less.prems True assms(2) unfolding Cons by (rule fill_inv_skip)
      from less.hyps[OF _ this] True show ?thesis by (simp add: Cons fill_loop_simps)
    next
      case False
      obtain visited' bits' stack' filled' run where run:
        "fill_run w h nr colour i visited bits rest filled = (visited', bits', stack', filled')"
        "fill_inv w h nr colour seed b0 (visited', bits', stack', filled')"
        "seen w h visited' = seen w h visited \<union> run" "seen w h visited \<inter> run = {}"
        "0 < card run" "run \<subseteq> {p. on_canvas w h p}" "length stack' \<le> length rest + 2 * card run"
        using fill_run_step[OF less.prems[unfolded Cons] False assms(2)] by blast
      have "{p. on_canvas w h p} - seen w h visited
          = ({p. on_canvas w h p} - seen w h visited') \<union> run"
        using run(3,4,6) by blast
      moreover have "({p. on_canvas w h p} - seen w h visited') \<inter> run = {}"
        using run(3) by blast
      ultimately have "card ({p. on_canvas w h p} - seen w h visited)
          = card ({p. on_canvas w h p} - seen w h visited') + card run"
        using on_canvas_finite[of w h] run(6)
        by (metis card_Un_disjoint finite_Diff finite_subset)
      with run(5,7) have "3 * card ({p. on_canvas w h p} - seen w h visited') + length stack'
          < 3 * card ({p. on_canvas w h p} - seen w h visited) + length stack"
        by (simp add: Cons)
      from less.hyps[OF this run(2)] show ?thesis
        using False run(1) by (simp add: Cons fill_loop_simps)
    qed
  qed
qed

lemma flood_result:
  assumes "on_canvas w h (x, y)"
  shows "flood w h x y colour tolerance bits =
    Some (\<lambda>p. if reached w h (\<lambda>q. near tolerance (bits (x, y)) (bits q)) (x, y) p
            then Px (blue colour) (green colour) (red colour) 255 else bits p,
          card {p. reached w h (\<lambda>q. near tolerance (bits (x, y)) (bits q)) (x, y) p})"
proof -
  have "fill_inv w h (near tolerance (bits (x, y))) colour (x, y) bits (\<lambda>i. False, bits, [y * w + x], 0)"
  proof (rule fill_invI)
    show "\<And>i. i \<in> set [y * w + x] \<Longrightarrow> \<exists>p. on_canvas w h p \<and> i = index_of w p
        \<and> reached w h (\<lambda>q. near tolerance (bits (x, y)) (bits q)) (x, y) p"
      using assms by (intro exI[of _ "(x, y)"]) (simp add: index_of_def reached_seed)
  qed (simp_all add: seen_def index_of_def)
  from fill_loop_result[OF this assms] obtain visited' bits' filled' where
    r: "flood w h x y colour tolerance bits = Some (bits', filled')"
       "fill_inv w h (near tolerance (bits (x, y))) colour (x, y) bits (visited', bits', [], filled')"
    by (auto simp: flood_def)
  note seen = fill_inv_final[OF r(2)]
  show ?thesis
    using r(1) fill_invD(3,4)[OF r(2)] by (auto simp: seen fun_eq_iff)
qed

lemma near_self [simp]: "near tolerance p p"
  by (simp add: near_def channel_far_def to_uint8_def)

text \<open>Bytes differ by less than 256, so the cast of the difference loses nothing.\<close>

lemma near_bytes:
  assumes "pixel_ok p" and "pixel_ok s"
  shows "near tolerance s p \<longleftrightarrow> (\<forall>c \<in> {blue, green, red, alpha}. \<bar>int (c p) - int (c s)\<bar> \<le> int tolerance)"
proof -
  have "channel_far tolerance a b \<longleftrightarrow> \<not> \<bar>int a - int b\<bar> \<le> int tolerance" if "a < 256" "b < 256" for a b
  proof -
    have "nat \<bar>int a - int b\<bar> < 256" using that by linarith
    then show ?thesis by (auto simp: channel_far_def to_uint8_def)
  qed
  then show ?thesis using assms by (auto simp: near_def pixel_ok_def)
qed

end
