(* ===== verification/Rects.thy ===== *)
theory Rects
  imports Prelude
begin

text \<open>
  The rectangles of the interface kit as the drawing and the painting documents use them: four
  coordinates, valid when not inverted, with the corner-wise meet and join that \<open>&\<close> and \<open>|\<close> of
  \<open>BRect\<close> are documented to be. The coordinates are integers for pixels and rationals for points.
\<close>

datatype 'a rect = Rect (rect_left: 'a) (rect_top: 'a) (rect_right: 'a) (rect_bottom: 'a)

definition rect_valid :: "'a :: linorder rect \<Rightarrow> bool" where
  "rect_valid r \<longleftrightarrow> rect_left r \<le> rect_right r \<and> rect_top r \<le> rect_bottom r"

definition rect_meet :: "'a :: linorder rect \<Rightarrow> 'a rect \<Rightarrow> 'a rect" where
  "rect_meet r s = Rect (max (rect_left r) (rect_left s)) (max (rect_top r) (rect_top s))
     (min (rect_right r) (rect_right s)) (min (rect_bottom r) (rect_bottom s))"

definition rect_join :: "'a :: linorder rect \<Rightarrow> 'a rect \<Rightarrow> 'a rect" where
  "rect_join r s = Rect (min (rect_left r) (rect_left s)) (min (rect_top r) (rect_top s))
     (max (rect_right r) (rect_right s)) (max (rect_bottom r) (rect_bottom s))"

definition rect_has :: "'a :: linorder rect \<Rightarrow> 'a \<Rightarrow> 'a \<Rightarrow> bool" where
  "rect_has r x y \<longleftrightarrow> rect_left r \<le> x \<and> x \<le> rect_right r \<and> rect_top r \<le> y \<and> y \<le> rect_bottom r"

text \<open>\<open>BRect()\<close>, which is not valid.\<close>

definition no_rect :: "'a :: {linorder, ring_1} rect" where
  "no_rect = Rect 0 0 (- 1) (- 1)"

lemma rect_meet_has [simp]: "rect_has (rect_meet r s) x y \<longleftrightarrow> rect_has r x y \<and> rect_has s x y"
  by (auto simp: rect_has_def rect_meet_def)

lemma rect_has_valid: "rect_has r x y \<Longrightarrow> rect_valid r"
  by (auto simp: rect_has_def rect_valid_def)

lemma rect_join_has: "rect_has r x y \<or> rect_has s x y \<Longrightarrow> rect_has (rect_join r s) x y"
  by (auto simp: rect_has_def rect_join_def min_le_iff_disj le_max_iff_disj)

lemma rect_join_valid: "rect_valid r \<Longrightarrow> rect_valid s \<Longrightarrow> rect_valid (rect_join r s)"
  by (auto simp: rect_valid_def rect_join_def min_le_iff_disj le_max_iff_disj)

lemma no_rect_invalid [simp]: "\<not> rect_valid (no_rect :: int rect)"
  by (simp add: rect_valid_def no_rect_def)

lemma rect_valid_has_corner: "rect_valid r \<Longrightarrow> rect_has r (rect_left r) (rect_top r)"
  by (simp add: rect_valid_def rect_has_def)

text \<open>Inside another rectangle.\<close>

definition rect_within :: "'a :: linorder rect \<Rightarrow> 'a rect \<Rightarrow> bool" where
  "rect_within r s \<longleftrightarrow> rect_left s \<le> rect_left r \<and> rect_right r \<le> rect_right s
     \<and> rect_top s \<le> rect_top r \<and> rect_bottom r \<le> rect_bottom s"

lemma rect_within_join: "rect_within r t \<Longrightarrow> rect_within s t \<Longrightarrow> rect_within (rect_join r s) t"
  by (auto simp: rect_within_def rect_join_def)

lemma rect_within_meet [simp]: "rect_within (rect_meet r s) s"
  by (auto simp: rect_within_def rect_meet_def)

lemma rect_within_refl [simp]: "rect_within r r"
  by (simp add: rect_within_def)

lemma rect_within_has: "rect_within r s \<Longrightarrow> rect_has r x y \<Longrightarrow> rect_has s x y"
  by (auto simp: rect_within_def rect_has_def)

section \<open>The bytes of a rectangle\<close>

text \<open>
  \<open>memcpy\<close> row by row: the cells of an integer rectangle in reading order, and a picture with such
  cells put back.
\<close>

definition rect_width :: "int rect \<Rightarrow> int" where
  "rect_width r = rect_right r - rect_left r + 1"

definition rect_height :: "int rect \<Rightarrow> int" where
  "rect_height r = rect_bottom r - rect_top r + 1"

definition read_rect :: "int rect \<Rightarrow> (int \<times> int \<Rightarrow> 'p) \<Rightarrow> 'p list" where
  "read_rect r b = concat (map (\<lambda>y. map (\<lambda>x. b (x, y)) [rect_left r .. rect_right r])
     [rect_top r .. rect_bottom r])"

definition write_rect :: "int rect \<Rightarrow> 'p list \<Rightarrow> (int \<times> int \<Rightarrow> 'p) \<Rightarrow> int \<times> int \<Rightarrow> 'p" where
  "write_rect r ps b = (\<lambda>(x, y). if rect_has r x y
     then ps ! nat ((y - rect_top r) * rect_width r + (x - rect_left r)) else b (x, y))"

lemma nth_concat_rows:
  assumes "\<forall>y \<in> set ys. length (f y) = k" and "n < length ys" and "m < k"
  shows "concat (map f ys) ! (n * k + m) = f (ys ! n) ! m"
  using assms
proof (induction ys arbitrary: n)
  case (Cons y ys)
  then show ?case
    by (cases n) (auto simp: nth_append)
qed simp

lemma nth_read_rect:
  assumes "rect_has r x y"
  shows "read_rect r b ! nat ((y - rect_top r) * rect_width r + (x - rect_left r)) = b (x, y)"
proof -
  define n m where "n = nat (y - rect_top r)" and "m = nat (x - rect_left r)"
  define k where "k = nat (rect_width r)"
  have "nat ((y - rect_top r) * rect_width r + (x - rect_left r)) = n * k + m"
    using assms by (simp add: n_def m_def k_def rect_has_def rect_width_def nat_add_distrib
        nat_mult_distrib)
  moreover have "n < length [rect_top r .. rect_bottom r]" "m < k"
    using assms by (auto simp: n_def m_def k_def rect_has_def rect_width_def)
  moreover have "[rect_top r .. rect_bottom r] ! n = y" "[rect_left r .. rect_right r] ! m = x"
    using assms by (simp_all add: n_def m_def rect_has_def nth_upto)
  moreover have "read_rect r b ! (n * k + m)
      = map (\<lambda>x. b (x, [rect_top r .. rect_bottom r] ! n)) [rect_left r .. rect_right r] ! m"
    unfolding read_rect_def using calculation(2,3)
    by (intro nth_concat_rows) (auto simp: k_def rect_width_def)
  moreover have "m < length [rect_left r .. rect_right r]"
    using calculation(3) by (simp add: k_def rect_width_def)
  ultimately show ?thesis by simp
qed

text \<open>Putting back what was read of one picture copies it into another inside the rectangle.\<close>

lemma write_read_rect:
  "write_rect r (read_rect r b) c (x, y) = (if rect_has r x y then b (x, y) else c (x, y))"
  by (simp add: write_rect_def nth_read_rect)

lemma write_read_agree:
  assumes "\<forall>x y. \<not> rect_has r x y \<longrightarrow> b (x, y) = c (x, y)"
  shows "write_rect r (read_rect r b) c = b"
  using assms by (auto simp: write_read_rect fun_eq_iff)

end
