(* ===== verification/History.thy ===== *)
theory History
  imports Prelude
begin

text \<open>
  The contract of an undo history, shared by the documents: what an edit, an undo and a redo do to
  the contents before, at and after the present. The documents keep snapshots or differences; here
  the history is a line of contents with a cursor.
\<close>

text \<open>A stack that holds at most \<open>cap\<close> entries: the oldest is the first of the list.\<close>

definition push_capped :: "nat \<Rightarrow> 'a \<Rightarrow> 'a list \<Rightarrow> 'a list" where
  "push_capped cap x xs = (if length (xs @ [x]) > cap then tl (xs @ [x]) else xs @ [x])"

lemma last_push_capped [simp]: "0 < cap \<Longrightarrow> last (push_capped cap x xs) = x" "0 < cap \<Longrightarrow> push_capped cap x xs \<noteq> []"
  by (cases xs; auto simp: push_capped_def)+

lemma set_push_capped: "\<forall>y \<in> set xs. P y \<Longrightarrow> P x \<Longrightarrow> \<forall>y \<in> set (push_capped cap x xs). P y"
  by (cases xs) (auto simp: push_capped_def)

lemma length_push_capped: "length xs \<le> cap \<Longrightarrow> length (push_capped cap x xs) \<le> cap"
  by (auto simp: push_capped_def)

lemma rev_push_capped:
  assumes "length xs \<le> cap"
  shows "rev (push_capped cap x xs) = take cap (x # rev xs)"
proof (cases "length xs = cap")
  case True
  then show ?thesis by (cases xs) (auto simp: push_capped_def take_Cons')
next
  case False
  then show ?thesis using assms by (simp add: push_capped_def)
qed

text \<open>The contents that undoing brings back, alone: what holds with no word about redoing.\<close>

locale undo_line =
  fixes ok :: "'s \<Rightarrow> bool"
    and content :: "'s \<Rightarrow> 'c"
    and past :: "'s \<Rightarrow> 'c list"
    and undo :: "'s \<Rightarrow> 's"
    and edit :: "'s \<Rightarrow> 's \<Rightarrow> bool"
    and cap :: nat
  assumes back_none: "past s = [] \<Longrightarrow> undo s = s"
    and back_some: "ok s \<Longrightarrow> past s = c # cs \<Longrightarrow> ok (undo s) \<and> content (undo s) = c \<and> past (undo s) = cs"
    and edit_past: "ok s \<Longrightarrow> edit s s' \<Longrightarrow> ok s' \<and> past s' = take cap (content s # past s)"
begin

lemma back_times:
  assumes "ok s" and "n \<le> length (past s)"
  shows "ok ((undo ^^ n) s) \<and> content ((undo ^^ n) s) = (content s # past s) ! n \<and> past ((undo ^^ n) s) = drop n (past s)"
  using assms(2)
proof (induction n)
  case (Suc n)
  then have here: "ok ((undo ^^ n) s)" "past ((undo ^^ n) s) = past s ! n # drop (Suc n) (past s)"
    by (auto simp: Cons_nth_drop_Suc)
  from back_some[OF here] show ?case by simp
qed (use assms(1) in simp)

lemma undo_past_the_end:
  assumes "ok s" and "length (past s) \<le> n"
  shows "(undo ^^ n) s = (undo ^^ length (past s)) s"
proof -
  have "past ((undo ^^ length (past s)) s) = []"
    using back_times[OF assms(1) order_refl] by simp
  then have "(undo ^^ k) ((undo ^^ length (past s)) s) = (undo ^^ length (past s)) s" for k
    by (induction k) (simp_all add: back_none)
  from this[of "n - length (past s)"] show ?thesis
    using assms(2) by (simp flip: funpow_add[THEN fun_cong, unfolded comp_def])
qed

text \<open>A row of edits: the contents before each of them, the newest first; an edit may join the one before.\<close>

inductive edits :: "'s \<Rightarrow> 'c list \<Rightarrow> 's \<Rightarrow> bool" where
  edits_none: "edits s [] s"
| edits_more: "edits s cs s' \<Longrightarrow> edit s' s'' \<Longrightarrow> edits s (content s' # cs) s''"
| edits_joined: "edits s cs s' \<Longrightarrow> ok s'' \<Longrightarrow> past s'' = past s' \<Longrightarrow> edits s cs s''"

lemma edits_past:
  assumes "edits s cs s'" and "ok s" and "length (past s) \<le> cap"
  shows "ok s' \<and> past s' = take cap (cs @ past s)"
  using assms
proof (induction rule: edits.induct)
  case (edits_more s cs s' s'')
  then have "ok s'" "past s' = take cap (cs @ past s)" by auto
  from edit_past[OF this(1) edits_more.hyps(2)] this(2) show ?case
    by (cases cap) (auto simp: min_def)
qed simp_all

lemma undo_edits:
  assumes "edits s cs s'" and "ok s" and "length (past s) \<le> cap" and "n \<le> length cs" and "n \<le> cap"
  shows "content ((undo ^^ n) s') = (content s' # cs) ! n"
proof -
  have "ok s'" "past s' = take cap (cs @ past s)"
    using edits_past[OF assms(1-3)] by auto
  moreover from this assms(4,5) have "n \<le> length (past s')" by simp
  ultimately show ?thesis
    using back_times[of s' n] assms(4,5) by (cases n) (auto simp: nth_append)
qed

end

text \<open>The line of contents with its cursor.\<close>

locale undo_history =
  fixes ok :: "'s \<Rightarrow> bool"
    and content :: "'s \<Rightarrow> 'c"
    and past :: "'s \<Rightarrow> 'c list"
    and future :: "'s \<Rightarrow> 'c list"
    and undo :: "'s \<Rightarrow> 's"
    and redo :: "'s \<Rightarrow> 's"
    and edit :: "'s \<Rightarrow> 's \<Rightarrow> bool"
    and cap :: nat
  assumes undo_none: "past s = [] \<Longrightarrow> undo s = s"
    and undo_some: "ok s \<Longrightarrow> past s = c # cs
      \<Longrightarrow> ok (undo s) \<and> content (undo s) = c \<and> past (undo s) = cs \<and> future (undo s) = content s # future s"
    and redo_none: "future s = [] \<Longrightarrow> redo s = s"
    and redo_some: "ok s \<Longrightarrow> future s = c # cs
      \<Longrightarrow> ok (redo s) \<and> content (redo s) = c \<and> future (redo s) = cs \<and> past (redo s) = content s # past s"
    and edit_step: "ok s \<Longrightarrow> edit s s'
      \<Longrightarrow> ok s' \<and> past s' = take cap (content s # past s) \<and> future s' = []"
begin

lemma undo_ok: "ok s \<Longrightarrow> ok (undo s)"
  using undo_none undo_some by (cases "past s") auto

lemma redo_ok: "ok s \<Longrightarrow> ok (redo s)"
  using redo_none redo_some by (cases "future s") auto

text \<open>Undo and redo only move the cursor: the line of contents stays.\<close>

lemma undo_line: "ok s \<Longrightarrow> rev (past (undo s)) @ content (undo s) # future (undo s) = rev (past s) @ content s # future s"
  using undo_none undo_some by (cases "past s") auto

lemma redo_line: "ok s \<Longrightarrow> rev (past (redo s)) @ content (redo s) # future (redo s) = rev (past s) @ content s # future s"
  using redo_none redo_some by (cases "future s") auto

lemma undo_redo: "ok s \<Longrightarrow> past s \<noteq> []
  \<Longrightarrow> content (redo (undo s)) = content s \<and> past (redo (undo s)) = past s \<and> future (redo (undo s)) = future s"
  using undo_some[of s "hd (past s)" "tl (past s)"] redo_some[of "undo s" "content s" "future s"]
  by (cases "past s") auto

lemma undo_times:
  assumes "ok s" and "n \<le> length (past s)"
  shows "ok ((undo ^^ n) s) \<and> content ((undo ^^ n) s) = (content s # past s) ! n
    \<and> past ((undo ^^ n) s) = drop n (past s) \<and> length (future ((undo ^^ n) s)) = n + length (future s)"
  using assms(2)
proof (induction n)
  case (Suc n)
  then have here: "ok ((undo ^^ n) s)" "past ((undo ^^ n) s) = past s ! n # drop (Suc n) (past s)"
      "length (future ((undo ^^ n) s)) = n + length (future s)"
    by (auto simp: Cons_nth_drop_Suc)
  from undo_some[OF here(1,2)] here(3) show ?case by simp
qed (use assms(1) in simp)

lemma redo_times:
  assumes "ok s" and "n \<le> length (future s)"
  shows "ok ((redo ^^ n) s) \<and> content ((redo ^^ n) s) = (content s # future s) ! n
    \<and> future ((redo ^^ n) s) = drop n (future s)"
  using assms(2)
proof (induction n)
  case (Suc n)
  then have here: "ok ((redo ^^ n) s)" "future ((redo ^^ n) s) = future s ! n # drop (Suc n) (future s)"
    by (auto simp: Cons_nth_drop_Suc)
  from redo_some[OF here] show ?case by simp
qed (use assms(1) in simp)

text \<open>As many redos as undos come back to where the undos began.\<close>

lemma undos_redos:
  assumes "ok s" and "n \<le> length (past s)"
  shows "content ((redo ^^ n) ((undo ^^ n) s)) = content s"
  using assms(2)
proof (induction n)
  case (Suc n)
  let ?u = "(undo ^^ n) s"
  have u: "ok ?u" "past ?u \<noteq> []" "length (future ?u) = n + length (future s)"
    using undo_times[OF assms(1), of n] Suc.prems by auto
  have same: "content (redo (undo ?u)) = content ?u" "future (redo (undo ?u)) = future ?u"
      "ok (redo (undo ?u))"
    using undo_redo[OF u(1,2)] u(1) by (auto intro: undo_ok redo_ok)
  have "(redo ^^ Suc n) ((undo ^^ Suc n) s) = (redo ^^ n) (redo (undo ?u))"
    by (simp add: funpow_swap1)
  moreover have "content ((redo ^^ n) (redo (undo ?u))) = content ((redo ^^ n) ?u)"
    using redo_times[OF same(3), of n] redo_times[OF u(1), of n] u(3) same by simp
  ultimately show ?case using Suc by simp
qed simp

end

sublocale undo_history \<subseteq> undo_line ok content past undo edit cap
  by unfold_locales (use undo_none undo_some edit_step in auto)

end
