(* ===== verification/PaintDocument.thy ===== *)
theory PaintDocument
  imports PaintFill Rects History
begin

text \<open>
  ProsePaint's document, \<open>prosepaint/app/src/PPDocument.h\<close> and \<open>PPDocument.cpp\<close>: the canvas, the
  layers, a stroke and its buffer, the composite cache and the undo steps, with every operation
  that changes them. A bitmap is a picture with a width and a height; the interface kit's bitmap is
  never null here, and an argument \<open>ok\<close> says whether one can be allocated where the code asks.
  Coordinates are integers, the resolution and the paper's points rationals.
\<close>

section \<open>Data\<close>

datatype surface = Surface (surface_w: int) (surface_h: int) (surface_bits: bitmap)

text \<open>
  The paper's name is a pointer (\<open>PPPaper::name\<close>): to a literal of the program, into the message being
  read, or into a message that has gone since.
\<close>

datatype c_string = Literal string | InMessage string | Dangling

record layer =
  layer_id :: int
  layer_name :: string
  layer_visible :: bool
  layer_opacity :: nat
  layer_bits :: surface

record paper =
  paper_name :: c_string
  paper_width :: rat
  paper_height :: rat

record undo_step =
  step_layer :: int
  step_rect :: "int rect"
  step_before :: "pixel list"
  step_after :: "pixel list"

record document =
  fWidth :: int
  fHeight :: int
  fDPI :: rat
  fPaper :: paper
  fLayers :: "layer list"
  fNextLayerId :: int
  fActiveId :: int
  fComposite :: "surface option"
  fCompositeDirty :: bool
  fDirty :: "int rect"
  fInStroke :: bool
  fCurrentStep :: undo_step
  fBeforeSnap :: "surface option"
  fStrokeBuf :: "surface option"
  fStrokeErase :: bool
  fStrokeOpacity :: nat
  fSmudgeFoot :: "pixel list"
  fUndo :: "undo_step list"
  fRedo :: "undo_step list"
  fModified :: bool

definition no_step :: undo_step where
  "no_step = \<lparr>step_layer = 0, step_rect = no_rect, step_before = [], step_after = []\<rparr>"

definition default_paper :: paper where
  "default_paper = \<lparr>paper_name = Literal ''A4'', paper_width = 595, paper_height = 842\<rparr>"

definition canvas_rect :: "document \<Rightarrow> int rect" where
  "canvas_rect d = Rect 0 0 (fWidth d - 1) (fHeight d - 1)"

section \<open>Layers\<close>

definition LayerAt :: "document \<Rightarrow> int \<Rightarrow> layer option" where
  "LayerAt d index = (if index < 0 \<or> int (length (fLayers d)) \<le> index then None
     else Some (fLayers d ! nat index))"

definition LayerById :: "document \<Rightarrow> int \<Rightarrow> layer option" where
  "LayerById d i = find (\<lambda>l. layer_id l = i) (fLayers d)"

fun index_from :: "int \<Rightarrow> int \<Rightarrow> layer list \<Rightarrow> int" where
  "index_from i k [] = - 1"
| "index_from i k (l # ls) = (if layer_id l = i then k else index_from i (k + 1) ls)"

definition IndexOf :: "document \<Rightarrow> int \<Rightarrow> int" where
  "IndexOf d i = index_from i 0 (fLayers d)"

definition ActiveLayer :: "document \<Rightarrow> layer option" where
  "ActiveLayer d = (if fActiveId d \<noteq> 0 then LayerById d (fActiveId d) else None)"

text \<open>A change through the pointer \<open>LayerById\<close> gave.\<close>

fun change_layer :: "int \<Rightarrow> (layer \<Rightarrow> layer) \<Rightarrow> layer list \<Rightarrow> layer list" where
  "change_layer i f [] = []"
| "change_layer i f (l # ls) = (if layer_id l = i then f l # ls else l # change_layer i f ls)"

definition on_layer :: "int \<Rightarrow> (layer \<Rightarrow> layer) \<Rightarrow> document \<Rightarrow> document" where
  "on_layer i f d = d\<lparr>fLayers := change_layer i f (fLayers d)\<rparr>"

definition repaint :: "(bitmap \<Rightarrow> bitmap) \<Rightarrow> layer \<Rightarrow> layer" where
  "repaint g l = l\<lparr>layer_bits := Surface (surface_w (layer_bits l)) (surface_h (layer_bits l))
     (g (surface_bits (layer_bits l)))\<rparr>"

definition MarkDirty :: "int rect \<Rightarrow> document \<Rightarrow> document" where
  "MarkDirty r d =
     (let c = rect_meet r (canvas_rect d) in
      if \<not> rect_valid c then d
      else d\<lparr>fCompositeDirty := True,
             fDirty := (if \<not> rect_valid (fDirty d) then c else rect_join (fDirty d) c)\<rparr>)"

definition AddLayer :: "bool \<Rightarrow> string option \<Rightarrow> document \<Rightarrow> int \<times> document" where
  "AddLayer ok name d =
     (let i = fNextLayerId d; d = d\<lparr>fNextLayerId := i + 1\<rparr>;
        nm = (case name of Some (c # cs) \<Rightarrow> c # cs
              | _ \<Rightarrow> if fLayers d = [] then ''Background'' else ''Layer '' @ show_int (fNextLayerId d - 1));
        l = \<lparr>layer_id = i, layer_name = nm, layer_visible = True, layer_opacity = 255,
             layer_bits = Surface (fWidth d) (fHeight d) (\<lambda>p. clear)\<rparr>
      in if \<not> ok then (- 1, d)
         else (i, (MarkDirty (canvas_rect d) (d\<lparr>fLayers := fLayers d @ [l], fActiveId := i\<rparr>))
                    \<lparr>fModified := True\<rparr>))"

definition DeleteLayer :: "int \<Rightarrow> document \<Rightarrow> document" where
  "DeleteLayer i d =
     (if length (fLayers d) \<le> 1 then d
      else let idx = IndexOf d i in
        if idx < 0 then d
        else let ls = take (nat idx) (fLayers d) @ drop (Suc (nat idx)) (fLayers d);
                 d = d\<lparr>fLayers := ls, fActiveId := (if fActiveId d = i then layer_id (last ls) else fActiveId d)\<rparr>
             in (MarkDirty (canvas_rect d) d)\<lparr>fModified := True\<rparr>)"

definition MoveLayer :: "int \<Rightarrow> bool \<Rightarrow> document \<Rightarrow> document" where
  "MoveLayer i up d =
     (let idx = IndexOf d i; to = (if up then idx + 1 else idx - 1); ls = fLayers d in
      if idx < 0 \<or> to < 0 \<or> int (length ls) \<le> to then d
      else (MarkDirty (canvas_rect d)
             (d\<lparr>fLayers := ls[nat idx := ls ! nat to, nat to := ls ! nat idx]\<rparr>))\<lparr>fModified := True\<rparr>)"

definition RenameLayer :: "int \<Rightarrow> string option \<Rightarrow> document \<Rightarrow> document" where
  "RenameLayer i name d =
     (case LayerById d i of None \<Rightarrow> d
      | Some l \<Rightarrow> (case name of Some (c # cs) \<Rightarrow>
          (on_layer i (\<lambda>l. l\<lparr>layer_name := c # cs\<rparr>) d)\<lparr>fModified := True\<rparr>
        | _ \<Rightarrow> d))"

definition SetLayerVisible :: "int \<Rightarrow> bool \<Rightarrow> document \<Rightarrow> document" where
  "SetLayerVisible i v d =
     (case LayerById d i of None \<Rightarrow> d
      | Some l \<Rightarrow> if layer_visible l = v then d
          else (MarkDirty (canvas_rect d) (on_layer i (\<lambda>l. l\<lparr>layer_visible := v\<rparr>) d))\<lparr>fModified := True\<rparr>)"

definition SetLayerOpacity :: "int \<Rightarrow> nat \<Rightarrow> document \<Rightarrow> document" where
  "SetLayerOpacity i opa d =
     (case LayerById d i of None \<Rightarrow> d
      | Some l \<Rightarrow> if layer_opacity l = opa then d
          else (MarkDirty (canvas_rect d) (on_layer i (\<lambda>l. l\<lparr>layer_opacity := opa\<rparr>) d))\<lparr>fModified := True\<rparr>)"

definition SetActiveLayer :: "int \<Rightarrow> document \<Rightarrow> document" where
  "SetActiveLayer i d = (if LayerById d i = None then d else d\<lparr>fActiveId := i\<rparr>)"

text \<open>Every pixel of the canvas, each for itself: the double loops over rows and columns.\<close>

definition for_canvas :: "int \<Rightarrow> int \<Rightarrow> (int \<times> int \<Rightarrow> pixel \<Rightarrow> pixel) \<Rightarrow> bitmap \<Rightarrow> bitmap" where
  "for_canvas w h f bits = (\<lambda>p. if on_canvas w h p then f p (bits p) else bits p)"

text \<open>
  \<open>ok\<close>: the bitmap of the first layer could be allocated. If not, the code goes on without a layer, and a
  white canvas is written through the null pointer; what is given here for that case no program sees.
\<close>

definition SetCanvas :: "bool \<Rightarrow> int \<Rightarrow> int \<Rightarrow> rat \<Rightarrow> paper \<Rightarrow> bool \<Rightarrow> document \<Rightarrow> document" where
  "SetCanvas ok width height dpi paper white d =
     (if width < 1 \<or> height < 1 \<or> dpi < 12 then d
      else let (i, d) = AddLayer ok (Some ''Background'')
                 (d\<lparr>fWidth := width, fHeight := height, fDPI := dpi, fPaper := paper, fLayers := [],
                    fUndo := [], fRedo := [], fNextLayerId := 1\<rparr>);
               d = (if white then on_layer i (repaint (for_canvas (fWidth d) (fHeight d)
                      (\<lambda>p q. Px 255 255 255 255))) d else d)
           in d\<lparr>fModified := False\<rparr>)"

definition paper_px :: "rat \<Rightarrow> rat \<Rightarrow> int" where
  "paper_px points dpi = \<lfloor>points * dpi / 72 + 1 / 2\<rfloor>"

definition new_document :: document where
  "new_document = SetCanvas True (paper_px (paper_width default_paper) 96) (paper_px (paper_height default_paper) 96)
     96 default_paper True
     \<lparr>fWidth = 794, fHeight = 1123, fDPI = 96, fPaper = default_paper, fLayers = [], fNextLayerId = 1,
      fActiveId = 0, fComposite = None, fCompositeDirty = True, fDirty = no_rect, fInStroke = False,
      fCurrentStep = no_step, fBeforeSnap = None, fStrokeBuf = None, fStrokeErase = False,
      fStrokeOpacity = 255, fSmudgeFoot = [], fUndo = [], fRedo = [], fModified = False\<rparr>"

section \<open>A stroke\<close>

text \<open>\<open>ok\<close>: \<open>ImportBits\<close> copied the layer.\<close>

definition StrokeBegin :: "bool \<Rightarrow> nat \<Rightarrow> document \<Rightarrow> document" where
  "StrokeBegin ok opacity d =
     d\<lparr>fInStroke := True, fDirty := no_rect, fSmudgeFoot := [],
       fCurrentStep := no_step\<lparr>step_layer := fActiveId d\<rparr>,
       fStrokeOpacity := opacity, fStrokeErase := False, fStrokeBuf := None,
       fBeforeSnap := (case ActiveLayer d of Some l \<Rightarrow> if ok then Some (layer_bits l) else None | None \<Rightarrow> None)\<rparr>"

definition StrokeBuffer :: "bool \<Rightarrow> document \<Rightarrow> document" where
  "StrokeBuffer ok d =
     (if fStrokeBuf d = None \<and> ok then d\<lparr>fStrokeBuf := Some (Surface (fWidth d) (fHeight d) (\<lambda>p. clear))\<rparr>
      else d)"

definition CaptureAfter :: "document \<Rightarrow> undo_step \<Rightarrow> undo_step" where
  "CaptureAfter d st =
     (case LayerById d (step_layer st) of None \<Rightarrow> st
      | Some l \<Rightarrow> if \<not> rect_valid (step_rect st) then st
          else st\<lparr>step_after := read_rect (step_rect st) (surface_bits (layer_bits l))\<rparr>)"

definition land_stroke :: "document \<Rightarrow> bitmap \<Rightarrow> int \<times> int \<Rightarrow> pixel \<Rightarrow> pixel" where
  "land_stroke d src p = (if fStrokeErase d then land_erase (fStrokeOpacity d) (src p)
     else land_colour (fStrokeOpacity d) (src p))"

definition land_buffer :: "int \<Rightarrow> document \<Rightarrow> document" where
  "land_buffer i d =
     (case fStrokeBuf d of None \<Rightarrow> d
      | Some buf \<Rightarrow> MarkDirty (canvas_rect d)
          ((on_layer i (repaint (for_canvas (fWidth d) (fHeight d) (land_stroke d (surface_bits buf)))) d)
            \<lparr>fStrokeBuf := None\<rparr>))"

text \<open>At most forty steps are kept, the oldest going first; the newest is the last of the list.\<close>

definition push_step :: "undo_step \<Rightarrow> undo_step list \<Rightarrow> undo_step list" where
  "push_step st sts = push_capped 40 st sts"

definition StrokeEnd :: "document \<Rightarrow> document" where
  "StrokeEnd d =
     (if \<not> fInStroke d then d
      else let d = d\<lparr>fInStroke := False\<rparr>; st = fCurrentStep d in
        if \<not> rect_valid (step_rect st) then d\<lparr>fBeforeSnap := None, fStrokeBuf := None\<rparr>
        else case (LayerById d (step_layer st), fBeforeSnap d) of
          (Some l, Some snap) \<Rightarrow>
            let d = land_buffer (step_layer st) d;
                st = CaptureAfter d (st\<lparr>step_before := read_rect (step_rect st) (surface_bits snap)\<rparr>)
            in d\<lparr>fBeforeSnap := None, fUndo := push_step st (fUndo d), fRedo := [], fModified := True,
                 fCurrentStep := no_step\<rparr>
        | _ \<Rightarrow> d\<lparr>fBeforeSnap := None, fStrokeBuf := None\<rparr>)"

text \<open>What every dab ends with: the square of the mask is dirty, and the step's rectangle grows.\<close>

definition touch :: "int \<Rightarrow> int \<Rightarrow> nat \<Rightarrow> document \<Rightarrow> document" where
  "touch x0 y0 sz d =
     (let d = MarkDirty (Rect x0 y0 (x0 + int sz - 1) (y0 + int sz - 1)) d in
      if fInStroke d
      then d\<lparr>fCurrentStep := (fCurrentStep d)\<lparr>step_rect :=
             (if \<not> rect_valid (step_rect (fCurrentStep d)) then fDirty d
              else rect_join (step_rect (fCurrentStep d)) (fDirty d))\<rparr>\<rparr>
      else d)"

text \<open>A dab paints the stroke's buffer, or the active layer outside a stroke.\<close>

definition paint_buffer :: "(bitmap \<Rightarrow> bitmap) \<Rightarrow> document \<Rightarrow> document" where
  "paint_buffer g d = d\<lparr>fStrokeBuf :=
     map_option (\<lambda>b. Surface (surface_w b) (surface_h b) (g (surface_bits b))) (fStrokeBuf d)\<rparr>"

definition DabColour ::
    "bool \<Rightarrow> int \<Rightarrow> int \<Rightarrow> pixel \<Rightarrow> (nat \<Rightarrow> nat) option \<Rightarrow> nat \<Rightarrow> nat \<Rightarrow> nat \<Rightarrow> document \<Rightarrow> document" where
  "DabColour ok x y colour stamp sz bpr flow d =
     (case (ActiveLayer d, stamp) of (Some l, Some stamp) \<Rightarrow>
        let x0 = x - int (sz div 2); y0 = y - int (sz div 2);
            dab = for_mask x0 y0 sz (fWidth d) (fHeight d)
                    (\<lambda>my mx. dab_colour_pixel colour (mask_flow stamp bpr flow my mx))
        in if fInStroke d
           then let d = StrokeBuffer ok d in
                if fStrokeBuf d = None then d else touch x0 y0 sz (paint_buffer dab d)
           else touch x0 y0 sz (on_layer (fActiveId d) (repaint dab) d)
      | _ \<Rightarrow> d)"

definition DabErase ::
    "bool \<Rightarrow> int \<Rightarrow> int \<Rightarrow> (nat \<Rightarrow> nat) option \<Rightarrow> nat \<Rightarrow> nat \<Rightarrow> nat \<Rightarrow> document \<Rightarrow> document" where
  "DabErase ok x y stamp sz bpr flow d =
     (case (ActiveLayer d, stamp) of (Some l, Some stamp) \<Rightarrow>
        let x0 = x - int (sz div 2); y0 = y - int (sz div 2);
            dab = (\<lambda>f. for_mask x0 y0 sz (fWidth d) (fHeight d) (\<lambda>my mx. f (mask_flow stamp bpr flow my mx)))
        in if fInStroke d
           then let d = StrokeBuffer ok (d\<lparr>fStrokeErase := True\<rparr>) in
                if fStrokeBuf d = None then d else touch x0 y0 sz (paint_buffer (dab dab_mask_pixel) d)
           else touch x0 y0 sz (on_layer (fActiveId d) (repaint (dab dab_erase_pixel)) d)
      | _ \<Rightarrow> d)"

text \<open>The smudge's footprint: its first touch picks up what is under the brush.\<close>

definition foot_pick :: "document \<Rightarrow> bitmap \<Rightarrow> int \<Rightarrow> int \<Rightarrow> nat \<Rightarrow> nat \<Rightarrow> nat \<Rightarrow> pixel list \<Rightarrow> pixel list" where
  "foot_pick d bits x0 y0 sz my mx foot =
     (let px = x0 + int mx; py = y0 + int my; i = my * sz + mx in
      if px < 0 \<or> fWidth d \<le> px \<or> py < 0 \<or> fHeight d \<le> py
      then foot[i := Px (blue (foot ! i)) (green (foot ! i)) (red (foot ! i)) 0]
      else foot[i := bits (px, py)])"

definition first_touch :: "document \<Rightarrow> bitmap \<Rightarrow> int \<Rightarrow> int \<Rightarrow> nat \<Rightarrow> pixel list \<Rightarrow> pixel list" where
  "first_touch d bits x0 y0 sz foot =
     fold (\<lambda>my. fold (foot_pick d bits x0 y0 sz my) [0..<sz]) [0..<sz]
       (take (sz * sz) foot @ replicate (sz * sz - length foot) clear)"

definition mix_channel :: "nat \<Rightarrow> nat \<Rightarrow> nat \<Rightarrow> nat" where
  "mix_channel strength f d = to_uint8 ((f * strength + d * (255 - strength)) div 255)"

definition mix_pixel :: "nat \<Rightarrow> pixel \<Rightarrow> pixel \<Rightarrow> pixel" where
  "mix_pixel strength f d = Px (mix_channel strength (blue f) (blue d)) (mix_channel strength (green f) (green d))
     (mix_channel strength (red f) (red d)) (mix_channel strength (alpha f) (alpha d))"

definition smudge_cell ::
    "document \<Rightarrow> (nat \<Rightarrow> nat) \<Rightarrow> nat \<Rightarrow> nat \<Rightarrow> int \<Rightarrow> int \<Rightarrow> nat \<Rightarrow> nat \<Rightarrow> nat \<Rightarrow> pixel list \<times> bitmap \<Rightarrow> pixel list \<times> bitmap" where
  "smudge_cell d stamp bpr strength x0 y0 sz my mx = (\<lambda>(foot, bits).
     (let px = x0 + int mx; py = y0 + int my; i = my * sz + mx in
      if px < 0 \<or> fWidth d \<le> px \<or> stamp (my * bpr + mx) = 0 then (foot, bits)
      else let f = mix_pixel strength (foot ! i) (bits (px, py)) in (foot[i := f], bits((px, py) := f))))"

definition smudge_row ::
    "document \<Rightarrow> (nat \<Rightarrow> nat) \<Rightarrow> nat \<Rightarrow> nat \<Rightarrow> int \<Rightarrow> int \<Rightarrow> nat \<Rightarrow> nat \<Rightarrow> pixel list \<times> bitmap \<Rightarrow> pixel list \<times> bitmap" where
  "smudge_row d stamp bpr strength x0 y0 sz my s =
     (if y0 + int my < 0 \<or> fHeight d \<le> y0 + int my then s
      else fold (smudge_cell d stamp bpr strength x0 y0 sz my) [0..<sz] s)"

definition DabSmudge ::
    "int \<Rightarrow> int \<Rightarrow> (nat \<Rightarrow> nat) option \<Rightarrow> nat \<Rightarrow> nat \<Rightarrow> nat \<Rightarrow> document \<Rightarrow> document" where
  "DabSmudge x y stamp sz bpr strength d =
     (case (ActiveLayer d, stamp) of (Some l, Some stamp) \<Rightarrow>
        let x0 = x - int (sz div 2); y0 = y - int (sz div 2); bits = surface_bits (layer_bits l) in
        if length (fSmudgeFoot d) \<noteq> sz * sz
        then d\<lparr>fSmudgeFoot := first_touch d bits x0 y0 sz (fSmudgeFoot d)\<rparr>
        else let (foot, bits) = fold (smudge_row d stamp bpr strength x0 y0 sz) [0..<sz] (fSmudgeFoot d, bits)
             in touch x0 y0 sz (on_layer (fActiveId d) (repaint (\<lambda>b. bits)) (d\<lparr>fSmudgeFoot := foot\<rparr>))
      | _ \<Rightarrow> d)"

section \<open>The canvas\<close>

text \<open>
  \<open>ImportBits\<close> copies the region that both bitmaps have. The list says which of the new bitmaps
  could be allocated; past its end they all can.
\<close>

definition grown :: "int \<Rightarrow> int \<Rightarrow> int \<Rightarrow> int \<Rightarrow> surface \<Rightarrow> surface" where
  "grown w h keep_w keep_h s =
     Surface w h (\<lambda>p. if on_canvas keep_w keep_h p then surface_bits s p else clear)"

fun grow_layers :: "bool list \<Rightarrow> (surface \<Rightarrow> surface) \<Rightarrow> layer list \<Rightarrow> layer list \<times> bool" where
  "grow_layers oks g [] = ([], True)"
| "grow_layers (False # oks) g (l # ls) = (l # ls, False)"
| "grow_layers oks g (l # ls) =
     (let (ls', done) = grow_layers (tl oks) g ls in (l\<lparr>layer_bits := g (layer_bits l)\<rparr> # ls', done))"

definition Resize :: "bool list \<Rightarrow> int \<Rightarrow> int \<Rightarrow> document \<Rightarrow> document" where
  "Resize oks width height d =
     (if width < 1 \<or> height < 1 \<or> width > 8192 \<or> height > 8192 \<or> width = fWidth d \<and> height = fHeight d then d
      else let (ls, done) = grow_layers oks (grown width height (min (fWidth d) width) (min (fHeight d) height)) (fLayers d);
               d = d\<lparr>fLayers := ls\<rparr>
           in if \<not> done then d
              else let d = d\<lparr>fWidth := width, fHeight := height, fUndo := [], fRedo := [], fStrokeBuf := None\<rparr>
                   in (MarkDirty (canvas_rect d) d)\<lparr>fModified := True\<rparr>)"

text \<open>\<open>None\<close>: the loop does not return.\<close>

definition FillAt :: "int \<Rightarrow> int \<Rightarrow> pixel \<Rightarrow> nat \<Rightarrow> document \<Rightarrow> (nat \<times> document) option" where
  "FillAt x y colour tolerance d =
     (case ActiveLayer d of None \<Rightarrow> Some (0, d)
      | Some l \<Rightarrow>
        if x < 0 \<or> fWidth d \<le> x \<or> y < 0 \<or> fHeight d \<le> y then Some (0, d)
        else case flood (fWidth d) (fHeight d) x y colour tolerance (surface_bits (layer_bits l)) of
          None \<Rightarrow> None
        | Some (bits, filled) \<Rightarrow>
          let d = MarkDirty (canvas_rect d) (on_layer (fActiveId d) (repaint (\<lambda>b. bits)) d);
              d = (if fInStroke d
                   then d\<lparr>fCurrentStep := (fCurrentStep d)\<lparr>step_rect :=
                          (if \<not> rect_valid (step_rect (fCurrentStep d)) then canvas_rect d
                           else rect_join (step_rect (fCurrentStep d)) (canvas_rect d))\<rparr>\<rparr>
                   else d)
          in Some (filled, d\<lparr>fModified := True\<rparr>))"

section \<open>The composite\<close>

definition composite_layer :: "int \<Rightarrow> int \<Rightarrow> layer \<Rightarrow> bitmap \<Rightarrow> bitmap" where
  "composite_layer w h l dst =
     (if \<not> layer_visible l \<or> layer_opacity l = 0 then dst
      else for_canvas w h (\<lambda>p. composite_pixel (layer_opacity l) (surface_bits (layer_bits l) p)) dst)"

definition flatten :: "int \<Rightarrow> int \<Rightarrow> layer list \<Rightarrow> bitmap" where
  "flatten w h ls = fold (composite_layer w h) ls (\<lambda>p. clear)"

definition Composite :: "document \<Rightarrow> surface \<times> document" where
  "Composite d =
     (case (fCompositeDirty d, fComposite d) of (False, Some c) \<Rightarrow> (c, d)
      | _ \<Rightarrow> let c = Surface (fWidth d) (fHeight d) (flatten (fWidth d) (fHeight d) (fLayers d))
             in (c, d\<lparr>fComposite := Some c, fCompositeDirty := False\<rparr>))"

definition PickColour :: "int \<Rightarrow> int \<Rightarrow> document \<Rightarrow> pixel \<times> document" where
  "PickColour x y d =
     (if x < 0 \<or> fWidth d \<le> x \<or> y < 0 \<or> fHeight d \<le> y then (clear, d)
      else let (c, d) = Composite d in (surface_bits c (x, y), d))"

section \<open>Undo\<close>

definition ApplyStep :: "undo_step \<Rightarrow> bool \<Rightarrow> document \<Rightarrow> document" where
  "ApplyStep st forward d =
     (case LayerById d (step_layer st) of None \<Rightarrow> d
      | Some l \<Rightarrow>
        (MarkDirty (step_rect st) (on_layer (step_layer st)
          (repaint (write_rect (step_rect st) (if forward then step_after st else step_before st))) d))
        \<lparr>fModified := True\<rparr>)"

definition Undo :: "document \<Rightarrow> document" where
  "Undo d = (if fUndo d = [] then d
     else let st = last (fUndo d); d = ApplyStep st False (d\<lparr>fUndo := butlast (fUndo d)\<rparr>)
          in d\<lparr>fRedo := fRedo d @ [st]\<rparr>)"

definition Redo :: "document \<Rightarrow> document" where
  "Redo d = (if fRedo d = [] then d
     else let st = last (fRedo d); d = ApplyStep st True (d\<lparr>fRedo := butlast (fRedo d)\<rparr>)
          in d\<lparr>fUndo := fUndo d @ [st]\<rparr>)"

end
