(* ===== verification/PaintStroke.thy ===== *)
theory PaintStroke
  imports PaintDocument
begin

text \<open>
  What strokes and undo steps do to the layers of ProsePaint: a stroke paints only inside the
  rectangle its step remembers, so undoing it brings every pixel back, and the steps form the
  history that \<^theory_text>\<open>undo_history\<close> states. The only losses are the strokes beyond the fortieth.
\<close>

section \<open>Layers under changes\<close>

lemma change_layer_ids [simp]:
  "(\<And>l. layer_id (f l) = layer_id l) \<Longrightarrow> map layer_id (change_layer i f ls) = map layer_id ls"
  by (induction ls) auto

lemma repaint_simps [simp]:
  "layer_id (repaint g l) = layer_id l" "layer_name (repaint g l) = layer_name l"
  "layer_visible (repaint g l) = layer_visible l" "layer_opacity (repaint g l) = layer_opacity l"
  "layer_bits (repaint g l) = Surface (surface_w (layer_bits l)) (surface_h (layer_bits l)) (g (surface_bits (layer_bits l)))"
  by (simp_all add: repaint_def)

lemma repaint_repaint [simp]: "repaint g (repaint f l) = repaint (\<lambda>b. g (f b)) l"
  by (simp add: repaint_def)

lemma change_layer_twice:
  assumes "\<And>l. layer_id (g l) = layer_id l"
  shows "change_layer i f (change_layer i g ls) = change_layer i (\<lambda>l. f (g l)) ls"
  using assms by (induction ls) auto

lemma find_change_layer:
  assumes "\<And>l. layer_id (f l) = layer_id l"
  shows "find (\<lambda>l. layer_id l = j) (change_layer i f ls)
    = (if j = i then map_option f (find (\<lambda>l. layer_id l = i) ls) else find (\<lambda>l. layer_id l = j) ls)"
  using assms by (induction ls) auto

lemma change_layer_cong:
  assumes "\<And>l. find (\<lambda>l. layer_id l = i) ls = Some l \<Longrightarrow> f l = g l"
  shows "change_layer i f ls = change_layer i g ls"
  using assms by (induction ls) auto

lemma change_layer_none: "find (\<lambda>l. layer_id l = i) ls = None \<Longrightarrow> change_layer i f ls = ls"
  by (induction ls) auto

lemma change_layer_same:
  assumes "\<And>l. find (\<lambda>l. layer_id l = i) ls = Some l \<Longrightarrow> f l = l"
  shows "change_layer i f ls = ls"
  using assms by (induction ls) auto

lemma LayerById_on_layer:
  assumes "\<And>l. layer_id (f l) = layer_id l"
  shows "LayerById (on_layer i f d) j = (if j = i then map_option f (LayerById d i) else LayerById d j)"
  using assms by (simp add: LayerById_def on_layer_def find_change_layer)

section \<open>What the parts of a document keep\<close>

lemma MarkDirty_simps [simp]:
  "fWidth (MarkDirty r d) = fWidth d" "fHeight (MarkDirty r d) = fHeight d" "fDPI (MarkDirty r d) = fDPI d"
  "fPaper (MarkDirty r d) = fPaper d" "fLayers (MarkDirty r d) = fLayers d"
  "fNextLayerId (MarkDirty r d) = fNextLayerId d" "fActiveId (MarkDirty r d) = fActiveId d"
  "fComposite (MarkDirty r d) = fComposite d" "fInStroke (MarkDirty r d) = fInStroke d"
  "fCurrentStep (MarkDirty r d) = fCurrentStep d" "fBeforeSnap (MarkDirty r d) = fBeforeSnap d"
  "fStrokeBuf (MarkDirty r d) = fStrokeBuf d" "fStrokeErase (MarkDirty r d) = fStrokeErase d"
  "fStrokeOpacity (MarkDirty r d) = fStrokeOpacity d" "fSmudgeFoot (MarkDirty r d) = fSmudgeFoot d"
  "fUndo (MarkDirty r d) = fUndo d" "fRedo (MarkDirty r d) = fRedo d" "fModified (MarkDirty r d) = fModified d"
  by (simp_all add: MarkDirty_def Let_def)

lemma on_layer_simps [simp]:
  "fWidth (on_layer i f d) = fWidth d" "fHeight (on_layer i f d) = fHeight d"
  "fLayers (on_layer i f d) = change_layer i f (fLayers d)"
  "fNextLayerId (on_layer i f d) = fNextLayerId d" "fActiveId (on_layer i f d) = fActiveId d"
  "fComposite (on_layer i f d) = fComposite d" "fCompositeDirty (on_layer i f d) = fCompositeDirty d"
  "fDirty (on_layer i f d) = fDirty d" "fInStroke (on_layer i f d) = fInStroke d"
  "fCurrentStep (on_layer i f d) = fCurrentStep d" "fBeforeSnap (on_layer i f d) = fBeforeSnap d"
  "fStrokeBuf (on_layer i f d) = fStrokeBuf d" "fStrokeErase (on_layer i f d) = fStrokeErase d"
  "fStrokeOpacity (on_layer i f d) = fStrokeOpacity d" "fSmudgeFoot (on_layer i f d) = fSmudgeFoot d"
  "fUndo (on_layer i f d) = fUndo d" "fRedo (on_layer i f d) = fRedo d" "fModified (on_layer i f d) = fModified d"
  by (simp_all add: on_layer_def)

lemma touch_simps [simp]:
  "fWidth (touch x y sz d) = fWidth d" "fHeight (touch x y sz d) = fHeight d"
  "fLayers (touch x y sz d) = fLayers d" "fNextLayerId (touch x y sz d) = fNextLayerId d"
  "fActiveId (touch x y sz d) = fActiveId d" "fComposite (touch x y sz d) = fComposite d"
  "fInStroke (touch x y sz d) = fInStroke d" "step_layer (fCurrentStep (touch x y sz d)) = step_layer (fCurrentStep d)"
  "fBeforeSnap (touch x y sz d) = fBeforeSnap d" "fStrokeBuf (touch x y sz d) = fStrokeBuf d"
  "fStrokeErase (touch x y sz d) = fStrokeErase d" "fStrokeOpacity (touch x y sz d) = fStrokeOpacity d"
  "fSmudgeFoot (touch x y sz d) = fSmudgeFoot d" "fUndo (touch x y sz d) = fUndo d"
  "fRedo (touch x y sz d) = fRedo d" "fModified (touch x y sz d) = fModified d"
  by (simp_all add: touch_def Let_def)

lemma StrokeBuffer_simps [simp]:
  "fWidth (StrokeBuffer ok d) = fWidth d" "fHeight (StrokeBuffer ok d) = fHeight d"
  "fLayers (StrokeBuffer ok d) = fLayers d" "fNextLayerId (StrokeBuffer ok d) = fNextLayerId d"
  "fActiveId (StrokeBuffer ok d) = fActiveId d" "fComposite (StrokeBuffer ok d) = fComposite d"
  "fCompositeDirty (StrokeBuffer ok d) = fCompositeDirty d" "fDirty (StrokeBuffer ok d) = fDirty d"
  "fInStroke (StrokeBuffer ok d) = fInStroke d" "fCurrentStep (StrokeBuffer ok d) = fCurrentStep d"
  "fBeforeSnap (StrokeBuffer ok d) = fBeforeSnap d" "fStrokeErase (StrokeBuffer ok d) = fStrokeErase d"
  "fStrokeOpacity (StrokeBuffer ok d) = fStrokeOpacity d" "fSmudgeFoot (StrokeBuffer ok d) = fSmudgeFoot d"
  "fUndo (StrokeBuffer ok d) = fUndo d" "fRedo (StrokeBuffer ok d) = fRedo d" "fModified (StrokeBuffer ok d) = fModified d"
  by (simp_all add: StrokeBuffer_def)

lemma paint_buffer_simps [simp]:
  "fWidth (paint_buffer g d) = fWidth d" "fHeight (paint_buffer g d) = fHeight d"
  "fLayers (paint_buffer g d) = fLayers d" "fNextLayerId (paint_buffer g d) = fNextLayerId d"
  "fActiveId (paint_buffer g d) = fActiveId d" "fComposite (paint_buffer g d) = fComposite d"
  "fCompositeDirty (paint_buffer g d) = fCompositeDirty d" "fDirty (paint_buffer g d) = fDirty d"
  "fInStroke (paint_buffer g d) = fInStroke d" "fCurrentStep (paint_buffer g d) = fCurrentStep d"
  "fBeforeSnap (paint_buffer g d) = fBeforeSnap d" "fStrokeErase (paint_buffer g d) = fStrokeErase d"
  "fStrokeOpacity (paint_buffer g d) = fStrokeOpacity d" "fSmudgeFoot (paint_buffer g d) = fSmudgeFoot d"
  "fUndo (paint_buffer g d) = fUndo d" "fRedo (paint_buffer g d) = fRedo d" "fModified (paint_buffer g d) = fModified d"
  by (simp_all add: paint_buffer_def)

text \<open>The rectangle of the step grows over what a dab touched.\<close>

lemma touch_step_has:
  assumes "fInStroke d"
    and "rect_has (step_rect (fCurrentStep d)) x y
      \<or> on_canvas (fWidth d) (fHeight d) (x, y) \<and> rect_has (Rect x0 y0 (x0 + int sz - 1) (y0 + int sz - 1)) x y"
  shows "rect_has (step_rect (fCurrentStep (touch x0 y0 sz d))) x y"
proof -
  let ?m = "MarkDirty (Rect x0 y0 (x0 + int sz - 1) (y0 + int sz - 1)) d"
  let ?c = "rect_meet (Rect x0 y0 (x0 + int sz - 1) (y0 + int sz - 1)) (canvas_rect d)"
  have dirty: "rect_has (fDirty ?m) x y" if "on_canvas (fWidth d) (fHeight d) (x, y)"
    "rect_has (Rect x0 y0 (x0 + int sz - 1) (y0 + int sz - 1)) x y"
  proof -
    have "rect_has ?c x y"
      using that by (simp add: on_canvas_def canvas_rect_def) (simp add: rect_has_def)
    then show ?thesis
      using rect_has_valid[of ?c x y] by (auto simp: MarkDirty_def Let_def intro!: rect_join_has)
  qed
  show ?thesis
    using assms dirty rect_has_valid[of "step_rect (fCurrentStep d)" x y]
    by (auto simp: touch_def Let_def intro!: rect_join_has)
qed

section \<open>A stroke\<close>

text \<open>What the canvas view does between the begin and the end of a stroke.\<close>

inductive dabs :: "document \<Rightarrow> document \<Rightarrow> bool" for d where
  dabs_none: "dabs d d"
| dabs_colour: "dabs d e \<Longrightarrow> dabs d (DabColour ok x y colour stamp sz bpr flow e)"
| dabs_erase: "dabs d e \<Longrightarrow> dabs d (DabErase ok x y stamp sz bpr flow e)"
| dabs_smudge: "dabs d e \<Longrightarrow> dabs d (DabSmudge x y stamp sz bpr strength e)"
| dabs_fill: "dabs d e \<Longrightarrow> FillAt x y colour tolerance e = Some (n, e') \<Longrightarrow> dabs d e'"

definition changed_inside :: "int rect \<Rightarrow> bitmap \<Rightarrow> bitmap \<Rightarrow> bool" where
  "changed_inside r b b' \<longleftrightarrow> (\<forall>x y. \<not> rect_has r x y \<longrightarrow> b' (x, y) = b (x, y))"

definition stroke_inv :: "document \<Rightarrow> layer \<Rightarrow> document \<Rightarrow> bool" where
  "stroke_inv d l e \<longleftrightarrow>
     fInStroke e \<and> step_layer (fCurrentStep e) = fActiveId d \<and> fActiveId e = fActiveId d
   \<and> fBeforeSnap e = Some (layer_bits l) \<and> fUndo e = fUndo d \<and> fRedo e = fRedo d
   \<and> (\<exists>b. fLayers e = change_layer (fActiveId d) (repaint (\<lambda>_. b)) (fLayers d)
        \<and> changed_inside (step_rect (fCurrentStep e)) (surface_bits (layer_bits l)) b)
   \<and> (\<forall>buf. fStrokeBuf e = Some buf
        \<longrightarrow> changed_inside (step_rect (fCurrentStep e)) (\<lambda>p. clear) (surface_bits buf))"

lemma stroke_inv_begin:
  assumes "ActiveLayer d = Some l"
  shows "stroke_inv d l (StrokeBegin True opacity d)"
proof -
  have "find (\<lambda>l. layer_id l = fActiveId d) (fLayers d) = Some l"
    using assms by (simp add: ActiveLayer_def LayerById_def split: if_splits)
  then have "change_layer (fActiveId d) (repaint (\<lambda>_. surface_bits (layer_bits l))) (fLayers d) = fLayers d"
    by (intro change_layer_same) (simp add: repaint_def)
  then show ?thesis
    using assms by (auto simp: stroke_inv_def StrokeBegin_def no_step_def changed_inside_def
        intro!: exI[of _ "surface_bits (layer_bits l)"])
qed

lemma changed_inside_grow:
  assumes "changed_inside r b b'" and "\<And>x y. rect_has r x y \<Longrightarrow> rect_has r' x y"
    and "\<And>x y. \<not> rect_has r' x y \<Longrightarrow> b'' (x, y) = b' (x, y)"
  shows "changed_inside r' b b''"
  using assms unfolding changed_inside_def by metis

lemma for_mask_outside:
  assumes "\<not> (on_canvas w h (x, y) \<and> rect_has (Rect x0 y0 (x0 + int sz - 1) (y0 + int sz - 1)) x y)"
  shows "for_mask x0 y0 sz w h f bits (x, y) = bits (x, y)"
  using assms by (auto simp: for_mask_at on_canvas_def rect_has_def)

text \<open>A dab into the buffer.\<close>

lemma stroke_inv_buffer:
  assumes inv: "stroke_inv d l e"
    and e: "e' = e \<or> e' = e\<lparr>fStrokeErase := True\<rparr>"
  shows "stroke_inv d l (StrokeBuffer ok e')"
    and "stroke_inv d l (touch x0 y0 sz (paint_buffer (for_mask x0 y0 sz (fWidth e) (fHeight e) f) (StrokeBuffer ok e')))"
proof -
  show buf: "stroke_inv d l (StrokeBuffer ok e')"
    using assms by (auto simp: stroke_inv_def StrokeBuffer_def changed_inside_def)
  let ?b = "StrokeBuffer ok e'"
  let ?p = "paint_buffer (for_mask x0 y0 sz (fWidth e) (fHeight e) f) ?b"
  let ?r = "step_rect (fCurrentStep ?b)" and ?r' = "step_rect (fCurrentStep (touch x0 y0 sz ?p))"
  have dims: "fWidth ?p = fWidth e" "fHeight ?p = fHeight e" using e by auto
  have grow: "rect_has ?r' x y" if "rect_has ?r x y \<or> on_canvas (fWidth e) (fHeight e) (x, y)
      \<and> rect_has (Rect x0 y0 (x0 + int sz - 1) (y0 + int sz - 1)) x y" for x y
  proof (rule touch_step_has)
    show "fInStroke ?p" using buf by (simp add: stroke_inv_def)
    show "rect_has (step_rect (fCurrentStep ?p)) x y \<or> on_canvas (fWidth ?p) (fHeight ?p) (x, y)
      \<and> rect_has (Rect x0 y0 (x0 + int sz - 1) (y0 + int sz - 1)) x y"
      using that by (simp only: dims) simp
  qed
  show "stroke_inv d l (touch x0 y0 sz ?p)"
    unfolding stroke_inv_def
  proof (intro conjI allI impI)
    from buf obtain b where "fLayers ?b = change_layer (fActiveId d) (repaint (\<lambda>_. b)) (fLayers d)"
        "changed_inside ?r (surface_bits (layer_bits l)) b"
      unfolding stroke_inv_def by blast
    then show "\<exists>b. fLayers (touch x0 y0 sz ?p) = change_layer (fActiveId d) (repaint (\<lambda>_. b)) (fLayers d)
        \<and> changed_inside ?r' (surface_bits (layer_bits l)) b"
      using grow by (intro exI[of _ b]) (auto intro: changed_inside_grow)
  next
    fix s assume "fStrokeBuf (touch x0 y0 sz ?p) = Some s"
    then obtain s0 where s0: "fStrokeBuf ?b = Some s0"
        "surface_bits s = for_mask x0 y0 sz (fWidth e) (fHeight e) f (surface_bits s0)"
      by (auto simp: paint_buffer_def)
    then have "changed_inside ?r (\<lambda>p. clear) (surface_bits s0)"
      using buf by (simp add: stroke_inv_def)
    then show "changed_inside ?r' (\<lambda>p. clear) (surface_bits s)"
    proof (rule changed_inside_grow)
      show "\<And>x y. \<not> rect_has ?r' x y \<Longrightarrow> surface_bits s (x, y) = surface_bits s0 (x, y)"
        unfolding s0(2) using grow by (intro for_mask_outside) blast
    qed (use grow in blast)
  qed (use buf in \<open>auto simp: stroke_inv_def\<close>)
qed

text \<open>A smudge or a fill paints the layer itself.\<close>

lemma fold_smudge_cell_outside:
  assumes "\<not> (on_canvas (fWidth d) (fHeight d) (x, y) \<and> rect_has (Rect x0 y0 (x0 + int sz - 1) (y0 + int sz - 1)) x y)"
    and "n \<le> sz" and "my < sz" and "\<not> (y0 + int my < 0 \<or> fHeight d \<le> y0 + int my)"
  shows "snd (fold (smudge_cell d stamp bpr strength x0 y0 sz my) [0..<n] s) (x, y) = snd s (x, y)"
  using assms(2)
proof (induction n)
  case (Suc n)
  have "snd (smudge_cell d stamp bpr strength x0 y0 sz my n t) (x, y) = snd t (x, y)" for t
    using assms(1,3,4) Suc.prems
    by (auto simp: smudge_cell_def Let_def on_canvas_def rect_has_def split: prod.split)
  then show ?case using Suc by simp
qed simp

lemma fold_smudge_row_outside:
  assumes "\<not> (on_canvas (fWidth d) (fHeight d) (x, y) \<and> rect_has (Rect x0 y0 (x0 + int sz - 1) (y0 + int sz - 1)) x y)"
    and "n \<le> sz"
  shows "snd (fold (smudge_row d stamp bpr strength x0 y0 sz) [0..<n] s) (x, y) = snd s (x, y)"
  using assms(2)
proof (induction n)
  case (Suc n)
  have "snd (smudge_row d stamp bpr strength x0 y0 sz n t) (x, y) = snd t (x, y)" for t
    using Suc.prems by (simp add: smudge_row_def fold_smudge_cell_outside[OF assms(1)])
  then show ?case using Suc by simp
qed simp

lemma flood_canvas:
  assumes "on_canvas w h (x, y)"
  shows "\<exists>bits' m. flood w h x y colour tolerance bits = Some (bits', m)
    \<and> (\<forall>p. \<not> on_canvas w h p \<longrightarrow> bits' p = bits p)"
  using flood_result[OF assms, of colour tolerance bits]
  by (intro exI conjI) (assumption, metis reached_on_canvas[OF _ assms])

lemma ActiveLayer_find: "ActiveLayer d = Some l \<Longrightarrow> find (\<lambda>l. layer_id l = fActiveId d) (fLayers d) = Some l"
  by (simp add: ActiveLayer_def LayerById_def split: if_splits)

lemma stroke_inv_layer:
  assumes inv: "stroke_inv d l e" and d: "ActiveLayer d = Some l" and l': "ActiveLayer e = Some l'"
    and e': "fLayers e' = change_layer (fActiveId e) (repaint (\<lambda>_. b')) (fLayers e)"
      "fInStroke e' = fInStroke e" "step_layer (fCurrentStep e') = step_layer (fCurrentStep e)"
      "fActiveId e' = fActiveId e" "fBeforeSnap e' = fBeforeSnap e" "fUndo e' = fUndo e" "fRedo e' = fRedo e"
      "fStrokeBuf e' = fStrokeBuf e"
    and grow: "\<And>x y. rect_has (step_rect (fCurrentStep e)) x y \<Longrightarrow> rect_has (step_rect (fCurrentStep e')) x y"
    and out: "\<And>x y. \<not> rect_has (step_rect (fCurrentStep e')) x y \<Longrightarrow> b' (x, y) = surface_bits (layer_bits l') (x, y)"
  shows "stroke_inv d l e'"
proof -
  from inv obtain b where b: "fLayers e = change_layer (fActiveId d) (repaint (\<lambda>_. b)) (fLayers d)"
      "changed_inside (step_rect (fCurrentStep e)) (surface_bits (layer_bits l)) b"
    unfolding stroke_inv_def by blast
  have active: "fActiveId e = fActiveId d" using inv by (simp add: stroke_inv_def)
  have "l' = repaint (\<lambda>_. b) l"
    using ActiveLayer_find[OF l'] ActiveLayer_find[OF d] by (simp add: b(1) active find_change_layer)
  then have "changed_inside (step_rect (fCurrentStep e')) (surface_bits (layer_bits l)) b'"
    using grow out by (intro changed_inside_grow[OF b(2)]) auto
  moreover have "fLayers e' = change_layer (fActiveId d) (repaint (\<lambda>_. b')) (fLayers d)"
    by (simp add: e'(1) b(1) active change_layer_twice)
  moreover have "changed_inside (step_rect (fCurrentStep e')) (\<lambda>p. clear) (surface_bits buf)"
    if "fStrokeBuf e' = Some buf" for buf
    using that inv grow e'(8) unfolding stroke_inv_def
    by (auto intro: changed_inside_grow)
  ultimately show ?thesis
    using inv e'(2-7) unfolding stroke_inv_def by auto
qed

lemma stroke_inv_dabs:
  assumes "dabs (StrokeBegin True opacity d) e" and "ActiveLayer d = Some l"
  shows "stroke_inv d l e"
  using assms(1)
proof induction
  case dabs_none
  show ?case using assms(2) by (rule stroke_inv_begin)
next
  case (dabs_colour e ok x y colour stamp sz bpr flow)
  have "fInStroke e" using dabs_colour.IH by (simp add: stroke_inv_def)
  then show ?case
    using stroke_inv_buffer[OF dabs_colour.IH disjI1[OF refl]] dabs_colour.IH
    by (auto simp: DabColour_def Let_def split: option.split)
next
  case (dabs_erase e ok x y stamp sz bpr flow)
  have "fInStroke e" using dabs_erase.IH by (simp add: stroke_inv_def)
  then show ?case
    using stroke_inv_buffer[OF dabs_erase.IH disjI2[OF refl]] dabs_erase.IH
    by (auto simp: DabErase_def Let_def split: option.split)
next
  case (dabs_smudge e x y stamp sz bpr strength)
  show ?case
  proof (cases "ActiveLayer e")
    case None
    then show ?thesis using dabs_smudge.IH by (simp add: DabSmudge_def)
  next
    case (Some l')
    show ?thesis
    proof (cases "stamp = None \<or> length (fSmudgeFoot e) \<noteq> sz * sz")
      case True
      then show ?thesis
        using dabs_smudge.IH Some
        by (auto simp: DabSmudge_def Let_def stroke_inv_def split: option.split)
    next
      case False
      then obtain st where st: "stamp = Some st" "length (fSmudgeFoot e) = sz * sz" by auto
      define x0 y0 where "x0 = x - int (sz div 2)" and "y0 = y - int (sz div 2)"
      define r where "r = fold (smudge_row e st bpr strength x0 y0 sz) [0..<sz] (fSmudgeFoot e, surface_bits (layer_bits l'))"
      have eq: "DabSmudge x y stamp sz bpr strength e
          = touch x0 y0 sz (on_layer (fActiveId e) (repaint (\<lambda>b. snd r)) (e\<lparr>fSmudgeFoot := fst r\<rparr>))"
        using Some st by (simp add: DabSmudge_def Let_def split_beta x0_def y0_def r_def)
      let ?e = "on_layer (fActiveId e) (repaint (\<lambda>b. snd r)) (e\<lparr>fSmudgeFoot := fst r\<rparr>)"
      have instroke: "fInStroke ?e" using dabs_smudge.IH by (simp add: stroke_inv_def)
      have grow: "rect_has (step_rect (fCurrentStep (touch x0 y0 sz ?e))) x y"
        if "rect_has (step_rect (fCurrentStep e)) x y \<or> on_canvas (fWidth e) (fHeight e) (x, y)
          \<and> rect_has (Rect x0 y0 (x0 + int sz - 1) (y0 + int sz - 1)) x y" for x y
        using touch_step_has[OF instroke, of x y x0 y0 sz] that by simp
      show ?thesis
        unfolding eq
      proof (rule stroke_inv_layer[OF dabs_smudge.IH assms(2) Some, where b' = "snd r"])
        fix x y
        show "snd r (x, y) = surface_bits (layer_bits l') (x, y)"
          if "\<not> rect_has (step_rect (fCurrentStep (touch x0 y0 sz ?e))) x y"
        proof -
          have "\<not> (on_canvas (fWidth e) (fHeight e) (x, y)
              \<and> rect_has (Rect x0 y0 (x0 + int sz - 1) (y0 + int sz - 1)) x y)"
            using that grow[of x y] by blast
          then show ?thesis
            unfolding r_def by (subst fold_smudge_row_outside) simp_all
        qed
      qed (use grow in auto)
    qed
  qed
next
  case (dabs_fill e x y colour tolerance n e')
  show ?case
  proof (cases "ActiveLayer e = None \<or> x < 0 \<or> fWidth e \<le> x \<or> y < 0 \<or> fHeight e \<le> y")
    case True
    then show ?thesis using dabs_fill by (auto simp: FillAt_def split: option.splits)
  next
    case False
    then obtain l' where l': "ActiveLayer e = Some l'" by auto
    let ?b = "surface_bits (layer_bits l')"
    have on: "on_canvas (fWidth e) (fHeight e) (x, y)" using False by (auto simp: on_canvas_def)
    have instroke: "fInStroke e" using dabs_fill.IH by (simp add: stroke_inv_def)
    obtain b' m where flood: "flood (fWidth e) (fHeight e) x y colour tolerance ?b = Some (b', m)"
        "\<And>p. \<not> on_canvas (fWidth e) (fHeight e) p \<Longrightarrow> b' p = ?b p"
      using flood_canvas[OF on] by blast
    let ?r = "step_rect (fCurrentStep e')"
    have e': "?r = (if rect_valid (step_rect (fCurrentStep e))
        then rect_join (step_rect (fCurrentStep e)) (canvas_rect e) else canvas_rect e)"
      "fLayers e' = change_layer (fActiveId e) (repaint (\<lambda>_. b')) (fLayers e)"
      "fInStroke e' = fInStroke e" "step_layer (fCurrentStep e') = step_layer (fCurrentStep e)"
      "fActiveId e' = fActiveId e" "fBeforeSnap e' = fBeforeSnap e" "fUndo e' = fUndo e" "fRedo e' = fRedo e"
      "fStrokeBuf e' = fStrokeBuf e"
      using dabs_fill.hyps(2) False l' flood(1) instroke
      by (auto simp: FillAt_def Let_def canvas_rect_def split: if_splits)
    have grow: "rect_has ?r x y" if "rect_has (step_rect (fCurrentStep e)) x y \<or> on_canvas (fWidth e) (fHeight e) (x, y)" for x y
      using that rect_has_valid[of "step_rect (fCurrentStep e)" x y]
      by (auto simp: e'(1) on_canvas_def canvas_rect_def rect_has_def[of "Rect _ _ _ _"] intro!: rect_join_has)
    show ?thesis
    proof (rule stroke_inv_layer[OF dabs_fill.IH assms(2) l' e'(2-9)])
      fix x y assume "\<not> rect_has ?r x y"
      then show "b' (x, y) = ?b (x, y)" using grow[of x y] flood(2) by blast
    qed (use grow in blast)
  qed
qed

text \<open>The buffer lands inside the rectangle, because its clear pixels leave the layer alone.\<close>

lemma land_stroke_clear [simp]: "src p = clear \<Longrightarrow> land_stroke d src p q = q"
  by (simp add: land_stroke_def land_erase_def land_colour_def clear_def)

lemma stroke_lands:
  assumes inv: "stroke_inv d l e" and d: "ActiveLayer d = Some l"
    and e': "e' = e\<lparr>fInStroke := False\<rparr>"
  shows "\<exists>b. fLayers (land_buffer (fActiveId d) e') = change_layer (fActiveId d) (repaint (\<lambda>_. b)) (fLayers d)
    \<and> changed_inside (step_rect (fCurrentStep e)) (surface_bits (layer_bits l)) b"
proof -
  from inv obtain b where b: "fLayers e = change_layer (fActiveId d) (repaint (\<lambda>_. b)) (fLayers d)"
      "changed_inside (step_rect (fCurrentStep e)) (surface_bits (layer_bits l)) b"
    unfolding stroke_inv_def by blast
  show ?thesis
  proof (cases "fStrokeBuf e")
    case None
    then show ?thesis using b e' by (auto simp: land_buffer_def)
  next
    case (Some buf)
    let ?f = "for_canvas (fWidth e) (fHeight e) (land_stroke e' (surface_bits buf))"
    have "changed_inside (step_rect (fCurrentStep e)) (\<lambda>p. clear) (surface_bits buf)"
      using inv Some by (simp add: stroke_inv_def)
    then have "changed_inside (step_rect (fCurrentStep e)) (surface_bits (layer_bits l)) (?f b)"
      using b(2) by (simp add: changed_inside_def for_canvas_def)
    moreover have "fLayers (land_buffer (fActiveId d) e') = change_layer (fActiveId d) (repaint (\<lambda>_. ?f b)) (fLayers d)"
      using Some b(1) e' by (simp add: land_buffer_def change_layer_twice)
    ultimately show ?thesis by blast
  qed
qed

section \<open>Undoing a stroke\<close>

lemma last_push_step [simp]: "last (push_step st sts) = st" "push_step st sts \<noteq> []"
  by (simp_all add: push_step_def)

lemma land_buffer_keeps [simp]:
  "fUndo (land_buffer i d) = fUndo d" "fRedo (land_buffer i d) = fRedo d"
  "fActiveId (land_buffer i d) = fActiveId d" "fWidth (land_buffer i d) = fWidth d"
  "fHeight (land_buffer i d) = fHeight d" "fCurrentStep (land_buffer i d) = fCurrentStep d"
  "fNextLayerId (land_buffer i d) = fNextLayerId d" "fInStroke (land_buffer i d) = fInStroke d"
  "fBeforeSnap (land_buffer i d) = fBeforeSnap d" "fStrokeBuf (land_buffer i d) = None"
  by (auto simp: land_buffer_def split: option.split)

text \<open>The layers a step makes, backward and forward.\<close>

definition step_layers :: "undo_step \<Rightarrow> bool \<Rightarrow> layer list \<Rightarrow> layer list" where
  "step_layers st forward =
     change_layer (step_layer st) (repaint (write_rect (step_rect st) (if forward then step_after st else step_before st)))"

lemma ApplyStep_simps [simp]:
  "fLayers (ApplyStep st forward d) = step_layers st forward (fLayers d)"
  "fUndo (ApplyStep st forward d) = fUndo d" "fRedo (ApplyStep st forward d) = fRedo d"
  "fActiveId (ApplyStep st forward d) = fActiveId d" "fWidth (ApplyStep st forward d) = fWidth d"
  "fHeight (ApplyStep st forward d) = fHeight d" "fNextLayerId (ApplyStep st forward d) = fNextLayerId d"
  "fInStroke (ApplyStep st forward d) = fInStroke d" "fCurrentStep (ApplyStep st forward d) = fCurrentStep d"
  "fBeforeSnap (ApplyStep st forward d) = fBeforeSnap d" "fStrokeBuf (ApplyStep st forward d) = fStrokeBuf d"
  by (auto simp: ApplyStep_def step_layers_def LayerById_def change_layer_none split: option.split)

lemma Undo_layers: "fUndo d \<noteq> [] \<Longrightarrow> fLayers (Undo d) = step_layers (last (fUndo d)) False (fLayers d)"
  and Redo_layers: "fRedo d \<noteq> [] \<Longrightarrow> fLayers (Redo d) = step_layers (last (fRedo d)) True (fLayers d)"
  by (simp_all add: Undo_def Redo_def Let_def)

lemma Undo_stacks [simp]:
  "fUndo d \<noteq> [] \<Longrightarrow> fUndo (Undo d) = butlast (fUndo d)"
  "fUndo d \<noteq> [] \<Longrightarrow> fRedo (Undo d) = fRedo d @ [last (fUndo d)]"
  "fRedo d \<noteq> [] \<Longrightarrow> fRedo (Redo d) = butlast (fRedo d)"
  "fRedo d \<noteq> [] \<Longrightarrow> fUndo (Redo d) = fUndo d @ [last (fRedo d)]"
  by (simp_all add: Undo_def Redo_def Let_def)

text \<open>What \<open>StrokeEnd\<close> leaves, when the stroke touched the canvas and when it did not.\<close>

lemma StrokeEnd_touched:
  assumes inv: "stroke_inv d l e" and d: "ActiveLayer d = Some l"
    and valid: "rect_valid (step_rect (fCurrentStep e))"
  shows "\<exists>st. fUndo (StrokeEnd e) = push_step st (fUndo d) \<and> fRedo (StrokeEnd e) = []
    \<and> step_layers st False (fLayers (StrokeEnd e)) = fLayers d
    \<and> step_layers st True (fLayers d) = fLayers (StrokeEnd e)"
proof -
  let ?i = "fActiveId d" and ?r = "step_rect (fCurrentStep e)" and ?orig = "surface_bits (layer_bits l)"
  define e1 where "e1 = land_buffer ?i (e\<lparr>fInStroke := False\<rparr>)"
  obtain b where b: "fLayers e1 = change_layer ?i (repaint (\<lambda>_. b)) (fLayers d)" "changed_inside ?r ?orig b"
    using stroke_lands[OF inv d refl] by (auto simp: e1_def)
  note find_l = ActiveLayer_find[OF d]
  have find_e: "\<exists>l'. find (\<lambda>l. layer_id l = ?i) (fLayers e) = Some l'"
    using inv find_l by (auto simp: stroke_inv_def find_change_layer)
  have find_e1: "find (\<lambda>l. layer_id l = ?i) (fLayers e1) = Some (repaint (\<lambda>_. b) l)"
    by (simp add: b(1) find_change_layer find_l)
  define st where "st = (fCurrentStep e)\<lparr>step_before := read_rect ?r ?orig, step_after := read_rect ?r b\<rparr>"
  have "CaptureAfter e1 ((fCurrentStep e)\<lparr>step_before := read_rect ?r ?orig\<rparr>) = st"
    using inv valid find_e1 by (simp add: CaptureAfter_def LayerById_def stroke_inv_def st_def)
  then have ends: "fUndo (StrokeEnd e) = push_step st (fUndo d)" "fRedo (StrokeEnd e) = []"
      "fLayers (StrokeEnd e) = fLayers e1"
    using inv valid find_e
    by (auto simp: StrokeEnd_def Let_def stroke_inv_def LayerById_def e1_def)
  have "step_layer st = ?i" "step_rect st = ?r" using inv by (simp_all add: st_def stroke_inv_def)
  moreover have "write_rect ?r (read_rect ?r ?orig) b = ?orig" "write_rect ?r (read_rect ?r b) ?orig = b"
    using b(2) by (auto intro!: write_read_agree simp: changed_inside_def)
  moreover have "change_layer ?i (repaint (\<lambda>_. ?orig)) (fLayers d) = fLayers d"
    using find_l by (intro change_layer_same) (simp add: repaint_def)
  moreover have "change_layer ?i (repaint (write_rect ?r (read_rect ?r b))) (fLayers d)
      = change_layer ?i (repaint (\<lambda>_. b)) (fLayers d)"
    using find_l calculation(4) by (intro change_layer_cong) (simp add: repaint_def)
  ultimately show ?thesis
    using ends by (intro exI[of _ st]) (simp add: step_layers_def b(1) change_layer_twice st_def)
qed

lemma StrokeEnd_untouched:
  assumes inv: "stroke_inv d l e" and d: "ActiveLayer d = Some l"
    and invalid: "\<not> rect_valid (step_rect (fCurrentStep e))"
  shows "fLayers (StrokeEnd e) = fLayers d \<and> fUndo (StrokeEnd e) = fUndo d \<and> fRedo (StrokeEnd e) = fRedo d"
proof -
  obtain b where b: "fLayers e = change_layer (fActiveId d) (repaint (\<lambda>_. b)) (fLayers d)"
      "changed_inside (step_rect (fCurrentStep e)) (surface_bits (layer_bits l)) b"
    using inv unfolding stroke_inv_def by blast
  have "b = surface_bits (layer_bits l)"
    using b(2) invalid rect_has_valid by (fastforce simp: changed_inside_def fun_eq_iff)
  then have "fLayers e = fLayers d"
    unfolding b(1) using ActiveLayer_find[OF d] by (intro change_layer_same) (simp add: repaint_def)
  then show ?thesis
    using inv invalid by (simp add: StrokeEnd_def Let_def stroke_inv_def)
qed

text \<open>
  C3 Undoing a stroke brings every layer back pixel for pixel, and redoing it paints it again,
  whatever dabs, smudges and fills made it up and whatever its opacity; a stroke that never touched
  the canvas changes neither the layers nor the history.
\<close>

theorem stroke_undo_redo:
  assumes "ActiveLayer d = Some l" and "dabs (StrokeBegin True opacity d) e"
  shows "if rect_valid (step_rect (fCurrentStep e))
    then fLayers (Undo (StrokeEnd e)) = fLayers d \<and> fLayers (Redo (Undo (StrokeEnd e))) = fLayers (StrokeEnd e)
    else fLayers (StrokeEnd e) = fLayers d \<and> fUndo (StrokeEnd e) = fUndo d \<and> fRedo (StrokeEnd e) = fRedo d"
proof -
  note inv = stroke_inv_dabs[OF assms(2,1)]
  show ?thesis
  proof (cases "rect_valid (step_rect (fCurrentStep e))")
    case True
    from StrokeEnd_touched[OF inv assms(1) this] obtain st where
      st: "fUndo (StrokeEnd e) = push_step st (fUndo d)" "fRedo (StrokeEnd e) = []"
        "step_layers st False (fLayers (StrokeEnd e)) = fLayers d"
        "step_layers st True (fLayers d) = fLayers (StrokeEnd e)" by blast
    then have "fUndo (StrokeEnd e) \<noteq> []" by simp
    then show ?thesis using True st by (simp add: Undo_layers Redo_layers)
  next
    case False
    then show ?thesis using StrokeEnd_untouched[OF inv assms(1)] by simp
  qed
qed

text \<open>A canvas of one pixel, and a full dab on it.\<close>

definition dot_canvas :: document where
  "dot_canvas = SetCanvas True 1 1 96 default_paper False new_document"

definition dot_stroke :: document where
  "dot_stroke = DabColour True 0 0 (Px 1 2 3 255) (Some (\<lambda>i. 255)) 1 1 255 (StrokeBegin True 255 dot_canvas)"

lemma dot_facts:
  "fUndo dot_canvas = []" "fRedo dot_canvas = []" "fActiveId dot_canvas = 1"
  "fLayers dot_canvas = [\<lparr>layer_id = 1, layer_name = ''Background'', layer_visible = True, layer_opacity = 255,
      layer_bits = Surface 1 1 (\<lambda>p. clear)\<rparr>]"
  "fWidth dot_canvas = 1" "fHeight dot_canvas = 1"
  by (simp_all add: dot_canvas_def SetCanvas_def AddLayer_def Let_def)

lemma dot_stroke_facts:
  "\<exists>l. ActiveLayer dot_canvas = Some l" "dabs (StrokeBegin True 255 dot_canvas) dot_stroke"
  "step_rect (fCurrentStep dot_stroke) = Rect 0 0 0 0"
proof -
  show "\<exists>l. ActiveLayer dot_canvas = Some l" by (simp add: ActiveLayer_def LayerById_def dot_facts)
  show "dabs (StrokeBegin True 255 dot_canvas) dot_stroke"
    unfolding dot_stroke_def by (intro dabs.intros)
  show "step_rect (fCurrentStep dot_stroke) = Rect 0 0 0 0"
    by (simp add: dot_stroke_def DabColour_def ActiveLayer_def LayerById_def StrokeBegin_def
        dot_facts StrokeBuffer_def paint_buffer_def touch_def MarkDirty_def Let_def canvas_rect_def
        rect_meet_def rect_valid_def no_rect_def no_step_def)
qed

theorem stroke_undo_redo_witness: "fLayers (Undo (StrokeEnd dot_stroke)) = fLayers dot_canvas"
proof -
  obtain l where "ActiveLayer dot_canvas = Some l" using dot_stroke_facts(1) by blast
  from stroke_undo_redo[OF this dot_stroke_facts(2)] show ?thesis
    by (simp add: dot_stroke_facts(3) rect_valid_def)
qed

section \<open>The steps as a history\<close>

fun walk_steps :: "bool \<Rightarrow> undo_step list \<Rightarrow> layer list \<Rightarrow> layer list list" where
  "walk_steps forward [] ls = []"
| "walk_steps forward (st # sts) ls = step_layers st forward ls # walk_steps forward sts (step_layers st forward ls)"

text \<open>The steps fit: each one, walked and walked back, gives the layers it started from.\<close>

fun steps_fit :: "bool \<Rightarrow> undo_step list \<Rightarrow> layer list \<Rightarrow> bool" where
  "steps_fit forward [] ls \<longleftrightarrow> True"
| "steps_fit forward (st # sts) ls \<longleftrightarrow>
     step_layers st (\<not> forward) (step_layers st forward ls) = ls \<and> steps_fit forward sts (step_layers st forward ls)"

definition history_ok :: "document \<Rightarrow> bool" where
  "history_ok d \<longleftrightarrow> length (fUndo d) + length (fRedo d) \<le> 40
     \<and> steps_fit False (rev (fUndo d)) (fLayers d) \<and> steps_fit True (rev (fRedo d)) (fLayers d)"

definition past_of :: "document \<Rightarrow> layer list list" where
  "past_of d = walk_steps False (rev (fUndo d)) (fLayers d)"

definition future_of :: "document \<Rightarrow> layer list list" where
  "future_of d = walk_steps True (rev (fRedo d)) (fLayers d)"

text \<open>One stroke that touched the canvas, from begin to end.\<close>

inductive stroke :: "document \<Rightarrow> document \<Rightarrow> bool" where
  stroke_done: "ActiveLayer d = Some l \<Longrightarrow> dabs (StrokeBegin True opacity d) e
    \<Longrightarrow> rect_valid (step_rect (fCurrentStep e)) \<Longrightarrow> stroke d (StrokeEnd e)"

lemma walk_steps_take: "walk_steps forward (take n sts) ls = take n (walk_steps forward sts ls)"
  by (induction sts arbitrary: n ls) (auto simp: take_Cons' Let_def)

lemma steps_fit_take: "steps_fit forward sts ls \<Longrightarrow> steps_fit forward (take n sts) ls"
  by (induction sts arbitrary: n ls) (auto simp: take_Cons')

lemma length_walk_steps [simp]: "length (walk_steps forward sts ls) = length sts"
  by (induction sts arbitrary: ls) auto

lemma stroke_edit:
  assumes "history_ok d" and "stroke d d'"
  shows "history_ok d' \<and> past_of d' = take 40 (fLayers d # past_of d) \<and> future_of d' = []"
  using assms(2)
proof cases
  case (stroke_done l opacity e)
  from StrokeEnd_touched[OF stroke_inv_dabs[OF stroke_done(3,2)] stroke_done(2,4)] obtain st where
    st: "fUndo d' = push_step st (fUndo d)" "fRedo d' = []"
      "step_layers st False (fLayers d') = fLayers d" "step_layers st True (fLayers d) = fLayers d'"
    unfolding stroke_done(1) by blast
  have steps: "rev (fUndo d') = take 40 (st # rev (fUndo d))"
    using assms(1) st(1) by (simp add: history_ok_def push_step_def rev_push_capped)
  have "length (fUndo d') \<le> 40"
    using steps by (metis length_rev length_take min.cobounded2)
  moreover have "steps_fit False (rev (fUndo d')) (fLayers d')"
    unfolding steps using assms(1) st(3,4) by (intro steps_fit_take) (simp add: history_ok_def)
  moreover have "past_of d' = take 40 (fLayers d # past_of d)"
    unfolding past_of_def steps by (simp only: walk_steps_take walk_steps.simps st(3))
  ultimately show ?thesis
    using st(2) by (simp add: history_ok_def future_of_def)
qed

interpretation paint: undo_history history_ok fLayers past_of future_of Undo Redo stroke 40
proof
  fix s :: document
  show "past_of s = [] \<Longrightarrow> Undo s = s"
    by (cases "fUndo s" rule: rev_cases) (auto simp: past_of_def Undo_def)
  show "future_of s = [] \<Longrightarrow> Redo s = s"
    by (cases "fRedo s" rule: rev_cases) (auto simp: future_of_def Redo_def)
  show "history_ok (Undo s) \<and> fLayers (Undo s) = c \<and> past_of (Undo s) = cs
      \<and> future_of (Undo s) = fLayers s # future_of s"
    if "history_ok s" "past_of s = c # cs" for c cs
    using that
    by (cases "fUndo s" rule: rev_cases)
      (auto simp: past_of_def future_of_def history_ok_def Undo_layers)
  show "history_ok (Redo s) \<and> fLayers (Redo s) = c \<and> future_of (Redo s) = cs
      \<and> past_of (Redo s) = fLayers s # past_of s"
    if "history_ok s" "future_of s = c # cs" for c cs
    using that
    by (cases "fRedo s" rule: rev_cases)
      (auto simp: past_of_def future_of_def history_ok_def Redo_layers)
qed (rule stroke_edit)

text \<open>Strokes one after the other, with the layers before each of them, the newest first.\<close>

inductive strokes :: "document \<Rightarrow> layer list list \<Rightarrow> document \<Rightarrow> bool" where
  strokes_none: "strokes d [] d"
| strokes_more: "strokes d before d' \<Longrightarrow> stroke d' d'' \<Longrightarrow> strokes d (fLayers d' # before) d''"

lemma strokes_edits: "strokes d before d' \<Longrightarrow> paint.edits d before d'"
  by (induction rule: strokes.induct) (auto intro: paint.edits.intros)

lemma no_history_ok: "fUndo d = [] \<Longrightarrow> fRedo d = [] \<Longrightarrow> history_ok d \<and> past_of d = [] \<and> future_of d = []"
  by (simp add: history_ok_def past_of_def future_of_def)

text \<open>
  C17 After any row of strokes on a painting without history, the k-th undo shows the layers as
  they were k strokes ago, for every k up to forty, and k redos come back; further undos than forty
  change nothing.
\<close>

theorem strokes_undo_in_turn:
  assumes "strokes d before d'" and "fUndo d = []" and "fRedo d = []" and "k \<le> length before" and "k \<le> 40"
  shows "fLayers ((Undo ^^ k) d') = (fLayers d' # before) ! k
    \<and> fLayers ((Redo ^^ k) ((Undo ^^ k) d')) = fLayers d'
    \<and> (\<forall>n \<ge> 40. (Undo ^^ n) d' = (Undo ^^ min 40 (length before)) d')"
proof -
  note start = no_history_ok[OF assms(2,3)] and edits = strokes_edits[OF assms(1)]
  have now: "history_ok d'" "past_of d' = take 40 before"
    using paint.edits_past[OF edits] start by auto
  have "(Undo ^^ n) d' = (Undo ^^ min 40 (length before)) d'" if "40 \<le> n" for n
    using paint.undo_past_the_end[OF now(1), of n] now(2) that by (simp add: min.commute)
  moreover have "fLayers ((Redo ^^ k) ((Undo ^^ k) d')) = fLayers d'"
    using paint.undos_redos[OF now(1), of k] now(2) assms(4,5) by simp
  ultimately show ?thesis
    using paint.undo_edits[OF edits _ _ assms(4,5)] start by simp
qed

theorem strokes_undo_in_turn_witness:
  "fLayers ((Undo ^^ 1) (StrokeEnd dot_stroke)) = [fLayers (StrokeEnd dot_stroke), fLayers dot_canvas] ! 1"
proof -
  obtain l where "ActiveLayer dot_canvas = Some l" using dot_stroke_facts(1) by blast
  then have "stroke dot_canvas (StrokeEnd dot_stroke)"
    by (rule stroke_done[OF _ dot_stroke_facts(2)]) (simp add: dot_stroke_facts(3) rect_valid_def)
  then have "strokes dot_canvas [fLayers dot_canvas] (StrokeEnd dot_stroke)"
    by (rule strokes_more[OF strokes_none])
  from strokes_undo_in_turn[OF this dot_facts(1,2), of 1] show ?thesis by simp
qed

end
