(* ===== verification/PaintState.thy ===== *)
theory PaintState
  imports PaintStroke "HOL-Library.Multiset"
begin

text \<open>
  The invariant of ProsePaint's document, and which operation keeps it when: layers, stroke and undo
  steps fit the canvas, and the composite cache is what the layers composite to whenever it is not
  marked dirty. \<open>PaintReach\<close> follows it over every run of calls.
\<close>

section \<open>The invariant\<close>

definition layer_ok :: "int \<Rightarrow> int \<Rightarrow> int \<Rightarrow> layer \<Rightarrow> bool" where
  "layer_ok w h next l \<longleftrightarrow> 1 \<le> layer_id l \<and> layer_id l < next \<and> surface_w (layer_bits l) = w
     \<and> surface_h (layer_bits l) = h \<and> layer_opacity l \<le> 255"

definition layers_ok :: "int \<Rightarrow> int \<Rightarrow> int \<Rightarrow> int \<Rightarrow> layer list \<Rightarrow> bool" where
  "layers_ok w h next active ls \<longleftrightarrow> ls \<noteq> [] \<and> distinct (map layer_id ls) \<and> active \<in> set (map layer_id ls)
     \<and> (\<forall>l \<in> set ls. layer_ok w h next l)"

definition sized :: "int \<Rightarrow> int \<Rightarrow> surface option \<Rightarrow> bool" where
  "sized w h s \<longleftrightarrow> (case s of None \<Rightarrow> True | Some s \<Rightarrow> surface_w s = w \<and> surface_h s = h)"

definition step_ok :: "int \<Rightarrow> int \<Rightarrow> undo_step \<Rightarrow> bool" where
  "step_ok w h st \<longleftrightarrow> rect_valid (step_rect st) \<and> rect_within (step_rect st) (Rect 0 0 (w - 1) (h - 1))
     \<and> int (length (step_before st)) = rect_width (step_rect st) * rect_height (step_rect st)
     \<and> int (length (step_after st)) = rect_width (step_rect st) * rect_height (step_rect st)"

definition stroke_ok :: "document \<Rightarrow> bool" where
  "stroke_ok d \<longleftrightarrow>
     (if fInStroke d then rect_within (fDirty d) (canvas_rect d) \<and> rect_within (step_rect (fCurrentStep d)) (canvas_rect d)
        \<and> sized (fWidth d) (fHeight d) (fStrokeBuf d) \<and> sized (fWidth d) (fHeight d) (fBeforeSnap d)
      else fStrokeBuf d = None \<and> fBeforeSnap d = None)"

definition cache_ok :: "document \<Rightarrow> bool" where
  "cache_ok d \<longleftrightarrow> fCompositeDirty d \<or> fComposite d = None
     \<or> fComposite d = Some (Surface (fWidth d) (fHeight d) (flatten (fWidth d) (fHeight d) (fLayers d)))"

definition doc_ok :: "document \<Rightarrow> bool" where
  "doc_ok d \<longleftrightarrow> 1 \<le> fWidth d \<and> 1 \<le> fHeight d
     \<and> layers_ok (fWidth d) (fHeight d) (fNextLayerId d) (fActiveId d) (fLayers d)
     \<and> (\<forall>st \<in> set (fUndo d) \<union> set (fRedo d). step_ok (fWidth d) (fHeight d) st)
     \<and> length (fUndo d) + length (fRedo d) \<le> 40
     \<and> stroke_ok d \<and> cache_ok d"

section \<open>Its parts under the operations\<close>

lemma layers_ok_change:
  assumes "layers_ok w h next active ls"
    and "\<And>l. layer_id (f l) = layer_id l"
    and "\<And>l. layer_ok w h next l \<Longrightarrow> layer_ok w h next (f l)"
  shows "layers_ok w h next active (change_layer i f ls)"
proof -
  have "\<forall>l \<in> set ls. layer_ok w h next l \<Longrightarrow> \<forall>l \<in> set (change_layer i f ls). layer_ok w h next l" for ls
    using assms(3) by (induction ls) auto
  moreover have "map layer_id (change_layer i f ls) = map layer_id ls"
    using assms(2) by simp
  moreover from this assms(1) have "change_layer i f ls \<noteq> []"
    unfolding layers_ok_def by (metis list.map_disc_iff)
  ultimately show ?thesis
    using assms(1) unfolding layers_ok_def by metis
qed

lemma layer_ok_repaint [simp]: "layer_ok w h next (repaint g l) \<longleftrightarrow> layer_ok w h next l"
  by (simp add: layer_ok_def)

lemmas layers_ok_repaint = layers_ok_change[where f = "repaint g" for g, simplified]

lemma layers_ok_next: "layers_ok w h next active ls \<Longrightarrow> next \<le> next' \<Longrightarrow> layers_ok w h next' active ls"
  by (fastforce simp: layers_ok_def layer_ok_def)

lemma layers_ok_active: "layers_ok w h next active ls \<Longrightarrow> find (\<lambda>l. layer_id l = active) ls \<noteq> None"
  by (auto simp: layers_ok_def find_None_iff)

lemma MarkDirty_canvas:
  assumes "1 \<le> fWidth d" and "1 \<le> fHeight d" and "canvas_rect d' = canvas_rect d"
  shows "fCompositeDirty (MarkDirty (canvas_rect d) d')"
  using assms by (simp add: MarkDirty_def Let_def canvas_rect_def rect_meet_def rect_valid_def)

lemma MarkDirty_within:
  "rect_within (fDirty d) (canvas_rect d) \<Longrightarrow> rect_within (fDirty (MarkDirty r d)) (canvas_rect d)"
  by (simp add: MarkDirty_def Let_def rect_within_join)

lemma stroke_ok_MarkDirty [simp]: "stroke_ok d \<Longrightarrow> stroke_ok (MarkDirty r d)"
  by (simp add: stroke_ok_def MarkDirty_within canvas_rect_def[of "MarkDirty r d"] flip: canvas_rect_def split: if_splits)

lemma stroke_ok_cong:
  assumes "stroke_ok d"
    and "fInStroke e = fInStroke d" "fDirty e = fDirty d" "fCurrentStep e = fCurrentStep d"
      "fWidth e = fWidth d" "fHeight e = fHeight d" "fStrokeBuf e = fStrokeBuf d" "fBeforeSnap e = fBeforeSnap d"
  shows "stroke_ok e"
  using assms by (simp add: stroke_ok_def canvas_rect_def split: if_splits)

lemma cache_ok_dirty: "fCompositeDirty d \<Longrightarrow> cache_ok d"
  by (simp add: cache_ok_def)

lemma rect_within_width:
  assumes "rect_valid r"
  shows "int (length (read_rect r b)) = rect_width r * rect_height r"
proof -
  have "length (read_rect r b) = length [rect_top r .. rect_bottom r] * length [rect_left r .. rect_right r]"
    by (simp add: read_rect_def length_concat comp_def sum_list_triv)
  then show ?thesis
    using assms by (simp add: rect_valid_def rect_width_def rect_height_def)
qed

text \<open>An operation that keeps the canvas, the stroke and the history, and marks what it changed.\<close>

lemma doc_ok_layers:
  assumes "doc_ok d"
    and "fWidth e = fWidth d" "fHeight e = fHeight d" "fUndo e = fUndo d" "fRedo e = fRedo d"
      "fInStroke e = fInStroke d" "fCurrentStep e = fCurrentStep d" "fStrokeBuf e = fStrokeBuf d"
      "fBeforeSnap e = fBeforeSnap d" "fInStroke d \<Longrightarrow> rect_within (fDirty e) (canvas_rect d)"
    and "layers_ok (fWidth d) (fHeight d) (fNextLayerId e) (fActiveId e) (fLayers e)"
    and "fCompositeDirty e \<or> fCompositeDirty e = fCompositeDirty d \<and> fComposite e = fComposite d
      \<and> flatten (fWidth d) (fHeight d) (fLayers e) = flatten (fWidth d) (fHeight d) (fLayers d)"
  shows "doc_ok e"
proof -
  have "canvas_rect e = canvas_rect d" using assms(2,3) by (simp add: canvas_rect_def)
  then show ?thesis
    using assms by (auto simp: doc_ok_def stroke_ok_def cache_ok_def)
qed

lemma doc_ok_mark:
  assumes "doc_ok d" and "fWidth e = fWidth d" "fHeight e = fHeight d" "fUndo e = fUndo d" "fRedo e = fRedo d"
      "fInStroke e = fInStroke d" "fCurrentStep e = fCurrentStep d" "fStrokeBuf e = fStrokeBuf d"
      "fBeforeSnap e = fBeforeSnap d" "fDirty e = fDirty d"
    and "layers_ok (fWidth d) (fHeight d) (fNextLayerId e) (fActiveId e) (fLayers e)"
  shows "doc_ok ((MarkDirty (canvas_rect d) e)\<lparr>fModified := m\<rparr>)"
proof (rule doc_ok_layers[OF assms(1)])
  have eq: "canvas_rect e = canvas_rect d" using assms(2,3) by (simp add: canvas_rect_def)
  have "1 \<le> fWidth d" "1 \<le> fHeight d" using assms(1) by (simp_all add: doc_ok_def)
  from MarkDirty_canvas[OF this eq]
  show "fCompositeDirty (MarkDirty (canvas_rect d) e\<lparr>fModified := m\<rparr>)
    \<or> fCompositeDirty (MarkDirty (canvas_rect d) e\<lparr>fModified := m\<rparr>) = fCompositeDirty d
      \<and> fComposite (MarkDirty (canvas_rect d) e\<lparr>fModified := m\<rparr>) = fComposite d
      \<and> flatten (fWidth d) (fHeight d) (fLayers (MarkDirty (canvas_rect d) e\<lparr>fModified := m\<rparr>))
        = flatten (fWidth d) (fHeight d) (fLayers d)" by simp
  show "rect_within (fDirty (MarkDirty (canvas_rect d) e\<lparr>fModified := m\<rparr>)) (canvas_rect d)" if "fInStroke d"
    using that assms(1) MarkDirty_within[of e "canvas_rect d"] assms(10)
    by (simp add: eq doc_ok_def stroke_ok_def)
qed (use assms in simp_all)

section \<open>Layer operations\<close>

lemma AddLayer_ok:
  assumes "doc_ok d"
  shows "doc_ok (snd (AddLayer ok name d))"
proof (cases ok)
  case True
  have "layers_ok (fWidth d) (fHeight d) (fNextLayerId d + 1) (fNextLayerId d)
      (fLayers d @ [\<lparr>layer_id = fNextLayerId d, layer_name = nm, layer_visible = True, layer_opacity = 255,
        layer_bits = Surface (fWidth d) (fHeight d) (\<lambda>p. clear)\<rparr>])" for nm
    using assms by (fastforce simp: doc_ok_def layers_ok_def layer_ok_def)
  then show ?thesis
    using True by (auto simp: AddLayer_def Let_def intro!: doc_ok_mark[OF assms, unfolded canvas_rect_def]
        simp: canvas_rect_def)
next
  case False
  show ?thesis
    using assms False
    by (auto simp: AddLayer_def Let_def doc_ok_def intro: layers_ok_next stroke_ok_cong simp: cache_ok_def)
qed


lemma index_from_spec:
  "index_from i k ls = - 1 \<and> i \<notin> set (map layer_id ls)
    \<or> (\<exists>n < length ls. index_from i k ls = k + int n \<and> layer_id (ls ! n) = i)"
proof (induction ls arbitrary: k)
  case (Cons l ls)
  show ?case
  proof (cases "layer_id l = i")
    case True
    then show ?thesis by (intro disjI2 exI[of _ 0]) simp
  next
    case False
    from Cons[of "k + 1"] show ?thesis
    proof
      assume "\<exists>n < length ls. index_from i (k + 1) ls = k + 1 + int n \<and> layer_id (ls ! n) = i"
      then obtain n where "n < length ls" "index_from i (k + 1) ls = k + 1 + int n" "layer_id (ls ! n) = i"
        by blast
      then show ?thesis using False by (intro disjI2 exI[of _ "Suc n"]) simp
    qed (use False in simp)
  qed
qed simp

lemma IndexOf_found:
  assumes "0 \<le> IndexOf d i"
  shows "nat (IndexOf d i) < length (fLayers d)" and "layer_id (fLayers d ! nat (IndexOf d i)) = i"
  using index_from_spec[of i 0 "fLayers d"] assms by (auto simp: IndexOf_def)

lemma layers_ok_remove:
  assumes ok: "layers_ok w h next active ls" and n: "n < length ls" and two: "1 < length ls"
    and active: "active' = (if active = layer_id (ls ! n) then layer_id (last (take n ls @ drop (Suc n) ls)) else active)"
  shows "layers_ok w h next active' (take n ls @ drop (Suc n) ls)"
proof -
  let ?ls = "take n ls @ drop (Suc n) ls"
  have split: "ls = take n ls @ ls ! n # drop (Suc n) ls" using n by (rule id_take_nth_drop)
  have len: "length ?ls = length ls - 1" using n by simp
  then have ne: "?ls \<noteq> []" using two by auto
  have ids: "map layer_id ls = map layer_id (take n ls) @ layer_id (ls ! n) # map layer_id (drop (Suc n) ls)"
    using arg_cong[OF split, of "map layer_id"] by simp
  have "distinct (map layer_id ?ls)"
    using ok unfolding layers_ok_def ids by auto
  moreover have "active' \<in> set (map layer_id ?ls)"
  proof (cases "active = layer_id (ls ! n)")
    case True
    then show ?thesis using active last_in_set[OF ne] by auto
  next
    case False
    have "active \<in> set (map layer_id ls)" using ok by (simp add: layers_ok_def)
    then show ?thesis using False active unfolding ids by auto
  qed
  moreover have "set ?ls \<subseteq> set ls" by (auto dest: in_set_takeD in_set_dropD)
  ultimately show ?thesis
    using ne ok unfolding layers_ok_def by blast
qed

lemma DeleteLayer_ok:
  assumes "doc_ok d"
  shows "doc_ok (DeleteLayer i d)"
proof (cases "length (fLayers d) \<le> 1 \<or> IndexOf d i < 0")
  case True
  then show ?thesis using assms by (auto simp: DeleteLayer_def Let_def)
next
  case False
  let ?n = "nat (IndexOf d i)"
  note found = IndexOf_found[of d i]
  have "layers_ok (fWidth d) (fHeight d) (fNextLayerId d)
      (if fActiveId d = i then layer_id (last (take ?n (fLayers d) @ drop (Suc ?n) (fLayers d))) else fActiveId d)
      (take ?n (fLayers d) @ drop (Suc ?n) (fLayers d))"
    using assms False found by (intro layers_ok_remove) (auto simp: doc_ok_def)
  then show ?thesis
    using False by (auto simp: DeleteLayer_def Let_def canvas_rect_def
        intro!: doc_ok_mark[OF assms, unfolded canvas_rect_def])
qed

lemma layers_ok_swap:
  assumes "layers_ok w h next active ls" and "i < length ls" and "j < length ls"
  shows "layers_ok w h next active (ls[i := ls ! j, j := ls ! i])"
proof -
  have "mset (ls[i := ls ! j, j := ls ! i]) = mset ls"
    by (rule mset_swap[OF assms(3,2)])
  then have "mset (map layer_id (ls[i := ls ! j, j := ls ! i])) = mset (map layer_id ls)"
      "set (ls[i := ls ! j, j := ls ! i]) = set ls"
    by (metis mset_map, metis set_mset_mset)
  then show ?thesis
    using assms(1) unfolding layers_ok_def
    by (metis distinct_count_atmost_1 length_greater_0_conv length_list_update set_mset_mset)
qed

lemma MoveLayer_ok:
  assumes "doc_ok d"
  shows "doc_ok (MoveLayer i up d)"
proof -
  define idx to where "idx = IndexOf d i" and "to = (if up then idx + 1 else idx - 1)"
  show ?thesis
  proof (cases "idx < 0 \<or> to < 0 \<or> int (length (fLayers d)) \<le> to")
    case True
    then show ?thesis using assms by (auto simp: MoveLayer_def Let_def idx_def to_def)
  next
    case False
    have "layers_ok (fWidth d) (fHeight d) (fNextLayerId d) (fActiveId d)
        ((fLayers d)[nat idx := fLayers d ! nat to, nat to := fLayers d ! nat idx])"
      using assms False IndexOf_found[of d i] by (intro layers_ok_swap) (auto simp: doc_ok_def idx_def to_def)
    moreover have "MoveLayer i up d = (MarkDirty (canvas_rect d) (d\<lparr>fLayers :=
        (fLayers d)[nat idx := fLayers d ! nat to, nat to := fLayers d ! nat idx]\<rparr>))\<lparr>fModified := True\<rparr>"
      unfolding MoveLayer_def Let_def idx_def[symmetric] to_def[symmetric] using False by simp
    ultimately show ?thesis by (simp add: doc_ok_mark[OF assms])
  qed
qed

lemma doc_layers_ok: "doc_ok d \<Longrightarrow> layers_ok (fWidth d) (fHeight d) (fNextLayerId d) (fActiveId d) (fLayers d)"
  by (simp add: doc_ok_def)

lemma doc_stroke_ok: "doc_ok d \<Longrightarrow> stroke_ok d"
  by (simp add: doc_ok_def)

lemma flatten_change_name:
  "flatten w h (change_layer i (layer_name_update f) ls) = flatten w h ls"
proof -
  have "fold (composite_layer w h) (change_layer i (layer_name_update f) ls) b = fold (composite_layer w h) ls b" for b
    by (induction ls arbitrary: b) (auto simp: composite_layer_def)
  then show ?thesis by (simp add: flatten_def)
qed

lemma RenameLayer_ok:
  assumes "doc_ok d"
  shows "doc_ok (RenameLayer i name d)"
proof -
  have "layers_ok (fWidth d) (fHeight d) (fNextLayerId d) (fActiveId d) (change_layer i (layer_name_update f) (fLayers d))" for f
    by (rule layers_ok_change[OF doc_layers_ok[OF assms]]) (simp_all add: layer_ok_def)
  then have "doc_ok ((on_layer i (layer_name_update f) d)\<lparr>fModified := True\<rparr>)" for f
    using assms by (intro doc_ok_layers[OF assms]) (auto simp: flatten_change_name doc_ok_def stroke_ok_def)
  then show ?thesis using assms by (auto simp: RenameLayer_def split: option.split list.split)
qed

lemma doc_ok_change_marked:
  assumes "doc_ok d" and "\<And>l. layer_id (f l) = layer_id l"
    and "\<And>l. layer_ok (fWidth d) (fHeight d) (fNextLayerId d) l \<Longrightarrow> layer_ok (fWidth d) (fHeight d) (fNextLayerId d) (f l)"
  shows "doc_ok ((MarkDirty (canvas_rect d) (on_layer i f d))\<lparr>fModified := True\<rparr>)"
  using layers_ok_change[OF doc_layers_ok[OF assms(1)] assms(2,3)] by (intro doc_ok_mark[OF assms(1)]) auto

lemma SetLayerVisible_ok: "doc_ok d \<Longrightarrow> doc_ok (SetLayerVisible i v d)"
  by (auto simp: SetLayerVisible_def layer_ok_def intro!: doc_ok_change_marked split: option.split)

lemma SetLayerOpacity_ok: "doc_ok d \<Longrightarrow> opa \<le> 255 \<Longrightarrow> doc_ok (SetLayerOpacity i opa d)"
  by (auto simp: SetLayerOpacity_def layer_ok_def intro!: doc_ok_change_marked split: option.split)

lemma SetActiveLayer_ok:
  assumes "doc_ok d"
  shows "doc_ok (SetActiveLayer i d)"
proof (cases "LayerById d i = None")
  case False
  then have "i \<in> set (map layer_id (fLayers d))" by (auto simp: LayerById_def find_None_iff)
  then show ?thesis
    using assms False by (intro doc_ok_layers[OF assms]) (auto simp: SetActiveLayer_def doc_ok_def layers_ok_def stroke_ok_def)
qed (use assms in \<open>simp add: SetActiveLayer_def\<close>)

section \<open>Strokes\<close>

lemma no_rect_within: "1 \<le> fWidth d \<Longrightarrow> 1 \<le> fHeight d \<Longrightarrow> rect_within no_rect (canvas_rect d)"
  by (simp add: rect_within_def no_rect_def canvas_rect_def)

lemma ActiveLayer_ok:
  assumes "doc_ok d"
  shows "\<exists>l. ActiveLayer d = Some l \<and> surface_w (layer_bits l) = fWidth d \<and> surface_h (layer_bits l) = fHeight d"
proof -
  have ok: "layers_ok (fWidth d) (fHeight d) (fNextLayerId d) (fActiveId d) (fLayers d)"
    using assms by (rule doc_layers_ok)
  obtain l where l: "find (\<lambda>l. layer_id l = fActiveId d) (fLayers d) = Some l"
    using layers_ok_active[OF ok] by blast
  then have "layer_ok (fWidth d) (fHeight d) (fNextLayerId d) l" "layer_id l = fActiveId d"
    using ok by (auto simp: layers_ok_def find_Some_iff)
  then show ?thesis using l by (auto simp: ActiveLayer_def LayerById_def layer_ok_def)
qed

lemma StrokeBegin_ok:
  assumes "doc_ok d"
  shows "doc_ok (StrokeBegin ok opacity d)"
proof -
  obtain l where l: "ActiveLayer d = Some l" "surface_w (layer_bits l) = fWidth d" "surface_h (layer_bits l) = fHeight d"
    using ActiveLayer_ok[OF assms] by blast
  have "stroke_ok (StrokeBegin ok opacity d)"
    using assms l no_rect_within[of d]
    by (simp add: StrokeBegin_def stroke_ok_def sized_def no_step_def doc_ok_def canvas_rect_def)
  then show ?thesis
    using assms by (simp add: doc_ok_def StrokeBegin_def cache_ok_def)
qed

text \<open>A dab: its square is marked, and where the square misses the canvas no layer changed.\<close>

definition dab_rect :: "int \<Rightarrow> int \<Rightarrow> nat \<Rightarrow> int rect" where
  "dab_rect x0 y0 sz = Rect x0 y0 (x0 + int sz - 1) (y0 + int sz - 1)"

lemma doc_ok_touch:
  assumes ok: "doc_ok d"
    and same: "fWidth e = fWidth d" "fHeight e = fHeight d" "fUndo e = fUndo d" "fRedo e = fRedo d"
      "fInStroke e = fInStroke d" "fCurrentStep e = fCurrentStep d" "fBeforeSnap e = fBeforeSnap d"
      "fDirty e = fDirty d" "fCompositeDirty e = fCompositeDirty d" "fComposite e = fComposite d"
    and layers: "layers_ok (fWidth d) (fHeight d) (fNextLayerId e) (fActiveId e) (fLayers e)"
    and buf: "if fInStroke d then sized (fWidth d) (fHeight d) (fStrokeBuf e) else fStrokeBuf e = None"
    and seen: "\<not> rect_valid (rect_meet (dab_rect x0 y0 sz) (canvas_rect d)) \<Longrightarrow> fLayers e = fLayers d"
  shows "doc_ok (touch x0 y0 sz e)"
proof -
  let ?t = "touch x0 y0 sz e"
  have canvas: "canvas_rect e = canvas_rect d" "canvas_rect ?t = canvas_rect d"
    using same(1,2) by (simp_all add: canvas_rect_def)
  have st: "stroke_ok d" using ok by (simp add: doc_ok_def)
  have dirty: "fDirty ?t = fDirty (MarkDirty (dab_rect x0 y0 sz) e)"
    by (simp add: touch_def Let_def dab_rect_def)
  have within: "rect_within (fDirty ?t) (canvas_rect d)" if "fInStroke d"
    using MarkDirty_within[of e "dab_rect x0 y0 sz"] that st by (simp add: dirty canvas same stroke_ok_def)
  have step: "rect_within (step_rect (fCurrentStep ?t)) (canvas_rect d)" if "fInStroke d"
  proof -
    have "step_rect (fCurrentStep ?t) = (if rect_valid (step_rect (fCurrentStep d))
        then rect_join (step_rect (fCurrentStep d)) (fDirty ?t) else fDirty ?t)"
      using that by (simp add: touch_def Let_def same)
    then show ?thesis
      using that st within by (auto simp: stroke_ok_def intro!: rect_within_join)
  qed
  have "stroke_ok ?t"
    using st within step buf by (simp add: stroke_ok_def canvas same split: if_splits)
  moreover have "cache_ok ?t"
  proof (cases "rect_valid (rect_meet (dab_rect x0 y0 sz) (canvas_rect d))")
    case True
    then have "fCompositeDirty ?t"
      by (simp add: touch_def Let_def MarkDirty_def canvas flip: dab_rect_def)
    then show ?thesis by (rule cache_ok_dirty)
  next
    case False
    then have "fCompositeDirty ?t = fCompositeDirty d"
      by (simp add: touch_def Let_def MarkDirty_def canvas same flip: dab_rect_def)
    then show ?thesis
      using ok seen[OF False] by (simp add: doc_ok_def cache_ok_def same)
  qed
  ultimately show ?thesis
    using ok layers by (simp add: doc_ok_def same)
qed

lemma for_mask_missed:
  assumes "\<not> rect_valid (rect_meet (dab_rect x0 y0 sz) (canvas_rect d))"
  shows "for_mask x0 y0 sz (fWidth d) (fHeight d) f bits = bits"
proof
  fix p :: "int \<times> int"
  obtain x y where p: "p = (x, y)" by (cases p)
  have "\<not> rect_has (rect_meet (dab_rect x0 y0 sz) (canvas_rect d)) x y"
    using assms rect_has_valid by blast
  then have "\<not> (on_canvas (fWidth d) (fHeight d) (x, y) \<and> rect_has (dab_rect x0 y0 sz) x y)"
    by (auto simp: on_canvas_def canvas_rect_def rect_has_def[of "Rect 0 0 _ _"])
  then show "for_mask x0 y0 sz (fWidth d) (fHeight d) f bits p = bits p"
    unfolding p by (intro for_mask_outside) (simp add: dab_rect_def)
qed

lemma change_layer_id: "(\<And>l. f l = l) \<Longrightarrow> change_layer i f ls = ls"
  by (rule change_layer_same) simp

lemma repaint_id: "(\<And>b. g b = b) \<Longrightarrow> repaint g l = l"
  by (simp add: repaint_def)

text \<open>The two ways a dab paints.\<close>

lemma doc_ok_buffer_dab:
  assumes "doc_ok d" and "fInStroke d" and "e = d \<or> e = d\<lparr>fStrokeErase := True\<rparr>"
  shows "doc_ok (StrokeBuffer ok e)" and "doc_ok (touch x0 y0 sz (paint_buffer g (StrokeBuffer ok e)))"
proof -
  have sz: "sized (fWidth d) (fHeight d) (fStrokeBuf (StrokeBuffer ok e))"
      "sized (fWidth d) (fHeight d) (fStrokeBuf (paint_buffer g (StrokeBuffer ok e)))"
    using assms by (auto simp: StrokeBuffer_def paint_buffer_def doc_ok_def stroke_ok_def sized_def split: option.split)
  then show "doc_ok (StrokeBuffer ok e)"
    using assms by (auto simp: doc_ok_def stroke_ok_def cache_ok_def canvas_rect_def)
  show "doc_ok (touch x0 y0 sz (paint_buffer g (StrokeBuffer ok e)))"
    using assms sz doc_layers_ok[OF assms(1)] by (intro doc_ok_touch[OF assms(1)]) auto
qed

lemma doc_ok_layer_dab:
  assumes "doc_ok d" and "\<not> rect_valid (rect_meet (dab_rect x0 y0 sz) (canvas_rect d)) \<Longrightarrow> change_layer (fActiveId d) (repaint g) (fLayers d) = fLayers d"
    and "e = d \<or> (\<exists>foot. e = d\<lparr>fSmudgeFoot := foot\<rparr>)"
  shows "doc_ok (touch x0 y0 sz (on_layer (fActiveId d) (repaint g) e))"
proof (rule doc_ok_touch[OF assms(1)])
  have "layers_ok (fWidth d) (fHeight d) (fNextLayerId d) (fActiveId d) (change_layer (fActiveId d) (repaint g) (fLayers d))"
    using doc_layers_ok[OF assms(1)] by (rule layers_ok_repaint)
  then show "layers_ok (fWidth d) (fHeight d) (fNextLayerId (on_layer (fActiveId d) (repaint g) e))
     (fActiveId (on_layer (fActiveId d) (repaint g) e)) (fLayers (on_layer (fActiveId d) (repaint g) e))"
    using assms(3) by auto
  have "stroke_ok d" using assms(1) by (rule doc_stroke_ok)
  then show "if fInStroke d then sized (fWidth d) (fHeight d) (fStrokeBuf (on_layer (fActiveId d) (repaint g) e))
    else fStrokeBuf (on_layer (fActiveId d) (repaint g) e) = None"
    using assms(3) by (auto simp: stroke_ok_def)
qed (use assms(2,3) in auto)

lemma DabColour_ok:
  assumes "doc_ok d"
  shows "doc_ok (DabColour ok x y colour stamp sz bpr flow d)"
  using assms doc_ok_buffer_dab[OF assms _ disjI1[OF refl]]
  by (auto simp: DabColour_def Let_def for_mask_missed change_layer_id repaint_id
      intro!: doc_ok_layer_dab[OF assms] split: option.split)

lemma DabErase_ok:
  assumes "doc_ok d"
  shows "doc_ok (DabErase ok x y stamp sz bpr flow d)"
  using assms doc_ok_buffer_dab[OF assms _ disjI2[OF refl]]
  by (auto simp: DabErase_def Let_def for_mask_missed change_layer_id repaint_id
      intro!: doc_ok_layer_dab[OF assms] split: option.split)

lemma DabSmudge_ok:
  assumes "doc_ok d"
  shows "doc_ok (DabSmudge x y stamp sz bpr strength d)"
proof -
  obtain l where l: "ActiveLayer d = Some l" using ActiveLayer_ok[OF assms] by blast
  show ?thesis
  proof (cases "stamp = None \<or> length (fSmudgeFoot d) \<noteq> sz * sz")
    case True
    then show ?thesis
      using assms l by (auto simp: DabSmudge_def Let_def doc_ok_def stroke_ok_def cache_ok_def canvas_rect_def split: option.split)
  next
    case False
    then obtain st where st: "stamp = Some st" "length (fSmudgeFoot d) = sz * sz" by auto
    define x0 y0 where "x0 = x - int (sz div 2)" and "y0 = y - int (sz div 2)"
    define r where "r = fold (smudge_row d st bpr strength x0 y0 sz) [0..<sz] (fSmudgeFoot d, surface_bits (layer_bits l))"
    have eq: "DabSmudge x y stamp sz bpr strength d
        = touch x0 y0 sz (on_layer (fActiveId d) (repaint (\<lambda>b. snd r)) (d\<lparr>fSmudgeFoot := fst r\<rparr>))"
      using l st by (simp add: DabSmudge_def Let_def split_beta x0_def y0_def r_def)
    show ?thesis
      unfolding eq
    proof (rule doc_ok_layer_dab[OF assms])
      assume missed: "\<not> rect_valid (rect_meet (dab_rect x0 y0 sz) (canvas_rect d))"
      have "snd r (px, py) = surface_bits (layer_bits l) (px, py)" for px py
      proof -
        have "\<not> rect_has (rect_meet (dab_rect x0 y0 sz) (canvas_rect d)) px py"
          using missed rect_has_valid by blast
        then have "\<not> (on_canvas (fWidth d) (fHeight d) (px, py) \<and> rect_has (Rect x0 y0 (x0 + int sz - 1) (y0 + int sz - 1)) px py)"
          by (auto simp: on_canvas_def canvas_rect_def dab_rect_def rect_has_def[of "Rect 0 0 _ _"])
        then show ?thesis unfolding r_def by (subst fold_smudge_row_outside) simp_all
      qed
      then have "snd r = surface_bits (layer_bits l)" by auto
      then show "change_layer (fActiveId d) (repaint (\<lambda>b. snd r)) (fLayers d) = fLayers d"
        using ActiveLayer_find[OF l] by (intro change_layer_same) (simp add: repaint_def)
    qed blast
  qed
qed

lemma FillAt_ok:
  assumes "doc_ok d" and "FillAt x y colour tolerance d = Some (n, e)"
  shows "doc_ok e"
proof (cases "ActiveLayer d = None \<or> x < 0 \<or> fWidth d \<le> x \<or> y < 0 \<or> fHeight d \<le> y")
  case True
  then show ?thesis using assms by (auto simp: FillAt_def split: option.splits)
next
  case False
  then obtain l bits m where l: "ActiveLayer d = Some l"
      "flood (fWidth d) (fHeight d) x y colour tolerance (surface_bits (layer_bits l)) = Some (bits, m)"
    using assms(2) by (auto simp: FillAt_def split: option.splits)
  let ?e = "on_layer (fActiveId d) (repaint (\<lambda>b. bits)) d"
  let ?m = "(MarkDirty (canvas_rect d) ?e)\<lparr>fModified := True\<rparr>"
  have m: "doc_ok ?m"
    by (rule doc_ok_change_marked[OF assms(1)]) simp_all
  have e: "e = (if fInStroke d then ?m\<lparr>fCurrentStep := (fCurrentStep d)\<lparr>step_rect :=
        (if \<not> rect_valid (step_rect (fCurrentStep d)) then canvas_rect d
         else rect_join (step_rect (fCurrentStep d)) (canvas_rect d))\<rparr>\<rparr> else ?m)"
    using assms(2) l False by (auto simp: FillAt_def Let_def canvas_rect_def)
  show ?thesis
  proof (cases "fInStroke d")
    case True
    have "rect_within (step_rect (fCurrentStep d)) (canvas_rect d)"
      using assms(1) True by (simp add: doc_ok_def stroke_ok_def)
    then show ?thesis
      using m True by (auto simp: e doc_ok_def stroke_ok_def cache_ok_def canvas_rect_def intro: rect_within_join)
  qed (simp add: e m)
qed

lemma StrokeEnd_ok:
  assumes "doc_ok d"
  shows "doc_ok (StrokeEnd d)"
proof (cases "fInStroke d \<and> rect_valid (step_rect (fCurrentStep d)) \<and> LayerById d (step_layer (fCurrentStep d)) \<noteq> None
    \<and> fBeforeSnap d \<noteq> None")
  case False
  then show ?thesis
    using assms by (auto simp: StrokeEnd_def Let_def doc_ok_def stroke_ok_def cache_ok_def LayerById_def split: option.splits)
next
  case True
  then obtain l snap where l: "LayerById d (step_layer (fCurrentStep d)) = Some l" "fBeforeSnap d = Some snap" by auto
  let ?i = "step_layer (fCurrentStep d)" and ?r = "step_rect (fCurrentStep d)"
  let ?d = "d\<lparr>fInStroke := False\<rparr>"
  have wh: "1 \<le> fWidth d" "1 \<le> fHeight d" using assms by (simp_all add: doc_ok_def)
  have land: "layers_ok (fWidth d) (fHeight d) (fNextLayerId d) (fActiveId d) (fLayers (land_buffer ?i ?d))
      \<and> cache_ok (land_buffer ?i ?d) \<and> (\<exists>l'. LayerById (land_buffer ?i ?d) ?i = Some l')"
  proof (cases "fStrokeBuf d")
    case None
    then show ?thesis
      using assms l by (simp add: land_buffer_def doc_ok_def cache_ok_def LayerById_def)
  next
    case (Some buf)
    let ?f = "repaint (for_canvas (fWidth d) (fHeight d) (land_stroke ?d (surface_bits buf)))"
    have eq: "land_buffer ?i ?d = MarkDirty (canvas_rect d) ((on_layer ?i ?f ?d)\<lparr>fStrokeBuf := None\<rparr>)"
      using Some by (simp add: land_buffer_def canvas_rect_def)
    have "layers_ok (fWidth d) (fHeight d) (fNextLayerId d) (fActiveId d) (change_layer ?i ?f (fLayers d))"
      by (rule layers_ok_repaint[OF doc_layers_ok[OF assms]])
    moreover have "fCompositeDirty (land_buffer ?i ?d)"
      unfolding eq by (rule MarkDirty_canvas[OF wh]) (simp add: canvas_rect_def)
    ultimately show ?thesis
      using l by (auto simp: eq LayerById_def find_change_layer intro: cache_ok_dirty)
  qed
  then obtain l' where l': "LayerById (land_buffer ?i ?d) ?i = Some l'" by blast
  define st where "st = (fCurrentStep d)\<lparr>step_before := read_rect ?r (surface_bits snap),
      step_after := read_rect ?r (surface_bits (layer_bits l'))\<rparr>"
  have "CaptureAfter (land_buffer ?i ?d) ((fCurrentStep d)\<lparr>step_before := read_rect ?r (surface_bits snap)\<rparr>) = st"
    using True l' by (simp add: CaptureAfter_def st_def)
  then have eq: "StrokeEnd d = (land_buffer ?i ?d)\<lparr>fBeforeSnap := None, fUndo := push_step st (fUndo d),
      fRedo := [], fModified := True, fCurrentStep := no_step\<rparr>"
    using True l by (simp add: StrokeEnd_def Let_def LayerById_def)
  have "rect_within ?r (canvas_rect d)" using True assms by (simp add: doc_ok_def stroke_ok_def)
  then have "step_ok (fWidth d) (fHeight d) st"
    using True by (simp add: step_ok_def st_def rect_within_width canvas_rect_def)
  then have "\<forall>st \<in> set (push_step st (fUndo d)). step_ok (fWidth d) (fHeight d) st"
    unfolding push_step_def using assms by (intro set_push_capped) (auto simp: doc_ok_def)
  then show ?thesis
    using land assms length_push_capped[of "fUndo d" 40 st, folded push_step_def]
    by (simp add: eq doc_ok_def stroke_ok_def cache_ok_def)
qed

section \<open>Canvas, composite and undo\<close>

lemma Composite_ok:
  assumes "doc_ok d"
  shows "doc_ok (snd (Composite d))"
    and "fst (Composite d) = Surface (fWidth d) (fHeight d) (flatten (fWidth d) (fHeight d) (fLayers d))"
  using assms by (auto simp: Composite_def Let_def doc_ok_def stroke_ok_def cache_ok_def canvas_rect_def
      split: bool.split option.split)

lemma PickColour_ok: "doc_ok d \<Longrightarrow> doc_ok (snd (PickColour x y d))"
  using Composite_ok(1)[of d] by (simp add: PickColour_def split_beta Let_def)

lemma ApplyStep_ok:
  assumes "doc_ok d" and "step_ok (fWidth d) (fHeight d) st"
  shows "doc_ok (ApplyStep st forward d)"
proof (cases "LayerById d (step_layer st)")
  case (Some l)
  let ?g = "write_rect (step_rect st) (if forward then step_after st else step_before st)"
  let ?e = "on_layer (step_layer st) (repaint ?g) d"
  have "rect_valid (rect_meet (step_rect st) (canvas_rect ?e))"
    using assms(2) by (auto simp: step_ok_def rect_valid_def rect_within_def rect_meet_def canvas_rect_def)
  then have "fCompositeDirty (MarkDirty (step_rect st) ?e)" by (simp add: MarkDirty_def Let_def)
  moreover have "rect_within (fDirty (MarkDirty (step_rect st) ?e)) (canvas_rect d)" if "fInStroke d"
    using MarkDirty_within[of ?e "step_rect st"] that assms(1)
    by (simp add: canvas_rect_def doc_ok_def stroke_ok_def)
  moreover have "layers_ok (fWidth d) (fHeight d) (fNextLayerId d) (fActiveId d) (change_layer (step_layer st) (repaint ?g) (fLayers d))"
    by (rule layers_ok_repaint[OF doc_layers_ok[OF assms(1)]])
  ultimately show ?thesis
    using Some by (intro doc_ok_layers[OF assms(1)]) (auto simp: ApplyStep_def step_layers_def)
qed (use assms in \<open>simp add: ApplyStep_def\<close>)

lemma doc_ok_history:
  assumes "doc_ok d" and "\<forall>st \<in> set us \<union> set rs. step_ok (fWidth d) (fHeight d) st" and "length us + length rs \<le> 40"
  shows "doc_ok (d\<lparr>fUndo := us, fRedo := rs\<rparr>)"
  using assms by (simp add: doc_ok_def stroke_ok_def cache_ok_def canvas_rect_def split: if_splits)

lemma ApplyStep_history:
  "ApplyStep st forward (d\<lparr>fUndo := us\<rparr>) = (ApplyStep st forward d)\<lparr>fUndo := us\<rparr>"
  "ApplyStep st forward (d\<lparr>fRedo := us\<rparr>) = (ApplyStep st forward d)\<lparr>fRedo := us\<rparr>"
  by (auto simp: ApplyStep_def LayerById_def on_layer_def MarkDirty_def canvas_rect_def Let_def
      split: option.split)

lemma Undo_ok:
  assumes "doc_ok d"
  shows "doc_ok (Undo d)"
proof (cases "fUndo d" rule: rev_cases)
  case (snoc sts st)
  then have st: "step_ok (fWidth d) (fHeight d) st"
      "\<forall>st \<in> set sts \<union> set (fRedo d @ [st]). step_ok (fWidth d) (fHeight d) st"
      "length sts + length (fRedo d @ [st]) \<le> 40"
    using assms by (auto simp: doc_ok_def)
  have "Undo d = (ApplyStep st False d)\<lparr>fUndo := sts, fRedo := fRedo d @ [st]\<rparr>"
    by (simp add: Undo_def snoc Let_def ApplyStep_history)
  then show ?thesis
    using doc_ok_history[OF ApplyStep_ok[OF assms st(1)], of sts "fRedo d @ [st]"] st(2,3) by simp
qed (use assms in \<open>simp add: Undo_def\<close>)

lemma Redo_ok:
  assumes "doc_ok d"
  shows "doc_ok (Redo d)"
proof (cases "fRedo d" rule: rev_cases)
  case (snoc sts st)
  then have st: "step_ok (fWidth d) (fHeight d) st"
      "\<forall>st \<in> set (fUndo d @ [st]) \<union> set sts. step_ok (fWidth d) (fHeight d) st"
      "length (fUndo d @ [st]) + length sts \<le> 40"
    using assms by (auto simp: doc_ok_def)
  have "Redo d = (ApplyStep st True d)\<lparr>fUndo := fUndo d @ [st], fRedo := sts\<rparr>"
    by (simp add: Redo_def snoc Let_def ApplyStep_history)
  then show ?thesis
    using doc_ok_history[OF ApplyStep_ok[OF assms st(1)], of "fUndo d @ [st]" sts] st(2,3) by simp
qed (use assms in \<open>simp add: Redo_def\<close>)

text \<open>\<open>SetCanvas\<close> and \<open>Resize\<close> do not touch the stroke's rectangle and snapshot.\<close>

lemma SetCanvas_ok:
  assumes "\<not> fInStroke d" and "fStrokeBuf d = None" and "fBeforeSnap d = None"
    and "1 \<le> width" and "1 \<le> height" and "12 \<le> dpi"
  shows "doc_ok (SetCanvas True width height dpi paper white d)"
proof -
  define a where "a = snd (AddLayer True (Some ''Background'')
    (d\<lparr>fWidth := width, fHeight := height, fDPI := dpi, fPaper := paper, fLayers := [], fUndo := [], fRedo := [],
       fNextLayerId := 1\<rparr>))"
  have a: "fWidth a = width" "fHeight a = height" "fUndo a = []" "fRedo a = []" "fInStroke a = fInStroke d"
      "fStrokeBuf a = None" "fBeforeSnap a = None" "fNextLayerId a = 2" "fActiveId a = 1"
      "layers_ok width height 2 1 (fLayers a)" "fCompositeDirty a"
    using assms MarkDirty_canvas
    by (simp_all add: a_def AddLayer_def Let_def layers_ok_def layer_ok_def)
      (simp add: MarkDirty_def Let_def canvas_rect_def rect_meet_def rect_valid_def)
  have "SetCanvas True width height dpi paper white d = (if white then on_layer 1 (repaint (for_canvas width height
      (\<lambda>p q. Px 255 255 255 255))) a else a)\<lparr>fModified := False\<rparr>"
    using assms(4-6) by (simp add: SetCanvas_def a_def AddLayer_def Let_def)
  moreover have "layers_ok width height 2 1 (change_layer 1 (repaint g) (fLayers a))" for g
    using a(10) by (rule layers_ok_repaint)
  ultimately show ?thesis
    using a assms by (simp add: doc_ok_def stroke_ok_def cache_ok_def)
qed

lemma SetCanvas_refused: "width < 1 \<or> height < 1 \<or> dpi < 12 \<Longrightarrow> SetCanvas ok width height dpi paper white d = d"
  by (auto simp: SetCanvas_def)

lemma grow_layers_all:
  assumes "False \<notin> set oks"
  shows "grow_layers oks g ls = (map (\<lambda>l. l\<lparr>layer_bits := g (layer_bits l)\<rparr>) ls, True)"
proof -
  have "False \<notin> set (tl oks)" if "False \<notin> set oks" for oks
    using that by (cases oks) auto
  then show ?thesis
    using assms by (induction oks g ls rule: grow_layers.induct) auto
qed

lemma Resize_ok:
  assumes "doc_ok d" and "\<not> fInStroke d" and "False \<notin> set oks"
  shows "doc_ok (Resize oks width height d)"
proof (cases "width < 1 \<or> height < 1 \<or> width > 8192 \<or> height > 8192 \<or> width = fWidth d \<and> height = fHeight d")
  case False
  let ?g = "\<lambda>l. l\<lparr>layer_bits := grown width height (min (fWidth d) width) (min (fHeight d) height) (layer_bits l)\<rparr>"
  let ?e = "d\<lparr>fLayers := map ?g (fLayers d), fWidth := width, fHeight := height, fUndo := [], fRedo := [], fStrokeBuf := None\<rparr>"
  have "Resize oks width height d = (MarkDirty (canvas_rect ?e) ?e)\<lparr>fModified := True\<rparr>"
    unfolding Resize_def if_not_P[OF False] by (simp add: grow_layers_all[OF assms(3)] Let_def)
  moreover have "layers_ok width height (fNextLayerId d) (fActiveId d) (map ?g (fLayers d))"
    using doc_layers_ok[OF assms(1)] by (simp add: layers_ok_def layer_ok_def comp_def grown_def)
  moreover have "fCompositeDirty (MarkDirty (canvas_rect ?e) ?e)"
    using False by (intro MarkDirty_canvas) auto
  ultimately show ?thesis
    using assms False by (simp add: doc_ok_def stroke_ok_def cache_ok_def)
qed (use assms in \<open>auto simp: Resize_def\<close>)

section \<open>A new document\<close>

lemma new_document_ok: "doc_ok new_document"
  unfolding new_document_def
  by (rule SetCanvas_ok) (simp_all add: paper_px_def default_paper_def)

lemma new_document_size: "fWidth new_document = 793" "fHeight new_document = 1123"
  by (simp_all add: new_document_def SetCanvas_def paper_px_def default_paper_def AddLayer_def Let_def floor_eq_iff)

section \<open>Fill and resize\<close>

text \<open>
  C18 \<open>FillAt\<close> returns, and paints exactly the pixels of the active layer that are connected with the
  seed through pixels within the tolerance of the seed's colour, counting each once; every other
  pixel and layer stays.
\<close>

theorem fill_paints_the_region:
  assumes "ActiveLayer d = Some l" and "on_canvas (fWidth d) (fHeight d) (x, y)"
    and "R = {p. reached (fWidth d) (fHeight d)
      (\<lambda>q. near tolerance (surface_bits (layer_bits l) (x, y)) (surface_bits (layer_bits l) q)) (x, y) p}"
  shows "\<exists>e. FillAt x y colour tolerance d = Some (card R, e)
    \<and> fLayers e = change_layer (fActiveId d)
        (repaint (\<lambda>b p. if p \<in> R then Px (blue colour) (green colour) (red colour) 255 else b p)) (fLayers d)"
proof -
  let ?g = "\<lambda>p. if p \<in> R then Px (blue colour) (green colour) (red colour) 255 else surface_bits (layer_bits l) p"
  have flood: "flood (fWidth d) (fHeight d) x y colour tolerance (surface_bits (layer_bits l)) = Some (?g, card R)"
    using flood_result[OF assms(2), of colour tolerance "surface_bits (layer_bits l)"] by (simp add: assms(3))
  have "\<not> (x < 0 \<or> fWidth d \<le> x \<or> y < 0 \<or> fHeight d \<le> y)"
    using assms(2) by (auto simp: on_canvas_def)
  then have "\<exists>e. FillAt x y colour tolerance d = Some (card R, e)
      \<and> fLayers e = change_layer (fActiveId d) (repaint (\<lambda>b. ?g)) (fLayers d)"
    using assms(1) flood by (simp add: FillAt_def Let_def)
  moreover have "change_layer (fActiveId d) (repaint (\<lambda>b. ?g)) (fLayers d) = change_layer (fActiveId d)
        (repaint (\<lambda>b p. if p \<in> R then Px (blue colour) (green colour) (red colour) 255 else b p)) (fLayers d)"
    using ActiveLayer_find[OF assms(1)] by (intro change_layer_cong) (simp add: repaint_def)
  ultimately show ?thesis by simp
qed

theorem fill_paints_the_region_witness:
  "\<exists>R e. FillAt 0 0 (Px 1 2 3 255) 8 dot_canvas = Some (card R, e) \<and> (0, 0) \<in> (R :: (int \<times> int) set)"
proof -
  let ?l = "\<lparr>layer_id = 1, layer_name = ''Background'', layer_visible = True, layer_opacity = 255,
      layer_bits = Surface 1 1 (\<lambda>p. clear)\<rparr>"
  have "ActiveLayer dot_canvas = Some ?l" by (simp add: ActiveLayer_def LayerById_def dot_facts)
  moreover have "on_canvas (fWidth dot_canvas) (fHeight dot_canvas) (0, 0)" by (simp add: on_canvas_def dot_facts)
  moreover define R where "R = {p. reached (fWidth dot_canvas) (fHeight dot_canvas)
      (\<lambda>q. near 8 (surface_bits (layer_bits ?l) (0, 0)) (surface_bits (layer_bits ?l) q)) (0, 0) p}"
  ultimately have "\<exists>e. FillAt 0 0 (Px 1 2 3 255) 8 dot_canvas = Some (card R, e)"
    using fill_paints_the_region[of dot_canvas ?l 0 0 R 8 "Px 1 2 3 255"] by blast
  moreover have "(0, 0) \<in> R" unfolding R_def by (rule CollectI) (rule reached_seed)
  ultimately show ?thesis by blast
qed

text \<open>
  A resize that goes through anchors every layer top-left: the pixels both canvases have stay,
  every other pixel of the new canvas is transparent, and the history is empty. A size outside
  1..8192 or the present size changes nothing.
\<close>

theorem resize_anchors_top_left:
  assumes "False \<notin> set oks"
  shows "if width \<in> {1..8192} \<and> height \<in> {1..8192} \<and> (width, height) \<noteq> (fWidth d, fHeight d)
    then map (\<lambda>l. surface_bits (layer_bits l)) (fLayers (Resize oks width height d))
        = map (\<lambda>l p. if on_canvas (fWidth d) (fHeight d) p \<and> on_canvas width height p
                      then surface_bits (layer_bits l) p else clear) (fLayers d)
      \<and> fWidth (Resize oks width height d) = width \<and> fHeight (Resize oks width height d) = height
      \<and> fUndo (Resize oks width height d) = [] \<and> fRedo (Resize oks width height d) = []
    else Resize oks width height d = d"
proof -
  have meet: "on_canvas (min (fWidth d) width) (min (fHeight d) height) p
      \<longleftrightarrow> on_canvas (fWidth d) (fHeight d) p \<and> on_canvas width height p" for p
    by (auto simp: on_canvas_def)
  show ?thesis
  proof (cases "width \<in> {1..8192} \<and> height \<in> {1..8192} \<and> (width, height) \<noteq> (fWidth d, fHeight d)")
    case True
    then have go: "\<not> (width < 1 \<or> height < 1 \<or> width > 8192 \<or> height > 8192 \<or> width = fWidth d \<and> height = fHeight d)"
      by auto
    show ?thesis
      unfolding if_P[OF True] Resize_def if_not_P[OF go]
      by (simp add: grow_layers_all[OF assms] Let_def grown_def meet comp_def)
  qed (auto simp: Resize_def)
qed

theorem resize_anchors_top_left_witness: "fWidth (Resize [True] 5 6 dot_canvas) = 5"
  using resize_anchors_top_left[of "[True]" 5 6 dot_canvas] by (simp add: dot_facts)

text \<open>
  When the second layer's new bitmap cannot be allocated, \<open>Resize\<close> gives up with the first layer
  already replaced: that layer no longer has the size of the canvas, and the composite still counts
  as fresh.
\<close>

theorem failed_resize_leaves_a_layer_short:
  assumes "fLayers d = l # l' # ls" and "width \<in> {1..8192}" and "height \<in> {1..8192}" and "width < fWidth d"
  shows "surface_w (layer_bits (hd (fLayers (Resize [True, False] width height d)))) < fWidth d
    \<and> fWidth (Resize [True, False] width height d) = fWidth d
    \<and> fCompositeDirty (Resize [True, False] width height d) = fCompositeDirty d"
  using assms by (simp add: Resize_def Let_def grown_def)

theorem failed_resize_leaves_a_layer_short_witness:
  "surface_w (layer_bits (hd (fLayers (Resize [True, False] 10 10 (snd (AddLayer True None new_document)))))) < 793"
proof -
  let ?d = "snd (AddLayer True None new_document)"
  have "fLayers ?d = hd (fLayers ?d) # hd (tl (fLayers ?d)) # tl (tl (fLayers ?d))" "fWidth ?d = 793"
    using new_document_size by (simp_all add: AddLayer_def Let_def new_document_def SetCanvas_def paper_px_def default_paper_def)
  then show ?thesis
    using failed_resize_leaves_a_layer_short[of ?d _ _ _ 10 10] by simp
qed

end
