(* ===== verification/PaintBrush.thy ===== *)
theory PaintBrush
  imports PaintState
begin

text \<open>
  ProsePaint's brush, \<open>prosepaint/app/src/PPBrush.cpp\<close>: the stamp mask of a shape, a size and a
  hardness, and the places a line is stamped at. Floats are real numbers, so that rounding of
  the last bit is not modelled, and \<open>sqrtf\<close> is the square.
\<close>

section \<open>The mask\<close>

datatype shape = Round | Soft | Square | Angled | OtherShape

record brush =
  fShape :: shape
  fSize :: int
  fHardness :: nat
  fMaskBpr :: int
  fMask :: "nat list"

text \<open>Conversion of a float to \<open>int32\<close> truncates toward zero.\<close>

definition trunc :: "real \<Rightarrow> int" where
  "trunc r = (if 0 \<le> r then \<lfloor>r\<rfloor> else \<lceil>r\<rceil>)"

definition soft_value :: "real \<Rightarrow> real \<Rightarrow> real \<Rightarrow> nat" where
  "soft_value hard radius d =
     (if d \<le> radius then
        let t = d / radius; core = 1 - hard;
            a = (if t \<le> core then 1 else 1 - (t - core) / (1 - core + 1 / 1000000))
        in to_uint8 (nat (trunc (max 0 (min 1 a * 255))))
      else 0)"

definition mask_value :: "shape \<Rightarrow> int \<Rightarrow> nat \<Rightarrow> int \<Rightarrow> int \<Rightarrow> nat" where
  "mask_value sh n hardness x y =
     (let c = (real_of_int n - 1) / 2; radius = real_of_int n / 2; hard = real hardness / 255;
          dx = real_of_int x - c; dy = real_of_int y - c in
      case sh of
        Round \<Rightarrow> if dx * dx + dy * dy \<le> radius * radius then 255 else 0
      | Soft \<Rightarrow> soft_value hard radius (sqrt (dx * dx + dy * dy))
      | Square \<Rightarrow> 255
      | Angled \<Rightarrow>
          let k = 70710678 / 100000000; across = dx * k + dy * k; along = - dx * k + dy * k;
              thin = radius * (35 / 100) + 1 / 2
          in if \<bar>across\<bar> \<le> thin \<and> \<bar>along\<bar> \<le> radius then 255 else 0
      | OtherShape \<Rightarrow> 0)"

definition Rebuild :: "brush \<Rightarrow> brush" where
  "Rebuild b = b\<lparr>fMaskBpr := fSize b,
     fMask := concat (map (\<lambda>y. map (\<lambda>x. mask_value (fShape b) (fSize b) (fHardness b) x y) [0..fSize b - 1])
       [0..fSize b - 1])\<rparr>"

definition new_brush :: "brush" where
  "new_brush = Rebuild \<lparr>fShape = Round, fSize = 8, fHardness = 200, fMaskBpr = 8, fMask = []\<rparr>"

definition SetShape :: "shape \<Rightarrow> brush \<Rightarrow> brush" where
  "SetShape sh b = Rebuild (b\<lparr>fShape := sh\<rparr>)"

definition SetHardness :: "nat \<Rightarrow> brush \<Rightarrow> brush" where
  "SetHardness h b = Rebuild (b\<lparr>fHardness := h\<rparr>)"

definition SetSize :: "int \<Rightarrow> brush \<Rightarrow> brush" where
  "SetSize sz b =
     (let s = (if sz < 1 then 1 else sz); s = (if s > 64 then 64 else s) in
      if s \<noteq> fSize b then Rebuild (b\<lparr>fSize := s\<rparr>) else b)"

text \<open>The stamp mask as a dab reads it.\<close>

definition mask_byte :: "brush \<Rightarrow> nat \<Rightarrow> nat" where
  "mask_byte b i = fMask b ! i"

section \<open>Stamping a line\<close>

definition stamp_spacing :: "brush \<Rightarrow> real" where
  "stamp_spacing b = max 1 (real_of_int (fSize b) / 4)"

definition stamp_steps :: "brush \<Rightarrow> real \<Rightarrow> real \<Rightarrow> real \<Rightarrow> real \<Rightarrow> int" where
  "stamp_steps b x0 y0 x1 y1 =
     (let dist = sqrt ((x1 - x0) * (x1 - x0) + (y1 - y0) * (y1 - y0)) in trunc (dist / stamp_spacing b) + 1)"

definition stamp_at :: "int \<Rightarrow> real \<Rightarrow> real \<Rightarrow> real \<Rightarrow> real \<Rightarrow> int \<Rightarrow> int \<times> int" where
  "stamp_at steps x0 y0 x1 y1 i =
     (let t = (if steps = 0 then 0 else real_of_int i / real_of_int steps) in
      (trunc (x0 + (x1 - x0) * t + 1 / 2), trunc (y0 + (y1 - y0) * t + 1 / 2)))"

definition StampLine :: "brush \<Rightarrow> real \<Rightarrow> real \<Rightarrow> real \<Rightarrow> real \<Rightarrow> (int \<Rightarrow> int \<Rightarrow> 's \<Rightarrow> 's) \<Rightarrow> 's \<Rightarrow> 's" where
  "StampLine b x0 y0 x1 y1 dab s =
     (let steps = stamp_steps b x0 y0 x1 y1 in
      fold (\<lambda>i. case stamp_at steps x0 y0 x1 y1 i of (x, y) \<Rightarrow> dab x y) [0..steps] s)"

section \<open>What the mask is\<close>

definition brush_ok :: "brush \<Rightarrow> bool" where
  "brush_ok b \<longleftrightarrow> 1 \<le> fSize b \<and> fSize b \<le> 64 \<and> b = Rebuild b"

lemma Rebuild_idem: "Rebuild (Rebuild b) = Rebuild b"
  by (simp add: Rebuild_def)

lemma brush_ok_rebuild: "1 \<le> fSize b \<Longrightarrow> fSize b \<le> 64 \<Longrightarrow> brush_ok (Rebuild b)"
  by (simp add: brush_ok_def Rebuild_idem) (simp add: Rebuild_def)

lemma brush_ops_ok:
  "brush_ok (new_brush)"
  "brush_ok b \<Longrightarrow> brush_ok (SetShape sh b)"
  "brush_ok b \<Longrightarrow> brush_ok (SetHardness h b)"
  "brush_ok b \<Longrightarrow> brush_ok (SetSize sz b)"
  by (auto simp: new_brush_def SetShape_def SetHardness_def SetSize_def Let_def intro!: brush_ok_rebuild)
    (simp_all add: brush_ok_def)

lemma mask_at:
  assumes "brush_ok b" and "0 \<le> x" "x < fSize b" "0 \<le> y" "y < fSize b"
  shows "mask_byte b (nat y * nat (fMaskBpr b) + nat x) = mask_value (fShape b) (fSize b) (fHardness b) x y"
proof -
  have b: "fMaskBpr b = fSize b" "fMask b = concat (map (\<lambda>y. map (\<lambda>x. mask_value (fShape b) (fSize b) (fHardness b) x y)
      [0..fSize b - 1]) [0..fSize b - 1])"
    using assms(1) unfolding brush_ok_def Rebuild_def by (metis brush.select_convs(4,5) brush.surjective brush.update_convs(4,5))+
  have "fMask b ! (nat y * nat (fSize b) + nat x) = map (\<lambda>x. mask_value (fShape b) (fSize b) (fHardness b) x ([0..fSize b - 1] ! nat y))
      [0..fSize b - 1] ! nat x"
    unfolding b(2) using assms(2-5) by (intro nth_concat_rows) auto
  then show ?thesis
    using assms(2-5) by (simp add: mask_byte_def b(1) nth_upto)
qed

text \<open>
  Whatever is set on the brush, its size is in 1..64 and its mask is the square of that size, row
  by row with the row stride the dabs use: byte y*bpr+x is the value of the shape at (x, y).
\<close>

theorem brush_mask_is_the_shape:
  assumes "b = fold (\<lambda>f. f) fs (new_brush)"
    and "\<forall>f \<in> set fs. (\<exists>sh. f = SetShape sh) \<or> (\<exists>h. f = SetHardness h) \<or> (\<exists>s. f = SetSize s)"
  shows "1 \<le> fSize b \<and> fSize b \<le> 64 \<and> int (length (fMask b)) = fSize b * fSize b
    \<and> (\<forall>x y. 0 \<le> x \<and> x < fSize b \<and> 0 \<le> y \<and> y < fSize b
        \<longrightarrow> mask_byte b (nat y * nat (fMaskBpr b) + nat x) = mask_value (fShape b) (fSize b) (fHardness b) x y)"
proof -
  have "brush_ok b'" if "\<forall>f \<in> set fs. (\<exists>sh. f = SetShape sh) \<or> (\<exists>h. f = SetHardness h) \<or> (\<exists>s. f = SetSize s)"
      "brush_ok b0" "b' = fold (\<lambda>f. f) fs b0" for b' b0
    using that by (induction fs arbitrary: b0) (auto intro: brush_ops_ok)
  from this[OF assms(2) brush_ops_ok(1) assms(1)] have ok: "brush_ok b" .
  have "fMask b = concat (map (\<lambda>y. map (\<lambda>x. mask_value (fShape b) (fSize b) (fHardness b) x y)
      [0..fSize b - 1]) [0..fSize b - 1])"
    using ok unfolding brush_ok_def Rebuild_def by (metis brush.select_convs(5) brush.surjective brush.update_convs(5))
  then have "int (length (fMask b)) = fSize b * fSize b"
    using ok by (simp add: length_concat comp_def sum_list_triv brush_ok_def)
  then show ?thesis
    using ok mask_at[OF ok] by (simp add: brush_ok_def)
qed

theorem brush_mask_is_the_shape_witness:
  "fSize (SetSize  1000 (new_brush )) \<le> 64"
proof -
  have "\<forall>f \<in> set [SetSize 1000]. (\<exists>sh. f = SetShape sh) \<or> (\<exists>h. f = SetHardness h) \<or> (\<exists>s. f = SetSize s)"
    by auto
  from brush_mask_is_the_shape[OF refl this] show ?thesis by simp
qed

text \<open>
  The soft brush's hardness works backwards: at hardness 0, meant to be fully soft, its mask is
  the hard circle; at 255, meant to be hard, it falls off linearly from the centre.
\<close>

theorem soft_brush_hardness_is_inverted:
  assumes "1 \<le> n"
  shows "mask_value Soft n 0 x y = mask_value Round n h x y
    \<and> (let c = (real_of_int n - 1) / 2; d = sqrt ((x - c) * (x - c) + (y - c) * (y - c)) in
        0 < d \<longrightarrow> mask_value Soft n 255 x y < 255)"
proof
  define c radius where "c = (real_of_int n - 1) / 2" and "radius = real_of_int n / 2"
  define q where "q = (x - c) * (x - c) + (y - c) * (y - c)"
  have r: "0 < radius" using assms by (simp add: radius_def)
  have "sqrt q \<le> radius \<longleftrightarrow> q \<le> radius * radius"
    using r real_sqrt_le_iff[of q "radius * radius"] by simp
  moreover have "soft_value 0 radius (sqrt q) = (if sqrt q \<le> radius then 255 else 0)"
    using r by (simp add: soft_value_def Let_def trunc_def to_uint8_def)
  ultimately show "mask_value Soft n 0 x y = mask_value Round n h x y"
    by (simp add: mask_value_def Let_def q_def c_def radius_def)
  show "let c = (real_of_int n - 1) / 2; d = sqrt ((x - c) * (x - c) + (y - c) * (y - c)) in
        0 < d \<longrightarrow> mask_value Soft n 255 x y < 255"
  proof -
    have "mask_value Soft n 255 x y < 255" if d: "0 < sqrt q"
    proof -
      define a where "a = 1 - sqrt q / radius / (1 + 1 / 1000000)"
      have lt: "a < 1" using d r by (simp add: a_def)
      have "soft_value 1 radius (sqrt q) < 255"
      proof (cases "sqrt q \<le> radius")
        case True
        define t where "t = sqrt q / radius"
        have "0 < t" using d r by (simp add: t_def)
        then have a: "(if t \<le> 1 - 1 then 1 else 1 - (t - (1 - 1)) / (1 - (1 - 1) + 1 / 1000000)) = a"
          by (simp add: a_def t_def)
        have "soft_value 1 radius (sqrt q) = to_uint8 (nat (trunc (max 0 (min 1 a * 255))))"
          unfolding soft_value_def if_P[OF True] Let_def t_def[symmetric] a by (rule refl)
        moreover have "max 0 (min 1 a * 255) < 255" "0 \<le> max 0 (min 1 a * 255)" using lt by auto
        then have "trunc (max 0 (min 1 a * 255)) < 255" "0 \<le> trunc (max 0 (min 1 a * 255))"
          by (simp_all add: trunc_def floor_less_iff)
        ultimately show ?thesis by (simp add: to_uint8_def nat_less_iff)
      qed (simp add: soft_value_def)
      then show ?thesis
        by (simp add: mask_value_def Let_def q_def c_def radius_def)
    qed
    then show ?thesis by (simp add: Let_def q_def c_def)
  qed
qed

theorem soft_brush_hardness_is_inverted_witness: "mask_value Soft 8 0 0 3 = mask_value Round 8 200 0 3"
  using soft_brush_hardness_is_inverted[of 8 0 3 200] by simp

section \<open>Where a line is stamped\<close>

lemma stamp_steps_pos: "1 \<le> stamp_steps b x0 y0 x1 y1"
proof -
  have "0 \<le> trunc r" if "0 \<le> r" for r using that by (simp add: trunc_def)
  then show ?thesis
    by (simp add: stamp_steps_def Let_def stamp_spacing_def)
qed

text \<open>
  A stamped line begins and ends exactly at the rounded end points, and its steps are closer than
  the brush's spacing, so that a line has no gap between two stamps.
\<close>

theorem StampLine_covers_the_line:
  "\<exists>ts. StampLine b x0 y0 x1 y1 dab s
      = fold (\<lambda>t. dab (trunc (x0 + (x1 - x0) * t + 1 / 2)) (trunc (y0 + (y1 - y0) * t + 1 / 2))) ts s
    \<and> hd ts = 0 \<and> last ts = 1 \<and> 2 \<le> length ts
    \<and> (\<forall>i. Suc i < length ts \<longrightarrow> 0 < ts ! Suc i - ts ! i
        \<and> (ts ! Suc i - ts ! i) * sqrt ((x1 - x0) * (x1 - x0) + (y1 - y0) * (y1 - y0)) < stamp_spacing b)"
proof -
  define n where "n = stamp_steps b x0 y0 x1 y1"
  define dist where "dist = sqrt ((x1 - x0) * (x1 - x0) + (y1 - y0) * (y1 - y0))"
  define ts where "ts = map (\<lambda>i. real_of_int i / real_of_int n) [0..n]"
  have n: "1 \<le> n" unfolding n_def by (rule stamp_steps_pos)
  have "StampLine b x0 y0 x1 y1 dab s
      = fold (\<lambda>t. dab (trunc (x0 + (x1 - x0) * t + 1 / 2)) (trunc (y0 + (y1 - y0) * t + 1 / 2))) ts s"
    using n by (simp add: StampLine_def Let_def ts_def fold_map comp_def stamp_at_def flip: n_def)
  moreover have "hd ts = 0"
    using n by (simp add: ts_def upto_rec1)
  moreover have "last ts = 1" "length ts = nat (n + 1)"
    using n by (simp_all add: ts_def last_conv_nth nth_upto)
  moreover have "ts ! Suc i - ts ! i = 1 / real_of_int n" if "Suc i < length ts" for i
    using that n by (simp add: ts_def nth_upto field_simps)
  moreover have "1 / real_of_int n * dist < stamp_spacing b"
  proof -
    have sp: "1 \<le> stamp_spacing b" "0 \<le> dist" by (simp_all add: stamp_spacing_def dist_def)
    then have "0 \<le> dist / stamp_spacing b" by simp
    then have "n = \<lfloor>dist / stamp_spacing b\<rfloor> + 1"
      by (simp add: n_def stamp_steps_def Let_def trunc_def flip: dist_def)
    then have "dist / stamp_spacing b < real_of_int n" by linarith
    then have "dist < stamp_spacing b * real_of_int n"
      using sp by (simp add: pos_divide_less_eq mult.commute)
    then show ?thesis using n by (simp add: field_simps)
  qed
  ultimately show ?thesis
    using n by (intro exI[of _ ts]) (auto simp: dist_def)
qed

end
