(* ===== verification/PaintCanvas.thy ===== *)
theory PaintCanvas
  imports PaintBrush
begin

text \<open>
  ProsePaint's canvas view, \<open>prosepaint/app/src/PPCanvas.cpp\<close>: the pointer's gestures as strokes of
  the document with the brush. Drawing, invalidation and the scroll bars are the interface kit's;
  bitmaps can be allocated here. \<open>None\<close> stands for a fill that does not return.
\<close>

datatype tool = Pen | Brush | Airbrush | Eraser | Smudge | Fill | Eyedropper | LineTool | RectTool | EllipseTool

type_synonym point = "real \<times> real"

record canvas =
  cDoc :: document
  fTool :: tool
  fBrush :: brush
  fColour :: pixel
  fOpacity :: nat
  fSmudgeStrength :: nat
  fFillTolerance :: nat
  fPainting :: bool
  fLastDoc :: point
  fShapeAnchor :: point
  fShaping :: bool
  fZoom :: real

definition new_canvas :: "document \<Rightarrow> canvas" where
  "new_canvas d = \<lparr>cDoc = d, fTool = Brush, fBrush = new_brush, fColour = Px 0 0 0 255, fOpacity = 255,
     fSmudgeStrength = 128, fFillTolerance = 32, fPainting = False, fLastDoc = (0, 0), fShapeAnchor = (0, 0),
     fShaping = False, fZoom = 1\<rparr>"

definition kMargin :: real where
  "kMargin = 24"

definition DocToView :: "canvas \<Rightarrow> point \<Rightarrow> point" where
  "DocToView c p = ((kMargin + fst p) * fZoom c, (kMargin + snd p) * fZoom c)"

definition ViewToDoc :: "canvas \<Rightarrow> point \<Rightarrow> point" where
  "ViewToDoc c p = (fst p / fZoom c - kMargin, snd p / fZoom c - kMargin)"

definition SetZoom :: "real \<Rightarrow> canvas \<Rightarrow> canvas" where
  "SetZoom zoom c =
     (let z = (if zoom < 1 / 4 then 1 / 4 else zoom); z = (if z > 4 then 4 else z) in
      if z = fZoom c then c else c\<lparr>fZoom := z\<rparr>)"

definition SetOpacityPercent :: "int \<Rightarrow> canvas \<Rightarrow> canvas" where
  "SetOpacityPercent percent c =
     (let p = (if percent < 0 then 0 else percent); p = (if p > 100 then 100 else p) in
      c\<lparr>fOpacity := to_uint8 (nat (p * 255 div 100))\<rparr>)"

section \<open>Painting\<close>

definition on_doc :: "(document \<Rightarrow> document) \<Rightarrow> canvas \<Rightarrow> canvas" where
  "on_doc f c = c\<lparr>cDoc := f (cDoc c)\<rparr>"

definition PaintDab :: "point \<Rightarrow> canvas \<Rightarrow> canvas" where
  "PaintDab p c =
     (let b = fBrush c; x = trunc (fst p); y = trunc (snd p);
          stamp = Some (mask_byte b); sz = nat (fSize b); bpr = nat (fMaskBpr b) in
      if fTool c \<in> {Pen, Brush, LineTool, RectTool, EllipseTool}
        then on_doc (DabColour True x y (fColour c) stamp sz bpr 255) c
      else if fTool c = Airbrush then on_doc (DabColour True x y (fColour c) stamp sz bpr 40) c
      else if fTool c = Eraser then on_doc (DabErase True x y stamp sz bpr 255) c
      else if fTool c = Smudge then on_doc (DabSmudge x y stamp sz bpr (fSmudgeStrength c)) c
      else c)"

definition StampPath :: "real \<Rightarrow> real \<Rightarrow> real \<Rightarrow> real \<Rightarrow> canvas \<Rightarrow> canvas" where
  "StampPath x0 y0 x1 y1 c =
     StampLine (fBrush c) x0 y0 x1 y1 (\<lambda>x y. PaintDab (real_of_int x, real_of_int y)) c"

definition ellipse_chord :: "real \<Rightarrow> real \<Rightarrow> real \<Rightarrow> real \<Rightarrow> int \<Rightarrow> int \<Rightarrow> canvas \<times> real \<times> real \<Rightarrow> canvas \<times> real \<times> real" where
  "ellipse_chord cx cy rx ry steps i = (\<lambda>(c, px, py).
     (let t = real_of_int i / real_of_int steps * 2 * (314159265 / 100000000);
          nx = cx + rx * cos t; ny = cy + ry * sin t
      in (StampPath px py nx ny c, nx, ny)))"

definition shape_path :: "point \<Rightarrow> point \<Rightarrow> canvas \<Rightarrow> canvas" where
  "shape_path from to c =
     (case fTool c of
        LineTool \<Rightarrow> StampPath (fst from) (snd from) (fst to) (snd to) c
      | RectTool \<Rightarrow>
          StampPath (fst from) (snd to) (fst from) (snd from)
            (StampPath (fst to) (snd to) (fst from) (snd to)
              (StampPath (fst to) (snd from) (fst to) (snd to)
                (StampPath (fst from) (snd from) (fst to) (snd from) c)))
      | EllipseTool \<Rightarrow>
          let cx = (fst from + fst to) / 2; cy = (snd from + snd to) / 2;
              rx = \<bar>fst to - fst from\<bar> / 2; ry = \<bar>snd to - snd from\<bar> / 2;
              perim = 31416 / 10000 * (3 / 2) * (rx + ry);
              steps = max 24 (trunc (perim / max 1 (real_of_int (fSize (fBrush c)) / 4)))
          in fst (fold (ellipse_chord cx cy rx ry steps) [1..steps] (c, cx + rx, cy))
      | _ \<Rightarrow> c)"

definition CommitShape :: "point \<Rightarrow> point \<Rightarrow> canvas \<Rightarrow> canvas" where
  "CommitShape from to c = on_doc StrokeEnd (shape_path from to (on_doc (StrokeBegin True (fOpacity c)) c))"

definition PickAt :: "point \<Rightarrow> canvas \<Rightarrow> canvas" where
  "PickAt p c = (case PickColour (trunc (fst p)) (trunc (snd p)) (cDoc c) of (col, d) \<Rightarrow> c\<lparr>cDoc := d, fColour := col\<rparr>)"

definition fill_stroke :: "point \<Rightarrow> canvas \<Rightarrow> canvas option" where
  "fill_stroke p c =
     (case FillAt (trunc (fst p)) (trunc (snd p)) (fColour c) (fFillTolerance c) (StrokeBegin True (fOpacity c) (cDoc c)) of
        None \<Rightarrow> None | Some (n, d) \<Rightarrow> Some (c\<lparr>cDoc := StrokeEnd d\<rparr>))"

section \<open>The pointer\<close>

datatype transit = Inside | Outside | OtherTransit

definition MouseDown :: "point \<Rightarrow> canvas \<Rightarrow> canvas option" where
  "MouseDown pt c =
     (let p = ViewToDoc c pt in
      if fTool c = Fill then fill_stroke p c
      else if fTool c = Eyedropper then Some (PickAt p c)
      else if fTool c \<in> {LineTool, RectTool, EllipseTool}
        then Some (c\<lparr>fShaping := True, fShapeAnchor := p, fLastDoc := p\<rparr>)
      else Some (PaintDab p ((on_doc (StrokeBegin True (fOpacity c)) c)\<lparr>fPainting := True, fLastDoc := p\<rparr>)))"

definition MouseMoved :: "point \<Rightarrow> transit \<Rightarrow> canvas \<Rightarrow> canvas" where
  "MouseMoved pt transit c =
     (if fShaping c then
        if transit \<noteq> Inside \<and> transit \<noteq> Outside then c else c\<lparr>fLastDoc := ViewToDoc c pt\<rparr>
      else if \<not> fPainting c \<or> transit \<noteq> Inside then c
      else let p = ViewToDoc c pt; lx = fst (fLastDoc c); ly = snd (fLastDoc c);
               dist = sqrt ((fst p - lx) * (fst p - lx) + (snd p - ly) * (snd p - ly)) in
        if dist < max 1 (real_of_int (fSize (fBrush c)) / 8) then c
        else (StampPath lx ly (fst p) (snd p) c)\<lparr>fLastDoc := p\<rparr>)"

definition MouseUp :: "canvas \<Rightarrow> canvas" where
  "MouseUp c =
     (if fShaping c then CommitShape (fShapeAnchor c) (fLastDoc c) (c\<lparr>fShaping := False\<rparr>)
      else if \<not> fPainting c then c
      else on_doc StrokeEnd (c\<lparr>fPainting := False\<rparr>))"

definition Pulse :: "canvas \<Rightarrow> canvas" where
  "Pulse c = (if fPainting c \<and> fTool c = Airbrush then PaintDab (fLastDoc c) c else c)"

definition StrokeSegment :: "real \<Rightarrow> real \<Rightarrow> real \<Rightarrow> real \<Rightarrow> canvas \<Rightarrow> canvas option" where
  "StrokeSegment x0 y0 x1 y1 c =
     (if fTool c = Fill then fill_stroke (x0, y0) c
      else if fTool c = Eyedropper then Some (PickAt (x0, y0) c)
      else Some (on_doc StrokeEnd (StampPath x0 y0 x1 y1 (on_doc (StrokeBegin True (fOpacity c)) c))))"

definition DabAt :: "real \<Rightarrow> real \<Rightarrow> canvas \<Rightarrow> canvas" where
  "DabAt x y c =
     (if fTool c = Eyedropper then PickAt (x, y) c
      else on_doc StrokeEnd (PaintDab (x, y) (on_doc (StrokeBegin True 255) c)))"

section \<open>Gestures are strokes\<close>

text \<open>A canvas that differs in its document only, by dabs.\<close>

definition dabbed :: "canvas \<Rightarrow> canvas \<Rightarrow> bool" where
  "dabbed c c' \<longleftrightarrow> (\<exists>e. c' = c\<lparr>cDoc := e\<rparr> \<and> (\<forall>d. dabs d (cDoc c) \<longrightarrow> dabs d e))"

lemma dabbed_refl [simp]: "dabbed c c"
  by (auto simp: dabbed_def intro!: exI[of _ "cDoc c"])

lemma dabbed_trans: "dabbed c c' \<Longrightarrow> dabbed c' c'' \<Longrightarrow> dabbed c c''"
  by (auto simp: dabbed_def)

lemma dabbed_on_doc: "(\<And>d. dabs d (cDoc c) \<Longrightarrow> dabs d (f (cDoc c))) \<Longrightarrow> dabbed c (on_doc f c)"
  by (auto simp: dabbed_def on_doc_def)

lemma dabbed_PaintDab [simp]: "dabbed c (PaintDab p c)"
  by (auto simp: PaintDab_def Let_def intro!: dabbed_on_doc intro: dabs.intros)

lemma dabbed_fold:
  assumes "\<And>x c. dabbed c (f x c)"
  shows "dabbed c (fold f xs c)"
  using assms by (induction xs arbitrary: c) (auto intro: dabbed_trans)

lemma dabbed_StampPath [simp]: "dabbed c (StampPath x0 y0 x1 y1 c)"
  by (auto simp: StampPath_def StampLine_def Let_def intro!: dabbed_fold split: prod.split)

lemma dabbed_stamped: "dabbed c c' \<Longrightarrow> dabbed c (StampPath x0 y0 x1 y1 c')"
  by (rule dabbed_trans[OF _ dabbed_StampPath])

lemma dabbed_ellipse: "dabbed c (fst (fold (ellipse_chord cx cy rx ry steps) is (c, px, py)))"
proof (induction "is" arbitrary: c px py)
  case (Cons i "is")
  obtain c' x y where "ellipse_chord cx cy rx ry steps i (c, px, py) = (c', x, y)" "dabbed c c'"
    by (simp add: ellipse_chord_def Let_def)
  then show ?case using dabbed_trans[OF _ Cons[of c' x y]] by simp
qed simp

lemma dabbed_shape_path [simp]: "dabbed c (shape_path from to c)"
  by (cases "fTool c")
    (auto simp: shape_path_def Let_def dabbed_ellipse intro!: dabbed_stamped)


lemma dabbed_same:
  assumes "dabbed c c'"
  shows "fTool c' = fTool c" "fShaping c' = fShaping c" "fPainting c' = fPainting c" "fOpacity c' = fOpacity c"
    "dabs d (cDoc c) \<Longrightarrow> dabs d (cDoc c')"
  using assms by (auto simp: dabbed_def)

text \<open>What the pointer does between a press and a release.\<close>

inductive drags :: "canvas \<Rightarrow> canvas \<Rightarrow> bool" for c where
  drags_none: "drags c c"
| drags_move: "drags c c' \<Longrightarrow> drags c (MouseMoved pt transit c')"
| drags_pulse: "drags c c' \<Longrightarrow> drags c (Pulse c')"

text \<open>
  Between press and release the canvas either paints into an open stroke, or shapes with the document
  untouched, or, after a fill, does nothing.
\<close>

definition gesture_inv :: "canvas \<Rightarrow> canvas \<Rightarrow> bool" where
  "gesture_inv c0 c \<longleftrightarrow> fTool c = fTool c0 \<and> fOpacity c = fOpacity c0 \<and>
     (fPainting c \<and> \<not> fShaping c \<and> dabs (StrokeBegin True (fOpacity c0) (cDoc c0)) (cDoc c)
    \<or> \<not> fPainting c \<and> fShaping c \<and> cDoc c = cDoc c0
    \<or> \<not> fPainting c \<and> \<not> fShaping c
        \<and> (\<exists>e. dabs (StrokeBegin True (fOpacity c0) (cDoc c0)) e \<and> cDoc c = StrokeEnd e))"

lemma gesture_press:
  assumes "MouseDown pt c0 = Some c" and "fTool c0 \<noteq> Eyedropper" and "\<not> fPainting c0" and "\<not> fShaping c0"
  shows "gesture_inv c0 c"
proof (cases "fTool c0 = Fill")
  case True
  then obtain x y n d where fill: "FillAt x y (fColour c0) (fFillTolerance c0) (StrokeBegin True (fOpacity c0) (cDoc c0)) = Some (n, d)"
      "c = c0\<lparr>cDoc := StrokeEnd d\<rparr>"
    using assms(1) by (auto simp: MouseDown_def fill_stroke_def Let_def split: option.splits)
  from dabs_fill[OF dabs_none fill(1)] show ?thesis
    using fill(2) assms(3,4) by (auto simp: gesture_inv_def)
next
  case False
  show ?thesis
  proof (cases "fTool c0 \<in> {LineTool, RectTool, EllipseTool}")
    case True
    then show ?thesis using assms by (auto simp: MouseDown_def Let_def gesture_inv_def)
  next
    case line: False
    let ?b = "(on_doc (StrokeBegin True (fOpacity c0)) c0)\<lparr>fPainting := True, fLastDoc := ViewToDoc c0 pt\<rparr>"
    have "c = PaintDab (ViewToDoc c0 pt) ?b"
      using assms(1,2) False line by (auto simp: MouseDown_def Let_def)
    then have "dabbed ?b c" by simp
    from dabbed_same[OF this] show ?thesis
      using assms(4) by (auto simp: gesture_inv_def on_doc_def intro: dabs_none)
  qed
qed

lemma gesture_dabbed:
  assumes "gesture_inv c0 c" and "fPainting c" and "dabbed c c'"
  shows "gesture_inv c0 c'" and "gesture_inv c0 (c'\<lparr>fLastDoc := p\<rparr>)"
  using assms dabbed_same[OF assms(3)] by (auto simp: gesture_inv_def)

lemma gesture_drags:
  assumes "drags c c'" and "gesture_inv c0 c"
  shows "gesture_inv c0 c'"
  using assms
proof (induction rule: drags.induct)
  case (drags_move c' pt transit)
  then have inv: "gesture_inv c0 c'" by blast
  have "gesture_inv c0 (c'\<lparr>fLastDoc := p\<rparr>)" for p
    using inv by (auto simp: gesture_inv_def)
  then show ?case
    using inv gesture_dabbed[OF inv _ dabbed_StampPath]
    by (auto simp: MouseMoved_def Let_def)
next
  case (drags_pulse c')
  then show ?case
    using gesture_dabbed(1)[of c0 c', OF _ _ dabbed_PaintDab] by (auto simp: Pulse_def)
qed

lemma gesture_release:
  assumes "gesture_inv c0 c"
  shows "\<not> fPainting (MouseUp c) \<and> \<not> fShaping (MouseUp c)
    \<and> (\<exists>e. dabs (StrokeBegin True (fOpacity c0) (cDoc c0)) e \<and> cDoc (MouseUp c) = StrokeEnd e)"
proof -
  consider "fPainting c" "\<not> fShaping c" "dabs (StrokeBegin True (fOpacity c0) (cDoc c0)) (cDoc c)"
    | "\<not> fPainting c" "fShaping c" "cDoc c = cDoc c0"
    | "\<not> fPainting c" "\<not> fShaping c" "\<exists>e. dabs (StrokeBegin True (fOpacity c0) (cDoc c0)) e \<and> cDoc c = StrokeEnd e"
    using assms by (auto simp: gesture_inv_def)
  then show ?thesis
  proof cases
    case 2
    let ?b = "on_doc (StrokeBegin True (fOpacity c)) (c\<lparr>fShaping := False\<rparr>)"
    let ?s = "shape_path (fShapeAnchor c) (fLastDoc c) ?b"
    have "dabbed ?b ?s" by simp
    from dabbed_same[OF this] have "dabs (StrokeBegin True (fOpacity c0) (cDoc c0)) (cDoc ?s)"
        "\<not> fPainting ?s" "\<not> fShaping ?s"
      using 2 assms by (auto simp: on_doc_def gesture_inv_def intro: dabs_none)
    moreover have "MouseUp c = on_doc StrokeEnd ?s"
      using 2 by (simp add: MouseUp_def CommitShape_def)
    ultimately show ?thesis by (auto simp: on_doc_def)
  qed (auto simp: MouseUp_def on_doc_def)
qed

text \<open>
  C37 One gesture of the pointer is one undo step: from an idle canvas, whatever painting tool,
  pressing, any moves and pulses, and releasing leave the canvas idle with a closed stroke; if it
  touched the canvas, one undo brings every layer back and one redo repaints it, and otherwise
  neither the layers nor the history changed.
\<close>

theorem gesture_is_one_undo_step:
  assumes "ActiveLayer (cDoc c0) = Some l" and "\<not> fPainting c0" and "\<not> fShaping c0" and "fTool c0 \<noteq> Eyedropper"
    and "MouseDown pt c0 = Some c" and "drags c c'"
  shows "\<not> fPainting (MouseUp c') \<and> \<not> fShaping (MouseUp c') \<and> \<not> fInStroke (cDoc (MouseUp c'))
    \<and> (let d = cDoc c0; d' = cDoc (MouseUp c') in
        fLayers d' = fLayers d \<and> fUndo d' = fUndo d
      \<or> fLayers (Undo d') = fLayers d \<and> fLayers (Redo (Undo d')) = fLayers d'
        \<and> (\<exists>st. fUndo d' = push_step st (fUndo d)))"
proof -
  have "gesture_inv c0 c'"
    using gesture_drags[OF assms(6) gesture_press[OF assms(5,4,2,3)]] .
  from gesture_release[OF this] obtain e where e: "\<not> fPainting (MouseUp c')" "\<not> fShaping (MouseUp c')"
      "dabs (StrokeBegin True (fOpacity c0) (cDoc c0)) e" "cDoc (MouseUp c') = StrokeEnd e" by blast
  note inv = stroke_inv_dabs[OF e(3) assms(1)]
  have "\<not> fInStroke (StrokeEnd e)"
    by (auto simp: StrokeEnd_def Let_def land_buffer_def split: option.split)
  moreover have "fLayers (StrokeEnd e) = fLayers (cDoc c0) \<and> fUndo (StrokeEnd e) = fUndo (cDoc c0)
      \<or> fLayers (Undo (StrokeEnd e)) = fLayers (cDoc c0) \<and> fLayers (Redo (Undo (StrokeEnd e))) = fLayers (StrokeEnd e)
        \<and> (\<exists>st. fUndo (StrokeEnd e) = push_step st (fUndo (cDoc c0)))"
  proof (cases "rect_valid (step_rect (fCurrentStep e))")
    case True
    from StrokeEnd_touched[OF inv assms(1) this] obtain st where
      st: "fUndo (StrokeEnd e) = push_step st (fUndo (cDoc c0))" "fRedo (StrokeEnd e) = []"
        "step_layers st False (fLayers (StrokeEnd e)) = fLayers (cDoc c0)"
        "step_layers st True (fLayers (cDoc c0)) = fLayers (StrokeEnd e)" by blast
    then have "fUndo (StrokeEnd e) \<noteq> []" by simp
    then show ?thesis using st by (auto simp: Undo_layers Redo_layers)
  next
    case False
    then show ?thesis using StrokeEnd_untouched[OF inv assms(1)] by blast
  qed
  ultimately show ?thesis using e by (simp add: Let_def)
qed

theorem gesture_is_one_undo_step_witness:
  "\<not> fInStroke (cDoc (MouseUp (Pulse (PaintDab (ViewToDoc (new_canvas dot_canvas) (24, 24))
     ((on_doc (StrokeBegin True 255) (new_canvas dot_canvas))\<lparr>fPainting := True,
        fLastDoc := ViewToDoc (new_canvas dot_canvas) (24, 24)\<rparr>)))))"
proof -
  obtain l where "ActiveLayer dot_canvas = Some l" using dot_stroke_facts(1) by blast
  then have "ActiveLayer (cDoc (new_canvas dot_canvas)) = Some l" by (simp add: new_canvas_def)
  from gesture_is_one_undo_step[OF this _ _ _ _ drags_pulse[OF drags_none]] show ?thesis
    by (simp add: MouseDown_def Let_def new_canvas_def)
qed

text \<open>
  The zoomed view and the document map onto each other, and the zoom stays between a quarter and
  four times.
\<close>

theorem view_and_document_convert:
  assumes "fZoom c \<noteq> 0"
  shows "ViewToDoc c (DocToView c p) = p \<and> DocToView c (ViewToDoc c p) = p
    \<and> 1 / 4 \<le> fZoom (SetZoom z c) \<and> fZoom (SetZoom z c) \<le> 4"
proof -
  have "ViewToDoc c (DocToView c p) = p" "DocToView c (ViewToDoc c p) = p"
    using assms by (cases p; simp add: ViewToDoc_def DocToView_def)+
  then show ?thesis by (auto simp: SetZoom_def Let_def)
qed

theorem view_and_document_convert_witness:
  "ViewToDoc (SetZoom 3 (new_canvas dot_canvas)) (DocToView (SetZoom 3 (new_canvas dot_canvas)) (1, 2)) = (1, 2)"
  using view_and_document_convert[of "SetZoom 3 (new_canvas dot_canvas)" "(1, 2)" 1]
  by (simp add: SetZoom_def new_canvas_def)

end
