(* ===== verification/Messages.thy ===== *)
theory Messages
  imports Prelude Complex_Main
begin

text \<open>
  The application kit's \<open>BMessage\<close> as the documents use it to store themselves: the fields a program
  added, in order. How a field is found again is the kit's, so it is a parameter \<open>field\<close> of every
  loading function: the n-th value added under a name. \<open>message_kit\<close> is what the kit documents of it.
\<close>

datatype fval =
    FBool bool
  | FInt8 int
  | FInt32 int
  | FFloat rat
  | FString string
  | FData "nat list"
  | FMessage "(string \<times> fval) list"

type_synonym message = "(string \<times> fval) list"

type_synonym lookup = "message \<Rightarrow> string \<Rightarrow> nat \<Rightarrow> fval option"

definition values_of :: "message \<Rightarrow> string \<Rightarrow> fval list" where
  "values_of m n = map snd (filter (\<lambda>f. fst f = n) m)"

definition message_kit :: "lookup \<Rightarrow> bool" where
  "message_kit field \<longleftrightarrow> (\<forall>m n k. field m n k =
     (if k < length (values_of m n) then Some (values_of m n ! k) else None))"

text \<open>The \<open>Find\<close> functions leave their argument alone when there is no such field of that type.\<close>

definition FindBool :: "lookup \<Rightarrow> message \<Rightarrow> string \<Rightarrow> bool \<Rightarrow> bool" where
  "FindBool field m n old = (case field m n 0 of Some (FBool b) \<Rightarrow> b | _ \<Rightarrow> old)"

definition FindInt8 :: "lookup \<Rightarrow> message \<Rightarrow> string \<Rightarrow> int \<Rightarrow> int" where
  "FindInt8 field m n old = (case field m n 0 of Some (FInt8 i) \<Rightarrow> i | _ \<Rightarrow> old)"

definition FindInt32 :: "lookup \<Rightarrow> message \<Rightarrow> string \<Rightarrow> int \<Rightarrow> int" where
  "FindInt32 field m n old = (case field m n 0 of Some (FInt32 i) \<Rightarrow> i | _ \<Rightarrow> old)"

definition FindFloat :: "lookup \<Rightarrow> message \<Rightarrow> string \<Rightarrow> rat \<Rightarrow> rat" where
  "FindFloat field m n old = (case field m n 0 of Some (FFloat r) \<Rightarrow> r | _ \<Rightarrow> old)"

definition FindString :: "lookup \<Rightarrow> message \<Rightarrow> string \<Rightarrow> string option" where
  "FindString field m n = (case field m n 0 of Some (FString s) \<Rightarrow> Some s | _ \<Rightarrow> None)"

definition FindData :: "lookup \<Rightarrow> message \<Rightarrow> string \<Rightarrow> nat list option" where
  "FindData field m n = (case field m n 0 of Some (FData bs) \<Rightarrow> Some bs | _ \<Rightarrow> None)"

definition FindMessage :: "lookup \<Rightarrow> message \<Rightarrow> string \<Rightarrow> nat \<Rightarrow> message option" where
  "FindMessage field m n k = (case field m n k of Some (FMessage m') \<Rightarrow> Some m' | _ \<Rightarrow> None)"

lemmas find_defs = FindBool_def FindInt8_def FindInt32_def FindFloat_def FindString_def FindData_def

lemma values_of_map_of: "values_of m n = [] \<longleftrightarrow> map_of m n = None" "map_of m n = Some v \<Longrightarrow> values_of m n ! 0 = v"
  by (induction m) (auto simp: values_of_def split: if_splits)

lemma kit_first:
  assumes "message_kit field"
  shows "field m n 0 = map_of m n"
proof (cases "map_of m n")
  case None
  then show ?thesis using assms values_of_map_of(1)[of m n] by (simp add: message_kit_def)
next
  case (Some v)
  then show ?thesis
    using assms values_of_map_of(1)[of m n] values_of_map_of(2)[OF Some] by (simp add: message_kit_def)
qed

lemma values_of_append [simp]: "values_of (m @ m') n = values_of m n @ values_of m' n"
  by (simp add: values_of_def)

lemma values_of_simps [simp]:
  "values_of [] n = []" "values_of ((n', v) # m) n = (if n' = n then v # values_of m n else values_of m n)"
  by (simp_all add: values_of_def)

lemma values_of_map [simp]:
  "values_of (map (\<lambda>x. (n', f x)) xs) n = (if n' = n then map f xs else [])"
  by (induction xs) (auto simp: values_of_def)

text \<open>The loop \<open>for (i = 0; FindMessage(name, i, &m) == B_OK; i++)\<close>; \<open>None\<close>: it does not end.\<close>

partial_function (option) for_messages :: "lookup \<Rightarrow> message \<Rightarrow> string \<Rightarrow> (message \<Rightarrow> 's \<Rightarrow> 's) \<Rightarrow> nat \<Rightarrow> 's \<Rightarrow> 's option" where
  "for_messages field m n body i s =
     (case FindMessage field m n i of None \<Rightarrow> Some s
      | Some m' \<Rightarrow> for_messages field m n body (i + 1) (body m' s))"

lemma for_messages_fold:
  assumes "message_kit field" and "values_of m n = map FMessage ms" and "i \<le> length ms"
  shows "for_messages field m n body i s = Some (fold body (drop i ms) s)"
  using assms(3)
proof (induction "length ms - i" arbitrary: i s)
  case 0
  then have "FindMessage field m n i = None"
    using assms(1,2) by (simp add: FindMessage_def message_kit_def)
  then show ?case using 0 by (subst for_messages.simps) simp
next
  case (Suc k)
  then have i: "i < length ms" by simp
  then have "FindMessage field m n i = Some (ms ! i)"
    using assms(1,2) by (simp add: FindMessage_def message_kit_def)
  moreover have "for_messages field m n body (i + 1) (body (ms ! i) s) = Some (fold body (drop (i + 1) ms) (body (ms ! i) s))"
    using Suc i by (intro Suc.hyps(1)) auto
  moreover have "fold body (drop i ms) s = fold body (drop (i + 1) ms) (body (ms ! i) s)"
    by (simp flip: Cons_nth_drop_Suc[OF i])
  ultimately show ?case by (subst for_messages.simps) simp
qed

text \<open>The loop ends whatever the message holds, and keeps what its body keeps.\<close>

lemma for_messages_total:
  assumes "message_kit field" and "P s" and "\<And>m' s. P s \<Longrightarrow> P (body m' s)"
  shows "\<exists>t. for_messages field m n body i s = Some t \<and> P t"
  using assms(2)
proof (induction "length (values_of m n) - i" arbitrary: i s rule: less_induct)
  case less
  show ?case
  proof (cases "FindMessage field m n i")
    case None
    then show ?thesis using less.prems by (subst for_messages.simps) simp
  next
    case (Some m')
    then have "i < length (values_of m n)"
      using assms(1) by (auto simp: FindMessage_def message_kit_def split: if_splits)
    then have "\<exists>t. for_messages field m n body (i + 1) (body m' s) = Some t \<and> P t"
      using less.prems by (intro less.hyps) (auto intro: assms(3))
    then show ?thesis using Some by (subst for_messages.simps) simp
  qed
qed

text \<open>The next free id, kept behind every id that was loaded.\<close>

definition next_after :: "int \<Rightarrow> int list \<Rightarrow> int" where
  "next_after n is = fold (\<lambda>i n. max n (i + 1)) is n"

lemma next_after_above: "n \<le> next_after n is \<and> (\<forall>i \<in> set is. i < next_after n is)"
  by (induction "is" arbitrary: n) (auto simp: next_after_def, (meson max.boundedE)+, fastforce)

text \<open>A lookup as the kit documents it, to instantiate the parameter.\<close>

definition nth_field :: lookup where
  "nth_field m n k = (if k < length (values_of m n) then Some (values_of m n ! k) else None)"

lemma message_kit_nth_field: "message_kit nth_field"
  by (simp add: message_kit_def nth_field_def)

end
