(* ===== verification/Recent.thy ===== *)
theory Recent
  imports Prelude
begin

text \<open>
  The Open Recent list, \<open>prosepaint/app/src/PPRecent.cpp\<close> (\<open>prosedraw/app/src/PDRecent.cpp\<close> is the same
  code): the list itself, and the file of one path per line. A read or a write that fails or comes
  back short is a value the caller meets.
\<close>

definition kMax :: nat where
  "kMax = 8"

text \<open>\<open>Remember\<close>: the first equal item goes, the path comes to the front.\<close>

definition Remember :: "string \<Rightarrow> string list \<Rightarrow> string list" where
  "Remember path items =
     (if path = [] then items
      else let items = path # remove1 path items in
        if length items > kMax then take kMax items else items)"

section \<open>The file\<close>

datatype recent_error = BadValue | ReadError nat | ReadFailed | WriteError nat | WriteFailed

text \<open>One answer of \<open>Read\<close>: an error, or bytes; no bytes at the end of the file.\<close>

type_synonym read_answer = "nat + string"

fun read_loop :: "nat \<Rightarrow> string \<Rightarrow> read_answer list \<Rightarrow> recent_error + string" where
  "read_loop n buffer [] = Inr buffer"
| "read_loop n buffer (a # as) =
     (if n \<le> length buffer then Inr buffer
      else case a of Inl e \<Rightarrow> Inl ReadFailed
      | Inr bytes \<Rightarrow> if bytes = [] then Inr buffer else read_loop n (buffer @ bytes) as)"

definition is_blank :: "char \<Rightarrow> bool" where
  "is_blank c \<longleftrightarrow> of_char c = (32 :: nat) \<or> (9 :: nat) \<le> of_char c \<and> of_char c \<le> (13 :: nat)"

definition Trim :: "string \<Rightarrow> string" where
  "Trim s = rev (dropWhile is_blank (rev (dropWhile is_blank s)))"

function recent_lines :: "string \<Rightarrow> string list" where
  "recent_lines s =
     (let line = Trim (takeWhile (\<lambda>c. c \<noteq> newline) s); rest = dropWhile (\<lambda>c. c \<noteq> newline) s;
          items = (if line = [] then [] else [line])
      in if rest = [] then items else items @ recent_lines (tl rest))"
  by auto
termination
proof (relation "measure length")
  fix s :: string and x xa xb
  assume x: "xa = dropWhile (\<lambda>c. c \<noteq> newline) s" "xa \<noteq> []"
  have "length xa \<le> length s" unfolding x(1) by (rule length_dropWhile_le)
  then show "(tl xa, s) \<in> measure length" using x(2) by (cases xa) auto
qed simp

declare recent_lines.simps [simp del]

text \<open>\<open>Load\<close>: \<open>opened\<close> is what \<open>SetTo\<close> answers and \<open>fsize\<close> what \<open>GetSize\<close> does; the list is cleared first.\<close>

definition Load :: "nat + unit \<Rightarrow> int \<Rightarrow> read_answer list \<Rightarrow> recent_error option \<times> string list" where
  "Load opened fsize reads =
     (case opened of Inl e \<Rightarrow> (Some (ReadError e), [])
      | Inr _ \<Rightarrow>
        if fsize \<le> 0 \<or> fsize > 64 * 1024 then (Some BadValue, [])
        else case read_loop (nat fsize) [] reads of Inl e \<Rightarrow> (Some e, [])
          | Inr s \<Rightarrow> (None, recent_lines s))"

text \<open>\<open>Save\<close>: what the file holds after the writes, each of them an error or a count.\<close>

fun write_line :: "string \<Rightarrow> (nat + nat) list \<Rightarrow> string \<Rightarrow> (recent_error option \<times> (nat + nat) list) \<times> string" where
  "write_line [] as out = ((None, as), out)"
| "write_line (c # line) [] out = ((Some WriteFailed, []), out)"
| "write_line (c # line) (Inl e # as) out = ((Some (WriteError e), as), out)"
| "write_line (c # line) (Inr n # as) out =
     (if n = 0 then ((Some WriteFailed, as), out)
      else write_line (drop n (c # line)) as (out @ take n (c # line)))"

fun save_items :: "string list \<Rightarrow> (nat + nat) list \<Rightarrow> string \<Rightarrow> recent_error option \<times> string" where
  "save_items [] as out = (None, out)"
| "save_items (item # items) as out =
     (case write_line (item @ [newline]) as out of
        ((None, as), out) \<Rightarrow> save_items items as out
      | ((Some e, as), out) \<Rightarrow> (Some e, out))"

definition Save :: "nat + unit \<Rightarrow> string list \<Rightarrow> (nat + nat) list \<Rightarrow> recent_error option \<times> string" where
  "Save opened items writes = (case opened of Inl e \<Rightarrow> (Some (WriteError e), [])
     | Inr _ \<Rightarrow> save_items items writes [])"

section \<open>The list\<close>

lemma set_remove1_distinct: "distinct xs \<Longrightarrow> set (remove1 x xs) = set xs - {x}"
  by (induction xs) auto

text \<open>
  \<open>Remember\<close> keeps the list what its header promises: the path comes first, the others follow in
  their order, no path is twice in it and at most eight are kept; the empty path changes nothing.
\<close>

theorem Remember_keeps_recent_first:
  assumes "distinct items" and "length items \<le> kMax"
  shows "distinct (Remember path items) \<and> length (Remember path items) \<le> kMax
    \<and> (path = [] \<longrightarrow> Remember path items = items)
    \<and> (path \<noteq> [] \<longrightarrow> Remember path items = take kMax (path # filter (\<lambda>p. p \<noteq> path) items))"
proof -
  have filter: "remove1 path items = filter (\<lambda>p. p \<noteq> path) items"
    using assms(1) distinct_remove1_removeAll[of items path] by (simp add: removeAll_filter_not_eq) metis
  have take: "(if length xs > kMax then take kMax xs else xs) = take kMax xs" for xs :: "string list"
    by simp
  show ?thesis
    using assms by (auto simp: Remember_def Let_def take filter)
qed

theorem Remember_keeps_recent_first_witness: "Remember ''b'' [''a'', ''b''] = [''b'', ''a'']"
  using Remember_keeps_recent_first[of "[''a'', ''b'']" "''b''"] by (simp add: kMax_def)

section \<open>The file round trip\<close>

definition path_kept :: "string \<Rightarrow> bool" where
  "path_kept p \<longleftrightarrow> p \<noteq> [] \<and> \<not> is_blank (hd p) \<and> \<not> is_blank (last p) \<and> newline \<notin> set p"

lemma Trim_kept: "path_kept p \<Longrightarrow> Trim p = p"
proof -
  have keep: "dropWhile is_blank xs = xs" if "xs \<noteq> []" "\<not> is_blank (hd xs)" for xs
    using that by (cases xs) auto
  show "path_kept p \<Longrightarrow> Trim p = p"
    by (simp add: Trim_def path_kept_def keep hd_rev)
qed

lemma recent_lines_line:
  assumes "newline \<notin> set line"
  shows "recent_lines (line @ newline # rest) = (if Trim line = [] then [] else [Trim line]) @ recent_lines rest"
proof -
  have "takeWhile (\<lambda>c. c \<noteq> newline) (line @ newline # rest) = line"
      "dropWhile (\<lambda>c. c \<noteq> newline) (line @ newline # rest) = newline # rest"
    using assms by (auto simp: takeWhile_append dropWhile_append)
  then show ?thesis by (subst recent_lines.simps) (simp add: Let_def)
qed

lemma recent_lines_items:
  assumes "\<forall>p \<in> set items. path_kept p"
  shows "recent_lines (concat (map (\<lambda>p. p @ [newline]) items)) = items"
  using assms
proof (induction items)
  case Nil
  show ?case by (subst recent_lines.simps) (simp add: Trim_def)
next
  case (Cons p items)
  then show ?case by (simp add: recent_lines_line Trim_kept path_kept_def)
qed

lemma write_line_ok:
  "fst (fst (write_line line as out)) = None \<Longrightarrow> snd (write_line line as out) = out @ line"
  by (induction line as out rule: write_line.induct) (auto split: if_splits simp del: drop_Suc_Cons take_Suc_Cons)

lemma save_items_ok:
  "fst (save_items items as out) = None
    \<Longrightarrow> snd (save_items items as out) = out @ concat (map (\<lambda>p. p @ [newline]) items)"
proof (induction items arbitrary: "as" out)
  case (Cons p items)
  then show ?case
    using write_line_ok[of "p @ [newline]" "as" out]
    by (auto split: prod.splits option.splits)
qed simp

lemma read_loop_whole:
  assumes "concat chunks = drop (length buffer) s" and "buffer = take (length buffer) s" and "[] \<notin> set chunks"
  shows "read_loop (length s) buffer (map Inr chunks) = Inr s"
  using assms
proof (induction chunks arbitrary: buffer)
  case (Cons c cs)
  have len: "length buffer \<le> length s" using Cons.prems(2) by (metis length_take min.cobounded2 min.commute)
  have s: "s = buffer @ c @ concat cs" using Cons.prems(1,2) by (metis append_take_drop_id concat.simps(2))
  have "c \<noteq> []" using Cons.prems(3) by auto
  moreover have "read_loop (length s) (buffer @ c) (map Inr cs) = Inr s"
    by (rule Cons.IH) (use s Cons.prems(3) in auto)
  ultimately show ?case using s by auto
qed simp

text \<open>
  A list that \<open>Save\<close> wrote without an error comes back from \<open>Load\<close> as it was, however the writes
  and the reads are cut: when no path starts or ends with a blank or holds a newline, and the file
  has at most 64 KiB.
\<close>

theorem Load_Save:
  assumes "\<forall>p \<in> set items. path_kept p" and "items \<noteq> []"
    and "Save (Inr ()) items writes = (None, disk)" and "length disk \<le> 64 * 1024"
    and "concat chunks = disk" and "[] \<notin> set chunks"
  shows "Load (Inr ()) (int (length disk)) (map Inr chunks) = (None, items)"
proof -
  have disk: "disk = concat (map (\<lambda>p. p @ [newline]) items)"
    using save_items_ok[of items writes "[]"] assms(3) by (simp add: Save_def)
  have "disk \<noteq> []" using assms(2) by (cases items) (simp_all add: disk)
  moreover have "read_loop (length disk) [] (map Inr chunks) = Inr disk"
    using read_loop_whole[of chunks "[]" disk] assms(5,6) by simp
  ultimately show ?thesis
    using assms(4) recent_lines_items[OF assms(1)] by (simp add: Load_def disk)
qed

theorem Load_Save_witness:
  "Load (Inr ()) 5 [Inr ''/a'', Inr [newline, CHR ''b'', newline]] = (None, [''/a'', ''b''])"
proof -
  have "Save (Inr ()) [''/a'', ''b''] [Inr 1, Inr 9, Inr 2] = (None, ''/a'' @ [newline, CHR ''b'', newline])"
    by (simp add: Save_def)
  from Load_Save[OF _ _ this, of "[''/a'', [newline, CHR ''b'', newline]]"] show ?thesis
    by (simp add: path_kept_def is_blank_def newline_def)
qed

text \<open>
  \<open>Load\<close> does not keep the list's promises: a path that ends with a blank comes back without it,
  and a file with more lines than eight, or the same line twice, gives such a list.
\<close>

theorem Load_trims_and_does_not_cap:
  "Save (Inr ()) [''/a ''] [Inr 4] = (None, ''/a '' @ [newline])
   \<and> Load (Inr ()) 4 [Inr (''/a '' @ [newline])] = (None, [''/a''])
   \<and> Load (Inr ()) 18 [Inr (concat (replicate 9 (''a'' @ [newline])))] = (None, replicate 9 ''a'')"
proof -
  have facts: "recent_lines [] = []" "Trim ''/a '' = ''/a''" "Trim ''a'' = ''a''" "newline \<notin> set ''/a ''" "newline \<notin> set ''a''"
    by (subst recent_lines.simps, simp add: Trim_def) (simp_all add: Trim_def is_blank_def newline_def)
  have "recent_lines (''/a '' @ newline # []) = [''/a'']"
    by (subst recent_lines_line[OF facts(4)]) (simp only: facts, simp)
  moreover have "recent_lines (concat (replicate n (''a'' @ [newline]))) = replicate n ''a''" for n
  proof (induction n)
    case (Suc n)
    have "concat (replicate (Suc n) (''a'' @ [newline])) = ''a'' @ newline # concat (replicate n (''a'' @ [newline]))"
      by simp
    then have "recent_lines (concat (replicate (Suc n) (''a'' @ [newline])))
        = [''a''] @ recent_lines (concat (replicate n (''a'' @ [newline])))"
      using recent_lines_line[OF facts(5)] by (simp only: facts) simp
    then show ?case by (simp only: Suc) simp
  qed (simp add: facts)
  ultimately show ?thesis
    by (simp add: Save_def Load_def)
qed

end
