(* ===== verification/DocumentFiles.thy ===== *)
theory DocumentFiles
  imports Recent
begin

text \<open>
  How the drawing and the painting reach the disk: \<open>SaveToFile\<close> and \<open>LoadFromFile\<close> of
  \<open>prosedraw/app/src/PDDocument.cpp\<close> and \<open>prosepaint/app/src/PPDocument.cpp\<close>, which differ in the
  suffix of the file beside and in the largest file they read. The file system is a map from paths
  to contents, what each call of the storage kit answers is part of the environment, and the
  flattened message is a string of bytes.
\<close>

datatype status = B_OK | B_ERROR | B_BAD_VALUE | B_NO_MEMORY | Errno nat

type_synonym files = "string \<Rightarrow> string option"

record save_env =
  buffer_there :: bool
  create_answer :: "nat option"
  write_answers :: "(nat + nat) list"
  sync_answer :: "nat option"
  entry_answer :: "nat option"
  rename_answer :: "nat option"
  corpse_found :: bool
  remove_done :: bool

definition answer :: "nat option \<Rightarrow> status" where
  "answer a = (case a of None \<Rightarrow> B_OK | Some e \<Rightarrow> Errno e)"

text \<open>The loop of writes: what is left, what \<open>Write\<close> answers, and what the file holds.\<close>

fun write_all :: "string \<Rightarrow> (nat + nat) list \<Rightarrow> string \<Rightarrow> status \<times> string" where
  "write_all [] as out = (B_OK, out)"
| "write_all (c # cs) [] out = (B_ERROR, out)"
| "write_all (c # cs) (Inl e # as) out = (Errno e, out)"
| "write_all (c # cs) (Inr n # as) out =
     (if n = 0 then (B_ERROR, out) else write_all (drop n (c # cs)) as (out @ take n (c # cs)))"

definition write_beside :: "string \<Rightarrow> string \<Rightarrow> save_env \<Rightarrow> files \<Rightarrow> status \<times> files" where
  "write_beside tmp bytes env fs =
     (if answer (create_answer env) \<noteq> B_OK then (answer (create_answer env), fs)
      else let (err, out) = write_all bytes (write_answers env) [] in
        (if err = B_OK then answer (sync_answer env) else err, fs(tmp \<mapsto> out)))"

definition rename_over :: "string \<Rightarrow> string \<Rightarrow> save_env \<Rightarrow> files \<Rightarrow> status \<times> files" where
  "rename_over tmp path env fs =
     (if answer (entry_answer env) \<noteq> B_OK then (answer (entry_answer env), fs)
      else if answer (rename_answer env) \<noteq> B_OK then (answer (rename_answer env), fs)
      else (B_OK, fs(path := fs tmp, tmp := None)))"

text \<open>\<open>saved\<close> is the answer of \<open>SaveToMessage\<close>, \<open>flattened\<close> that of \<open>Flatten\<close>.\<close>

definition SaveToFile :: "string \<Rightarrow> status \<Rightarrow> nat + string \<Rightarrow> string \<Rightarrow> save_env \<Rightarrow> files \<Rightarrow> status \<times> files" where
  "SaveToFile suffix saved flattened path env fs =
     (if saved \<noteq> B_OK then (saved, fs)
      else if \<not> buffer_there env then (B_NO_MEMORY, fs)
      else case flattened of Inl e \<Rightarrow> (Errno e, fs)
      | Inr bytes \<Rightarrow>
          let tmp = path @ suffix; (err, fs) = write_beside tmp bytes env fs;
              (err, fs) = (if err = B_OK then rename_over tmp path env fs else (err, fs))
          in (err, if err \<noteq> B_OK \<and> corpse_found env \<and> remove_done env then fs(tmp := None) else fs))"

record load_env =
  open_answer :: "nat option"
  file_size :: int
  room_there :: bool
  read_answers :: "read_answer list"

definition LoadFromFile :: "int \<Rightarrow> (string \<Rightarrow> nat + 'm) \<Rightarrow> ('m \<Rightarrow> 'd \<Rightarrow> status \<times> 'd) \<Rightarrow> load_env \<Rightarrow> 'd \<Rightarrow> status \<times> 'd" where
  "LoadFromFile limit unflatten load env d =
     (if answer (open_answer env) \<noteq> B_OK then (answer (open_answer env), d)
      else if file_size env \<le> 0 \<or> file_size env > limit then (B_BAD_VALUE, d)
      else if \<not> room_there env then (B_NO_MEMORY, d)
      else case read_loop (nat (file_size env)) [] (read_answers env) of Inl e \<Rightarrow> (B_ERROR, d)
        | Inr bytes \<Rightarrow> if length bytes < 4 then (B_ERROR, d)
            else case unflatten bytes of Inl e \<Rightarrow> (Errno e, d) | Inr m \<Rightarrow> load m d)"

lemma answer_ok [simp]: "answer a = B_OK \<longleftrightarrow> a = None"
  by (simp add: answer_def split: option.split)

lemma write_all_ok: "fst (write_all bytes as out) = B_OK \<Longrightarrow> snd (write_all bytes as out) = out @ bytes"
  by (induction bytes "as" out rule: write_all.induct) (auto split: if_splits simp del: drop_Suc_Cons take_Suc_Cons)

text \<open>
  C19 Saving is atomic: whatever fails, the file either keeps its old contents or holds the whole new
  ones, the new ones exactly when \<open>B_OK\<close> is returned; no file other than it and the one beside it is
  touched, and the one beside is gone after a success, and after a failure whenever it can be removed.
\<close>

theorem SaveToFile_is_atomic:
  assumes "SaveToFile suffix B_OK (Inr bytes) path env fs = (err, fs')" and "suffix \<noteq> []"
  shows "(if err = B_OK then fs' path = Some bytes \<and> fs' (path @ suffix) = None else fs' path = fs path)
    \<and> (\<forall>p. p \<noteq> path \<and> p \<noteq> path @ suffix \<longrightarrow> fs' p = fs p)
    \<and> (buffer_there env \<and> corpse_found env \<and> remove_done env \<longrightarrow> fs' (path @ suffix) = None)"
proof (cases "buffer_there env \<and> create_answer env = None")
  case False
  then show ?thesis
    using assms by (auto simp: SaveToFile_def write_beside_def Let_def answer_def split: if_splits option.splits)
next
  case True
  obtain werr out where w: "write_all bytes (write_answers env) [] = (werr, out)" by (cases "write_all bytes (write_answers env) []")
  have whole: "werr = B_OK \<Longrightarrow> out = bytes" using write_all_ok[of bytes "write_answers env" "[]"] w by simp
  define fs1 where "fs1 = fs(path @ suffix \<mapsto> out)"
  have beside: "write_beside (path @ suffix) bytes env fs = (if werr = B_OK then answer (sync_answer env) else werr, fs1)"
    using True by (simp add: write_beside_def w fs1_def)
  show ?thesis
  proof (cases "werr = B_OK \<and> sync_answer env = None \<and> entry_answer env = None \<and> rename_answer env = None")
    case fine: True
    then have "rename_over (path @ suffix) path env fs1 = (B_OK, fs1(path := fs1 (path @ suffix), path @ suffix := None))"
      by (simp add: rename_over_def)
    then have "err = B_OK" "fs' = fs1(path := fs1 (path @ suffix), path @ suffix := None)"
      using assms(1) True beside fine by (simp_all add: SaveToFile_def Let_def answer_def)
    then show ?thesis using assms(2) whole fine by (simp add: fs1_def)
  next
    case bad: False
    have "err \<noteq> B_OK \<and> fs' = (if corpse_found env \<and> remove_done env then fs1(path @ suffix := None) else fs1)"
    proof (cases "werr = B_OK \<and> sync_answer env = None")
      case wrote: True
      then have "fst (rename_over (path @ suffix) path env fs1) \<noteq> B_OK" "snd (rename_over (path @ suffix) path env fs1) = fs1"
        using bad by (auto simp: rename_over_def)
      then show ?thesis
        using assms(1) True beside wrote
        by (cases "rename_over (path @ suffix) path env fs1") (auto simp: SaveToFile_def Let_def answer_def split: if_splits)
    next
      case False
      then have "(if werr = B_OK then answer (sync_answer env) else werr) \<noteq> B_OK" by auto
      then show ?thesis
        using assms(1) True beside by (auto simp: SaveToFile_def Let_def split: if_splits)
    qed
    then show ?thesis using assms(2) by (auto simp: fs1_def)
  qed
qed

definition failing_write :: save_env where
  "failing_write = \<lparr>buffer_there = True, create_answer = None, write_answers = [Inr 2, Inl 5],
      sync_answer = None, entry_answer = None, rename_answer = None, corpse_found = True, remove_done = True\<rparr>"

theorem SaveToFile_is_atomic_witness:
  "\<exists>fs'. SaveToFile ''.pdtmp'' B_OK (Inr ''new'') ''/d'' failing_write [''/d'' \<mapsto> ''old''] = (Errno 5, fs') \<and> fs' ''/d'' = Some ''old''"
proof -
  obtain err fs' where r: "SaveToFile ''.pdtmp'' B_OK (Inr ''new'') ''/d'' failing_write [''/d'' \<mapsto> ''old''] = (err, fs')"
    by (cases "SaveToFile ''.pdtmp'' B_OK (Inr ''new'') ''/d'' failing_write [''/d'' \<mapsto> ''old'']")
  moreover have "err = Errno 5"
    using r by (simp add: SaveToFile_def write_beside_def failing_write_def answer_def)
  ultimately show ?thesis
    using SaveToFile_is_atomic[OF r] by simp
qed

text \<open>
  What was saved is what is loaded: when \<open>SaveToFile\<close> answered \<open>B_OK\<close> and the reads bring the file,
  in whatever pieces, the message it was flattened from is the one that is loaded.
\<close>

lemma LoadFromFile_SaveToFile:
  assumes "SaveToFile suffix B_OK (Inr bytes) path senv fs = (B_OK, fs')" and "suffix \<noteq> []"
    and "unflatten bytes = Inr m" and "4 \<le> length bytes" and "int (length bytes) \<le> limit"
    and "fs' path = Some (concat chunks)" and "[] \<notin> set chunks"
    and "open_answer lenv = None" and "file_size lenv = int (length (the (fs' path)))" and "room_there lenv"
    and "read_answers lenv = map Inr chunks"
  shows "LoadFromFile limit unflatten load lenv d = load m d"
proof -
  have "write_all bytes (write_answers senv) [] = (B_OK, bytes) \<and> fs' path = Some bytes"
    using assms(1,2) write_all_ok[of bytes "write_answers senv" "[]"]
    by (auto simp: SaveToFile_def write_beside_def rename_over_def Let_def split: if_splits prod.splits)
  then have chunks: "concat chunks = bytes" "fs' path = Some bytes" using assms(6) by auto
  have "read_loop (length bytes) [] (map Inr chunks) = Inr bytes"
    using read_loop_whole[of chunks "[]" bytes] chunks(1) assms(7) by simp
  moreover have "bytes \<noteq> []" using assms(4) by auto
  moreover have "file_size lenv = int (length bytes)" using assms(9) chunks(2) by simp
  ultimately show ?thesis
    using assms(3-5,8,10,11) by (simp add: LoadFromFile_def)
qed

text \<open>A run of the two in which every call succeeds, the writes and the reads in two pieces.\<close>

definition fine_save :: save_env where
  "fine_save = failing_write\<lparr>write_answers := [Inr 2, Inr 9]\<rparr>"

definition fine_load :: "string list \<Rightarrow> load_env" where
  "fine_load chunks = \<lparr>open_answer = None, file_size = int (length (concat chunks)), room_there = True,
     read_answers = map Inr chunks\<rparr>"

text \<open>\<open>SaveToFile\<close> has no limit of its own: what is saved beyond the limit of \<open>LoadFromFile\<close> is refused.\<close>

lemma LoadFromFile_saved:
  assumes "SaveToFile suffix B_OK (Inr bytes) path senv fs = (B_OK, fs')" and "unflatten bytes = Inr m" and "4 \<le> length bytes"
    and "fs' path = Some (concat chunks)" and "[] \<notin> set chunks" and "suffix \<noteq> []"
  shows "LoadFromFile limit unflatten load (fine_load chunks) d
    = (if int (length bytes) \<le> limit then load m d else (B_BAD_VALUE, d))"
proof (cases "int (length bytes) \<le> limit")
  case True
  then show ?thesis
    using assms by (subst LoadFromFile_SaveToFile[where chunks = chunks, OF assms(1)]) (simp_all add: fine_load_def)
next
  case False
  have "fs' path = Some bytes"
    using assms(1,6) write_all_ok[of bytes "write_answers senv" "[]"]
    by (auto simp: SaveToFile_def write_beside_def rename_over_def Let_def split: if_splits prod.splits)
  then have "concat chunks = bytes" using assms(4) by simp
  then show ?thesis using False by (simp add: LoadFromFile_def fine_load_def)
qed

lemma fine_save_saves:
  assumes "length bytes \<le> 11"
  shows "\<exists>fs'. SaveToFile suffix B_OK (Inr bytes) path fine_save fs = (B_OK, fs') \<and> (suffix \<noteq> [] \<longrightarrow> fs' path = Some bytes)"
proof -
  have "write_all bytes [Inr 2, Inr 9] [] = (B_OK, bytes)"
  proof (cases "length bytes \<le> 2")
    case True
    then show ?thesis by (cases bytes) auto
  next
    case False
    then obtain a b c rest where "bytes = a # b # c # rest"
      by (metis Suc_le_length_iff le_zero_eq length_0_conv nat_le_linear numeral_2_eq_2 not_less_eq_eq list.exhaust)
    then show ?thesis using assms by simp
  qed
  then show ?thesis
    by (simp add: fine_save_def failing_write_def SaveToFile_def write_beside_def rename_over_def)
qed

section \<open>What kind of file it is\<close>

datatype doc_kind = KIND_ERROR | KIND_NATIVE | KIND_OTHER

text \<open>The first eight bytes: the flattened message's magic and the program's own code.\<close>

definition SniffDocument :: "string \<Rightarrow> (nat + string) \<Rightarrow> doc_kind" where
  "SniffDocument code opened =
     (case opened of Inl e \<Rightarrow> KIND_ERROR
      | Inr bytes \<Rightarrow> let head = take 8 bytes in
          if length head \<ge> 8 \<and> take 4 head = ''HMF1'' \<and> take 4 (drop 4 head) = code then KIND_NATIVE else KIND_OTHER)"

text \<open>The two programs do not take each other's files for their own.\<close>

lemma sniff_apart:
  "SniffDocument ''&dDp'' f = KIND_NATIVE \<Longrightarrow> SniffDocument ''&tPp'' f = KIND_OTHER"
  by (auto simp: SniffDocument_def Let_def split: sum.splits if_splits)

end
