(* ===== verification/PaintFile.thy ===== *)
theory PaintFile
  imports PaintState Messages DocumentFiles
begin

text \<open>
  How ProsePaint stores a painting, \<open>Flate\<close> to \<open>LoadFromFile\<close> in \<open>prosepaint/app/src/PPDocument.cpp\<close>:
  the fields of the message, every layer's bytes compressed. The message kit's lookup \<open>field\<close> and zlib's
  \<open>compress2\<close> and \<open>uncompress\<close> are parameters; \<open>ok\<close> says whether the bitmap for a layer's message can be
  allocated. A row of a 32 bit bitmap takes four bytes a pixel.
\<close>

section \<open>The bytes of a layer\<close>

definition pixel_bytes :: "pixel \<Rightarrow> nat list" where
  "pixel_bytes p = [blue p, green p, red p, alpha p]"

definition Bits :: "int \<Rightarrow> int \<Rightarrow> bitmap \<Rightarrow> nat list" where
  "Bits w h b = concat (map pixel_bytes (read_rect (Rect 0 0 (w - 1) (h - 1)) b))"

definition picture :: "int \<Rightarrow> int \<Rightarrow> nat list \<Rightarrow> bitmap" where
  "picture w h bs = (\<lambda>(x, y). if on_canvas w h (x, y)
     then let i = nat (y * w + x) * 4 in Px (bs ! i) (bs ! (i + 1)) (bs ! (i + 2)) (bs ! (i + 3)) else clear)"

text \<open>\<open>Unflate\<close>: what \<open>uncompress\<close> puts into a bitmap of so many bytes, if it fills it.\<close>

definition Unflate :: "(nat list \<Rightarrow> nat \<Rightarrow> nat list option) \<Rightarrow> nat list \<Rightarrow> nat \<Rightarrow> nat list option" where
  "Unflate uncompress src room =
     (case uncompress src room of None \<Rightarrow> None | Some bs \<Rightarrow> if length bs = room then Some bs else None)"

text \<open>What zlib documents: what was compressed is what is uncompressed, when there is room for it.\<close>

definition zlib_kit :: "(nat list \<Rightarrow> nat list option) \<Rightarrow> (nat list \<Rightarrow> nat \<Rightarrow> nat list option) \<Rightarrow> bool" where
  "zlib_kit compress uncompress \<longleftrightarrow>
     (\<forall>bs z n. compress bs = Some z \<longrightarrow> length bs \<le> n \<longrightarrow> uncompress z n = Some bs)"

section \<open>Saving\<close>

fun layer_fields :: "(nat list \<Rightarrow> nat list option) \<Rightarrow> int \<Rightarrow> layer list \<Rightarrow> message option" where
  "layer_fields compress h [] = Some []"
| "layer_fields compress h (l # ls) =
     (let w = surface_w (layer_bits l) in
      case compress (Bits w h (surface_bits (layer_bits l))) of None \<Rightarrow> None
      | Some flat \<Rightarrow> map_option (\<lambda>fs. (''layer'', FMessage
            [(''id'', FInt32 (layer_id l)), (''name'', FString (layer_name l)), (''vis'', FBool (layer_visible l)),
             (''opa'', FInt32 (int (layer_opacity l))), (''bits'', FData flat), (''bpr'', FInt32 (w * 4))]) # fs)
          (layer_fields compress h ls))"

text \<open>
  What \<open>AddString\<close> reads through the pointer to the paper's name. \<open>stale\<close> is what the memory holds where
  a message was that has gone: nothing is known of it.
\<close>

fun read_name :: "string \<Rightarrow> c_string \<Rightarrow> string" where
  "read_name stale (Literal s) = s"
| "read_name stale (InMessage s) = s"
| "read_name stale Dangling = stale"

text \<open>\<open>None\<close>: \<open>B_ERROR\<close>.\<close>

definition SaveToMessage :: "(nat list \<Rightarrow> nat list option) \<Rightarrow> string \<Rightarrow> document \<Rightarrow> message option" where
  "SaveToMessage compress stale d = map_option (\<lambda>layers.
     [(''w'', FInt32 (fWidth d)), (''h'', FInt32 (fHeight d)), (''dpi'', FFloat (fDPI d)),
      (''paper'', FString (read_name stale (paper_name (fPaper d)))), (''pw'', FFloat (paper_width (fPaper d))),
      (''ph'', FFloat (paper_height (fPaper d)))] @ layers) (layer_fields compress (fHeight d) (fLayers d))"

section \<open>Loading\<close>

definition load_layer ::
    "lookup \<Rightarrow> (nat list \<Rightarrow> nat \<Rightarrow> nat list option) \<Rightarrow> (message \<Rightarrow> bool) \<Rightarrow> int \<Rightarrow> int \<Rightarrow> message \<Rightarrow> document \<Rightarrow> document" where
  "load_layer field uncompress ok w h m d =
     (let i = FindInt32 field m ''id'' 0;
          name = (case FindString field m ''name'' of Some s \<Rightarrow> s | None \<Rightarrow> []);
          opa = nat (FindInt32 field m ''opa'' 255 mod 256)
      in case FindData field m ''bits'' of None \<Rightarrow> d
         | Some data \<Rightarrow>
             if FindInt32 field m ''bpr'' 0 < w * 4 then d
             else if \<not> ok m then d
             else case Unflate uncompress data (nat (w * 4 * h)) of None \<Rightarrow> d
               | Some bs \<Rightarrow> d\<lparr>fLayers := fLayers d @ [\<lparr>layer_id = i, layer_name = name,
                     layer_visible = FindBool field m ''vis'' True, layer_opacity = opa,
                     layer_bits = Surface w h (picture w h bs)\<rparr>],
                   fNextLayerId := max (fNextLayerId d) (i + 1)\<rparr>)"

text \<open>The canvas of the message, with no layer yet. The paper's name points into the message.\<close>

definition load_canvas :: "lookup \<Rightarrow> message \<Rightarrow> int \<Rightarrow> int \<Rightarrow> document \<Rightarrow> document" where
  "load_canvas field m w h d =
     (let dpi = FindFloat field m ''dpi'' (fDPI d);
          dpi = (if dpi < 12 then 96 else dpi);
          pw = FindFloat field m ''pw'' (paper_width (fPaper d));
          ph = FindFloat field m ''ph'' (paper_height (fPaper d))
      in d\<lparr>fWidth := w, fHeight := h, fDPI := dpi,
           fPaper := \<lparr>paper_name = (case FindString field m ''paper'' of Some s \<Rightarrow> InMessage s | None \<Rightarrow> paper_name (fPaper d)),
                      paper_width = (if pw \<le> 0 then of_int w * 72 / dpi else pw),
                      paper_height = (if ph \<le> 0 then of_int h * 72 / dpi else ph)\<rparr>,
           fLayers := [], fUndo := [], fRedo := [], fNextLayerId := 1\<rparr>)"

text \<open>\<open>None\<close>: the loop over the layers does not end.\<close>

definition LoadFromMessage ::
    "lookup \<Rightarrow> (nat list \<Rightarrow> nat \<Rightarrow> nat list option) \<Rightarrow> (message \<Rightarrow> bool) \<Rightarrow> message \<Rightarrow> document \<Rightarrow> (status \<times> document) option" where
  "LoadFromMessage field uncompress ok m d =
     (let w = FindInt32 field m ''w'' 0; h = FindInt32 field m ''h'' 0 in
      if w < 1 \<or> h < 1 \<or> w > 8192 \<or> h > 8192 then Some (B_BAD_VALUE, d)
      else case for_messages field m ''layer'' (load_layer field uncompress ok w h) 0 (load_canvas field m w h d) of
          None \<Rightarrow> None
        | Some d \<Rightarrow> if fLayers d = [] then Some (B_ERROR, d)
            else Some (B_OK, (MarkDirty (canvas_rect d) (d\<lparr>fActiveId := layer_id (last (fLayers d))\<rparr>))
                               \<lparr>fModified := False\<rparr>))"

text \<open>
  \<open>SaveToFile\<close> and \<open>LoadFromFile\<close>; \<open>Flatten\<close> and \<open>Unflatten\<close> are the message kit's. The document that
  is loaded into is \<open>None\<close> where the loop does not end. The message is a local of \<open>LoadFromFile\<close>: with
  its end the paper's name points to nothing.
\<close>

definition message_gone :: "document \<Rightarrow> document" where
  "message_gone d = d\<lparr>fPaper := (fPaper d)\<lparr>paper_name :=
     (case paper_name (fPaper d) of InMessage s \<Rightarrow> Dangling | name \<Rightarrow> name)\<rparr>\<rparr>"

definition SavePainting ::
    "(nat list \<Rightarrow> nat list option) \<Rightarrow> string \<Rightarrow> (message \<Rightarrow> nat + string) \<Rightarrow> string \<Rightarrow> save_env \<Rightarrow> files \<Rightarrow> document \<Rightarrow> status \<times> files" where
  "SavePainting compress stale Flatten path env fs d =
     (case SaveToMessage compress stale d of None \<Rightarrow> SaveToFile ''.pptmp'' B_ERROR (Inr []) path env fs
      | Some m \<Rightarrow> SaveToFile ''.pptmp'' B_OK (Flatten m) path env fs)"

definition LoadPainting ::
    "lookup \<Rightarrow> (nat list \<Rightarrow> nat \<Rightarrow> nat list option) \<Rightarrow> (message \<Rightarrow> bool) \<Rightarrow> (string \<Rightarrow> nat + message) \<Rightarrow> load_env
      \<Rightarrow> document \<Rightarrow> status \<times> document option" where
  "LoadPainting field uncompress ok Unflatten env d = LoadFromFile (256 * 1024 * 1024) Unflatten
     (\<lambda>m d. case Option.bind d (LoadFromMessage field uncompress ok m) of
        Some (err, d) \<Rightarrow> (err, Some (message_gone d)) | None \<Rightarrow> (B_OK, None)) env (Some d)"

section \<open>Bytes and pictures\<close>

lemma length_pixel_bytes [simp]: "length (concat (map pixel_bytes ps)) = length ps * 4"
  by (induction ps) (auto simp: pixel_bytes_def)

lemma length_Bits: "0 \<le> w \<Longrightarrow> 0 \<le> h \<Longrightarrow> length (Bits w h b) = nat (w * 4 * h)"
proof -
  assume wh: "0 \<le> w" "0 \<le> h"
  have "length (read_rect (Rect 0 0 (w - 1) (h - 1)) b) = nat h * nat w"
    using wh by (simp add: read_rect_def length_concat comp_def sum_list_triv)
  then show ?thesis using wh by (simp add: Bits_def nat_mult_distrib)
qed

lemma picture_Bits:
  assumes "on_canvas w h (x, y)"
  shows "picture w h (Bits w h b) (x, y) = b (x, y)"
proof -
  let ?r = "Rect 0 0 (w - 1) (h - 1)"
  define i where "i = nat (y * w + x)"
  have inside: "rect_has ?r x y" using assms by (auto simp: on_canvas_def rect_has_def)
  have "read_rect ?r b ! i = b (x, y)"
    using nth_read_rect[OF inside, of b] by (simp add: i_def rect_width_def)
  moreover have "i < length (read_rect ?r b)"
  proof -
    have xy: "0 \<le> x" "x < w" "0 \<le> y" "y < h" using assms by (simp_all add: on_canvas_def)
    have "y * w \<le> (h - 1) * w" using xy by (intro mult_right_mono) simp_all
    then have "y * w + x < h * w" using xy by (simp add: left_diff_distrib)
    moreover have "nat h * nat w = nat (h * w)" using xy by (simp add: nat_mult_distrib)
    ultimately have "i < nat h * nat w" using xy by (simp add: i_def)
    then show ?thesis by (simp add: read_rect_def length_concat comp_def sum_list_triv)
  qed
  ultimately have "Bits w h b ! (i * 4 + m) = pixel_bytes (b (x, y)) ! m" if "m < 4" for m
    unfolding Bits_def using that by (subst nth_concat_rows[where k = 4]) (auto simp: pixel_bytes_def)
  from this[of 0] this[of 1] this[of 2] this[of 3] show ?thesis
    using assms by (cases "b (x, y)") (simp add: picture_def i_def[symmetric] Let_def pixel_bytes_def)
qed

section \<open>What a load answers\<close>

definition fits :: "int \<Rightarrow> int \<Rightarrow> document \<Rightarrow> bool" where
  "fits w h d \<longleftrightarrow> fWidth d = w \<and> fHeight d = h \<and> fUndo d = [] \<and> fRedo d = []
     \<and> (\<forall>l \<in> set (fLayers d). surface_w (layer_bits l) = w \<and> surface_h (layer_bits l) = h
          \<and> layer_opacity l < 256 \<and> layer_id l < fNextLayerId d)"

lemma load_layer_fits: "fits w h d \<Longrightarrow> fits w h (load_layer field uncompress ok w h m d)"
  by (auto simp: fits_def load_layer_def Let_def split: option.split)

text \<open>
  Loading a message always ends. When it answers \<open>B_OK\<close> the painting has a canvas of at most 8192
  by 8192 and at least one layer, every layer has the size of the canvas, an opacity of a byte and an id
  below the next one, the top layer is active, the history is empty and the whole canvas is to be
  composited; \<open>B_BAD_VALUE\<close> leaves the document as it was; with \<open>B_ERROR\<close> no layer is left.
\<close>

theorem LoadFromMessage_answers:
  assumes "message_kit field"
  shows "\<exists>err e. LoadFromMessage field uncompress ok m d = Some (err, e) \<and> err \<in> {B_OK, B_BAD_VALUE, B_ERROR}
    \<and> (err = B_OK \<longrightarrow> fWidth e \<in> {1..8192} \<and> fHeight e \<in> {1..8192} \<and> fits (fWidth e) (fHeight e) e
         \<and> fLayers e \<noteq> [] \<and> fActiveId e = layer_id (last (fLayers e)) \<and> fCompositeDirty e \<and> \<not> fModified e)
    \<and> (err = B_BAD_VALUE \<longrightarrow> e = d)
    \<and> (err = B_ERROR \<longrightarrow> fLayers e = [] \<and> fUndo e = [] \<and> fRedo e = [])"
proof -
  define w h where "w = FindInt32 field m ''w'' 0" and "h = FindInt32 field m ''h'' 0"
  show ?thesis
  proof (cases "w < 1 \<or> h < 1 \<or> w > 8192 \<or> h > 8192")
    case True
    then show ?thesis by (auto simp: LoadFromMessage_def w_def h_def)
  next
    case False
    have "fits w h (load_canvas field m w h d)" by (simp add: fits_def load_canvas_def Let_def)
    then obtain t where t: "for_messages field m ''layer'' (load_layer field uncompress ok w h) 0 (load_canvas field m w h d) = Some t" "fits w h t"
      using for_messages_total[OF assms, of "fits w h"] load_layer_fits by blast
    have "LoadFromMessage field uncompress ok m d = (if fLayers t = [] then Some (B_ERROR, t)
        else Some (B_OK, (MarkDirty (canvas_rect t) (t\<lparr>fActiveId := layer_id (last (fLayers t))\<rparr>))\<lparr>fModified := False\<rparr>))"
      using False t(1) by (simp add: LoadFromMessage_def flip: w_def h_def)
    moreover have "fCompositeDirty (MarkDirty (canvas_rect t) (t\<lparr>fActiveId := i\<rparr>))" for i
      using t(2) False by (intro MarkDirty_canvas) (auto simp: fits_def canvas_rect_def)
    ultimately show ?thesis
      using t(2) False by (auto simp: fits_def)
  qed
qed

theorem LoadFromMessage_answers_witness:
  "\<exists>e. LoadFromMessage nth_field (\<lambda>z n. Some z) (\<lambda>m. True) [(''w'', FInt32 7), (''h'', FInt32 5)] dot_canvas
      = Some (B_ERROR, e) \<and> fLayers e = []"
proof -
  let ?m = "[(''w'', FInt32 7), (''h'', FInt32 5)]"
  have "for_messages nth_field ?m ''layer'' body 0 s = Some s" for body and s :: document
    by (subst for_messages.simps) (simp add: FindMessage_def nth_field_def)
  then have "\<exists>e. LoadFromMessage nth_field (\<lambda>z n. Some z) (\<lambda>m. True) ?m dot_canvas = Some (B_ERROR, e)"
    by (simp add: LoadFromMessage_def FindInt32_def kit_first[OF message_kit_nth_field] load_canvas_def Let_def)
  with LoadFromMessage_answers[OF message_kit_nth_field, of "\<lambda>z n. Some z" "\<lambda>m. True" ?m dot_canvas] show ?thesis
    by auto
qed

section \<open>Round trip\<close>

text \<open>The same layer, up to what lies beside the canvas.\<close>

definition same_layer :: "int \<Rightarrow> int \<Rightarrow> layer \<Rightarrow> layer \<Rightarrow> bool" where
  "same_layer w h l l' \<longleftrightarrow> layer_id l' = layer_id l \<and> layer_name l' = layer_name l \<and> layer_visible l' = layer_visible l
     \<and> layer_opacity l' = layer_opacity l \<and> surface_w (layer_bits l') = w \<and> surface_h (layer_bits l') = h
     \<and> (\<forall>p. on_canvas w h p \<longrightarrow> surface_bits (layer_bits l') p = surface_bits (layer_bits l) p)"

lemma flatten_same:
  assumes "list_all2 (same_layer w h) ls ls'"
  shows "flatten w h ls' = flatten w h ls"
proof -
  have "fold (composite_layer w h) ls' b = fold (composite_layer w h) ls b" for b
    using assms
  proof (induction ls ls' arbitrary: b rule: list_all2_induct)
    case (Cons l ls l' ls')
    have "composite_layer w h l' b = composite_layer w h l b"
      using Cons.hyps(1) by (auto simp: composite_layer_def same_layer_def for_canvas_def)
    then show ?case using Cons.IH by simp
  qed simp
  then show ?thesis by (simp add: flatten_def)
qed

definition loaded_layer :: "layer \<Rightarrow> int \<Rightarrow> int \<Rightarrow> layer" where
  "loaded_layer l w h = l\<lparr>layer_bits := Surface w h (picture w h (Bits w h (surface_bits (layer_bits l))))\<rparr>"

lemma same_loaded_layer: "same_layer w h l (loaded_layer l w h)"
  by (auto simp: same_layer_def loaded_layer_def picture_Bits)

lemma load_layer_saved:
  assumes "message_kit field" and "zlib_kit compress uncompress" and "1 \<le> w" and "1 \<le> h"
    and "compress (Bits w h (surface_bits (layer_bits l))) = Some flat" and "layer_opacity l \<le> 255"
  shows "load_layer field uncompress (\<lambda>m. True) w h
      [(''id'', FInt32 (layer_id l)), (''name'', FString (layer_name l)), (''vis'', FBool (layer_visible l)),
       (''opa'', FInt32 (int (layer_opacity l))), (''bits'', FData flat), (''bpr'', FInt32 (w * 4))] d
    = d\<lparr>fLayers := fLayers d @ [loaded_layer l w h], fNextLayerId := max (fNextLayerId d) (layer_id l + 1)\<rparr>"
proof -
  have "uncompress flat (nat (w * 4 * h)) = Some (Bits w h (surface_bits (layer_bits l)))"
    using assms(2-5) by (auto simp: zlib_kit_def length_Bits)
  then have "Unflate uncompress flat (nat (w * 4 * h)) = Some (Bits w h (surface_bits (layer_bits l)))"
    using assms(3,4) by (simp add: Unflate_def length_Bits)
  moreover have "nat (int (layer_opacity l) mod 256) = layer_opacity l" using assms(6) by simp
  ultimately show ?thesis
    using assms(1) by (cases l) (simp add: load_layer_def find_defs kit_first loaded_layer_def Let_def)
qed

lemma fold_load_layers:
  assumes "message_kit field" and "zlib_kit compress uncompress" and "1 \<le> w" and "1 \<le> h"
    and "\<forall>l \<in> set ls. surface_w (layer_bits l) = w \<and> layer_opacity l \<le> 255" and "layer_fields compress h ls = Some fs"
  shows "\<exists>ms. fs = map (\<lambda>m. (''layer'', FMessage m)) ms \<and> fold (load_layer field uncompress (\<lambda>m. True) w h) ms d
    = d\<lparr>fLayers := fLayers d @ map (\<lambda>l. loaded_layer l w h) ls, fNextLayerId := next_after (fNextLayerId d) (map layer_id ls)\<rparr>"
  using assms(5,6)
proof (induction ls arbitrary: fs d)
  case Nil
  then show ?case by (simp add: next_after_def)
next
  case (Cons l ls)
  then obtain flat fs' where flat: "compress (Bits w h (surface_bits (layer_bits l))) = Some flat"
    and fs': "layer_fields compress h ls = Some fs'"
    by (auto simp: Let_def split: option.splits)
  note first = load_layer_saved[OF assms(1-4) flat, of "d"]
  from Cons.IH[OF _ fs', of "d\<lparr>fLayers := fLayers d @ [loaded_layer l w h], fNextLayerId := max (fNextLayerId d) (layer_id l + 1)\<rparr>"]
    Cons.prems(1)
  obtain ms where ms: "fs' = map (\<lambda>m. (''layer'', FMessage m)) ms"
    "fold (load_layer field uncompress (\<lambda>m. True) w h) ms (d\<lparr>fLayers := fLayers d @ [loaded_layer l w h], fNextLayerId := max (fNextLayerId d) (layer_id l + 1)\<rparr>)
      = d\<lparr>fLayers := fLayers d @ loaded_layer l w h # map (\<lambda>l. loaded_layer l w h) ls,
          fNextLayerId := next_after (max (fNextLayerId d) (layer_id l + 1)) (map layer_id ls)\<rparr>"
    by auto
  have "fs = (''layer'', FMessage [(''id'', FInt32 (layer_id l)), (''name'', FString (layer_name l)), (''vis'', FBool (layer_visible l)),
       (''opa'', FInt32 (int (layer_opacity l))), (''bits'', FData flat), (''bpr'', FInt32 (w * 4))]) # fs'"
    using Cons.prems flat fs' by (auto simp: Let_def)
  then show ?case
    using first ms Cons.prems(1) by (intro exI[of _ "[(''id'', FInt32 (layer_id l)), (''name'', FString (layer_name l)),
       (''vis'', FBool (layer_visible l)), (''opa'', FInt32 (int (layer_opacity l))), (''bits'', FData flat), (''bpr'', FInt32 (w * 4))] # ms"])
      (simp add: next_after_def)
qed

lemma painting_fields:
  assumes "SaveToMessage compress stale d = Some m" and "layer_fields compress (fHeight d) (fLayers d) = Some fs"
    and "fs = map (\<lambda>m. (''layer'', FMessage m)) ms"
  shows "map_of m ''w'' = Some (FInt32 (fWidth d))" "map_of m ''h'' = Some (FInt32 (fHeight d))"
    "map_of m ''dpi'' = Some (FFloat (fDPI d))" "map_of m ''paper'' = Some (FString (read_name stale (paper_name (fPaper d))))"
    "map_of m ''pw'' = Some (FFloat (paper_width (fPaper d)))" "map_of m ''ph'' = Some (FFloat (paper_height (fPaper d)))"
    "values_of m ''layer'' = map FMessage ms"
  using assms by (auto simp: SaveToMessage_def comp_def)

lemma load_saved_painting:
  assumes "message_kit field" and "zlib_kit compress uncompress" and "doc_ok d"
    and "fWidth d \<le> 8192" and "fHeight d \<le> 8192" and "12 \<le> fDPI d" and "0 < paper_width (fPaper d)" and "0 < paper_height (fPaper d)"
    and "SaveToMessage compress stale d = Some m"
  shows "\<exists>e. LoadFromMessage field uncompress (\<lambda>m. True) m d0 = Some (B_OK, e)
    \<and> fWidth e = fWidth d \<and> fHeight e = fHeight d \<and> fDPI e = fDPI d
    \<and> fPaper e = (fPaper d)\<lparr>paper_name := InMessage (read_name stale (paper_name (fPaper d)))\<rparr>
    \<and> fLayers e = map (\<lambda>l. loaded_layer l (fWidth d) (fHeight d)) (fLayers d)
    \<and> fActiveId e = layer_id (last (fLayers d)) \<and> fUndo e = [] \<and> fRedo e = [] \<and> \<not> fModified e \<and> fCompositeDirty e"
proof -
  note [simp] = kit_first[OF assms(1)]
  have dims: "1 \<le> fWidth d" "1 \<le> fHeight d" using assms(3) by (simp_all add: doc_ok_def)
  have layers: "fLayers d \<noteq> []" "\<forall>l \<in> set (fLayers d). surface_w (layer_bits l) = fWidth d \<and> layer_opacity l \<le> 255"
    using doc_layers_ok[OF assms(3)] by (auto simp: layers_ok_def layer_ok_def)
  obtain fs where fs: "layer_fields compress (fHeight d) (fLayers d) = Some fs"
    using assms(9) by (auto simp: SaveToMessage_def)
  from fold_load_layers[OF assms(1,2) dims layers(2) fs, of "load_canvas field m (fWidth d) (fHeight d) d0"]
  obtain ms where ms: "fs = map (\<lambda>m. (''layer'', FMessage m)) ms"
    and fold: "fold (load_layer field uncompress (\<lambda>m. True) (fWidth d) (fHeight d)) ms (load_canvas field m (fWidth d) (fHeight d) d0)
      = (load_canvas field m (fWidth d) (fHeight d) d0)\<lparr>fLayers := fLayers (load_canvas field m (fWidth d) (fHeight d) d0)
            @ map (\<lambda>l. loaded_layer l (fWidth d) (fHeight d)) (fLayers d),
          fNextLayerId := next_after (fNextLayerId (load_canvas field m (fWidth d) (fHeight d) d0)) (map layer_id (fLayers d))\<rparr>"
    by blast
  note fields = painting_fields[OF assms(9) fs ms]
  define c where "c = (load_canvas field m (fWidth d) (fHeight d) d0)\<lparr>fLayers := map (\<lambda>l. loaded_layer l (fWidth d) (fHeight d)) (fLayers d),
          fNextLayerId := next_after 1 (map layer_id (fLayers d))\<rparr>"
  have canvas: "fLayers (load_canvas field m (fWidth d) (fHeight d) d0) = []" "fNextLayerId (load_canvas field m (fWidth d) (fHeight d) d0) = 1"
    by (simp_all add: load_canvas_def Let_def)
  have "fWidth c = fWidth d" "fHeight c = fHeight d" "fDPI c = fDPI d"
    "fPaper c = (fPaper d)\<lparr>paper_name := InMessage (read_name stale (paper_name (fPaper d)))\<rparr>"
    "fUndo c = []" "fRedo c = []" "fLayers c = map (\<lambda>l. loaded_layer l (fWidth d) (fHeight d)) (fLayers d)"
    using assms(6-8) by (simp_all add: c_def load_canvas_def Let_def FindFloat_def FindString_def fields)
  moreover have "layer_id (last (fLayers c)) = layer_id (last (fLayers d))"
    using layers(1) by (simp add: c_def last_map loaded_layer_def)
  moreover have "LoadFromMessage field uncompress (\<lambda>m. True) m d0
      = Some (B_OK, (MarkDirty (canvas_rect c) (c\<lparr>fActiveId := layer_id (last (fLayers c))\<rparr>))\<lparr>fModified := False\<rparr>)"
    using dims assms(4,5) layers(1) fold
    by (simp add: LoadFromMessage_def FindInt32_def fields(1,2) for_messages_fold[OF assms(1) fields(7)] canvas flip: c_def)
      (simp add: c_def Let_def)
  moreover have "fCompositeDirty (MarkDirty (canvas_rect c) (c\<lparr>fActiveId := i\<rparr>))" for i
    using dims calculation(1,2) by (intro MarkDirty_canvas) (auto simp: canvas_rect_def)
  ultimately show ?thesis by simp
qed

lemma dot_canvas_ok: "doc_ok dot_canvas"
  by (auto simp: doc_ok_def layers_ok_def layer_ok_def stroke_ok_def dot_facts cache_ok_def
      dot_canvas_def SetCanvas_def AddLayer_def MarkDirty_def canvas_rect_def rect_meet_def rect_valid_def Let_def new_document_def)

lemma message_gone_simps [simp]:
  "fWidth (message_gone d) = fWidth d" "fHeight (message_gone d) = fHeight d" "fDPI (message_gone d) = fDPI d"
  "fLayers (message_gone d) = fLayers d" "fActiveId (message_gone d) = fActiveId d" "fUndo (message_gone d) = fUndo d"
  "fRedo (message_gone d) = fRedo d" "fModified (message_gone d) = fModified d"
  "fCompositeDirty (message_gone d) = fCompositeDirty d" "fNextLayerId (message_gone d) = fNextLayerId d"
  "fComposite (message_gone d) = fComposite d" "fInStroke (message_gone d) = fInStroke d"
  "fDirty (message_gone d) = fDirty d" "fCurrentStep (message_gone d) = fCurrentStep d"
  "fStrokeBuf (message_gone d) = fStrokeBuf d" "fBeforeSnap (message_gone d) = fBeforeSnap d"
  by (simp_all add: message_gone_def)



end
