(* ===== verification/PaintReach.thy ===== *)
theory PaintReach
  imports PaintFile
begin

text \<open>
  Every run of calls on ProsePaint's document, loading and the calls that fail among them. A run is
  \<^emph>\<open>sound\<close> until a call breaks the document: the canvas is changed, resized or loaded in the middle of
  a stroke, \<open>Resize\<close> or \<open>SetCanvas\<close> runs out of memory, a load answers \<open>B_ERROR\<close> with the layers already
  gone, or a file names two layers alike. A new canvas or a load between strokes makes it sound again.
\<close>

section \<open>The calls\<close>

text \<open>The calls that keep a document whole whenever they come.\<close>

inductive paint_op :: "document \<Rightarrow> document \<Rightarrow> bool" for d where
  "paint_op d (snd (AddLayer ok name d))"
| "paint_op d (DeleteLayer i d)"
| "paint_op d (MoveLayer i up d)"
| "paint_op d (RenameLayer i name d)"
| "paint_op d (SetLayerVisible i v d)"
| "opa \<le> 255 \<Longrightarrow> paint_op d (SetLayerOpacity i opa d)"
| "paint_op d (SetActiveLayer i d)"
| "paint_op d (StrokeBegin ok opacity d)"
| "paint_op d (DabColour ok x y colour stamp sz bpr flow d)"
| "paint_op d (DabErase ok x y stamp sz bpr flow d)"
| "paint_op d (DabSmudge x y stamp sz bpr strength d)"
| "FillAt x y colour tolerance d = Some (n, e) \<Longrightarrow> paint_op d e"
| "paint_op d (StrokeEnd d)"
| "paint_op d (snd (Composite d))"
| "paint_op d (snd (PickColour x y d))"
| "paint_op d (Undo d)"
| "paint_op d (Redo d)"

lemma paint_op_ok: "paint_op d e \<Longrightarrow> doc_ok d \<Longrightarrow> doc_ok e"
  by (induction rule: paint_op.induct)
    (auto intro: AddLayer_ok DeleteLayer_ok MoveLayer_ok RenameLayer_ok SetLayerVisible_ok SetLayerOpacity_ok
      SetActiveLayer_ok StrokeBegin_ok DabColour_ok DabErase_ok DabSmudge_ok FillAt_ok StrokeEnd_ok
      Composite_ok(1) PickColour_ok Undo_ok Redo_ok)

definition ids_apart :: "document \<Rightarrow> bool" where
  "ids_apart d \<longleftrightarrow> distinct (map layer_id (fLayers d)) \<and> (\<forall>l \<in> set (fLayers d). 1 \<le> layer_id l)"

text \<open>
  \<open>document_run sound d\<close>: some run of calls ends with \<open>d\<close>, and it is sound. A white canvas that could not be
  allocated is no run: the program ends there.
\<close>

inductive document_run :: "bool \<Rightarrow> document \<Rightarrow> bool" where
  run_new: "document_run True new_document"
| run_op: "document_run sound d \<Longrightarrow> paint_op d e \<Longrightarrow> document_run sound e"
| run_canvas: "document_run sound d \<Longrightarrow> ok \<or> \<not> white \<Longrightarrow>
    document_run (if width < 1 \<or> height < 1 \<or> dpi < 12 then sound else ok \<and> \<not> fInStroke d)
      (SetCanvas ok width height dpi paper white d)"
| run_resize: "document_run sound d \<Longrightarrow> e = Resize oks width height d \<Longrightarrow>
    document_run (sound \<and> (e = d \<or> \<not> fInStroke d \<and> False \<notin> set oks)) e"
| run_message: "document_run sound d \<Longrightarrow> message_kit field \<Longrightarrow>
    LoadFromMessage field uncompress ok m d = Some (err, e) \<Longrightarrow>
    document_run (sound \<and> e = d \<or> err = B_OK \<and> \<not> fInStroke d \<and> ids_apart e) e"
| run_file: "document_run sound d \<Longrightarrow> message_kit field \<Longrightarrow>
    LoadPainting field uncompress ok Unflatten env d = (err, Some e) \<Longrightarrow>
    document_run (sound \<and> (e = d \<or> e = message_gone d) \<or> err = B_OK \<and> \<not> fInStroke d \<and> ids_apart e) e"

section \<open>Loading\<close>

text \<open>What a load leaves alone, and what a document has when it was loaded.\<close>

definition same_stroke :: "document \<Rightarrow> document \<Rightarrow> bool" where
  "same_stroke d e \<longleftrightarrow> fInStroke e = fInStroke d \<and> fStrokeBuf e = fStrokeBuf d \<and> fBeforeSnap e = fBeforeSnap d
     \<and> fComposite e = fComposite d"

definition loaded :: "document \<Rightarrow> bool" where
  "loaded e \<longleftrightarrow> 1 \<le> fWidth e \<and> 1 \<le> fHeight e \<and> fits (fWidth e) (fHeight e) e \<and> fLayers e \<noteq> []
     \<and> fActiveId e = layer_id (last (fLayers e)) \<and> fCompositeDirty e"

lemma LoadFromMessage_cases:
  assumes "message_kit field" and "LoadFromMessage field uncompress ok m d = Some (err, e)"
  shows "same_stroke d e \<and> (err = B_BAD_VALUE \<and> e = d \<or> err = B_OK \<and> loaded e
    \<or> err = B_ERROR \<and> fLayers e = [] \<and> fCompositeDirty e = fCompositeDirty d)"
proof -
  define w h where "w = FindInt32 field m ''w'' 0" and "h = FindInt32 field m ''h'' 0"
  show ?thesis
  proof (cases "w < 1 \<or> h < 1 \<or> w > 8192 \<or> h > 8192")
    case True
    then show ?thesis using assms(2) by (simp add: LoadFromMessage_def same_stroke_def flip: w_def h_def)
  next
    case False
    let ?P = "\<lambda>t. fits w h t \<and> same_stroke d t \<and> fCompositeDirty t = fCompositeDirty d"
    have "?P (load_canvas field m w h d)" by (simp add: fits_def load_canvas_def same_stroke_def Let_def)
    moreover have "?P (load_layer field uncompress ok w h m' t)" if "?P t" for m' t
      using that load_layer_fits[of w h t] by (auto simp: load_layer_def same_stroke_def Let_def split: option.split)
    ultimately obtain t where t: "for_messages field m ''layer'' (load_layer field uncompress ok w h) 0 (load_canvas field m w h d) = Some t" "?P t"
      using for_messages_total[OF assms(1), of ?P] by blast
    have "fCompositeDirty (MarkDirty (canvas_rect t) (t\<lparr>fActiveId := i\<rparr>))" for i
      using t(2) False by (intro MarkDirty_canvas) (auto simp: fits_def canvas_rect_def)
    then show ?thesis
      using assms(2) False t by (auto simp: LoadFromMessage_def same_stroke_def loaded_def fits_def
        simp flip: w_def h_def split: if_splits)
  qed
qed

lemma LoadPainting_cases:
  assumes "LoadPainting field uncompress ok Unflatten env d = (err, Some e)"
  shows "e = d \<and> err \<noteq> B_OK \<or> (\<exists>m t. LoadFromMessage field uncompress ok m d = Some (err, t) \<and> e = message_gone t)"
  using assms by (auto simp: LoadPainting_def LoadFromFile_def Let_def split: if_splits option.splits sum.splits prod.splits)

lemma loaded_doc_ok:
  assumes "loaded e" and "ids_apart e" and "\<not> fInStroke e" and "fStrokeBuf e = None" and "fBeforeSnap e = None"
  shows "doc_ok e"
  using assms by (fastforce simp: loaded_def ids_apart_def fits_def doc_ok_def layers_ok_def layer_ok_def stroke_ok_def cache_ok_def)

lemma doc_ok_message_gone: "doc_ok (message_gone d) \<longleftrightarrow> doc_ok d"
  by (simp add: doc_ok_def stroke_ok_def cache_ok_def canvas_rect_def)

section \<open>Between strokes\<close>

definition idle :: "document \<Rightarrow> bool" where
  "idle d \<longleftrightarrow> (\<not> fInStroke d \<longrightarrow> fStrokeBuf d = None \<and> fBeforeSnap d = None)"

lemma same_stroke_idle: "same_stroke d e \<Longrightarrow> idle d \<Longrightarrow> idle e"
  by (simp add: same_stroke_def idle_def)

lemma LayerById_MarkDirty [simp]: "LayerById (MarkDirty r d) i = LayerById d i"
  by (simp add: LayerById_def)

lemma paint_op_idle:
  assumes "paint_op d e" and "idle d"
  shows "idle e"
  using assms
proof cases
  case (13)
  then show ?thesis
    using assms(2) by (auto simp: idle_def StrokeEnd_def land_buffer_def Let_def split: option.split)
qed (auto simp: idle_def AddLayer_def DeleteLayer_def MoveLayer_def RenameLayer_def SetLayerVisible_def SetLayerOpacity_def
      SetActiveLayer_def StrokeBegin_def DabColour_def DabErase_def DabSmudge_def touch_def StrokeBuffer_def paint_buffer_def
      FillAt_def Composite_def PickColour_def Undo_def Redo_def ApplyStep_def Let_def split_beta
    split: option.splits list.splits if_splits bool.splits)

lemma SetCanvas_idle: "idle d \<Longrightarrow> idle (SetCanvas ok width height dpi paper white d)"
  by (auto simp: idle_def SetCanvas_def AddLayer_def Let_def)

lemma Resize_idle: "idle d \<Longrightarrow> idle (Resize oks width height d)"
  by (auto simp: idle_def Resize_def Let_def split_beta)

lemma new_document_idle: "\<not> fInStroke new_document" "idle new_document"
  by (simp_all add: idle_def new_document_def SetCanvas_def AddLayer_def Let_def)

lemma message_gone_idle: "idle (message_gone d) = idle d"
  by (simp add: idle_def)

section \<open>Every run\<close>

lemma loaded_ok:
  assumes "message_kit field" and "LoadFromMessage field uncompress ok m d = Some (err, e)" and "idle d"
    and "sound \<longrightarrow> doc_ok d"
  shows "idle e" and "sound \<and> e = d \<or> err = B_OK \<and> \<not> fInStroke d \<and> ids_apart e \<Longrightarrow> doc_ok e"
proof -
  note cases = LoadFromMessage_cases[OF assms(1,2)]
  then show "idle e" using assms(3) same_stroke_idle by blast
  then show "doc_ok e" if "sound \<and> e = d \<or> err = B_OK \<and> \<not> fInStroke d \<and> ids_apart e"
    using that cases assms(4) loaded_doc_ok[of e] by (auto simp: idle_def same_stroke_def)
qed

lemma runs_ok: "document_run sound d \<Longrightarrow> idle d \<and> (sound \<longrightarrow> doc_ok d)"
proof (induction rule: document_run.induct)
  case run_new
  then show ?case by (simp add: new_document_idle new_document_ok)
next
  case (run_op sound d e)
  then show ?case using paint_op_ok paint_op_idle by blast
next
  case (run_canvas sound d ok white width height dpi paper)
  then show ?case
    using SetCanvas_ok[of d width height dpi] SetCanvas_refused[of width height dpi] SetCanvas_idle
    by (cases "width < 1 \<or> height < 1 \<or> dpi < 12") (auto simp: idle_def)
next
  case (run_resize sound d e oks width height)
  then show ?case using Resize_ok Resize_idle by blast
next
  case (run_message sound d field uncompress ok m err e)
  then show ?case using loaded_ok by blast
next
  case (run_file sound d field uncompress ok Unflatten env err e)
  from LoadPainting_cases[OF run_file.hyps(3)] show ?case
  proof
    assume "e = d \<and> err \<noteq> B_OK"
    then show ?thesis using run_file.IH by auto
  next
    assume "\<exists>m t. LoadFromMessage field uncompress ok m d = Some (err, t) \<and> e = message_gone t"
    then obtain m t where t: "LoadFromMessage field uncompress ok m d = Some (err, t)" "e = message_gone t" by blast
    have "ids_apart e = ids_apart t" by (simp add: t(2) ids_apart_def)
    moreover note loaded_ok[OF run_file.hyps(2) t(1), of sound]
    moreover have "doc_ok e" if "sound" and "e = d \<or> e = message_gone d"
      using that run_file.IH doc_ok_message_gone[of d] by auto
    ultimately show ?thesis
      using run_file.IH doc_ok_message_gone[of t] message_gone_idle[of t] unfolding t(2) by blast
  qed
qed

lemma sound_run_ok: "document_run True d \<Longrightarrow> doc_ok d"
  using runs_ok by blast



text \<open>
  C4 The composite is what the visible layers composite to after every sound run of calls, whether it
  comes from the cache or is computed, and the eyedropper reads that picture. (What makes a run sound is
  said at C13.) The load that fails is no such call: when \<open>LoadFromMessage\<close> answers \<open>B_ERROR\<close> on a document
  whose composite was up to date, the layers are gone and \<open>Composite\<close> goes on returning their picture.
\<close>

theorem composite_is_current:
  assumes "document_run True d"
  shows "fst (Composite d) = Surface (fWidth d) (fHeight d) (flatten (fWidth d) (fHeight d) (fLayers d))
    \<and> (on_canvas (fWidth d) (fHeight d) (x, y)
        \<longrightarrow> fst (PickColour x y d) = flatten (fWidth d) (fHeight d) (fLayers d) (x, y))
    \<and> (message_kit field \<and> LoadFromMessage field uncompress ok m (snd (Composite d)) = Some (B_ERROR, e)
        \<longrightarrow> fLayers e = [] \<and> fst (Composite e) = fst (Composite d))"
proof -
  have ok: "doc_ok d" using assms by (rule sound_run_ok)
  have "fLayers e = [] \<and> fst (Composite e) = fst (Composite d)"
    if "message_kit field" "LoadFromMessage field uncompress ok m (snd (Composite d)) = Some (B_ERROR, e)"
  proof -
    have "\<not> fCompositeDirty (snd (Composite d)) \<and> fComposite (snd (Composite d)) = Some (fst (Composite d))"
      by (auto simp: Composite_def Let_def split: bool.split option.split)
    with LoadFromMessage_cases[OF that] show ?thesis
      by (simp add: Composite_def[of e] same_stroke_def)
  qed
  then show ?thesis
    using Composite_ok(2)[OF ok] by (auto simp: PickColour_def split_beta on_canvas_def Let_def)
qed

theorem composite_is_current_witness:
  "\<exists>e. LoadFromMessage nth_field (\<lambda>z n. Some z) (\<lambda>m. True) [(''w'', FInt32 7), (''h'', FInt32 5)] (snd (Composite new_document))
      = Some (B_ERROR, e) \<and> fLayers e = []
    \<and> fst (Composite e) = Surface 793 1123 (flatten 793 1123 (fLayers new_document))"
proof -
  let ?m = "[(''w'', FInt32 7), (''h'', FInt32 5)]" and ?d = "snd (Composite new_document)"
  have "for_messages nth_field ?m ''layer'' body 0 s = Some s" for body and s :: document
    by (subst for_messages.simps) (simp add: FindMessage_def nth_field_def)
  then obtain e where e: "LoadFromMessage nth_field (\<lambda>z n. Some z) (\<lambda>m. True) ?m ?d = Some (B_ERROR, e)"
    by (simp add: LoadFromMessage_def FindInt32_def kit_first[OF message_kit_nth_field] load_canvas_def Let_def)
  with composite_is_current[OF run_new, of 0 0 nth_field "\<lambda>z n. Some z" "\<lambda>m. True" ?m e]
  show ?thesis by (auto simp: message_kit_nth_field new_document_size)
qed

section \<open>A resize in the middle of a stroke\<close>

definition wide_stroke :: document where
  "wide_stroke = DabColour True 3 0 (Px 1 2 3 255) (Some (\<lambda>i. 255)) 1 1 255
     (StrokeBegin True 255 (SetCanvas True 4 1 96 default_paper False new_document))"

text \<open>
  Resizing while the pointer is down leaves the stroke with the old canvas: its rectangle lies off
  the new one, and \<open>StrokeEnd\<close> then copies rows from behind the new bitmap into an undo step whose
  rectangle no bitmap has.
\<close>

theorem resize_in_a_stroke_leaves_the_canvas:
  "document_run True wide_stroke \<and> fInStroke wide_stroke
   \<and> \<not> rect_within (step_rect (fCurrentStep (Resize [] 1 1 wide_stroke))) (canvas_rect (Resize [] 1 1 wide_stroke))
   \<and> (\<exists>st \<in> set (fUndo (StrokeEnd (Resize [] 1 1 wide_stroke))).
        rect_left (step_rect st) = 3 \<and> fWidth (StrokeEnd (Resize [] 1 1 wide_stroke)) = 1)"
proof -
  let ?c = "SetCanvas True 4 1 96 default_paper False new_document"
  have "document_run True wide_stroke"
  proof -
    have "document_run True ?c"
      using run_canvas[OF run_new, of True False 4 1 96 default_paper]
      by (simp add: new_document_idle)
    then have "document_run True (StrokeBegin True 255 ?c)" by (rule run_op) (rule paint_op.intros)
    then show ?thesis unfolding wide_stroke_def by (rule run_op) (rule paint_op.intros)
  qed
  moreover have wide: "fInStroke wide_stroke" "step_rect (fCurrentStep wide_stroke) = Rect 3 0 3 0"
      "step_layer (fCurrentStep wide_stroke) = 1" "map layer_id (fLayers wide_stroke) = [1]"
      "fWidth wide_stroke = 4" "fHeight wide_stroke = 1" "\<exists>s. fBeforeSnap wide_stroke = Some s"
      "length (fLayers wide_stroke) = 1"
    by (simp_all add: wide_stroke_def DabColour_def ActiveLayer_def LayerById_def StrokeBegin_def
        SetCanvas_def AddLayer_def StrokeBuffer_def paint_buffer_def touch_def MarkDirty_def Let_def canvas_rect_def
        rect_meet_def rect_valid_def no_rect_def no_step_def)
  moreover obtain l where l: "fLayers wide_stroke = [l]" "layer_id l = 1"
    using wide(4) by auto
  moreover have r: "fLayers (Resize [] 1 1 wide_stroke) = [l\<lparr>layer_bits := grown 1 1 1 1 (layer_bits l)\<rparr>]"
      "fInStroke (Resize [] 1 1 wide_stroke)" "fCurrentStep (Resize [] 1 1 wide_stroke) = fCurrentStep wide_stroke"
      "fWidth (Resize [] 1 1 wide_stroke) = 1" "fHeight (Resize [] 1 1 wide_stroke) = 1"
      "fBeforeSnap (Resize [] 1 1 wide_stroke) = fBeforeSnap wide_stroke" "fUndo (Resize [] 1 1 wide_stroke) = []"
      "fStrokeBuf (Resize [] 1 1 wide_stroke) = None"
    using wide l by (simp_all add: Resize_def Let_def)
  moreover have "\<exists>st \<in> set (fUndo (StrokeEnd (Resize [] 1 1 wide_stroke))). rect_left (step_rect st) = 3"
    using r wide l by (auto simp: StrokeEnd_def Let_def rect_valid_def LayerById_def land_buffer_def CaptureAfter_def push_step_def push_capped_def)
  moreover have "fWidth (StrokeEnd (Resize [] 1 1 wide_stroke)) = 1"
    using r wide l by (auto simp: StrokeEnd_def Let_def rect_valid_def LayerById_def land_buffer_def)
  ultimately show ?thesis by (simp add: rect_within_def canvas_rect_def)
qed

end
