(* ===== verification/DrawDocument.thy ===== *)
theory DrawDocument
  imports Rects History Complex_Main
begin

text \<open>
  ProseDraw's document, \<open>prosedraw/app/src/PDDocument.h\<close> and \<open>PDDocument.cpp\<close>: shapes on a page in
  drawing order, connectors that name two shapes by id, images, the grid, and undo by snapshots of
  the shapes. Coordinates are rationals, so the rounding of floats is not modelled; \<open>int32\<close> ids do
  not overflow. A pointer to a shape is the shape's id.
\<close>

section \<open>Data\<close>

datatype shape_kind = PD_RECT | PD_RRECT | PD_ELLIPSE | PD_DIAMOND | PD_TEXT | PD_CONNECTOR | PD_IMAGE | OtherKind int

record colour =
  red :: "8 word"
  green :: "8 word"
  blue :: "8 word"
  alpha :: "8 word"

record style =
  fill :: colour
  fillOn :: bool
  stroke :: colour
  strokeWidth :: rat
  dashed :: bool
  textSize :: rat
  textColor :: colour

record shape =
  shape_id :: int
  shape_kind :: shape_kind
  shape_rect :: "rat rect"
  shape_label :: string
  shape_style :: style
  fromId :: int
  toId :: int
  arrowEnd :: bool
  arrowStart :: bool
  orthogonal :: bool
  imageId :: int

record image =
  image_id :: int
  image_width :: int
  image_height :: int
  image_bits :: "nat list"

record drawing =
  fShapes :: "shape list"
  fImages :: "image list"
  fNextImageId :: int
  fUndo :: "(shape list \<times> int) list"
  fRedo :: "(shape list \<times> int) list"
  fNextId :: int
  fGrid :: rat
  fSnap :: bool
  fShowGrid :: bool
  fPage :: "rat \<times> rat"
  fModified :: bool

definition rgba :: "8 word \<Rightarrow> 8 word \<Rightarrow> 8 word \<Rightarrow> 8 word \<Rightarrow> colour" where
  "rgba r g b a = \<lparr>red = r, green = g, blue = b, alpha = a\<rparr>"

definition new_style :: style where
  "new_style = \<lparr>fill = rgba 255 255 255 255, fillOn = True, stroke = rgba 0 0 0 255, strokeWidth = 1,
     dashed = False, textSize = 12, textColor = rgba 0 0 0 255\<rparr>"

definition new_shape :: shape where
  "new_shape = \<lparr>shape_id = 0, shape_kind = PD_RECT, shape_rect = no_rect, shape_label = [], shape_style = new_style,
     fromId = 0, toId = 0, arrowEnd = True, arrowStart = False, orthogonal = False, imageId = 0\<rparr>"

definition new_drawing :: drawing where
  "new_drawing = \<lparr>fShapes = [], fImages = [], fNextImageId = 1, fUndo = [], fRedo = [], fNextId = 1, fGrid = 8,
     fSnap = True, fShowGrid = True, fPage = (595, 842), fModified = False\<rparr>"

section \<open>Shapes by id\<close>

definition ShapeById :: "drawing \<Rightarrow> int \<Rightarrow> shape option" where
  "ShapeById d i = find (\<lambda>s. shape_id s = i) (fShapes d)"

fun index_from :: "int \<Rightarrow> int \<Rightarrow> shape list \<Rightarrow> int" where
  "index_from i k [] = - 1"
| "index_from i k (s # ss) = (if shape_id s = i then k else index_from i (k + 1) ss)"

definition IndexOf :: "drawing \<Rightarrow> int \<Rightarrow> int" where
  "IndexOf d i = index_from i 0 (fShapes d)"

fun change_shape :: "int \<Rightarrow> (shape \<Rightarrow> shape) \<Rightarrow> shape list \<Rightarrow> shape list" where
  "change_shape i f [] = []"
| "change_shape i f (s # ss) = (if shape_id s = i then f s # ss else s # change_shape i f ss)"

definition on_shape :: "int \<Rightarrow> (shape \<Rightarrow> shape) \<Rightarrow> drawing \<Rightarrow> drawing" where
  "on_shape i f d = d\<lparr>fShapes := change_shape i f (fShapes d)\<rparr>"

section \<open>Undo\<close>

definition Snapshot :: "drawing \<Rightarrow> drawing" where
  "Snapshot d = d\<lparr>fUndo := push_capped 200 (fShapes d, fNextId d) (fUndo d), fRedo := [], fModified := True\<rparr>"

definition Restore :: "shape list \<Rightarrow> int \<Rightarrow> drawing \<Rightarrow> drawing" where
  "Restore shapes nextId d =
     d\<lparr>fRedo := fRedo d @ [(fShapes d, fNextId d)], fShapes := shapes, fNextId := nextId, fModified := True\<rparr>"

definition Undo :: "drawing \<Rightarrow> drawing" where
  "Undo d = (if fUndo d = [] then d
     else let s = last (fUndo d) in Restore (fst s) (snd s) (d\<lparr>fUndo := butlast (fUndo d)\<rparr>))"

definition Redo :: "drawing \<Rightarrow> drawing" where
  "Redo d = (if fRedo d = [] then d
     else let s = last (fRedo d) in
       d\<lparr>fRedo := butlast (fRedo d), fUndo := fUndo d @ [(fShapes d, fNextId d)],
         fShapes := fst s, fNextId := snd s, fModified := True\<rparr>)"

section \<open>The grid\<close>

text \<open>\<open>roundf\<close>: to the nearest integer, halves away from zero.\<close>

definition roundf :: "rat \<Rightarrow> rat" where
  "roundf r = of_int (if 0 \<le> r then \<lfloor>r + 1 / 2\<rfloor> else \<lceil>r - 1 / 2\<rceil>)"

definition SetGrid :: "rat \<Rightarrow> drawing \<Rightarrow> drawing" where
  "SetGrid g d = (if g \<ge> 2 then d\<lparr>fGrid := g\<rparr> else d)"

definition SnapRect :: "drawing \<Rightarrow> rat rect \<Rightarrow> rat rect" where
  "SnapRect d r =
     (if \<not> fSnap d then r
      else let g = fGrid d in
        Rect (roundf (rect_left r / g) * g) (roundf (rect_top r / g) * g)
          (roundf (rect_right r / g) * g) (roundf (rect_bottom r / g) * g))"

section \<open>Editing\<close>

definition AddShape :: "shape_kind \<Rightarrow> rat rect \<Rightarrow> string option \<Rightarrow> drawing \<Rightarrow> int \<times> drawing" where
  "AddShape kd r label d =
     (let d = Snapshot d; i = fNextId d;
          st = (if kd = PD_TEXT then new_style\<lparr>fillOn := False, strokeWidth := 0\<rparr> else new_style);
          s = new_shape\<lparr>shape_id := i, shape_kind := kd, shape_rect := SnapRect d r, shape_style := st,
                shape_label := (case label of Some l \<Rightarrow> l | None \<Rightarrow> [])\<rparr>
      in (i, d\<lparr>fNextId := i + 1, fShapes := fShapes d @ [s], fModified := True\<rparr>))"

text \<open>The loop that collects the connectors whose ends go.\<close>

fun gone_from :: "int list \<Rightarrow> shape list \<Rightarrow> int list" where
  "gone_from gone [] = gone"
| "gone_from gone (s # ss) =
     gone_from (if shape_kind s = PD_CONNECTOR \<and> (fromId s \<in> set gone \<or> toId s \<in> set gone)
                then gone @ [shape_id s] else gone) ss"

definition RemoveShapes :: "int list \<Rightarrow> drawing \<Rightarrow> drawing" where
  "RemoveShapes ids d =
     (let d = Snapshot d; gone = gone_from ids (fShapes d) in
      d\<lparr>fShapes := filter (\<lambda>s. shape_id s \<notin> set gone) (fShapes d), fModified := True\<rparr>)"

definition SetShapeRect :: "int \<Rightarrow> rat rect \<Rightarrow> drawing \<Rightarrow> drawing" where
  "SetShapeRect i r d =
     (case ShapeById d i of None \<Rightarrow> d
      | Some s \<Rightarrow> if shape_rect s = r then d
          else (on_shape i (\<lambda>s. s\<lparr>shape_rect := SnapRect d r\<rparr>) (Snapshot d))\<lparr>fModified := True\<rparr>)"

definition SetShapeLabel :: "int \<Rightarrow> string \<Rightarrow> drawing \<Rightarrow> drawing" where
  "SetShapeLabel i label d =
     (case ShapeById d i of None \<Rightarrow> d
      | Some s \<Rightarrow> if shape_label s = label then d
          else (on_shape i (\<lambda>s. s\<lparr>shape_label := label\<rparr>) (Snapshot d))\<lparr>fModified := True\<rparr>)"

definition SetShapeStyle :: "int \<Rightarrow> style \<Rightarrow> drawing \<Rightarrow> drawing" where
  "SetShapeStyle i st d =
     (case ShapeById d i of None \<Rightarrow> d
      | Some s \<Rightarrow> if shape_style s = st then d
          else (on_shape i (\<lambda>s. s\<lparr>shape_style := st\<rparr>) (Snapshot d))\<lparr>fModified := True\<rparr>)"

definition SetShapeFlags :: "int \<Rightarrow> bool \<Rightarrow> bool \<Rightarrow> bool \<Rightarrow> drawing \<Rightarrow> drawing" where
  "SetShapeFlags i ae as ort d =
     (case ShapeById d i of None \<Rightarrow> d
      | Some s \<Rightarrow> if shape_kind s \<noteq> PD_CONNECTOR then d
          else if arrowEnd s = ae \<and> arrowStart s = as \<and> orthogonal s = ort then d
          else (on_shape i (\<lambda>s. s\<lparr>arrowEnd := ae, arrowStart := as, orthogonal := ort\<rparr>) (Snapshot d))
                 \<lparr>fModified := True\<rparr>)"

definition MoveZ :: "int \<Rightarrow> bool \<Rightarrow> drawing \<Rightarrow> drawing" where
  "MoveZ i toFront d =
     (let k = IndexOf d i in
      if k < 0 then d
      else if toFront \<and> k + 1 = int (length (fShapes d)) then d
      else if \<not> toFront \<and> k = 0 then d
      else let d = Snapshot d; s = fShapes d ! nat k;
               rest = take (nat k) (fShapes d) @ drop (Suc (nat k)) (fShapes d)
           in d\<lparr>fShapes := (if toFront then rest @ [s] else s # rest), fModified := True\<rparr>)"

section \<open>Alignment\<close>

datatype align = AlignLeft | AlignHCenter | AlignRight | AlignTop | AlignVCenter | AlignBottom | DistributeH | DistributeV

definition rect_w :: "rat rect \<Rightarrow> rat" where
  "rect_w r = rect_right r - rect_left r"

definition rect_h :: "rat rect \<Rightarrow> rat" where
  "rect_h r = rect_bottom r - rect_top r"

definition offset :: "rat \<Rightarrow> rat \<Rightarrow> rat rect \<Rightarrow> rat rect" where
  "offset dx dy r = Rect (rect_left r + dx) (rect_top r + dy) (rect_right r + dx) (rect_bottom r + dy)"

text \<open>One shape of the selection moves by what its rectangle is when its turn comes.\<close>

definition move_by :: "(rat rect \<Rightarrow> rat \<times> rat) \<Rightarrow> int \<Rightarrow> shape list \<Rightarrow> shape list" where
  "move_by f = (\<lambda>i. change_shape i (\<lambda>s. s\<lparr>shape_rect := (case f (shape_rect s) of (dx, dy) \<Rightarrow> offset dx dy (shape_rect s))\<rparr>))"

definition rect_of :: "int \<Rightarrow> shape list \<Rightarrow> rat rect" where
  "rect_of i ss = (case find (\<lambda>s. shape_id s = i) ss of Some s \<Rightarrow> shape_rect s | None \<Rightarrow> no_rect)"

fun distribute :: "bool \<Rightarrow> rat \<Rightarrow> rat \<Rightarrow> int list \<Rightarrow> shape list \<Rightarrow> shape list" where
  "distribute horizontal gap pos [] ss = ss"
| "distribute horizontal gap pos (i # is) ss =
     (let ss = move_by (\<lambda>r. if horizontal then (pos - rect_left r, 0) else (0, pos - rect_top r)) i ss;
          r = rect_of i ss
      in distribute horizontal gap (pos + (if horizontal then rect_w r else rect_h r) + gap) is ss)"

definition align_shapes :: "align \<Rightarrow> int list \<Rightarrow> shape list \<Rightarrow> shape list" where
  "align_shapes mode ids ss =
     (let rs = map (\<lambda>i. rect_of i ss) ids;
          left = Min (set (map rect_left rs)); right = Max (set (map rect_right rs));
          top = Min (set (map rect_top rs)); bottom = Max (set (map rect_bottom rs));
          midX = (left + right) / 2; midY = (top + bottom) / 2
      in case mode of
          AlignLeft \<Rightarrow> fold (move_by (\<lambda>r. (left - rect_left r, 0))) ids ss
        | AlignRight \<Rightarrow> fold (move_by (\<lambda>r. (right - rect_right r, 0))) ids ss
        | AlignHCenter \<Rightarrow> fold (move_by (\<lambda>r. (midX - (rect_left r + rect_right r) / 2, 0))) ids ss
        | AlignTop \<Rightarrow> fold (move_by (\<lambda>r. (0, top - rect_top r))) ids ss
        | AlignBottom \<Rightarrow> fold (move_by (\<lambda>r. (0, bottom - rect_bottom r))) ids ss
        | AlignVCenter \<Rightarrow> fold (move_by (\<lambda>r. (0, midY - (rect_top r + rect_bottom r) / 2))) ids ss
        | DistributeH \<Rightarrow>
            let order = sort_key (\<lambda>i. rect_left (rect_of i ss)) ids;
                total = sum_list (map (\<lambda>i. rect_w (rect_of i ss)) order);
                gap = (right - left - total) / (of_nat (length order) - 1)
            in distribute True gap left order ss
        | DistributeV \<Rightarrow>
            let order = sort_key (\<lambda>i. rect_top (rect_of i ss)) ids;
                total = sum_list (map (\<lambda>i. rect_h (rect_of i ss)) order);
                gap = (bottom - top - total) / (of_nat (length order) - 1)
            in distribute False gap top order ss)"

definition Align :: "int list \<Rightarrow> align \<Rightarrow> drawing \<Rightarrow> bool \<times> drawing" where
  "Align ids mode d =
     (if length ids < (if mode = DistributeH \<or> mode = DistributeV then 3 else 2) then (False, d)
      else let sel = filter (\<lambda>i. case ShapeById d i of Some s \<Rightarrow> shape_kind s \<noteq> PD_CONNECTOR | None \<Rightarrow> False) ids in
        if length sel \<noteq> length ids \<or> length sel < 2 then (False, d)
        else let d = Snapshot d in (True, d\<lparr>fShapes := align_shapes mode sel (fShapes d), fModified := True\<rparr>))"

section \<open>Connectors and hits\<close>

type_synonym point = "rat \<times> rat"

definition rect_centre :: "rat rect \<Rightarrow> point" where
  "rect_centre r = ((rect_left r + rect_right r) / 2, (rect_top r + rect_bottom r) / 2)"

definition AnchorPoint :: "rat rect \<Rightarrow> rat rect \<Rightarrow> point" where
  "AnchorPoint from to =
     (let fc = rect_centre from; tc = rect_centre to; dx = fst tc - fst fc; dy = snd tc - snd fc in
      if \<bar>dx\<bar> < 1 / 100 \<and> \<bar>dy\<bar> < 1 / 100 then (fst fc, rect_top from)
      else let hw = rect_w from / 2; hh = rect_h from / 2;
               kx = (if \<bar>dx\<bar> < 1 / 100 then 1000000000 else hw / \<bar>dx\<bar>);
               ky = (if \<bar>dy\<bar> < 1 / 100 then 1000000000 else hh / \<bar>dy\<bar>);
               k = min kx ky
           in (fst fc + dx * k, snd fc + dy * k))"

definition ConnectorWaypoints :: "rat rect \<Rightarrow> rat rect \<Rightarrow> bool \<Rightarrow> point list" where
  "ConnectorWaypoints from to ort =
     (let a = AnchorPoint from to; b = AnchorPoint to from; dx = fst b - fst a; dy = snd b - snd a in
      a # (if ort then
             if \<bar>dx\<bar> \<ge> \<bar>dy\<bar> then let mx = fst a + dx / 2 in [(mx, snd a), (mx, snd b)]
             else let my = snd a + dy / 2 in [(fst a, my), (fst b, my)]
           else []) @ [b])"

definition ShapeAtPoint :: "drawing \<Rightarrow> point \<Rightarrow> int" where
  "ShapeAtPoint d p =
     (case find (\<lambda>s. shape_kind s \<noteq> PD_CONNECTOR \<and> rect_has (shape_rect s) (fst p) (snd p)) (rev (fShapes d)) of
        Some s \<Rightarrow> shape_id s | None \<Rightarrow> 0)"

definition near_segment :: "point \<Rightarrow> point \<Rightarrow> point \<Rightarrow> bool" where
  "near_segment p a b =
     (let abx = fst b - fst a; aby = snd b - snd a; len2 = abx * abx + aby * aby;
          t = (if len2 > 0 then ((fst p - fst a) * abx + (snd p - snd a) * aby) / len2 else 0);
          t = max 0 (min 1 t); q = (fst a + abx * t, snd a + aby * t)
      in \<bar>fst p - fst q\<bar> + \<bar>snd p - snd q\<bar> < 6)"

fun near_route :: "point \<Rightarrow> point list \<Rightarrow> bool" where
  "near_route p (a # b # ps) = (near_segment p a b \<or> near_route p (b # ps))"
| "near_route p ps = False"

definition connector_hit :: "drawing \<Rightarrow> point \<Rightarrow> shape \<Rightarrow> bool" where
  "connector_hit d p c =
     (shape_kind c = PD_CONNECTOR \<and>
      (case (ShapeById d (fromId c), ShapeById d (toId c)) of
         (Some from, Some to) \<Rightarrow> near_route p (ConnectorWaypoints (shape_rect from) (shape_rect to) (orthogonal c))
       | _ \<Rightarrow> False))"

definition ConnectorAtPoint :: "drawing \<Rightarrow> point \<Rightarrow> int" where
  "ConnectorAtPoint d p = (case find (connector_hit d p) (rev (fShapes d)) of Some s \<Rightarrow> shape_id s | None \<Rightarrow> 0)"

section \<open>Images\<close>

definition AddImageRGBA :: "int \<Rightarrow> int \<Rightarrow> nat list option \<Rightarrow> drawing \<Rightarrow> int \<times> drawing" where
  "AddImageRGBA width height bytes d =
     (case bytes of None \<Rightarrow> (- 1, d)
      | Some bs \<Rightarrow> if width \<le> 0 \<or> height \<le> 0 then (- 1, d)
          else let i = fNextImageId d;
                   img = \<lparr>image_id = i, image_width = width, image_height = height,
                          image_bits = take (nat width * nat height * 4) bs\<rparr>
               in (i, d\<lparr>fNextImageId := i + 1, fImages := fImages d @ [img], fModified := True\<rparr>))"

definition ImageById :: "drawing \<Rightarrow> int \<Rightarrow> image option" where
  "ImageById d i = find (\<lambda>g. image_id g = i) (fImages d)"

end
