(* ===== verification/DrawState.thy ===== *)
theory DrawState
  imports DrawDocument "HOL-Library.Multiset"
begin

text \<open>
  What ProseDraw's document keeps: every edit is one step of an undo history two hundred deep,
  connectors join shapes that are there, alignment and distribution put the selection where they
  say, and edited geometry lands on the grid.
\<close>

section \<open>Shapes under changes\<close>

lemma find_change_shape:
  assumes "\<And>s. shape_id (f s) = shape_id s"
  shows "find (\<lambda>s. shape_id s = j) (change_shape i f ss)
    = (if j = i then map_option f (find (\<lambda>s. shape_id s = i) ss) else find (\<lambda>s. shape_id s = j) ss)"
  using assms by (induction ss) auto

lemma change_shape_ids [simp]:
  "(\<And>s. shape_id (f s) = shape_id s) \<Longrightarrow> map shape_id (change_shape i f ss) = map shape_id ss"
  by (induction ss) auto

lemma Snapshot_simps [simp]:
  "fShapes (Snapshot d) = fShapes d" "fImages (Snapshot d) = fImages d" "fNextImageId (Snapshot d) = fNextImageId d"
  "fUndo (Snapshot d) = push_capped 200 (fShapes d, fNextId d) (fUndo d)" "fRedo (Snapshot d) = []"
  "fNextId (Snapshot d) = fNextId d" "fGrid (Snapshot d) = fGrid d" "fSnap (Snapshot d) = fSnap d"
  "fPage (Snapshot d) = fPage d" "fModified (Snapshot d) = True" "SnapRect (Snapshot d) r = SnapRect d r"
  "ShapeById (Snapshot d) i = ShapeById d i"
  by (simp_all add: Snapshot_def SnapRect_def ShapeById_def)

lemma on_shape_simps [simp]:
  "fShapes (on_shape i f d) = change_shape i f (fShapes d)" "fUndo (on_shape i f d) = fUndo d"
  "fRedo (on_shape i f d) = fRedo d" "fNextId (on_shape i f d) = fNextId d" "fGrid (on_shape i f d) = fGrid d"
  "fSnap (on_shape i f d) = fSnap d" "fImages (on_shape i f d) = fImages d"
  by (simp_all add: on_shape_def)

section \<open>Undo\<close>

definition shapes_now :: "drawing \<Rightarrow> shape list \<times> int" where
  "shapes_now d = (fShapes d, fNextId d)"

definition history_ok :: "drawing \<Rightarrow> bool" where
  "history_ok d \<longleftrightarrow> length (fUndo d) + length (fRedo d) \<le> 200"

definition one_step :: "drawing \<Rightarrow> drawing \<Rightarrow> bool" where
  "one_step d d' \<longleftrightarrow> fUndo d' = push_capped 200 (shapes_now d) (fUndo d) \<and> fRedo d' = []"

interpretation draw: undo_history history_ok shapes_now "\<lambda>d. rev (fUndo d)" "\<lambda>d. rev (fRedo d)" Undo Redo one_step 200
proof
  fix s :: drawing
  show "rev (fUndo s) = [] \<Longrightarrow> Undo s = s" and "rev (fRedo s) = [] \<Longrightarrow> Redo s = s"
    by (simp_all add: Undo_def Redo_def)
  show "history_ok (Undo s) \<and> shapes_now (Undo s) = c \<and> rev (fUndo (Undo s)) = cs
      \<and> rev (fRedo (Undo s)) = shapes_now s # rev (fRedo s)" if "history_ok s" "rev (fUndo s) = c # cs" for c cs
    using that by (cases "fUndo s" rule: rev_cases)
      (auto simp: Undo_def Restore_def history_ok_def shapes_now_def)
  show "history_ok (Redo s) \<and> shapes_now (Redo s) = c \<and> rev (fRedo (Redo s)) = cs
      \<and> rev (fUndo (Redo s)) = shapes_now s # rev (fUndo s)" if "history_ok s" "rev (fRedo s) = c # cs" for c cs
    using that by (cases "fRedo s" rule: rev_cases)
      (auto simp: Redo_def history_ok_def shapes_now_def)
  show "history_ok s' \<and> rev (fUndo s') = take 200 (shapes_now s # rev (fUndo s)) \<and> rev (fRedo s') = []"
    if "history_ok s" "one_step s s'" for s'
    using that length_push_capped[of "fUndo s" 200 "shapes_now s"]
    by (auto simp: one_step_def history_ok_def rev_push_capped)
qed

text \<open>One editing operation.\<close>

inductive draw_edit :: "drawing \<Rightarrow> drawing \<Rightarrow> bool" for d where
  "draw_edit d (snd (AddShape kd r label d))"
| "draw_edit d (RemoveShapes ids d)"
| "draw_edit d (SetShapeRect i r d)"
| "draw_edit d (SetShapeLabel i label d)"
| "draw_edit d (SetShapeStyle i st d)"
| "draw_edit d (SetShapeFlags i ae as ort d)"
| "draw_edit d (MoveZ i toFront d)"
| "draw_edit d (snd (Align ids mode d))"

lemma draw_edit_one_step: "draw_edit d d' \<Longrightarrow> d' = d \<or> one_step d d'"
  by (induction rule: draw_edit.induct)
    (auto simp: AddShape_def RemoveShapes_def SetShapeRect_def SetShapeLabel_def SetShapeStyle_def SetShapeFlags_def
      MoveZ_def Align_def one_step_def shapes_now_def Let_def split: option.split)

text \<open>Edits that changed the drawing, with the shapes before each of them, the newest first.\<close>

inductive draw_edits :: "drawing \<Rightarrow> (shape list \<times> int) list \<Rightarrow> drawing \<Rightarrow> bool" where
  draw_edits_none: "draw_edits d [] d"
| draw_edits_more: "draw_edits d before d' \<Longrightarrow> draw_edit d' d'' \<Longrightarrow> d'' \<noteq> d'
    \<Longrightarrow> draw_edits d (shapes_now d' # before) d''"

lemma draw_edits_history: "draw_edits d before d' \<Longrightarrow> draw.edits d before d'"
  by (induction rule: draw_edits.induct) (auto intro: draw.edits.intros dest: draw_edit_one_step)

text \<open>
  C16 An editing operation either changes nothing at all or is one undo step: after any row of edits
  the k-th undo, for every k up to two hundred, shows the shapes and the next id of k edits ago, and
  k redos come back; the stacks together never hold more than two hundred snapshots.
\<close>

theorem edits_undo_in_turn:
  assumes "draw_edits d before d'" and "history_ok d" and "k \<le> length before" and "k \<le> 200"
  shows "shapes_now ((Undo ^^ k) d') = (shapes_now d' # before) ! k
    \<and> shapes_now ((Redo ^^ k) ((Undo ^^ k) d')) = shapes_now d' \<and> history_ok d'"
proof -
  note edits = draw_edits_history[OF assms(1)]
  have len: "length (rev (fUndo d)) \<le> 200" using assms(2) by (simp add: history_ok_def)
  have now: "history_ok d'" "rev (fUndo d') = take 200 (before @ rev (fUndo d))"
    using draw.edits_past[OF edits assms(2) len] by auto
  then have "k \<le> length (rev (fUndo d'))" using assms(3,4) by simp
  with draw.undos_redos[OF now(1)] draw.undo_edits[OF edits assms(2) len assms(3,4)] now(1)
  show ?thesis by simp
qed

theorem edits_undo_in_turn_witness:
  "fShapes ((Undo ^^ 1) (snd (AddShape PD_RECT (Rect 0 0 16 16) None new_drawing))) = []"
proof -
  let ?d = "snd (AddShape PD_RECT (Rect 0 0 16 16) None new_drawing)"
  have "fShapes ?d \<noteq> fShapes new_drawing" by (simp add: AddShape_def Let_def)
  then have "?d \<noteq> new_drawing" by metis
  then have "draw_edits new_drawing [shapes_now new_drawing] ?d"
    by (intro draw_edits_more[OF draw_edits_none] draw_edit.intros(1))
  from edits_undo_in_turn[OF this, of 1] show ?thesis
    by (simp add: history_ok_def shapes_now_def new_drawing_def)
qed

section \<open>Connectors\<close>

definition ids_ok :: "drawing \<Rightarrow> bool" where
  "ids_ok d \<longleftrightarrow> distinct (map shape_id (fShapes d)) \<and> (\<forall>s \<in> set (fShapes d). 1 \<le> shape_id s \<and> shape_id s < fNextId d)"

definition joins_shapes :: "shape list \<Rightarrow> bool" where
  "joins_shapes ss \<longleftrightarrow> (\<forall>c \<in> set ss. shape_kind c = PD_CONNECTOR \<longrightarrow>
     (\<forall>i \<in> {fromId c, toId c}. \<exists>s \<in> set ss. shape_id s = i \<and> shape_kind s \<noteq> PD_CONNECTOR))"

lemma gone_from_set:
  "set gone \<subseteq> set (gone_from gone ss)"
  "j \<in> set (gone_from gone ss) \<Longrightarrow> j \<in> set gone \<or> (\<exists>c \<in> set ss. shape_kind c = PD_CONNECTOR \<and> shape_id c = j)"
  "c \<in> set ss \<Longrightarrow> shape_kind c = PD_CONNECTOR \<Longrightarrow> fromId c \<in> set gone \<or> toId c \<in> set gone
     \<Longrightarrow> shape_id c \<in> set (gone_from gone ss)"
proof (induction ss arbitrary: gone)
  case (Cons s ss)
  {
    case 1
    show ?case using Cons.IH(1)[of "gone @ [shape_id s]"] Cons.IH(1)[of gone] by auto
  next
    case 2
    then show ?case using Cons.IH(2)[of "gone @ [shape_id s]"] Cons.IH(2)[of gone] by (auto split: if_splits)
  next
    case 3
    then show ?case
      using Cons.IH(1)[of "gone @ [shape_id s]"] Cons.IH(3)[of "gone @ [shape_id s]"] Cons.IH(3)[of gone] by auto
  }
qed simp_all

lemma remove_joins:
  assumes ids: "distinct (map shape_id (fShapes d))" and joins: "joins_shapes (fShapes d)"
  shows "joins_shapes (fShapes (RemoveShapes ids d))"
  unfolding joins_shapes_def
proof (intro ballI impI)
  fix c i
  let ?gone = "gone_from ids (fShapes d)"
  assume c: "c \<in> set (fShapes (RemoveShapes ids d))" and conn: "shape_kind c = PD_CONNECTOR" and i: "i \<in> {fromId c, toId c}"
  have c': "c \<in> set (fShapes d)" "shape_id c \<notin> set ?gone"
    using c by (auto simp: RemoveShapes_def Let_def)
  obtain s where s: "s \<in> set (fShapes d)" "shape_id s = i" "shape_kind s \<noteq> PD_CONNECTOR"
    using joins c'(1) conn i unfolding joins_shapes_def by blast
  have "i \<notin> set ids" using gone_from_set(3)[OF c'(1) conn, of ids] c'(2) i by auto
  moreover have "\<not> (\<exists>c \<in> set (fShapes d). shape_kind c = PD_CONNECTOR \<and> shape_id c = i)"
    using ids s by (metis distinct_map inj_onD)
  ultimately have "i \<notin> set ?gone" using gone_from_set(2)[of i ids "fShapes d"] by blast
  then show "\<exists>s \<in> set (fShapes (RemoveShapes ids d)). shape_id s = i \<and> shape_kind s \<noteq> PD_CONNECTOR"
    using s by (intro bexI[of _ s]) (auto simp: RemoveShapes_def Let_def)
qed

lemma same_id: "distinct (map shape_id ss) \<Longrightarrow> s \<in> set ss \<Longrightarrow> t \<in> set ss \<Longrightarrow> shape_id s = shape_id t \<Longrightarrow> s = t"
  by (metis distinct_map inj_onD)

definition connector_ids :: "shape list \<Rightarrow> int set" where
  "connector_ids ss = {shape_id c | c. c \<in> set ss \<and> shape_kind c = PD_CONNECTOR}"

lemma joins_no_connectors:
  assumes "joins_shapes ss" and "distinct (map shape_id ss)" and "c \<in> set ss" and "shape_kind c = PD_CONNECTOR"
  shows "fromId c \<notin> connector_ids ss \<and> toId c \<notin> connector_ids ss"
proof -
  have "i \<notin> connector_ids ss" if i: "i \<in> {fromId c, toId c}" for i
  proof -
    obtain t where "t \<in> set ss" "shape_id t = i" "shape_kind t \<noteq> PD_CONNECTOR"
      using assms(1,3,4) i unfolding joins_shapes_def by blast
    then show ?thesis using same_id[OF assms(2)] by (auto simp: connector_ids_def)
  qed
  then show ?thesis by blast
qed

text \<open>The list only grows by connectors, and no connector ends at one: the order of the loop does not matter.\<close>

lemma gone_from_only:
  assumes "\<forall>c \<in> set ss. shape_kind c = PD_CONNECTOR \<longrightarrow> fromId c \<notin> X \<and> toId c \<notin> X" and "set gone \<subseteq> set ids \<union> X" and "connector_ids ss \<subseteq> X"
    and "j \<in> set (gone_from gone ss)"
  shows "j \<in> set gone \<or> (\<exists>c \<in> set ss. shape_kind c = PD_CONNECTOR \<and> shape_id c = j \<and> (fromId c \<in> set ids \<or> toId c \<in> set ids))"
  using assms
proof (induction ss arbitrary: gone)
  case (Cons c ss)
  have ss: "connector_ids ss \<subseteq> X" "shape_kind c = PD_CONNECTOR \<Longrightarrow> shape_id c \<in> X"
    using Cons.prems(3) by (auto simp: connector_ids_def)
  show ?case
  proof (cases "shape_kind c = PD_CONNECTOR \<and> (fromId c \<in> set gone \<or> toId c \<in> set gone)")
    case True
    then have ends: "fromId c \<in> set ids \<or> toId c \<in> set ids" "shape_kind c = PD_CONNECTOR" using Cons.prems(1,2) by auto
    have "j \<in> set (gone @ [shape_id c]) \<or> (\<exists>c \<in> set ss. shape_kind c = PD_CONNECTOR \<and> shape_id c = j \<and> (fromId c \<in> set ids \<or> toId c \<in> set ids))"
    proof (rule Cons.IH)
      show "\<forall>c \<in> set ss. shape_kind c = PD_CONNECTOR \<longrightarrow> fromId c \<notin> X \<and> toId c \<notin> X" using Cons.prems(1) by simp
      show "set (gone @ [shape_id c]) \<subseteq> set ids \<union> X" using Cons.prems(2) ss(2) ends(2) by simp
      show "j \<in> set (gone_from (gone @ [shape_id c]) ss)" using Cons.prems(4) True by simp
    qed (rule ss(1))
    then show ?thesis using ends by (elim disjE) auto
  next
    case False
    then have "j \<in> set gone \<or> (\<exists>c \<in> set ss. shape_kind c = PD_CONNECTOR \<and> shape_id c = j \<and> (fromId c \<in> set ids \<or> toId c \<in> set ids))"
      using Cons.prems ss(1) by (intro Cons.IH) auto
    then show ?thesis by auto
  qed
qed simp

lemma gone_exactly:
  assumes "joins_shapes ss" and "distinct (map shape_id ss)" and "s \<in> set ss"
  shows "shape_id s \<in> set (gone_from ids ss) \<longleftrightarrow> shape_id s \<in> set ids \<or> shape_kind s = PD_CONNECTOR \<and> (fromId s \<in> set ids \<or> toId s \<in> set ids)"
proof
  assume "shape_id s \<in> set (gone_from ids ss)"
  moreover have "\<forall>c \<in> set ss. shape_kind c = PD_CONNECTOR \<longrightarrow> fromId c \<notin> connector_ids ss \<and> toId c \<notin> connector_ids ss"
    using joins_no_connectors[OF assms(1,2)] by blast
  ultimately have "shape_id s \<in> set ids \<or> (\<exists>c \<in> set ss. shape_kind c = PD_CONNECTOR \<and> shape_id c = shape_id s
      \<and> (fromId c \<in> set ids \<or> toId c \<in> set ids))"
    by (intro gone_from_only[where X = "connector_ids ss"]) auto
  then show "shape_id s \<in> set ids \<or> shape_kind s = PD_CONNECTOR \<and> (fromId s \<in> set ids \<or> toId s \<in> set ids)"
    using same_id[OF assms(2) _ assms(3)] by metis
qed (use gone_from_set(1) gone_from_set(3)[OF assms(3)] in blast)

text \<open>
  C10 Removing shapes leaves no dangling connector: where connectors join shapes that are no
  connectors, they still do after \<open>RemoveShapes\<close>, and exactly the named shapes and the connectors
  that ended at one of them are gone.
\<close>

theorem RemoveShapes_leaves_no_dangling_connector:
  assumes "ids_ok d" and "joins_shapes (fShapes d)"
  shows "joins_shapes (fShapes (RemoveShapes ids d)) \<and> ids_ok (RemoveShapes ids d)
    \<and> fShapes (RemoveShapes ids d) = filter (\<lambda>s. shape_id s \<notin> set ids
        \<and> \<not> (shape_kind s = PD_CONNECTOR \<and> (fromId s \<in> set ids \<or> toId s \<in> set ids))) (fShapes d)"
proof -
  have dist: "distinct (map shape_id (fShapes d))" using assms(1) by (simp add: ids_ok_def)
  have "fShapes (RemoveShapes ids d) = filter (\<lambda>s. shape_id s \<notin> set ids
        \<and> \<not> (shape_kind s = PD_CONNECTOR \<and> (fromId s \<in> set ids \<or> toId s \<in> set ids))) (fShapes d)"
    using gone_exactly[OF assms(2) dist, of _ ids] by (auto simp: RemoveShapes_def Let_def intro!: filter_cong)
  moreover have "ids_ok (RemoveShapes ids d)"
    using assms(1) by (auto simp: ids_ok_def RemoveShapes_def Let_def intro: distinct_map_filter)
  ultimately show ?thesis
    using remove_joins[OF dist assms(2)] by blast
qed

definition joined_pair :: drawing where
  "joined_pair = new_drawing\<lparr>fShapes :=
     [new_shape\<lparr>shape_id := 1, shape_rect := Rect 0 0 16 16\<rparr>, new_shape\<lparr>shape_id := 2, shape_rect := Rect 40 0 56 16\<rparr>,
      new_shape\<lparr>shape_id := 3, shape_kind := PD_CONNECTOR, fromId := 1, toId := 2\<rparr>], fNextId := 4\<rparr>"

theorem RemoveShapes_leaves_no_dangling_connector_witness:
  "map shape_id (fShapes (RemoveShapes [2] joined_pair)) = [1]"
proof -
  have "ids_ok joined_pair" "joins_shapes (fShapes joined_pair)"
    by (auto simp: ids_ok_def joins_shapes_def joined_pair_def new_drawing_def new_shape_def)
  from RemoveShapes_leaves_no_dangling_connector[OF this, of "[2]"] show ?thesis
    by (simp add: joined_pair_def new_drawing_def new_shape_def)
qed

section \<open>Alignment\<close>

definition present :: "int \<Rightarrow> shape list \<Rightarrow> bool" where
  "present i ss \<longleftrightarrow> find (\<lambda>s. shape_id s = i) ss \<noteq> None"

lemma present_move [simp]: "present j (move_by f i ss) \<longleftrightarrow> present j ss"
  by (simp add: present_def move_by_def find_change_shape)

lemma rect_of_move:
  "rect_of j (move_by f i ss) = (if j = i \<and> present i ss
     then (case f (rect_of i ss) of (dx, dy) \<Rightarrow> offset dx dy (rect_of i ss)) else rect_of j ss)"
  by (auto simp: rect_of_def present_def move_by_def find_change_shape split: option.split)

lemma present_fold_move [simp]: "present j (fold (move_by f) ids ss) \<longleftrightarrow> present j ss"
  by (induction ids arbitrary: ss) auto

lemma rect_of_fold_move:
  assumes "distinct ids"
  shows "rect_of j (fold (move_by f) ids ss) = (if j \<in> set ids \<and> present j ss
     then (case f (rect_of j ss) of (dx, dy) \<Rightarrow> offset dx dy (rect_of j ss)) else rect_of j ss)"
  using assms by (induction ids arbitrary: ss) (auto simp: rect_of_move)

lemma offset_simps [simp]:
  "rect_left (offset dx dy r) = rect_left r + dx" "rect_right (offset dx dy r) = rect_right r + dx"
  "rect_top (offset dx dy r) = rect_top r + dy" "rect_bottom (offset dx dy r) = rect_bottom r + dy"
  "rect_w (offset dx dy r) = rect_w r" "rect_h (offset dx dy r) = rect_h r"
  by (simp_all add: offset_def rect_w_def rect_h_def)

lemma Align_done:
  assumes "Align ids mode d = (True, d')"
  shows "fShapes d' = align_shapes mode ids (fShapes d) \<and> (\<forall>i \<in> set ids. present i (fShapes d)) \<and> 2 \<le> length ids
    \<and> (mode \<in> {DistributeH, DistributeV} \<longrightarrow> 3 \<le> length ids)"
proof -
  let ?P = "\<lambda>i. case ShapeById d i of Some s \<Rightarrow> shape_kind s \<noteq> PD_CONNECTOR | None \<Rightarrow> False"
  have len: "length (filter ?P ids) = length ids" "2 \<le> length ids" "mode \<in> {DistributeH, DistributeV} \<longrightarrow> 3 \<le> length ids"
    using assms by (auto simp: Align_def Let_def split: if_splits)
  then have "filter ?P ids = ids" by (metis filter_True length_filter_less linorder_neq_iff)
  then have all: "\<forall>i \<in> set ids. ?P i" by (metis filter_id_conv)
  then have "\<forall>i \<in> set ids. present i (fShapes d)"
    by (auto simp: present_def ShapeById_def split: option.splits)
  then show ?thesis
    using assms \<open>filter ?P ids = ids\<close> len by (auto simp: Align_def Let_def split: if_splits)
qed

text \<open>
  Aligning puts every selected shape on the common edge or centre line of the selection, keeps
  its size and its place along the other axis, and moves no other shape.
\<close>

theorem Align_aligns:
  assumes "Align ids mode d = (True, d')" and "distinct ids" and "mode \<notin> {DistributeH, DistributeV}"
    and "r = rect_of i (fShapes d)" and "r' = rect_of i (fShapes d')"
    and "rs = (\<lambda>i. rect_of i (fShapes d)) ` set ids"
  shows "rect_w r' = rect_w r \<and> rect_h r' = rect_h r
    \<and> (i \<notin> set ids \<longrightarrow> r' = r)
    \<and> (i \<in> set ids \<longrightarrow>
        (mode \<in> {AlignLeft, AlignHCenter, AlignRight} \<longrightarrow> rect_top r' = rect_top r)
      \<and> (mode \<in> {AlignTop, AlignVCenter, AlignBottom} \<longrightarrow> rect_left r' = rect_left r)
      \<and> (mode = AlignLeft \<longrightarrow> rect_left r' = Min (rect_left ` rs))
      \<and> (mode = AlignRight \<longrightarrow> rect_right r' = Max (rect_right ` rs))
      \<and> (mode = AlignTop \<longrightarrow> rect_top r' = Min (rect_top ` rs))
      \<and> (mode = AlignBottom \<longrightarrow> rect_bottom r' = Max (rect_bottom ` rs))
      \<and> (mode = AlignHCenter \<longrightarrow> fst (rect_centre r') = (Min (rect_left ` rs) + Max (rect_right ` rs)) / 2)
      \<and> (mode = AlignVCenter \<longrightarrow> snd (rect_centre r') = (Min (rect_top ` rs) + Max (rect_bottom ` rs)) / 2))"
proof -
  note ok = Align_done[OF assms(1)]
  have there: "i \<in> set ids \<Longrightarrow> present i (fShapes d)" using ok by blast
  have centre: "fst (rect_centre (offset (m - (rect_left q + rect_right q) / 2) 0 q)) = m"
      "snd (rect_centre (offset 0 (m - (rect_top q + rect_bottom q) / 2) q)) = m" for m q
    by (simp_all add: rect_centre_def field_simps)
  show ?thesis
    using assms(3) there
    by (cases mode) (auto simp: assms(4-6) ok[THEN conjunct1] align_shapes_def Let_def
        rect_of_fold_move[OF assms(2)] centre image_image simp del: Min_in Max_in)
qed

theorem Align_aligns_witness:
  "rect_left (rect_of 2 (fShapes (snd (Align [1, 2] AlignLeft joined_pair)))) = 0"
proof -
  have "Align [1, 2] AlignLeft joined_pair = (True, snd (Align [1, 2] AlignLeft joined_pair))"
    by (simp add: Align_def ShapeById_def joined_pair_def new_drawing_def new_shape_def Let_def)
  from Align_aligns[OF this _ _ refl refl refl, of 2] show ?thesis
    by (simp add: joined_pair_def new_drawing_def new_shape_def rect_of_def)
qed

text \<open>Where a distribution puts the shapes.\<close>

definition lo :: "bool \<Rightarrow> rat rect \<Rightarrow> rat" where
  "lo horizontal r = (if horizontal then rect_left r else rect_top r)"

definition hi :: "bool \<Rightarrow> rat rect \<Rightarrow> rat" where
  "hi horizontal r = (if horizontal then rect_right r else rect_bottom r)"

definition ext :: "bool \<Rightarrow> rat rect \<Rightarrow> rat" where
  "ext horizontal r = (if horizontal then rect_w r else rect_h r)"

lemma hi_lo: "hi h r = lo h r + ext h r"
  by (simp add: hi_def lo_def ext_def rect_w_def rect_h_def)

lemma distribute_other: "j \<notin> set is \<Longrightarrow> rect_of j (distribute h gap pos is ss) = rect_of j ss"
  by (induction h gap pos "is" ss rule: distribute.induct) (auto simp: Let_def rect_of_move)

lemma distribute_places:
  assumes "distinct is" and "\<forall>i \<in> set is. present i ss" and "k < length is"
  shows "lo h (rect_of (is ! k) (distribute h gap pos is ss))
      = pos + (\<Sum>m<k. ext h (rect_of (is ! m) ss) + gap)
    \<and> rect_w (rect_of (is ! k) (distribute h gap pos is ss)) = rect_w (rect_of (is ! k) ss)
    \<and> rect_h (rect_of (is ! k) (distribute h gap pos is ss)) = rect_h (rect_of (is ! k) ss)"
  using assms
proof (induction h gap pos "is" ss arbitrary: k rule: distribute.induct)
  case (2 h gap pos i "is" ss)
  let ?ss = "move_by (\<lambda>r. if h then (pos - rect_left r, 0) else (0, pos - rect_top r)) i ss"
  have i: "lo h (rect_of i ?ss) = pos" "ext h (rect_of i ?ss) = ext h (rect_of i ss)"
      "rect_w (rect_of i ?ss) = rect_w (rect_of i ss)" "rect_h (rect_of i ?ss) = rect_h (rect_of i ss)"
    using 2(3) by (auto simp: rect_of_move lo_def ext_def)
  have step: "distribute h gap pos (i # is) ss = distribute h gap (pos + ext h (rect_of i ss) + gap) is ?ss"
    using i(2) by (simp add: Let_def ext_def)
  have others: "rect_of (is ! m) ?ss = rect_of (is ! m) ss" if "m < length is" for m
    using 2(2) that by (auto simp: rect_of_move)
  show ?case
  proof (cases k)
    case 0
    have "rect_of i (distribute h gap (pos + ext h (rect_of i ss) + gap) is ?ss) = rect_of i ?ss"
      using 2(2) by (intro distribute_other) simp
    then show ?thesis using 0 i by (simp only: step nth_Cons_0) simp
  next
    case (Suc n)
    have n: "n < length is" using Suc 2(4) by simp
    have "lo h (rect_of (is ! n) (distribute h gap (pos + ext h (rect_of i ss) + gap) is ?ss))
        = pos + ext h (rect_of i ss) + gap + (\<Sum>m<n. ext h (rect_of (is ! m) ?ss) + gap)
      \<and> rect_w (rect_of (is ! n) (distribute h gap (pos + ext h (rect_of i ss) + gap) is ?ss)) = rect_w (rect_of (is ! n) ?ss)
      \<and> rect_h (rect_of (is ! n) (distribute h gap (pos + ext h (rect_of i ss) + gap) is ?ss)) = rect_h (rect_of (is ! n) ?ss)"
      using 2(1)[OF refl refl, of n] 2(2,3) n i(2) by (simp add: ext_def)
    moreover have "(\<Sum>m<n. ext h (rect_of (is ! m) ?ss) + gap) = (\<Sum>m<n. ext h (rect_of (is ! m) ss) + gap)"
      using n others by (intro sum.cong) auto
    moreover have "(\<Sum>m<Suc n. ext h (rect_of ((i # is) ! m) ss) + gap)
        = ext h (rect_of i ss) + gap + (\<Sum>m<n. ext h (rect_of (is ! m) ss) + gap)"
      by (subst sum.lessThan_Suc_shift) simp
    ultimately show ?thesis
      using Suc others[OF n] by (simp only: step nth_Cons_Suc) simp
  qed
qed simp

lemma sum_exts_insort: "sum_list (map f (sort_key k xs)) = sum_list (map f xs)" for f :: "'a \<Rightarrow> rat"
  by (metis mset_map mset_sort sum_mset_sum_list)

lemma axis_simps:
  "lo True = rect_left" "lo False = rect_top" "hi True = rect_right" "hi False = rect_bottom"
  "ext True = rect_w" "ext False = rect_h"
  by (simp_all add: lo_def hi_def ext_def fun_eq_iff)

lemma distribute_even:
  assumes order: "distinct order" "\<forall>i \<in> set order. present i ss" "order \<noteq> []" "length order \<noteq> 1"
    and gap: "gap = (hi_all - pos - sum_list (map (\<lambda>i. ext h (rect_of i ss)) order)) / (of_nat (length order) - 1)"
    and R': "R' = (\<lambda>i. rect_of i (distribute h gap pos order ss))"
  shows "lo h (R' (hd order)) = pos \<and> hi h (R' (last order)) = hi_all
    \<and> (\<forall>k. Suc k < length order \<longrightarrow> lo h (R' (order ! Suc k)) - hi h (R' (order ! k)) = gap)
    \<and> (\<forall>i \<in> set order. rect_w (R' i) = rect_w (rect_of i ss) \<and> rect_h (R' i) = rect_h (rect_of i ss))"
proof -
  let ?e = "\<lambda>k. ext h (rect_of (order ! k) ss)"
  have places: "lo h (R' (order ! k)) = pos + (\<Sum>m<k. ?e m + gap)" "ext h (R' (order ! k)) = ?e k"
    "rect_w (R' (order ! k)) = rect_w (rect_of (order ! k) ss)" "rect_h (R' (order ! k)) = rect_h (rect_of (order ! k) ss)"
    if "k < length order" for k
    using distribute_places[OF order(1,2) that] by (simp_all add: R' ext_def)
  obtain n where n: "length order = Suc n" using order(3) by (cases order) auto
  have n0: "n \<noteq> 0" using order(4) n by simp
  have "lo h (R' (hd order)) = pos"
    using places(1)[of 0] n by (simp add: hd_conv_nth order(3))
  moreover have "lo h (R' (order ! Suc k)) - hi h (R' (order ! k)) = gap" if "Suc k < length order" for k
    using places(1)[OF that] places(1,2)[of k] that by (simp add: hi_lo)
  moreover have "hi h (R' (last order)) = hi_all"
  proof -
    have "hi h (R' (last order)) = pos + (\<Sum>m<n. ?e m + gap) + ?e n"
      using places(1,2)[of n] n by (simp add: last_conv_nth order(3) hi_lo)
    also have "\<dots> = pos + ((\<Sum>m<n. ?e m) + ?e n) + of_nat n * gap"
      by (simp add: sum.distrib)
    also have "(\<Sum>m<n. ?e m) + ?e n = sum_list (map (\<lambda>i. ext h (rect_of i ss)) order)"
      by (simp add: sum_list_sum_nth n atLeast0LessThan)
    also have "of_nat n * gap = hi_all - pos - sum_list (map (\<lambda>i. ext h (rect_of i ss)) order)"
      using gap n n0 by simp
    finally show ?thesis by simp
  qed
  moreover have "\<forall>i \<in> set order. rect_w (R' i) = rect_w (rect_of i ss) \<and> rect_h (R' i) = rect_h (rect_of i ss)"
    using places(3,4) by (auto simp: in_set_conv_nth)
  ultimately show ?thesis by blast
qed

text \<open>
  C40 Distributing spaces the selection evenly: taken in the order of their leading edges, the shapes
  fill the span from the first leading to the last trailing edge of the selection exactly, with the
  same gap between every two neighbours, and keep their sizes; no other shape moves.
\<close>

theorem Align_distributes:
  assumes "Align ids mode d = (True, d')" and "distinct ids" and "mode = (if h then DistributeH else DistributeV)"
    and "R = (\<lambda>i. rect_of i (fShapes d))" and "R' = (\<lambda>i. rect_of i (fShapes d'))"
  shows "\<exists>order gap. mset order = mset ids \<and> sorted (map (\<lambda>i. lo h (R i)) order)
    \<and> lo h (R' (hd order)) = Min (lo h ` R ` set ids) \<and> hi h (R' (last order)) = Max (hi h ` R ` set ids)
    \<and> (\<forall>k. Suc k < length order \<longrightarrow> lo h (R' (order ! Suc k)) - hi h (R' (order ! k)) = gap)
    \<and> (\<forall>i \<in> set ids. rect_w (R' i) = rect_w (R i) \<and> rect_h (R' i) = rect_h (R i))
    \<and> (\<forall>i. i \<notin> set ids \<longrightarrow> R' i = R i)"
proof -
  note ok = Align_done[OF assms(1)]
  let ?ss = "fShapes d"
  define order where "order = sort_key (\<lambda>i. lo h (rect_of i ?ss)) ids"
  define pos where "pos = Min (lo h ` R ` set ids)"
  define hi_all where "hi_all = Max (hi h ` R ` set ids)"
  define gap where "gap = (hi_all - pos - sum_list (map (\<lambda>i. ext h (rect_of i ?ss)) order)) / (of_nat (length order) - 1)"
  have o: "distinct order" "set order = set ids" "mset order = mset ids" "length order = length ids"
    using assms(2) by (simp_all add: order_def)
  have len: "3 \<le> length ids" using ok assms(3) by (auto split: if_splits)
  have edges: "Min (set (map rect_left (map (\<lambda>i. rect_of i ?ss) ids))) = Min (rect_left ` R ` set ids)"
      "Max (set (map rect_right (map (\<lambda>i. rect_of i ?ss) ids))) = Max (rect_right ` R ` set ids)"
      "Min (set (map rect_top (map (\<lambda>i. rect_of i ?ss) ids))) = Min (rect_top ` R ` set ids)"
      "Max (set (map rect_bottom (map (\<lambda>i. rect_of i ?ss) ids))) = Max (rect_bottom ` R ` set ids)"
    by (simp_all add: assms(4) image_image)
  have d': "fShapes d' = distribute h gap pos order ?ss"
    by (cases h) (simp_all only: ok[THEN conjunct1] align_shapes_def Let_def assms(3) if_True if_False align.case edges
        gap_def pos_def hi_all_def order_def axis_simps sum_exts_insort)
  have "lo h (R' (hd order)) = pos \<and> hi h (R' (last order)) = hi_all
    \<and> (\<forall>k. Suc k < length order \<longrightarrow> lo h (R' (order ! Suc k)) - hi h (R' (order ! k)) = gap)
    \<and> (\<forall>i \<in> set order. rect_w (R' i) = rect_w (rect_of i ?ss) \<and> rect_h (R' i) = rect_h (rect_of i ?ss))"
  proof (rule distribute_even)
    show "order \<noteq> []" "length order \<noteq> 1" using len o(4) by auto
  qed (use ok o in \<open>auto simp: gap_def assms(5) d'\<close>)
  moreover have "sorted (map (\<lambda>i. lo h (R i)) order)"
    by (simp add: order_def assms(4))
  moreover have "R' i = R i" if "i \<notin> set ids" for i
    using that o(2) by (simp add: assms(4,5) d' distribute_other)
  ultimately show ?thesis
    using o by (intro exI[of _ order] exI[of _ gap]) (simp add: pos_def hi_all_def assms(4))
qed

theorem Align_distributes_witness:
  "\<exists>order. mset order = mset [1, 2, 3 :: int] \<and> hi True (rect_of (last order) (fShapes (snd (Align [1, 2, 3] DistributeH
      (snd (AddShape PD_RECT (Rect 100 0 120 8) None (joined_pair\<lparr>fShapes := take 2 (fShapes joined_pair), fNextId := 3\<rparr>))))))) = 120"
proof -
  let ?d = "snd (AddShape PD_RECT (Rect 100 0 120 8) None (joined_pair\<lparr>fShapes := take 2 (fShapes joined_pair), fNextId := 3\<rparr>))"
  have d: "fShapes ?d = [new_shape\<lparr>shape_id := 1, shape_rect := Rect 0 0 16 16\<rparr>, new_shape\<lparr>shape_id := 2, shape_rect := Rect 40 0 56 16\<rparr>,
      new_shape\<lparr>shape_id := 3, shape_rect := Rect 104 0 120 8\<rparr>]"
    by (simp add: AddShape_def Let_def joined_pair_def new_drawing_def new_shape_def SnapRect_def roundf_def floor_eq_iff)
  have "Align [1, 2, 3] DistributeH ?d = (True, snd (Align [1, 2, 3] DistributeH ?d))"
    by (simp add: Align_def ShapeById_def d new_shape_def Let_def)
  from Align_distributes[OF this, of True] show ?thesis
    by (simp add: d rect_of_def new_shape_def hi_def) blast
qed

section \<open>The grid\<close>

definition on_grid :: "rat \<Rightarrow> rat \<Rightarrow> bool" where
  "on_grid g x \<longleftrightarrow> (\<exists>k :: int. x = of_int k * g)"

lemma roundf_near: "\<bar>roundf r - r\<bar> \<le> 1 / 2"
proof (cases "0 \<le> r")
  case True
  have "of_int \<lfloor>r + 1 / 2\<rfloor> \<le> r + 1 / 2 \<and> r + 1 / 2 < of_int \<lfloor>r + 1 / 2\<rfloor> + 1"
    using floor_correct[of "r + 1 / 2"] by simp
  then have "of_int \<lfloor>r + 1 / 2\<rfloor> - r \<le> 1 / 2" "r - of_int \<lfloor>r + 1 / 2\<rfloor> \<le> 1 / 2" by linarith+
  then show ?thesis using True by (simp only: roundf_def if_True abs_le_iff) simp
next
  case False
  have "of_int \<lceil>r - 1 / 2\<rceil> - 1 < r - 1 / 2 \<and> r - 1 / 2 \<le> of_int \<lceil>r - 1 / 2\<rceil>" by (rule ceiling_correct)
  then have "of_int \<lceil>r - 1 / 2\<rceil> - r \<le> 1 / 2" "r - of_int \<lceil>r - 1 / 2\<rceil> \<le> 1 / 2" by linarith+
  then show ?thesis using False by (simp only: roundf_def if_False abs_le_iff) simp
qed

lemma snap_near:
  assumes "0 < g"
  shows "on_grid g (roundf (x / g) * g)" and "\<bar>roundf (x / g) * g - x\<bar> \<le> g / 2"
proof -
  show "on_grid g (roundf (x / g) * g)" by (auto simp: on_grid_def roundf_def)
  have "roundf (x / g) * g - x = (roundf (x / g) - x / g) * g"
    using assms by (simp add: left_diff_distrib)
  then have "\<bar>roundf (x / g) * g - x\<bar> = \<bar>roundf (x / g) - x / g\<bar> * g"
    using assms by (simp only: abs_mult abs_of_pos)
  also have "\<dots> \<le> 1 / 2 * g"
    using assms by (intro mult_right_mono roundf_near) simp
  finally show "\<bar>roundf (x / g) * g - x\<bar> \<le> g / 2" by simp
qed

definition rect_edges :: "'a rect \<Rightarrow> 'a list" where
  "rect_edges r = [rect_left r, rect_top r, rect_right r, rect_bottom r]"

lemma SnapRect_edges:
  assumes "fSnap d" and "0 < fGrid d"
  shows "\<forall>x \<in> set (rect_edges (SnapRect d r)). on_grid (fGrid d) x"
    and "list_all2 (\<lambda>x y. \<bar>x - y\<bar> \<le> fGrid d / 2) (rect_edges (SnapRect d r)) (rect_edges r)"
  using assms snap_near[OF assms(2)] by (simp_all add: SnapRect_def rect_edges_def Let_def)

text \<open>
  With snapping on, a shape that is added, and one whose rectangle is set, lands on the grid, each
  edge at most half a grid from where it was asked for; with snapping off it lands exactly there.
\<close>

theorem edited_shapes_land_on_the_grid:
  assumes "2 \<le> fGrid d" and "ShapeById d i = Some s" and "shape_rect s \<noteq> r"
    and "r' = shape_rect (last (fShapes (snd (AddShape kd r label d)))) \<or> ShapeById (SetShapeRect i r d) i = Some (s\<lparr>shape_rect := r'\<rparr>)"
  shows "if fSnap d then (\<forall>x \<in> set (rect_edges r'). on_grid (fGrid d) x)
      \<and> list_all2 (\<lambda>x y. \<bar>x - y\<bar> \<le> fGrid d / 2) (rect_edges r') (rect_edges r)
    else r' = r"
proof -
  have "ShapeById (SetShapeRect i r d) i = Some (s\<lparr>shape_rect := SnapRect d r\<rparr>)"
    using assms(2,3) by (simp add: SetShapeRect_def ShapeById_def find_change_shape)
  then have "r' = SnapRect d r"
    using assms(4) by (auto simp: AddShape_def Let_def new_shape_def) (metis shape.select_convs(3) shape.surjective shape.update_convs(3))
  then show ?thesis
    using assms(1) SnapRect_edges[of d r] by (simp add: SnapRect_def)
qed

theorem edited_shapes_land_on_the_grid_witness:
  "\<forall>x \<in> set (rect_edges (shape_rect (last (fShapes (snd (AddShape PD_RECT (Rect 3 5 21 30) None joined_pair)))))). on_grid 8 x"
proof -
  have "ShapeById joined_pair 1 = Some (new_shape\<lparr>shape_id := 1, shape_rect := Rect 0 0 16 16\<rparr>)"
    by (simp add: ShapeById_def joined_pair_def new_drawing_def new_shape_def)
  from edited_shapes_land_on_the_grid[OF _ this _ disjI1[OF refl], of "Rect 3 5 21 30" PD_RECT None] show ?thesis
    by (simp add: joined_pair_def new_drawing_def new_shape_def)
qed

text \<open>
  Aligning does not go through the grid: with snapping on, centring two shapes that lie on the
  grid leaves one off it.
\<close>

theorem Align_leaves_the_grid:
  "\<exists>d ids mode. fSnap d \<and> fGrid d = 8 \<and> (\<forall>i \<in> set ids. \<forall>x \<in> set (rect_edges (rect_of i (fShapes d))). on_grid 8 x)
    \<and> fst (Align ids mode d) \<and> (\<exists>i \<in> set ids. \<not> on_grid 8 (rect_left (rect_of i (fShapes (snd (Align ids mode d))))))"
proof -
  let ?d = "joined_pair\<lparr>fShapes := [new_shape\<lparr>shape_id := 1, shape_rect := Rect 0 0 16 16\<rparr>,
    new_shape\<lparr>shape_id := 2, shape_rect := Rect 0 24 24 40\<rparr>]\<rparr>"
  have grid: "on_grid 8 (of_int k * 8)" for k by (auto simp: on_grid_def)
  have "fst (Align [1, 2] AlignHCenter ?d)" "rect_left (rect_of 1 (fShapes (snd (Align [1, 2] AlignHCenter ?d)))) = 4"
    by (simp_all add: Align_def ShapeById_def new_shape_def align_shapes_def rect_of_def move_by_def offset_def Let_def)
  moreover have "\<not> on_grid 8 4"
  proof
    assume "on_grid 8 4"
    then obtain k :: int where "(4 :: rat) = of_int k * 8" by (auto simp: on_grid_def)
    then have "4 = k * 8" by (metis of_int_eq_iff of_int_mult of_int_numeral)
    then show False by presburger
  qed
  moreover have "\<forall>i \<in> set [1, 2]. \<forall>x \<in> set (rect_edges (rect_of i (fShapes ?d))). on_grid 8 x"
    using grid[of 0] grid[of 2] grid[of 3] grid[of 5] by (simp add: rect_of_def new_shape_def rect_edges_def)
  moreover have "fSnap ?d" "fGrid ?d = 8" by (simp_all add: joined_pair_def new_drawing_def)
  ultimately show ?thesis
    by (metis list.set_intros(1))
qed

section \<open>Anchors and hits\<close>

text \<open>
  A connector leaves a shape on the border of its box, on the side that faces the other shape,
  when the centres differ by a hundredth or not at all along each axis.
\<close>

theorem anchor_is_on_the_border:
  assumes "rect_valid r" and "rect_w r \<le> 1000000" and "rect_h r \<le> 1000000"
    and "dx = fst (rect_centre q) - fst (rect_centre r)" and "dy = snd (rect_centre q) - snd (rect_centre r)"
    and "dx = 0 \<or> 1 / 100 \<le> \<bar>dx\<bar>" and "dy = 0 \<or> 1 / 100 \<le> \<bar>dy\<bar>"
    and "AnchorPoint r q = (x, y)"
  shows "rect_has r x y \<and> (x \<in> {rect_left r, rect_right r} \<or> y \<in> {rect_top r, rect_bottom r})
    \<and> 0 \<le> (x - fst (rect_centre r)) * dx"
proof -
  define hw hh cx cy where "hw = rect_w r / 2" and "hh = rect_h r / 2" and "cx = fst (rect_centre r)" and "cy = snd (rect_centre r)"
  have pos: "0 \<le> hw" "0 \<le> hh" "hw \<le> 500000" "hh \<le> 500000"
    using assms(1-3) by (simp_all add: hw_def hh_def rect_w_def rect_h_def rect_valid_def)
  have edges: "rect_left r = cx - hw" "rect_right r = cx + hw" "rect_top r = cy - hh" "rect_bottom r = cy + hh"
    by (simp_all add: hw_def hh_def cx_def cy_def rect_w_def rect_h_def rect_centre_def field_simps)
  show ?thesis
  proof (cases "dx = 0 \<and> dy = 0")
    case True
    then have "x = cx" "y = rect_top r"
      using assms(8) by (simp_all add: AnchorPoint_def Let_def cx_def flip: assms(4,5))
    then show ?thesis using pos True by (simp add: rect_has_def edges)
  next
    case False
    define kx where "kx = (if \<bar>dx\<bar> < 1 / 100 then 1000000000 else hw / \<bar>dx\<bar>)"
    define ky where "ky = (if \<bar>dy\<bar> < 1 / 100 then 1000000000 else hh / \<bar>dy\<bar>)"
    have xy: "x = cx + dx * min kx ky" "y = cy + dy * min kx ky"
      using assms(6-8) False by (auto simp: AnchorPoint_def Let_def cx_def cy_def kx_def ky_def hw_def hh_def simp flip: assms(4,5))
    have k: "dx \<noteq> 0 \<Longrightarrow> kx * \<bar>dx\<bar> = hw" "dy \<noteq> 0 \<Longrightarrow> ky * \<bar>dy\<bar> = hh" "0 \<le> kx" "0 \<le> ky"
      using assms(6,7) pos by (auto simp: kx_def ky_def)
    have big: "dx = 0 \<Longrightarrow> ky \<le> kx" "dy = 0 \<Longrightarrow> kx \<le> ky"
    proof -
      have "h / \<bar>e\<bar> \<le> 1000000000" if "1 / 100 \<le> \<bar>e\<bar>" "0 \<le> h" "h \<le> 500000" for h e :: rat
      proof -
        have "h / \<bar>e\<bar> \<le> h / (1 / 100)" using that by (intro divide_left_mono) auto
        then show ?thesis using that(3) by simp
      qed
      from this[of dx hw] this[of dy hh] show "dx = 0 \<Longrightarrow> ky \<le> kx" "dy = 0 \<Longrightarrow> kx \<le> ky"
        using False assms(6,7) pos by (auto simp: kx_def ky_def)
    qed
    have inx: "\<bar>dx * min kx ky\<bar> \<le> hw" and iny: "\<bar>dy * min kx ky\<bar> \<le> hh"
    proof -
      have "\<bar>dx\<bar> * min kx ky \<le> \<bar>dx\<bar> * kx" "\<bar>dy\<bar> * min kx ky \<le> \<bar>dy\<bar> * ky"
        by (intro mult_left_mono; simp)+
      then show "\<bar>dx * min kx ky\<bar> \<le> hw" "\<bar>dy * min kx ky\<bar> \<le> hh"
        using k pos by (cases "dx = 0"; cases "dy = 0"; simp add: abs_mult mult.commute)+
    qed
    have touch: "\<bar>dx * min kx ky\<bar> = hw \<or> \<bar>dy * min kx ky\<bar> = hh"
    proof (cases "kx \<le> ky")
      case True
      then have "dx \<noteq> 0 \<or> kx = ky" using big(1) by force
      then show ?thesis using True k False by (auto simp: abs_mult min_def mult.commute)
    next
      case False
      then have "dy \<noteq> 0" using big(2) by force
      then show ?thesis using False k by (simp add: abs_mult min_def mult.commute)
    qed
    have "0 \<le> min kx ky * (dx * dx)"
      using k(3,4) by (intro mult_nonneg_nonneg[of "min kx ky"]) simp_all
    then have "0 \<le> (dx * min kx ky) * dx" by (simp only: ac_simps)
    then show ?thesis
      using inx iny touch by (auto simp: rect_has_def edges xy abs_if split: if_splits simp flip: cx_def)
  qed
qed

theorem anchor_is_on_the_border_witness: "AnchorPoint (Rect 0 0 16 16) (Rect 40 0 56 16) = (16, 8) \<and> rect_has (Rect 0 0 16 16) (16 :: rat) 8"
proof -
  have "AnchorPoint (Rect 0 0 16 16) (Rect 40 0 56 16) = (16, 8)"
    by (simp add: AnchorPoint_def rect_centre_def rect_w_def rect_h_def Let_def)
  with anchor_is_on_the_border[OF _ _ _ refl refl _ _ this] show ?thesis
    by (simp add: rect_centre_def rect_w_def rect_h_def rect_valid_def)
qed

end
