(* ===== verification/DrawFile.thy ===== *)
theory DrawFile
  imports DrawState Messages DocumentFiles
begin

text \<open>
  How ProseDraw stores a diagram, \<open>PDStyle::Archive\<close> to \<open>PDDocument::LoadFromMessage\<close> in
  \<open>prosedraw/app/src/PDDocument.cpp\<close>. The message kit is the parameter \<open>field\<close>.
\<close>

section \<open>Colours and styles\<close>

definition ColorToInt :: "colour \<Rightarrow> 32 word" where
  "ColorToInt c = ucast (red c) OR push_bit 8 (ucast (green c)) OR push_bit 16 (ucast (blue c)) OR push_bit 24 (ucast (alpha c))"

definition IntToColor :: "32 word \<Rightarrow> colour" where
  "IntToColor v = rgba (ucast (v AND 0xFF)) (ucast (drop_bit 8 v AND 0xFF)) (ucast (drop_bit 16 v AND 0xFF))
     (ucast (drop_bit 24 v AND 0xFF))"

definition Archive :: "style \<Rightarrow> message" where
  "Archive st = [(''fillOn'', FBool (fillOn st)), (''fill'', FInt32 (sint (ColorToInt (fill st)))),
     (''stroke'', FInt32 (sint (ColorToInt (stroke st)))), (''sw'', FFloat (strokeWidth st)), (''dashed'', FBool (dashed st)),
     (''ts'', FFloat (textSize st)), (''tc'', FInt32 (sint (ColorToInt (textColor st))))]"

definition find_colour :: "lookup \<Rightarrow> message \<Rightarrow> string \<Rightarrow> colour \<Rightarrow> colour" where
  "find_colour field m n old = IntToColor (word_of_int (FindInt32 field m n (sint (ColorToInt old))))"

definition Unarchive :: "lookup \<Rightarrow> message \<Rightarrow> style \<Rightarrow> style" where
  "Unarchive field m st =
     \<lparr>fill = find_colour field m ''fill'' (fill st), fillOn = FindBool field m ''fillOn'' (fillOn st),
      stroke = find_colour field m ''stroke'' (stroke st), strokeWidth = FindFloat field m ''sw'' (strokeWidth st),
      dashed = FindBool field m ''dashed'' (dashed st), textSize = FindFloat field m ''ts'' (textSize st),
      textColor = find_colour field m ''tc'' (textColor st)\<rparr>"

section \<open>The document\<close>

definition kind_number :: "shape_kind \<Rightarrow> int" where
  "kind_number k = (case k of PD_RECT \<Rightarrow> 0 | PD_RRECT \<Rightarrow> 1 | PD_ELLIPSE \<Rightarrow> 2 | PD_DIAMOND \<Rightarrow> 3 | PD_TEXT \<Rightarrow> 4
     | PD_CONNECTOR \<Rightarrow> 5 | PD_IMAGE \<Rightarrow> 6 | OtherKind n \<Rightarrow> n)"

definition kind_of :: "int \<Rightarrow> shape_kind" where
  "kind_of n = (if n = 0 then PD_RECT else if n = 1 then PD_RRECT else if n = 2 then PD_ELLIPSE else if n = 3 then PD_DIAMOND
     else if n = 4 then PD_TEXT else if n = 5 then PD_CONNECTOR else if n = 6 then PD_IMAGE else OtherKind n)"

definition shape_message :: "shape \<Rightarrow> message" where
  "shape_message s =
     [(''id'', FInt32 (shape_id s)), (''kind'', FInt8 (kind_number (shape_kind s))),
      (''l'', FFloat (rect_left (shape_rect s))), (''t'', FFloat (rect_top (shape_rect s))),
      (''r'', FFloat (rect_right (shape_rect s))), (''b'', FFloat (rect_bottom (shape_rect s)))]
     @ (if shape_label s \<noteq> [] then [(''label'', FString (shape_label s))] else [])
     @ Archive (shape_style s)
     @ [(''from'', FInt32 (fromId s)), (''to'', FInt32 (toId s)), (''ae'', FBool (arrowEnd s)), (''as'', FBool (arrowStart s))]
     @ (if orthogonal s then [(''ort'', FBool True)] else [])
     @ (if shape_kind s = PD_IMAGE then [(''img'', FInt32 (imageId s))] else [])"

definition image_message :: "image \<Rightarrow> message" where
  "image_message g = [(''id'', FInt32 (image_id g)), (''w'', FInt32 (image_width g)), (''h'', FInt32 (image_height g)),
     (''bits'', FData (image_bits g))]"

definition SaveToMessage :: "drawing \<Rightarrow> message" where
  "SaveToMessage d = [(''pw'', FFloat (fst (fPage d))), (''ph'', FFloat (snd (fPage d))), (''grid'', FFloat (fGrid d))]
     @ map (\<lambda>s. (''shape'', FMessage (shape_message s))) (fShapes d)
     @ map (\<lambda>g. (''image'', FMessage (image_message g))) (fImages d)"

definition shape_of :: "lookup \<Rightarrow> message \<Rightarrow> shape" where
  "shape_of field m =
     new_shape\<lparr>shape_id := FindInt32 field m ''id'' 0,
       shape_kind := kind_of (FindInt8 field m ''kind'' 0),
       shape_rect := Rect (FindFloat field m ''l'' 0) (FindFloat field m ''t'' 0) (FindFloat field m ''r'' 0) (FindFloat field m ''b'' 0),
       shape_label := (case FindString field m ''label'' of Some l \<Rightarrow> l | None \<Rightarrow> []),
       shape_style := Unarchive field m new_style,
       fromId := FindInt32 field m ''from'' 0, toId := FindInt32 field m ''to'' 0,
       arrowEnd := FindBool field m ''ae'' True, arrowStart := FindBool field m ''as'' False,
       orthogonal := FindBool field m ''ort'' False, imageId := FindInt32 field m ''img'' 0\<rparr>"

definition load_shape :: "lookup \<Rightarrow> message \<Rightarrow> drawing \<Rightarrow> drawing" where
  "load_shape field m d =
     (let s = shape_of field m in d\<lparr>fShapes := fShapes d @ [s], fNextId := max (fNextId d) (shape_id s + 1)\<rparr>)"

definition load_image :: "lookup \<Rightarrow> message \<Rightarrow> drawing \<Rightarrow> drawing" where
  "load_image field m d =
     (let w = FindInt32 field m ''w'' 0; h = FindInt32 field m ''h'' 0; i = FindInt32 field m ''id'' 0 in
      case FindData field m ''bits'' of None \<Rightarrow> d
      | Some bs \<Rightarrow> if w > 0 \<and> h > 0 \<and> int (length bs) = w * h * 4
          then d\<lparr>fImages := fImages d @ [\<lparr>image_id = i, image_width = w, image_height = h, image_bits = bs\<rparr>],
                 fNextImageId := max (fNextImageId d) (i + 1)\<rparr>
          else d)"

text \<open>\<open>LoadFromMessage\<close> into a document; it always answers \<open>B_OK\<close>. \<open>None\<close>: a loop does not end.\<close>

definition LoadFromMessage :: "lookup \<Rightarrow> message \<Rightarrow> drawing \<Rightarrow> drawing option" where
  "LoadFromMessage field m d =
     (let d = d\<lparr>fShapes := [], fUndo := [], fRedo := [], fNextId := 1\<rparr>;
          d = d\<lparr>fPage := (FindFloat field m ''pw'' (fst (fPage d)), FindFloat field m ''ph'' (snd (fPage d))),
                fGrid := FindFloat field m ''grid'' (fGrid d)\<rparr>
      in case for_messages field m ''shape'' (load_shape field) 0 d of None \<Rightarrow> None
         | Some d \<Rightarrow> (case for_messages field m ''image'' (load_image field) 0 d of None \<Rightarrow> None
           | Some d \<Rightarrow> Some (d\<lparr>fModified := False\<rparr>)))"

text \<open>
  \<open>SaveToFile\<close> and \<open>LoadFromFile\<close>; \<open>flatten\<close> and \<open>unflatten\<close> are the message kit's. The document that
  is loaded into is \<open>None\<close> where a loop does not end.
\<close>

definition SaveDiagram :: "(message \<Rightarrow> nat + string) \<Rightarrow> string \<Rightarrow> save_env \<Rightarrow> files \<Rightarrow> drawing \<Rightarrow> status \<times> files" where
  "SaveDiagram flatten path env fs d = SaveToFile ''.pdtmp'' B_OK (flatten (SaveToMessage d)) path env fs"

definition LoadDiagram :: "lookup \<Rightarrow> (string \<Rightarrow> nat + message) \<Rightarrow> load_env \<Rightarrow> drawing \<Rightarrow> status \<times> drawing option" where
  "LoadDiagram field unflatten env d = LoadFromFile (64 * 1024 * 1024) unflatten
     (\<lambda>m d. (B_OK, Option.bind d (LoadFromMessage field m))) env (Some d)"

section \<open>Round trips\<close>

lemma IntToColor_ColorToInt: "IntToColor (ColorToInt c) = c"
  unfolding IntToColor_def ColorToInt_def packed_bytes by (cases c) (simp add: rgba_def)

lemma kind_of_number: "(\<And>n. k = OtherKind n \<Longrightarrow> n < 0 \<or> 6 < n) \<Longrightarrow> kind_of (kind_number k) = k"
  by (cases k) (auto simp: kind_of_def kind_number_def)

lemma find_colour_stored:
  assumes "message_kit field" and "map_of m n = Some (FInt32 (sint (ColorToInt c)))"
  shows "find_colour field m n old = c"
  using assms by (simp add: find_colour_def FindInt32_def kit_first IntToColor_ColorToInt)

text \<open>What a stored shape keeps: the label and the image number are written on condition.\<close>

definition shape_storable :: "shape \<Rightarrow> bool" where
  "shape_storable s \<longleftrightarrow> (shape_kind s \<noteq> PD_IMAGE \<longrightarrow> imageId s = 0)
     \<and> (\<forall>n. shape_kind s = OtherKind n \<longrightarrow> n < 0 \<or> 6 < n)"

lemma shape_fields:
  "map_of (shape_message s) ''id'' = Some (FInt32 (shape_id s))"
  "map_of (shape_message s) ''kind'' = Some (FInt8 (kind_number (shape_kind s)))"
  "map_of (shape_message s) ''l'' = Some (FFloat (rect_left (shape_rect s)))"
  "map_of (shape_message s) ''t'' = Some (FFloat (rect_top (shape_rect s)))"
  "map_of (shape_message s) ''r'' = Some (FFloat (rect_right (shape_rect s)))"
  "map_of (shape_message s) ''b'' = Some (FFloat (rect_bottom (shape_rect s)))"
  "map_of (shape_message s) ''label'' = (if shape_label s \<noteq> [] then Some (FString (shape_label s)) else None)"
  "map_of (shape_message s) ''fillOn'' = Some (FBool (fillOn (shape_style s)))"
  "map_of (shape_message s) ''fill'' = Some (FInt32 (sint (ColorToInt (fill (shape_style s)))))"
  "map_of (shape_message s) ''stroke'' = Some (FInt32 (sint (ColorToInt (stroke (shape_style s)))))"
  "map_of (shape_message s) ''sw'' = Some (FFloat (strokeWidth (shape_style s)))"
  "map_of (shape_message s) ''dashed'' = Some (FBool (dashed (shape_style s)))"
  "map_of (shape_message s) ''ts'' = Some (FFloat (textSize (shape_style s)))"
  "map_of (shape_message s) ''tc'' = Some (FInt32 (sint (ColorToInt (textColor (shape_style s)))))"
  "map_of (shape_message s) ''from'' = Some (FInt32 (fromId s))"
  "map_of (shape_message s) ''to'' = Some (FInt32 (toId s))"
  "map_of (shape_message s) ''ae'' = Some (FBool (arrowEnd s))"
  "map_of (shape_message s) ''as'' = Some (FBool (arrowStart s))"
  "map_of (shape_message s) ''ort'' = (if orthogonal s then Some (FBool True) else None)"
  "map_of (shape_message s) ''img'' = (if shape_kind s = PD_IMAGE then Some (FInt32 (imageId s)) else None)"
  by (simp_all add: shape_message_def Archive_def map_add_def)

lemma shape_of_message:
  assumes "message_kit field" and "shape_storable s"
  shows "shape_of field (shape_message s) = s"
proof -
  have "Unarchive field (shape_message s) new_style = shape_style s"
    using assms(1)
    by (cases "shape_style s") (simp add: Unarchive_def find_defs kit_first shape_fields find_colour_stored)
  moreover have "kind_of (kind_number (shape_kind s)) = shape_kind s"
    using assms(2) by (intro kind_of_number) (simp add: shape_storable_def)
  ultimately show ?thesis
    using assms by (cases s; cases "shape_rect s")
      (auto simp: shape_of_def find_defs kit_first shape_fields new_shape_def shape_storable_def)
qed

definition image_storable :: "image \<Rightarrow> bool" where
  "image_storable g \<longleftrightarrow> image_width g > 0 \<and> image_height g > 0
     \<and> int (length (image_bits g)) = image_width g * image_height g * 4"

lemma load_image_message:
  assumes "message_kit field" and "image_storable g"
  shows "load_image field (image_message g) d
    = d\<lparr>fImages := fImages d @ [g], fNextImageId := max (fNextImageId d) (image_id g + 1)\<rparr>"
  using assms by (cases g)
    (simp add: load_image_def image_message_def image_storable_def FindInt32_def FindData_def kit_first Let_def)

lemma fold_load_shapes:
  assumes "message_kit field" and "\<forall>s \<in> set ss. shape_storable s"
  shows "fold (load_shape field) (map shape_message ss) d
    = d\<lparr>fShapes := fShapes d @ ss, fNextId := next_after (fNextId d) (map shape_id ss)\<rparr>"
  using assms(2)
  by (induction ss arbitrary: d) (auto simp: load_shape_def Let_def shape_of_message[OF assms(1)] next_after_def)

lemma fold_load_images:
  assumes "message_kit field" and "\<forall>g \<in> set gs. image_storable g"
  shows "fold (load_image field) (map image_message gs) d
    = d\<lparr>fImages := fImages d @ gs, fNextImageId := next_after (fNextImageId d) (map image_id gs)\<rparr>"
  using assms(2)
  by (induction gs arbitrary: d) (auto simp: load_image_message[OF assms(1)] next_after_def)

lemma saved_fields:
  "map_of (SaveToMessage d) ''pw'' = Some (FFloat (fst (fPage d)))" "map_of (SaveToMessage d) ''ph'' = Some (FFloat (snd (fPage d)))"
  "map_of (SaveToMessage d) ''grid'' = Some (FFloat (fGrid d))"
  "values_of (SaveToMessage d) ''shape'' = map FMessage (map shape_message (fShapes d))"
  "values_of (SaveToMessage d) ''image'' = map FMessage (map image_message (fImages d))"
  by (simp_all add: SaveToMessage_def comp_def)

lemma load_saved:
  assumes "message_kit field" and "\<forall>s \<in> set (fShapes d). shape_storable s" and "\<forall>g \<in> set (fImages d). image_storable g"
  shows "LoadFromMessage field (SaveToMessage d) d0 = Some (d0\<lparr>fShapes := fShapes d, fImages := fImages d0 @ fImages d,
      fNextImageId := next_after (fNextImageId d0) (map image_id (fImages d)), fUndo := [], fRedo := [],
      fNextId := next_after 1 (map shape_id (fShapes d)), fGrid := fGrid d, fPage := fPage d, fModified := False\<rparr>)"
  using assms
  by (simp add: LoadFromMessage_def Let_def for_messages_fold[OF assms(1) saved_fields(4)] for_messages_fold[OF assms(1) saved_fields(5)]
      fold_load_shapes[OF assms(1,2)] fold_load_images[OF assms(1,3)] FindFloat_def kit_first saved_fields)

lemma ImageById_append:
  assumes "fImages e = fImages old @ fImages d"
  shows "ImageById e i = (case ImageById old i of Some g \<Rightarrow> Some g | None \<Rightarrow> ImageById d i)"
proof -
  have find: "find P (xs @ ys) = (case find P xs of Some x \<Rightarrow> Some x | None \<Rightarrow> find P ys)" for P and xs ys :: "image list"
    by (induction xs) auto
  show ?thesis unfolding ImageById_def assms find ..
qed

text \<open>
  C14 A diagram that was saved is the diagram that is opened, except where the one open before it gets in
  the way: when \<open>SaveToFile\<close> answered \<open>B_OK\<close> and the flattened diagram is at most 64 MB, the document
  that loads the file, new or showing another diagram as in \<open>PDWindow\<close>, and in whatever pieces the file
  is read, has every shape with its geometry, label, style, ends, arrows and route, the page and the
  grid, and an empty history, and the next ids lie behind every id of the file. Its images are the old
  ones and then the saved ones, so that a number shows the old image where there is one and the saved
  image where there is none. A larger diagram is saved just so, and then refused.
\<close>

theorem diagram_survives_the_disk:
  assumes "message_kit field" and "\<forall>s \<in> set (fShapes d). shape_storable s" and "\<forall>g \<in> set (fImages d). image_storable g"
    and "flatten (SaveToMessage d) = Inr bytes" and "unflatten bytes = Inr (SaveToMessage d)" and "4 \<le> length bytes"
    and "SaveDiagram flatten path senv fs d = (B_OK, fs')"
    and "fs' path = Some (concat chunks)" and "[] \<notin> set chunks"
  shows "if length bytes \<le> 64 * 1024 * 1024
    then \<exists>e. LoadDiagram field unflatten (fine_load chunks) old = (B_OK, Some e)
      \<and> fShapes e = fShapes d \<and> fPage e = fPage d \<and> fGrid e = fGrid d \<and> fUndo e = [] \<and> fRedo e = [] \<and> \<not> fModified e
      \<and> (\<forall>s \<in> set (fShapes e). shape_id s < fNextId e) \<and> (\<forall>g \<in> set (fImages d). image_id g < fNextImageId e)
      \<and> fImages e = fImages old @ fImages d
      \<and> (\<forall>i. ImageById e i = (case ImageById old i of Some g \<Rightarrow> Some g | None \<Rightarrow> ImageById d i))
    else LoadDiagram field unflatten (fine_load chunks) old = (B_BAD_VALUE, Some old)"
proof -
  have saved: "SaveToFile ''.pdtmp'' B_OK (Inr bytes) path senv fs = (B_OK, fs')"
    using assms(4,7) by (simp add: SaveDiagram_def)
  have load: "LoadDiagram field unflatten (fine_load chunks) old =
      (if length bytes \<le> 64 * 1024 * 1024 then (B_OK, LoadFromMessage field (SaveToMessage d) old) else (B_BAD_VALUE, Some old))"
    unfolding LoadDiagram_def LoadFromFile_saved[where unflatten = unflatten, OF saved assms(5,6,8,9), simplified] by auto
  then show ?thesis
    using next_after_above ImageById_append by (simp add: load_saved[OF assms(1-3)])
qed

text \<open>A pair of boxes is opened in a window that shows an image.\<close>

definition with_image :: drawing where
  "with_image = snd (AddImageRGBA 1 1 (Some [9, 9, 9, 9]) new_drawing)"

theorem diagram_survives_the_disk_witness:
  "\<exists>e. LoadDiagram nth_field (\<lambda>b. Inr (SaveToMessage joined_pair)) (fine_load [''HM'', ''F1&dDp'']) with_image = (B_OK, Some e)
    \<and> fShapes e = fShapes joined_pair \<and> map image_bits (fImages e) = [[9, 9, 9, 9]]"
proof -
  obtain fs' where saved: "SaveDiagram (\<lambda>m. Inr ''HMF1&dDp'') ''/d'' fine_save Map.empty joined_pair = (B_OK, fs')"
    "fs' ''/d'' = Some (concat [''HM'', ''F1&dDp''])"
    using fine_save_saves[of "''HMF1&dDp''" "''.pdtmp''" "''/d''" Map.empty] by (auto simp: SaveDiagram_def)
  have kept: "\<forall>s \<in> set (fShapes joined_pair). shape_storable s" "\<forall>g \<in> set (fImages joined_pair). image_storable g"
    by (simp_all add: joined_pair_def new_drawing_def new_shape_def shape_storable_def)
  have "map image_bits (fImages with_image @ fImages joined_pair) = [[9, 9, 9, 9]]"
    by (simp add: with_image_def joined_pair_def AddImageRGBA_def new_drawing_def Let_def)
  then show ?thesis
    using diagram_survives_the_disk[where bytes = "''HMF1&dDp''" and flatten = "\<lambda>m. Inr ''HMF1&dDp''" and old = with_image
        and unflatten = "\<lambda>b. Inr (SaveToMessage joined_pair)", OF message_kit_nth_field kept _ _ _ saved] by auto
qed

text \<open>
  Loading does not clear the images: a diagram opened in a window that showed another one finds
  the other's image under the same number, so its picture is replaced.
\<close>

theorem loaded_image_is_the_old_one:
  assumes "message_kit field" and "fImages d = [g]" and "image_storable g" and "\<forall>s \<in> set (fShapes d). shape_storable s"
    and "ImageById d0 (image_id g) = Some old"
  shows "\<exists>e. LoadFromMessage field (SaveToMessage d) d0 = Some e \<and> ImageById e (image_id g) = Some old"
proof -
  have find: "find P xs = Some x \<Longrightarrow> find P (xs @ ys) = Some x" for P and x :: image and xs ys
    by (induction xs) (auto split: if_splits)
  show ?thesis
    using assms(3,5) by (simp add: load_saved[OF assms(1,4)] assms(2) ImageById_def find)
qed

theorem loaded_image_is_the_old_one_witness:
  "\<exists>e. LoadFromMessage nth_field (SaveToMessage (snd (AddImageRGBA 1 1 (Some [1, 1, 1, 1]) new_drawing)))
       (snd (AddImageRGBA 1 1 (Some [9, 9, 9, 9]) new_drawing)) = Some e
     \<and> map_option image_bits (ImageById e 1) = Some [9, 9, 9, 9]"
proof -
  let ?g = "\<lambda>b. \<lparr>image_id = 1, image_width = 1, image_height = 1, image_bits = [b, b, b, b]\<rparr> :: image"
  let ?d = "\<lambda>b. snd (AddImageRGBA 1 1 (Some [b, b, b, b]) new_drawing)"
  have d: "fImages (?d b) = [?g b]" "fShapes (?d b) = []" "ImageById (?d b) 1 = Some (?g b)" for b :: nat
    by (simp_all add: AddImageRGBA_def new_drawing_def ImageById_def Let_def)
  have "image_storable (?g 1)" by (simp add: image_storable_def)
  from loaded_image_is_the_old_one[OF message_kit_nth_field d(1) this, of "?d 9" "?g 9"] d(2,3) show ?thesis
    by auto
qed

end
