(* ===== verification/DrawCanvas.thy ===== *)
theory DrawCanvas
  imports DrawFile
begin

text \<open>
  ProseDraw's canvas, \<open>prosedraw/app/src/PDCanvas.h\<close> and \<open>PDCanvas.cpp\<close>: the selection, the tools as a
  state machine over the pointer, keys, the label editor and drops. The time, the modifier keys and
  what the editor holds are arguments; drawing, focus and status messages are the kit's. A pointer to
  a shape that \<open>AddShape\<close> returns is the last shape of the list.
\<close>

section \<open>The canvas\<close>

datatype tool = PD_TOOL_SELECT | PD_TOOL_RECT | PD_TOOL_RRECT | PD_TOOL_ELLIPSE | PD_TOOL_DIAMOND | PD_TOOL_TEXT | PD_TOOL_CONNECTOR

datatype drag_mode = DRAG_NONE | DRAG_MOVE | DRAG_RESIZE | DRAG_CREATE | DRAG_BAND | DRAG_CONNECT

record canvas =
  cDoc :: drawing
  fTool :: tool
  fZoom :: rat
  fSelection :: "int list"
  fDrag :: drag_mode
  fDragStart :: point
  fDragLast :: point
  fDragOriginal :: "rat rect"
  fResizeX :: int
  fResizeY :: int
  fConnectFrom :: int
  fConnectNow :: point
  fMoveBase :: "rat rect list"
  fEditor :: bool
  fEditorShapeId :: int
  fLastClickTime :: int
  fLastClickPoint :: point
  fLastMouse :: point

definition new_canvas :: "drawing \<Rightarrow> canvas" where
  "new_canvas d = \<lparr>cDoc = d, fTool = PD_TOOL_SELECT, fZoom = 1, fSelection = [], fDrag = DRAG_NONE, fDragStart = (0, 0),
     fDragLast = (0, 0), fDragOriginal = no_rect, fResizeX = 0, fResizeY = 0, fConnectFrom = 0, fConnectNow = (0, 0),
     fMoveBase = [], fEditor = False, fEditorShapeId = 0, fLastClickTime = 0, fLastClickPoint = (0, 0), fLastMouse = (0, 0)\<rparr>"

definition kMargin :: rat where
  "kMargin = 24"

definition DocToView :: "canvas \<Rightarrow> point \<Rightarrow> point" where
  "DocToView c p = ((kMargin + fst p) * fZoom c, (kMargin + snd p) * fZoom c)"

definition ViewToDoc :: "canvas \<Rightarrow> point \<Rightarrow> point" where
  "ViewToDoc c p = (fst p / fZoom c - kMargin, snd p / fZoom c - kMargin)"

definition SetTool :: "tool \<Rightarrow> canvas \<Rightarrow> canvas" where
  "SetTool t c = c\<lparr>fTool := t\<rparr>"

definition SetZoom :: "rat \<Rightarrow> canvas \<Rightarrow> canvas" where
  "SetZoom zoom c =
     (let z = (if zoom < 1 / 4 then 1 / 4 else zoom); z = (if z > 4 then 4 else z) in
      if z = fZoom c then c else c\<lparr>fZoom := z\<rparr>)"

definition on_doc :: "(drawing \<Rightarrow> drawing) \<Rightarrow> canvas \<Rightarrow> canvas" where
  "on_doc f c = c\<lparr>cDoc := f (cDoc c)\<rparr>"

text \<open>Writing through the pointer to the shape just added.\<close>

definition on_added :: "(shape \<Rightarrow> shape) \<Rightarrow> drawing \<Rightarrow> drawing" where
  "on_added f d = d\<lparr>fShapes := butlast (fShapes d) @ [f (last (fShapes d))]\<rparr>"

definition is_box :: "drawing \<Rightarrow> int \<Rightarrow> bool" where
  "is_box d i = (case ShapeById d i of Some s \<Rightarrow> shape_kind s \<noteq> PD_CONNECTOR | None \<Rightarrow> False)"

definition HandlePos :: "canvas \<Rightarrow> shape \<Rightarrow> int \<Rightarrow> int \<Rightarrow> point" where
  "HandlePos c s xAnchor yAnchor =
     (let r = shape_rect s in
      DocToView c (if xAnchor < 0 then rect_left r else if xAnchor > 0 then rect_right r else (rect_left r + rect_right r) / 2,
        if yAnchor < 0 then rect_top r else if yAnchor > 0 then rect_bottom r else (rect_top r + rect_bottom r) / 2))"

definition SelectionFrame :: "canvas \<Rightarrow> int \<Rightarrow> rat rect" where
  "SelectionFrame c i =
     (let k = IndexOf (cDoc c) i; corners = (\<lambda>a b. Rect (fst (DocToView c a)) (snd (DocToView c a)) (fst (DocToView c b)) (snd (DocToView c b))) in
      if k < 0 then no_rect
      else let s = fShapes (cDoc c) ! nat k in
        if shape_kind s = PD_CONNECTOR then
          (case (ShapeById (cDoc c) (fromId s), ShapeById (cDoc c) (toId s)) of
             (Some from, Some to) \<Rightarrow> corners (AnchorPoint (shape_rect from) (shape_rect to)) (AnchorPoint (shape_rect to) (shape_rect from))
           | _ \<Rightarrow> no_rect)
        else let r = shape_rect s in corners (rect_left r, rect_top r) (rect_right r, rect_bottom r))"

section \<open>The selection\<close>

definition Select :: "int list \<Rightarrow> canvas \<Rightarrow> canvas" where
  "Select ids c = c\<lparr>fSelection := ids\<rparr>"

definition SelectAll :: "canvas \<Rightarrow> canvas" where
  "SelectAll c = Select (map shape_id (filter (\<lambda>s. shape_kind s \<noteq> PD_CONNECTOR) (fShapes (cDoc c)))) c"

definition DeleteSelection :: "canvas \<Rightarrow> canvas" where
  "DeleteSelection c = (if fSelection c = [] then c else c\<lparr>cDoc := RemoveShapes (fSelection c) (cDoc c), fSelection := []\<rparr>)"

definition nudge :: "rat \<Rightarrow> rat \<Rightarrow> int \<Rightarrow> drawing \<Rightarrow> drawing" where
  "nudge dx dy i d =
     (case ShapeById d i of None \<Rightarrow> d
      | Some s \<Rightarrow> if shape_kind s = PD_CONNECTOR then d else SetShapeRect i (offset dx dy (shape_rect s)) d)"

definition NudgeSelection :: "rat \<Rightarrow> rat \<Rightarrow> canvas \<Rightarrow> canvas" where
  "NudgeSelection dx dy c = on_doc (fold (nudge dx dy) (fSelection c)) c"

text \<open>The two loops of \<open>DuplicateSelection\<close>: the drawing, the new id of each copied shape, the ids added.\<close>

definition copy_box :: "int \<Rightarrow> drawing \<times> (int \<rightharpoonup> int) \<times> int list \<Rightarrow> drawing \<times> (int \<rightharpoonup> int) \<times> int list" where
  "copy_box i = (\<lambda>(d, remap, fresh).
     (case ShapeById d i of None \<Rightarrow> (d, remap, fresh)
      | Some s \<Rightarrow>
          if shape_kind s = PD_CONNECTOR then (d, remap, fresh)
          else (case AddShape (shape_kind s) (offset (fGrid d) (fGrid d) (shape_rect s)) (Some (shape_label s)) d of
             (new, d) \<Rightarrow> (on_added (\<lambda>a. a\<lparr>shape_style := shape_style s\<rparr>) d, remap(i \<mapsto> new), fresh @ [new]))))"

definition copy_connector :: "(int \<rightharpoonup> int) \<Rightarrow> int \<Rightarrow> drawing \<times> int list \<Rightarrow> drawing \<times> int list" where
  "copy_connector remap i = (\<lambda>(d, fresh).
     (case ShapeById d i of None \<Rightarrow> (d, fresh)
      | Some s \<Rightarrow>
          if shape_kind s \<noteq> PD_CONNECTOR then (d, fresh)
          else (case (remap (fromId s), remap (toId s)) of
             (Some from, Some to) \<Rightarrow>
               (case AddShape PD_CONNECTOR (Rect 0 0 0 0) None d of
                 (new, d) \<Rightarrow> (on_added (\<lambda>a. a\<lparr>fromId := from, toId := to, shape_style := shape_style s, arrowEnd := arrowEnd s,
                       arrowStart := arrowStart s, orthogonal := orthogonal s\<rparr>) d, fresh @ [new]))
           | _ \<Rightarrow> (d, fresh))))"

definition DuplicateSelection :: "canvas \<Rightarrow> canvas" where
  "DuplicateSelection c =
     (if fSelection c = [] then c
      else case fold copy_box (fSelection c) (cDoc c, Map.empty, []) of
        (d, remap, fresh) \<Rightarrow> (case fold (copy_connector remap) (fSelection c) (d, fresh) of
          (d, fresh) \<Rightarrow> Select fresh (c\<lparr>cDoc := d\<rparr>)))"

definition SelectionBounds :: "canvas \<Rightarrow> rat rect" where
  "SelectionBounds c =
     (case map (\<lambda>i. rect_of i (fShapes (cDoc c))) (filter (is_box (cDoc c)) (fSelection c)) of
        [] \<Rightarrow> Rect 0 0 0 0 | r # rs \<Rightarrow> fold (\<lambda>r b. rect_join b r) rs r)"

definition SetSelectionRect :: "rat rect \<Rightarrow> canvas \<Rightarrow> canvas" where
  "SetSelectionRect r c =
     (case fSelection c of [i] \<Rightarrow> if is_box (cDoc c) i then on_doc (SetShapeRect i r) c else c | _ \<Rightarrow> c)"

definition connect :: "int \<Rightarrow> int \<Rightarrow> bool \<Rightarrow> canvas \<Rightarrow> canvas" where
  "connect from to elbow c =
     (case AddShape PD_CONNECTOR (Rect 0 0 0 0) None (cDoc c) of
        (new, d) \<Rightarrow> Select [new] (c\<lparr>cDoc := on_added (\<lambda>a. a\<lparr>fromId := from, toId := to, orthogonal := elbow\<rparr>) d\<rparr>))"

definition QueueConnector :: "bool \<Rightarrow> canvas \<Rightarrow> canvas" where
  "QueueConnector elbow c =
     (case take 2 (map shape_id (filter (\<lambda>s. shape_kind s \<noteq> PD_CONNECTOR) (rev (fShapes (cDoc c))))) of
        [a, b] \<Rightarrow> connect b a elbow c | _ \<Rightarrow> c)"

section \<open>The label editor\<close>

definition OpenLabelEditor :: "canvas \<Rightarrow> canvas" where
  "OpenLabelEditor c =
     (case fSelection c of
        [i] \<Rightarrow> if fEditor c \<or> \<not> is_box (cDoc c) i then c else c\<lparr>fEditor := True, fEditorShapeId := i\<rparr>
      | _ \<Rightarrow> c)"

definition CloseLabelEdit :: "canvas \<Rightarrow> canvas" where
  "CloseLabelEdit c = c\<lparr>fEditor := False, fEditorShapeId := 0\<rparr>"

definition CommitLabelEdit :: "string \<Rightarrow> canvas \<Rightarrow> canvas" where
  "CommitLabelEdit text c =
     (if \<not> fEditor c then c else on_doc (SetShapeLabel (fEditorShapeId c) text) (CloseLabelEdit c))"

definition CancelLabelEdit :: "canvas \<Rightarrow> canvas" where
  "CancelLabelEdit c = (if \<not> fEditor c then c else CloseLabelEdit c)"

section \<open>The pointer\<close>

definition near_point :: "rat \<Rightarrow> point \<Rightarrow> point \<Rightarrow> bool" where
  "near_point d p q \<longleftrightarrow> \<bar>fst p - fst q\<bar> \<le> d \<and> \<bar>snd p - snd q\<bar> \<le> d"

definition handles :: "(int \<times> int) list" where
  "handles = [(- 1, - 1), (- 1, 0), (- 1, 1), (0, - 1), (0, 1), (1, - 1), (1, 0), (1, 1)]"

text \<open>The id of the shape and the anchors of the handle; the id is 0 when there is none.\<close>

definition HandleAt :: "canvas \<Rightarrow> point \<Rightarrow> int \<times> int \<times> int" where
  "HandleAt c where =
     (case fSelection c of
        [i] \<Rightarrow>
          (case ShapeById (cDoc c) i of None \<Rightarrow> (0, 0, 0)
           | Some s \<Rightarrow> if shape_kind s = PD_CONNECTOR then (0, 0, 0)
               else (case find (\<lambda>(hx, hy). near_point 5 where (HandlePos c s hx hy)) handles of
                   Some (hx, hy) \<Rightarrow> (shape_id s, hx, hy) | None \<Rightarrow> (0, 0, 0)))
      | _ \<Rightarrow> (0, 0, 0))"

text \<open>The selection after a click on a shape.\<close>

definition clicked :: "bool \<Rightarrow> int \<Rightarrow> int list \<Rightarrow> int list" where
  "clicked shift hit sel =
     (if shift then (if hit \<in> set sel then remove1 hit sel else sel @ [hit])
      else if hit \<notin> set sel then [hit] else sel)"

definition begin_move :: "point \<Rightarrow> canvas \<Rightarrow> canvas" where
  "begin_move p c =
     c\<lparr>fMoveBase := map (\<lambda>i. rect_of i (fShapes (cDoc c))) (filter (is_box (cDoc c)) (fSelection c)),
       cDoc := Snapshot (cDoc c), fDrag := DRAG_MOVE, fDragStart := p, fDragLast := p\<rparr>"

definition press_select :: "int \<Rightarrow> bool \<Rightarrow> point \<Rightarrow> canvas \<Rightarrow> canvas" where
  "press_select now shift where c =
     (let p = ViewToDoc c where; d = cDoc c;
          doubleClick = (now - fLastClickTime c < 250000 \<and> \<bar>fst where - fst (fLastClickPoint c)\<bar> < 6
            \<and> \<bar>snd where - snd (fLastClickPoint c)\<bar> < 6);
          c = c\<lparr>fLastClickTime := now, fLastClickPoint := where\<rparr>
      in case HandleAt c where of (handle, hx, hy) \<Rightarrow>
        if handle \<noteq> 0 then c\<lparr>cDoc := Snapshot d, fDrag := DRAG_RESIZE, fResizeX := hx, fResizeY := hy,
            fDragOriginal := rect_of handle (fShapes d), fDragStart := p, fDragLast := p\<rparr>
        else let hit = (if ConnectorAtPoint d p = 0 then ShapeAtPoint d p else ConnectorAtPoint d p) in
          if hit \<noteq> 0 then let c = Select (clicked shift hit (fSelection c)) c in
            if doubleClick \<and> length (fSelection c) = 1 then OpenLabelEditor c else begin_move p c
          else (if shift then c else Select [] c)\<lparr>fDrag := DRAG_BAND, fDragStart := p, fDragLast := p\<rparr>)"

definition press_connector :: "point \<Rightarrow> canvas \<Rightarrow> canvas" where
  "press_connector p c =
     (let hit = ShapeAtPoint (cDoc c) p in
      if hit \<noteq> 0 \<and> fConnectFrom c = 0 then c\<lparr>fConnectFrom := hit, fDragStart := p, fConnectNow := p, fDrag := DRAG_CONNECT\<rparr>
      else if hit \<noteq> 0 \<and> hit \<noteq> fConnectFrom c then
        connect (fConnectFrom c) hit False (c\<lparr>fConnectFrom := 0, fDrag := DRAG_NONE\<rparr>)
      else if fConnectFrom c \<noteq> 0 then c\<lparr>fConnectFrom := 0, fDrag := DRAG_NONE\<rparr>
      else c)"

definition MouseDown :: "int \<Rightarrow> bool \<Rightarrow> point \<Rightarrow> canvas \<Rightarrow> canvas" where
  "MouseDown now shift where c =
     (let p = ViewToDoc c where in
      case fTool c of
        PD_TOOL_SELECT \<Rightarrow> press_select now shift where c
      | PD_TOOL_CONNECTOR \<Rightarrow> press_connector p c
      | PD_TOOL_TEXT \<Rightarrow>
          (case AddShape PD_TEXT (Rect (fst p) (snd p) (fst p + 160) (snd p + 24)) (Some ''Text'') (cDoc c) of
             (new, d) \<Rightarrow> Select [new] (c\<lparr>cDoc := d\<rparr>))
      | _ \<Rightarrow> c\<lparr>fDrag := DRAG_CREATE, fDragStart := p, fDragLast := p\<rparr>)"

definition move_shapes :: "rat \<Rightarrow> rat \<Rightarrow> (int \<times> rat rect) list \<Rightarrow> shape list \<Rightarrow> shape list" where
  "move_shapes dx dy = fold (\<lambda>(i, base). change_shape i
     (\<lambda>s. if shape_kind s \<noteq> PD_CONNECTOR then s\<lparr>shape_rect := offset dx dy base\<rparr> else s))"

definition snap :: "drawing \<Rightarrow> rat \<Rightarrow> rat" where
  "snap d v = roundf (v / fGrid d) * fGrid d"

definition drag_move :: "canvas \<Rightarrow> canvas" where
  "drag_move c =
     (let d = cDoc c; b = hd (fMoveBase c);
          dx = fst (fDragLast c) - fst (fDragStart c); dy = snd (fDragLast c) - snd (fDragStart c);
          sdx = snap d (rect_left b + dx) - snap d (rect_left b); sdy = snap d (rect_top b + dy) - snap d (rect_top b)
      in c\<lparr>cDoc := d\<lparr>fShapes := move_shapes sdx sdy (zip (fSelection c) (fMoveBase c)) (fShapes d)\<rparr>\<rparr>)"

definition resized :: "canvas \<Rightarrow> rat rect" where
  "resized c =
     (let r = fDragOriginal c; x = fst (fDragLast c); y = snd (fDragLast c);
          r = (if fResizeX c < 0 then Rect (min (rect_right r) x) (rect_top r) (rect_right r) (rect_bottom r) else r);
          r = (if fResizeX c > 0 then Rect (rect_left r) (rect_top r) (max (rect_left r) x) (rect_bottom r) else r);
          r = (if fResizeY c < 0 then Rect (rect_left r) (min (rect_bottom r) y) (rect_right r) (rect_bottom r) else r)
      in if fResizeY c > 0 then Rect (rect_left r) (rect_top r) (rect_right r) (max (rect_top r) y) else r)"

text \<open>\<open>transit\<close>: inside the view, or outside of it. \<open>None\<close>: the first of an empty selection is read.\<close>

definition MouseMoved :: "point \<Rightarrow> bool \<Rightarrow> canvas \<Rightarrow> canvas option" where
  "MouseMoved pt transit c =
     (let c = c\<lparr>fLastMouse := pt\<rparr> in
      if fDrag c = DRAG_NONE \<or> \<not> transit then Some c
      else let c = c\<lparr>fDragLast := ViewToDoc c pt\<rparr> in
        if fDrag c = DRAG_CONNECT then Some (c\<lparr>fConnectNow := fDragLast c\<rparr>)
        else if fDrag c = DRAG_MOVE \<and> fMoveBase c \<noteq> [] then Some (drag_move c)
        else if fDrag c = DRAG_RESIZE then
          (case fSelection c of [] \<Rightarrow> None
           | i # _ \<Rightarrow> Some (on_doc (on_shape i (\<lambda>s. s\<lparr>shape_rect := SnapRect (cDoc c) (resized c)\<rparr>)) c))
        else Some c)"

definition band_selection :: "bool \<Rightarrow> canvas \<Rightarrow> int list" where
  "band_selection shift c =
     (let s = fDragStart c; l = fDragLast c; band = SnapRect (cDoc c) (Rect (fst s) (snd s) (fst l) (snd l)) in
      fold (\<lambda>s sel. if shape_kind s \<noteq> PD_CONNECTOR \<and> (case rect_centre (shape_rect s) of (x, y) \<Rightarrow> rect_has band x y)
          \<and> shape_id s \<notin> set sel then sel @ [shape_id s] else sel)
        (fShapes (cDoc c)) (if shift then fSelection c else []))"

definition create_shape :: "canvas \<Rightarrow> canvas" where
  "create_shape c =
     (let s = fDragStart c; l = fDragLast c; r = Rect (fst s) (snd s) (fst l) (snd l);
          r = (if rect_w r < 2 \<and> rect_h r < 2 then Rect (fst s) (snd s) (fst s + 96) (snd s + 64) else r);
          kd = (if fTool c = PD_TOOL_RECT then PD_RECT else if fTool c = PD_TOOL_RRECT then PD_RRECT
            else if fTool c = PD_TOOL_ELLIPSE then PD_ELLIPSE else PD_DIAMOND)
      in case AddShape kd r None (cDoc c) of (new, d) \<Rightarrow> Select [new] (c\<lparr>cDoc := d\<rparr>))"

definition MouseUp :: "bool \<Rightarrow> canvas \<Rightarrow> canvas" where
  "MouseUp shift c =
     (let c = (if fDrag c = DRAG_CREATE then create_shape c
          else if fDrag c = DRAG_BAND then Select (band_selection shift c) c
          else if fDrag c = DRAG_MOVE \<or> fDrag c = DRAG_RESIZE then on_doc (\<lambda>d. d\<lparr>fModified := True\<rparr>) c else c)
      in c\<lparr>fDrag := DRAG_NONE\<rparr>)"

section \<open>Keys and drops\<close>

datatype key = B_DELETE | B_BACKSPACE | B_LEFT_ARROW | B_RIGHT_ARROW | B_UP_ARROW | B_DOWN_ARROW | B_ESCAPE | B_ENTER | OtherKey

definition KeyDown :: "key list \<Rightarrow> canvas \<Rightarrow> canvas" where
  "KeyDown bytes c =
     (let g = fGrid (cDoc c) in
      case bytes of
        [k] \<Rightarrow> (case k of
            B_DELETE \<Rightarrow> DeleteSelection c | B_BACKSPACE \<Rightarrow> DeleteSelection c
          | B_LEFT_ARROW \<Rightarrow> NudgeSelection (- g) 0 c | B_RIGHT_ARROW \<Rightarrow> NudgeSelection g 0 c
          | B_UP_ARROW \<Rightarrow> NudgeSelection 0 (- g) c | B_DOWN_ARROW \<Rightarrow> NudgeSelection 0 g c
          | B_ESCAPE \<Rightarrow> Select [] c | B_ENTER \<Rightarrow> OpenLabelEditor c | OtherKey \<Rightarrow> c)
      | _ \<Rightarrow> c)"

definition DropCreateAt :: "shape_kind \<Rightarrow> point \<Rightarrow> canvas \<Rightarrow> canvas" where
  "DropCreateAt kd pt c =
     (let p = ViewToDoc c pt in
      case AddShape kd (SnapRect (cDoc c) (Rect (fst p) (snd p) (fst p + 96) (snd p + 64))) None (cDoc c) of
        (new, d) \<Rightarrow> Select [new] (c\<lparr>cDoc := d\<rparr>))"

definition restyle :: "int \<Rightarrow> (style \<Rightarrow> style) \<Rightarrow> drawing \<Rightarrow> drawing" where
  "restyle i f d = (case ShapeById d i of Some s \<Rightarrow> SetShapeStyle i (f (shape_style s)) d | None \<Rightarrow> d)"

definition DropColourAt :: "colour \<Rightarrow> point \<Rightarrow> canvas \<Rightarrow> canvas" where
  "DropColourAt col pt c =
     (let p = ViewToDoc c pt; hit = ShapeAtPoint (cDoc c) p in
      if hit \<noteq> 0 then on_doc (restyle hit (\<lambda>st. st\<lparr>fill := col, fillOn := True\<rparr>)) c
      else let hit = ConnectorAtPoint (cDoc c) p in
        if hit \<noteq> 0 then on_doc (restyle hit (\<lambda>st. st\<lparr>stroke := col\<rparr>)) c else c)"

text \<open>The fields of a message that the canvas looks at; the drop point in the view.\<close>

record drop =
  drop_kind :: "int option"
  drop_red :: "int option"
  drop_green :: "int option"
  drop_blue :: "int option"
  drop_point :: "point option"

definition DropPoint :: "drop \<Rightarrow> canvas \<Rightarrow> point" where
  "DropPoint m c = (case drop_point m of Some p \<Rightarrow> p | None \<Rightarrow> fLastMouse c)"

definition DropCreate :: "drop \<Rightarrow> canvas \<Rightarrow> canvas" where
  "DropCreate m c = (case drop_kind m of None \<Rightarrow> c | Some k \<Rightarrow> DropCreateAt (kind_of (k mod 256)) (DropPoint m c) c)"

definition DropColour :: "drop \<Rightarrow> canvas \<Rightarrow> canvas" where
  "DropColour m c =
     (case (drop_red m, drop_green m, drop_blue m) of
        (Some r, Some g, Some b) \<Rightarrow> DropColourAt (rgba (word_of_int r) (word_of_int g) (word_of_int b) 255) (DropPoint m c) c
      | _ \<Rightarrow> c)"

datatype what = LabelDone string | LabelCancelled | StencilDrop drop | SwatchDrop drop | SimpleData drop | OtherMessage

definition MessageReceived :: "what \<Rightarrow> canvas \<Rightarrow> canvas" where
  "MessageReceived w c =
     (case w of LabelDone text \<Rightarrow> CommitLabelEdit text c | LabelCancelled \<Rightarrow> CancelLabelEdit c
      | StencilDrop m \<Rightarrow> DropCreate m c | SwatchDrop m \<Rightarrow> DropColour m c
      | SimpleData m \<Rightarrow> if drop_kind m \<noteq> None then DropCreate m c else if drop_red m \<noteq> None then DropColour m c else c
      | OtherMessage \<Rightarrow> c)"

end
