(* ===== verification/DrawGestures.thy ===== *)
theory DrawGestures
  imports DrawCanvas
begin

text \<open>
  What the gestures of ProseDraw's canvas do to the document: each is at most one undo step, a drag
  moves the selected boxes by one snapped distance, a duplicate is a copy; and where the selection,
  or a connector begun, is no longer what the gesture took it for.
\<close>

section \<open>One undo step\<close>

fun moves :: "(point \<times> bool) list \<Rightarrow> canvas \<Rightarrow> canvas option" where
  "moves [] c = Some c"
| "moves ((pt, transit) # ms) c = Option.bind (MouseMoved pt transit c) (moves ms)"

lemma one_step_shapes [simp]: "one_step d (d'\<lparr>fShapes := ss\<rparr>) = one_step d d'" "one_step d (d'\<lparr>fModified := b\<rparr>) = one_step d d'"
  "one_step d (on_shape i f d') = one_step d d'" "one_step d (on_added g d') = one_step d d'" "one_step d (Snapshot d)"
  by (simp_all add: one_step_def on_shape_def on_added_def shapes_now_def)

lemma one_step_AddShape [simp]: "AddShape kd r l d = (i, d') \<Longrightarrow> one_step d d'"
  by (auto simp: AddShape_def Let_def one_step_def shapes_now_def)

definition gesture_inv :: "canvas \<Rightarrow> canvas \<Rightarrow> bool" where
  "gesture_inv c0 c \<longleftrightarrow> (fDrag c = DRAG_RESIZE \<longrightarrow> fSelection c \<noteq> [])
     \<and> (cDoc c = cDoc c0 \<and> fDrag c \<notin> {DRAG_MOVE, DRAG_RESIZE} \<or> one_step (cDoc c0) (cDoc c) \<and> fDrag c \<noteq> DRAG_CREATE)"

lemma HandleAt_selection: "fst (HandleAt c pt) \<noteq> 0 \<Longrightarrow> fSelection c \<noteq> []"
  by (auto simp: HandleAt_def split: list.splits)

lemma OpenLabelEditor_simps [simp]: "cDoc (OpenLabelEditor c) = cDoc c" "fDrag (OpenLabelEditor c) = fDrag c" "fSelection (OpenLabelEditor c) = fSelection c"
  by (auto simp: OpenLabelEditor_def split: list.split)

lemma HandleAt_click [simp]: "HandleAt (c\<lparr>fLastClickTime := t, fLastClickPoint := q\<rparr>) pt = HandleAt c pt"
  by (simp add: HandleAt_def HandlePos_def DocToView_def split: list.split option.split)

lemma press_select_cases:
  obtains (resize) x y r where "fSelection c \<noteq> []"
      "press_select now shift pt c = c\<lparr>fLastClickTime := now, fLastClickPoint := pt, cDoc := Snapshot (cDoc c), fDrag := DRAG_RESIZE,
         fResizeX := x, fResizeY := y, fDragOriginal := r, fDragStart := ViewToDoc c pt, fDragLast := ViewToDoc c pt\<rparr>"
  | (edit) s where "press_select now shift pt c = OpenLabelEditor (c\<lparr>fLastClickTime := now, fLastClickPoint := pt, fSelection := s\<rparr>)"
  | (move) s where "press_select now shift pt c = begin_move (ViewToDoc c pt) (c\<lparr>fLastClickTime := now, fLastClickPoint := pt, fSelection := s\<rparr>)"
  | (band) s where "press_select now shift pt c = c\<lparr>fLastClickTime := now, fLastClickPoint := pt, fSelection := s, fDrag := DRAG_BAND,
         fDragStart := ViewToDoc c pt, fDragLast := ViewToDoc c pt\<rparr>"
proof -
  obtain h x y where h: "HandleAt c pt = (h, x, y)" by (cases "HandleAt c pt") auto
  define hit where "hit = (if ConnectorAtPoint (cDoc c) (ViewToDoc c pt) = 0 then ShapeAtPoint (cDoc c) (ViewToDoc c pt)
    else ConnectorAtPoint (cDoc c) (ViewToDoc c pt))"
  define dbl where "dbl = (now - fLastClickTime c < 250000 \<and> \<bar>fst pt - fst (fLastClickPoint c)\<bar> < 6 \<and> \<bar>snd pt - snd (fLastClickPoint c)\<bar> < 6)"
  note press = press_select_def[of now shift pt c, unfolded Let_def hit_def[symmetric] dbl_def[symmetric], simplified h HandleAt_click]
  show ?thesis
  proof (cases "h = 0")
    case False
    then show ?thesis using HandleAt_selection[of c pt] resize press h by simp
  next
    case True
    note press = press[unfolded True, simplified]
    define sel where "sel = clicked shift hit (fSelection c)"
    consider "hit = 0" "shift" | "hit = 0" "\<not> shift" | "hit \<noteq> 0" "dbl \<and> length sel = 1" | "hit \<noteq> 0" "\<not> (dbl \<and> length sel = 1)" by blast
    then show ?thesis
    proof cases
      case 1 show ?thesis by (rule band[of "fSelection c"]) (subst press, simp add: 1)
    next
      case 2 show ?thesis by (rule band[of "[]"]) (subst press, simp add: 2 Select_def)
    next
      case 3 show ?thesis by (rule edit[of sel]) (use 3 in \<open>simp add: press Select_def sel_def\<close>)
    next
      case 4 show ?thesis by (rule move[of sel]) (use 4 in \<open>auto simp: press Select_def sel_def\<close>)
    qed
  qed
qed

lemma drag_press_select: "fDrag c = DRAG_NONE \<Longrightarrow> gesture_inv c (press_select now shift pt c)"
  by (cases rule: press_select_cases[where c = c and now = now and shift = shift and pt = pt]) (simp_all add: gesture_inv_def begin_move_def)

lemma drag_press:
  assumes "fDrag c = DRAG_NONE"
  shows "gesture_inv c (MouseDown now shift pt c)"
proof (cases "fTool c")
  case PD_TOOL_CONNECTOR
  show ?thesis
    using assms by (auto simp: MouseDown_def PD_TOOL_CONNECTOR press_connector_def Let_def connect_def Select_def
        gesture_inv_def split: prod.split)
next
  case PD_TOOL_TEXT
  show ?thesis
    using assms by (auto simp: MouseDown_def PD_TOOL_TEXT Let_def Select_def gesture_inv_def split: prod.split)
qed (use assms drag_press_select in \<open>simp_all add: MouseDown_def Let_def gesture_inv_def\<close>)

lemma gesture_moved:
  assumes "gesture_inv c0 c"
  shows "\<exists>c'. MouseMoved pt transit c = Some c' \<and> gesture_inv c0 c'"
  using assms by (auto simp: MouseMoved_def Let_def gesture_inv_def drag_move_def on_doc_def split: list.split)

lemma gesture_moves: "gesture_inv c0 c \<Longrightarrow> \<exists>c'. moves ms c = Some c' \<and> gesture_inv c0 c'"
proof (induction ms c rule: moves.induct)
  case (2 pt transit ms c)
  from gesture_moved[OF "2.prems"] obtain c1 where "MouseMoved pt transit c = Some c1" "gesture_inv c0 c1" by blast
  with "2.IH" show ?case by simp
qed simp

lemma drag_release:
  assumes "gesture_inv c0 c"
  shows "fDrag (MouseUp shift c) = DRAG_NONE \<and> (cDoc (MouseUp shift c) = cDoc c0 \<or> one_step (cDoc c0) (cDoc (MouseUp shift c)))"
  using assms by (auto simp: MouseUp_def Let_def gesture_inv_def create_shape_def Select_def on_doc_def split: prod.split)

text \<open>
  C34 One gesture of the pointer is one undo step at most: with every tool, from a canvas that is not in
  a drag, a press, any moves of the pointer and a release end, never read past the selection, and leave
  the canvas out of a drag; the document is as it was, or one undo brings its shapes and its next id
  back, and one redo what the gesture made.
\<close>

theorem drag_is_one_undo_step:
  assumes "fDrag c = DRAG_NONE" and "history_ok (cDoc c)"
  shows "\<exists>c'. moves ms (MouseDown now shift pt c) = Some c' \<and> fDrag (MouseUp shift' c') = DRAG_NONE
    \<and> (let d = cDoc c; d' = cDoc (MouseUp shift' c') in
        d' = d \<or> shapes_now (Undo d') = shapes_now d \<and> shapes_now (Redo (Undo d')) = shapes_now d'
          \<and> fUndo d' = push_capped 200 (shapes_now d) (fUndo d))"
proof -
  obtain c' where c': "moves ms (MouseDown now shift pt c) = Some c'" "gesture_inv c c'"
    using gesture_moves[OF drag_press[OF assms(1)]] by blast
  have "shapes_now (Undo d') = shapes_now (cDoc c) \<and> shapes_now (Redo (Undo d')) = shapes_now d'
      \<and> fUndo d' = push_capped 200 (shapes_now (cDoc c)) (fUndo (cDoc c))" if step: "one_step (cDoc c) d'" for d'
  proof -
    have past: "rev (fUndo d') = shapes_now (cDoc c) # take 199 (rev (fUndo (cDoc c)))" and ok: "history_ok d'"
      using draw.edit_step[OF assms(2) step] by (auto simp: take_Cons')
    have "shapes_now (Undo d') = shapes_now (cDoc c)" using draw.undo_some[OF ok past] by blast
    moreover have "rev (fUndo d') \<noteq> []" unfolding past by simp
    ultimately show ?thesis using draw.undo_redo[OF ok] step by (simp add: one_step_def)
  qed
  then show ?thesis
    using c'(1) drag_release[OF c'(2), of shift'] by (intro exI[of _ c']) (auto simp: Let_def)
qed

theorem drag_is_one_undo_step_witness:
  "\<exists>c'. moves [((100, 60), True), ((120, 90), False)] (MouseDown 0 False (32, 32) (new_canvas joined_pair)) = Some c'
    \<and> fDrag (MouseUp False c') = DRAG_NONE"
  using drag_is_one_undo_step[of "new_canvas joined_pair" "[((100, 60), True), ((120, 90), False)]" 0 False "(32, 32)" False]
  by (auto simp: new_canvas_def history_ok_def joined_pair_def new_drawing_def)

section \<open>Where a drag puts the boxes\<close>

definition kind_at :: "int \<Rightarrow> shape list \<Rightarrow> shape_kind option" where
  "kind_at i ss = map_option shape_kind (find (\<lambda>s. shape_id s = i) ss)"

definition box_at :: "int \<Rightarrow> shape list \<Rightarrow> bool" where
  "box_at i ss \<longleftrightarrow> kind_at i ss \<notin> {None, Some PD_CONNECTOR}"

lemma is_box_at: "is_box d i \<longleftrightarrow> box_at i (fShapes d)"
  by (auto simp: is_box_def box_at_def kind_at_def ShapeById_def split: option.split)

text \<open>Writing the rectangle of one shape, when it is a box.\<close>

definition put_rect :: "int \<Rightarrow> rat rect \<Rightarrow> shape list \<Rightarrow> shape list" where
  "put_rect i r = change_shape i (\<lambda>s. if shape_kind s \<noteq> PD_CONNECTOR then s\<lparr>shape_rect := r\<rparr> else s)"

lemma put_rect_simps [simp]:
  "kind_at j (put_rect i r ss) = kind_at j ss" "box_at j (put_rect i r ss) = box_at j ss"
  "rect_of j (put_rect i r ss) = (if j = i \<and> box_at i ss then r else rect_of j ss)"
proof -
  show kind: "kind_at j (put_rect i r ss) = kind_at j ss"
    by (auto simp: kind_at_def put_rect_def find_change_shape option.map_comp comp_def intro!: option.map_cong)
  show "box_at j (put_rect i r ss) = box_at j ss" by (simp add: box_at_def kind)
  show "rect_of j (put_rect i r ss) = (if j = i \<and> box_at i ss then r else rect_of j ss)"
    by (auto simp: rect_of_def box_at_def kind_at_def put_rect_def find_change_shape split: option.split)
qed

definition no_rects :: "shape list \<Rightarrow> shape list" where
  "no_rects = map (\<lambda>s. s\<lparr>shape_rect := no_rect\<rparr>)"

lemma no_rects_put [simp]: "no_rects (put_rect i r ss) = no_rects ss"
  unfolding no_rects_def put_rect_def by (induction ss) auto

lemma move_shapes_fold: "move_shapes dx dy = fold (\<lambda>(i, base). put_rect i (offset dx dy base))"
  by (simp add: move_shapes_def put_rect_def)

lemma move_shapes_simps [simp]:
  "move_shapes dx dy [] ss = ss" "move_shapes dx dy (p # ps) ss = move_shapes dx dy ps (put_rect (fst p) (offset dx dy (snd p)) ss)"
  by (simp_all add: move_shapes_fold case_prod_beta)

lemma box_at_puts [simp]: "box_at j (move_shapes dx dy ps ss) = box_at j ss"
  by (induction ps arbitrary: ss) simp_all

lemma no_rects_puts [simp]: "no_rects (move_shapes dx dy ps ss) = no_rects ss"
  by (induction ps arbitrary: ss) simp_all

lemma rect_of_puts:
  "distinct (map fst ps) \<Longrightarrow> rect_of j (move_shapes dx dy ps ss)
    = (case map_of ps j of Some r \<Rightarrow> if box_at j ss then offset dx dy r else rect_of j ss | None \<Rightarrow> rect_of j ss)"
proof (induction ps arbitrary: ss)
  case (Cons p ps)
  have "map_of ps (fst p) = None" using Cons.prems by (simp add: map_of_eq_None_iff)
  with Cons.IH[of "put_rect (fst p) (offset dx dy (snd p)) ss"] Cons.prems show ?case
    by (cases p) (auto split: option.splits)
qed simp

text \<open>The rectangles of a drag at a pointer.\<close>

lemma snap_travel:
  assumes "2 \<le> fGrid d"
  shows "on_grid (fGrid d) (snap d (x + t) - snap d x)" and "\<bar>snap d (x + t) - snap d x - t\<bar> \<le> fGrid d"
proof -
  have g: "0 < fGrid d" using assms by simp
  have "on_grid g (a - b)" if "on_grid g a" "on_grid g b" for a b g
    using that by (auto simp: on_grid_def simp flip: left_diff_distrib of_int_diff)
  then show "on_grid (fGrid d) (snap d (x + t) - snap d x)"
    using snap_near(1)[OF g] by (simp add: snap_def)
  have "\<bar>snap d (x + t) - (x + t)\<bar> \<le> fGrid d / 2" "\<bar>snap d x - x\<bar> \<le> fGrid d / 2"
    using snap_near(2)[OF g] by (simp_all add: snap_def)
  then show "\<bar>snap d (x + t) - snap d x - t\<bar> \<le> fGrid d" by linarith
qed

text \<open>A drag of the selection, begun at \<open>c\<close>: what does not change, and the boxes at the pointer's distance.\<close>

definition moving :: "canvas \<Rightarrow> canvas \<Rightarrow> bool" where
  "moving c c' \<longleftrightarrow> fDrag c' = DRAG_MOVE \<and> fSelection c' = fSelection c \<and> fMoveBase c' = fMoveBase c \<and> fDragStart c' = fDragStart c
     \<and> fGrid (cDoc c') = fGrid (cDoc c) \<and> no_rects (fShapes (cDoc c')) = no_rects (fShapes (cDoc c)) \<and> (\<forall>j. box_at j (fShapes (cDoc c')) = box_at j (fShapes (cDoc c)))
     \<and> (\<exists>sdx sdy. on_grid (fGrid (cDoc c)) sdx \<and> on_grid (fGrid (cDoc c)) sdy
        \<and> \<bar>sdx - (fst (fDragLast c') - fst (fDragStart c))\<bar> \<le> fGrid (cDoc c)
        \<and> \<bar>sdy - (snd (fDragLast c') - snd (fDragStart c))\<bar> \<le> fGrid (cDoc c)
        \<and> (\<forall>j. rect_of j (fShapes (cDoc c')) = (case map_of (zip (fSelection c) (fMoveBase c)) j of
              Some r \<Rightarrow> if box_at j (fShapes (cDoc c)) then offset sdx sdy r else rect_of j (fShapes (cDoc c))
            | None \<Rightarrow> rect_of j (fShapes (cDoc c)))))"

lemma moving_moved:
  assumes "moving c c1" and "distinct (fSelection c)" and "fMoveBase c \<noteq> []" and "2 \<le> fGrid (cDoc c)" and "MouseMoved pt transit c1 = Some c2"
  shows "moving c c2"
proof (cases transit)
  case False
  have "moving c (c1\<lparr>fLastMouse := pt\<rparr>)" using assms(1) by (simp add: moving_def)
  then show ?thesis using False assms(5) by (simp add: MouseMoved_def Let_def)
next
  case True
  let ?z = "zip (fSelection c) (fMoveBase c)" and ?m = "c1\<lparr>fLastMouse := pt, fDragLast := ViewToDoc c1 pt\<rparr>"
  have same: "fDrag c1 = DRAG_MOVE" "fSelection c1 = fSelection c" "fMoveBase c1 = fMoveBase c" "fDragStart c1 = fDragStart c"
      "fGrid (cDoc c1) = fGrid (cDoc c)" "\<And>j. box_at j (fShapes (cDoc c1)) = box_at j (fShapes (cDoc c))"
      "no_rects (fShapes (cDoc c1)) = no_rects (fShapes (cDoc c))"
      "\<And>j. map_of ?z j = None \<Longrightarrow> rect_of j (fShapes (cDoc c1)) = rect_of j (fShapes (cDoc c))"
      "\<And>j. \<not> box_at j (fShapes (cDoc c)) \<Longrightarrow> rect_of j (fShapes (cDoc c1)) = rect_of j (fShapes (cDoc c))"
    using assms(1) by (auto simp: moving_def split: option.split)
  have c2: "c2 = drag_move ?m"
    using assms(3,5) True same by (simp add: MouseMoved_def Let_def ViewToDoc_def)
  have grid: "2 \<le> fGrid (cDoc c1)" using assms(4) same(5) by simp
  have dist: "distinct (map fst ?z)" using assms(2) by (simp add: map_fst_zip_take)
  let ?b = "hd (fMoveBase c)" and ?x = "fst (ViewToDoc c1 pt) - fst (fDragStart c)" and ?y = "snd (ViewToDoc c1 pt) - snd (fDragStart c)"
  let ?sdx = "snap (cDoc c1) (rect_left ?b + ?x) - snap (cDoc c1) (rect_left ?b)"
  let ?sdy = "snap (cDoc c1) (rect_top ?b + ?y) - snap (cDoc c1) (rect_top ?b)"
  have shapes: "fShapes (cDoc c2) = move_shapes ?sdx ?sdy ?z (fShapes (cDoc c1))"
    by (simp add: c2 drag_move_def Let_def same)
  have "rect_of j (fShapes (cDoc c2)) = (case map_of ?z j of
      Some r \<Rightarrow> if box_at j (fShapes (cDoc c)) then offset ?sdx ?sdy r else rect_of j (fShapes (cDoc c)) | None \<Rightarrow> rect_of j (fShapes (cDoc c)))" for j
    using same(8,9)[of j] by (simp add: shapes rect_of_puts[OF dist] same(6) split: option.split)
  moreover have "fDrag c2 = DRAG_MOVE" "fSelection c2 = fSelection c" "fMoveBase c2 = fMoveBase c" "fDragStart c2 = fDragStart c"
      "fGrid (cDoc c2) = fGrid (cDoc c)" "fDragLast c2 = ViewToDoc c1 pt"
    by (simp_all add: c2 drag_move_def Let_def same)
  ultimately show ?thesis
    unfolding moving_def using same snap_travel[OF grid, of "rect_left ?b" ?x] snap_travel[OF grid, of "rect_top ?b" ?y]
    by (intro conjI exI[of _ ?sdx] exI[of _ ?sdy]) (simp_all add: shapes)
qed

lemma moving_moves:
  assumes "distinct (fSelection c)" and "fMoveBase c \<noteq> []" and "2 \<le> fGrid (cDoc c)"
  shows "moving c c1 \<Longrightarrow> moves ms c1 = Some c2 \<Longrightarrow> moving c c2"
proof (induction ms c1 rule: moves.induct)
  case (2 pt transit ms c1)
  from "2.prems"(2) obtain c' where c': "MouseMoved pt transit c1 = Some c'" "moves ms c' = Some c2"
    by (auto simp: bind_eq_Some_conv)
  from "2.IH"[OF c'(1) moving_moved[OF "2.prems"(1) assms c'(1)] c'(2)] show ?case .
qed simp

lemma press_moves:
  assumes "fDrag c0 = DRAG_NONE" and "fDrag (MouseDown now shift pt c0) = DRAG_MOVE"
  obtains c1 where "MouseDown now shift pt c0 = begin_move (ViewToDoc c0 pt) c1" "cDoc c1 = cDoc c0" "fZoom c1 = fZoom c0"
proof (cases "fTool c0")
  case PD_TOOL_SELECT
  then have press: "MouseDown now shift pt c0 = press_select now shift pt c0" by (simp add: MouseDown_def)
  show ?thesis
    using assms that
    by (cases rule: press_select_cases[where c = c0 and now = now and shift = shift and pt = pt]) (simp_all add: press)
next
  case PD_TOOL_CONNECTOR
  then show ?thesis
    using assms by (auto simp: MouseDown_def press_connector_def connect_def Select_def Let_def split: if_splits prod.splits)
next
  case PD_TOOL_TEXT
  then show ?thesis using assms by (auto simp: MouseDown_def Select_def Let_def split: prod.splits)
qed (use assms in \<open>simp_all add: MouseDown_def Let_def\<close>)

text \<open>
  C35 A drag moves the selected boxes together, when no connector stands ahead of a box in the selection
  (as in every selection of boxes alone; see below for the others): however the pointer wanders, at the
  release every selected box lies where it lay plus one distance, a whole number of grid steps along
  each axis and at most one step from what the pointer travelled; every other shape, connectors of the
  selection among them, keeps its rectangle, and nothing but rectangles changed.
\<close>

theorem drag_moves_the_boxes:
  assumes "fDrag c0 = DRAG_NONE" and "c = MouseDown now shift pt c0" and "fDrag c = DRAG_MOVE"
    and "fSelection c = bs @ ks" and "distinct (bs @ ks)" and "bs \<noteq> []"
    and "\<forall>i \<in> set bs. is_box (cDoc c0) i" and "\<forall>i \<in> set ks. \<not> is_box (cDoc c0) i"
    and "g = fGrid (cDoc c0)" and "2 \<le> g" and "moves ms c = Some c'" and "ss = fShapes (cDoc c0)" and "ss' = fShapes (cDoc (MouseUp shift' c'))"
  shows "\<exists>dx dy. on_grid g dx \<and> on_grid g dy
    \<and> \<bar>dx - (fst (fDragLast c') - fst (ViewToDoc c0 pt))\<bar> \<le> g \<and> \<bar>dy - (snd (fDragLast c') - snd (ViewToDoc c0 pt))\<bar> \<le> g
    \<and> (\<forall>i. rect_of i ss' = (if i \<in> set bs then offset dx dy (rect_of i ss) else rect_of i ss))
    \<and> no_rects ss' = no_rects ss"
proof -
  obtain c1 where c1: "c = begin_move (ViewToDoc c0 pt) c1" "cDoc c1 = cDoc c0"
    using press_moves[of c0 now shift pt] assms(1-3) by metis
  have "filter (is_box (cDoc c0)) (fSelection c1) = bs"
    using assms(4,7,8) c1 by (simp add: begin_move_def filter_id_conv filter_empty_conv)
  then have base: "fMoveBase c = map (\<lambda>i. rect_of i ss) bs" "fDragStart c = ViewToDoc c0 pt"
      "fShapes (cDoc c) = ss" "fGrid (cDoc c) = g" "fDragLast c = ViewToDoc c0 pt"
    using c1 assms(9,12) by (simp_all add: begin_move_def)
  have z: "map_of (zip (bs @ ks) (map (\<lambda>i. rect_of i ss) bs)) j = (if j \<in> set bs then Some (rect_of j ss) else None)" for j
    by (simp add: zip_append1 map_of_zip_map)
  have none: "on_grid g 0" by (auto simp: on_grid_def intro: exI[of _ 0])
  have "moving c c"
    unfolding moving_def using none assms(3,10) by (intro conjI exI[of _ 0]) (auto simp: base assms(4) z offset_def rect.expand split: option.split)
  then have "moving c c'"
    using moving_moves[OF _ _ _ _ assms(11)] assms(4-6,10) base by simp
  moreover have "ss' = fShapes (cDoc c')"
    using calculation assms(13) by (simp add: moving_def MouseUp_def on_doc_def)
  ultimately obtain dx dy where at: "on_grid g dx" "on_grid g dy" "no_rects ss' = no_rects ss"
      "\<bar>dx - (fst (fDragLast c') - fst (ViewToDoc c0 pt))\<bar> \<le> g" "\<bar>dy - (snd (fDragLast c') - snd (ViewToDoc c0 pt))\<bar> \<le> g"
      "\<And>j. rect_of j ss' = (if j \<in> set bs then if box_at j ss then offset dx dy (rect_of j ss) else rect_of j ss else rect_of j ss)"
    by (auto simp: moving_def base assms(4) z if_distrib[of "case_option _ _"] cong: if_cong)
  show ?thesis
    by (rule exI[of _ dx], rule exI[of _ dy]) (use at assms(7,12) in \<open>auto simp: is_box_at\<close>)
qed

text \<open>Two boxes and a connector between them, selected from the connector on.\<close>

definition wired :: canvas where
  "wired = (new_canvas joined_pair)\<lparr>fSelection := [3, 1, 2]\<rparr>"

lemma joined_pair_shapes:
  "fShapes joined_pair = [new_shape\<lparr>shape_id := 1, shape_rect := Rect 0 0 16 16\<rparr>, new_shape\<lparr>shape_id := 2, shape_rect := Rect 40 0 56 16\<rparr>,
      new_shape\<lparr>shape_id := 3, shape_kind := PD_CONNECTOR, fromId := 1, toId := 2\<rparr>]"
  "fGrid joined_pair = 8" "fSnap joined_pair"
  by (simp_all add: joined_pair_def new_drawing_def)

lemma new_canvas_simps [simp]:
  "cDoc (new_canvas d) = d" "fTool (new_canvas d) = PD_TOOL_SELECT" "fDrag (new_canvas d) = DRAG_NONE" "fLastClickPoint (new_canvas d) = (0, 0)"
  "fLastClickTime (new_canvas d) = 0" "fZoom (new_canvas d) = 1" "fConnectFrom (new_canvas d) = 0" "fSelection (new_canvas d) = []"
  by (simp_all add: new_canvas_def)

lemma joined_pair_press:
  assumes "1 \<in> set sel" and "length sel \<noteq> 1"
  shows "MouseDown 0 False (32, 36) ((new_canvas joined_pair)\<lparr>fSelection := sel\<rparr>)
    = begin_move (8, 12) ((new_canvas joined_pair)\<lparr>fLastClickTime := 0, fLastClickPoint := (32, 36), fSelection := sel\<rparr>)"
proof -
  have "fst (HandleAt ((new_canvas joined_pair)\<lparr>fSelection := sel\<rparr>) (32, 36)) = 0"
    using assms(2) by (auto simp: HandleAt_def split: list.split)
  moreover have "ConnectorAtPoint joined_pair (8, 12) = 0"
    by (simp add: ConnectorAtPoint_def joined_pair_shapes connector_hit_def ShapeById_def ConnectorWaypoints_def AnchorPoint_def rect_centre_def
        rect_w_def rect_h_def near_segment_def new_shape_def Let_def)
  moreover have "ShapeAtPoint joined_pair (8, 12) = 1"
    by (simp add: ShapeAtPoint_def joined_pair_shapes rect_has_def new_shape_def)
  ultimately show ?thesis
    using assms(1) by (cases "HandleAt ((new_canvas joined_pair)\<lparr>fSelection := sel\<rparr>) (32, 36)")
      (simp add: MouseDown_def press_select_def ViewToDoc_def kMargin_def Let_def clicked_def Select_def)
qed

text \<open>The connector last: both boxes move by four steps and one.\<close>

theorem drag_moves_the_boxes_witness:
  "\<exists>c'. moves [((62, 40), True)] (MouseDown 0 False (32, 36) ((new_canvas joined_pair)\<lparr>fSelection := [1, 2, 3]\<rparr>)) = Some c'
    \<and> no_rects (fShapes (cDoc (MouseUp False c'))) = no_rects (fShapes joined_pair)
    \<and> rect_of 3 (fShapes (cDoc (MouseUp False c'))) = rect_of 3 (fShapes joined_pair)"
proof -
  let ?c0 = "(new_canvas joined_pair)\<lparr>fSelection := [1, 2, 3]\<rparr>" and ?p = "(32, 36) :: point"
  have press: "fDrag (MouseDown 0 False ?p ?c0) = DRAG_MOVE" "fSelection (MouseDown 0 False ?p ?c0) = [1, 2] @ [3]"
    by (simp_all add: joined_pair_press begin_move_def)
  have boxes: "\<forall>i \<in> set [1, 2]. is_box (cDoc ?c0) i" "\<forall>i \<in> set [3]. \<not> is_box (cDoc ?c0) i"
    by (simp_all add: is_box_at box_at_def kind_at_def joined_pair_shapes new_shape_def)
  obtain c' where c': "moves [((62, 40), True)] (MouseDown 0 False ?p ?c0) = Some c'"
    using gesture_moves[OF drag_press[of ?c0 0 False ?p], of "[((62, 40), True)]"] by auto
  from drag_moves_the_boxes[OF _ refl press _ _ boxes refl _ c' refl refl, of False] show ?thesis
    using c' by (auto simp: joined_pair_shapes)
qed

text \<open>
  C36 A connector ahead of the boxes in the selection misplaces them: \<open>fMoveBase\<close> holds the boxes'
  rectangles only, but the move reads it by the place in the selection. With a connector, a box and
  another box selected in this order, one move of the pointer puts the first box where the second lay,
  plus the snapped distance of the drag, and moves nothing else, not the second box either.
\<close>

theorem connector_misplaces_the_boxes:
  assumes "fDrag c0 = DRAG_NONE" and "c = MouseDown now shift pt c0" and "fDrag c = DRAG_MOVE"
    and "fSelection c = [k, a, b]" and "distinct [k, a, b]" and "\<not> is_box (cDoc c0) k" and "is_box (cDoc c0) a" and "is_box (cDoc c0) b"
    and "2 \<le> fGrid (cDoc c0)" and "MouseMoved pt' True c = Some c'" and "ss = fShapes (cDoc c0)" and "ss' = fShapes (cDoc (MouseUp shift' c'))"
    and "tx = fst (ViewToDoc c0 pt') - fst (ViewToDoc c0 pt)" and "ty = snd (ViewToDoc c0 pt') - snd (ViewToDoc c0 pt)"
    and "dx = snap (cDoc c0) (rect_left (rect_of a ss) + tx) - snap (cDoc c0) (rect_left (rect_of a ss))"
    and "dy = snap (cDoc c0) (rect_top (rect_of a ss) + ty) - snap (cDoc c0) (rect_top (rect_of a ss))"
  shows "rect_of a ss' = offset dx dy (rect_of b ss) \<and> (\<forall>i. i \<noteq> a \<longrightarrow> rect_of i ss' = rect_of i ss)
    \<and> \<bar>dx - tx\<bar> \<le> fGrid (cDoc c0) \<and> \<bar>dy - ty\<bar> \<le> fGrid (cDoc c0)"
proof -
  obtain c1 where c1: "c = begin_move (ViewToDoc c0 pt) c1" "cDoc c1 = cDoc c0" "fZoom c1 = fZoom c0"
    using press_moves[of c0 now shift pt] assms(1-3) by metis
  then have base: "fMoveBase c = [rect_of a ss, rect_of b ss]" "fShapes (cDoc c) = ss" "fDragStart c = ViewToDoc c0 pt"
      "fGrid (cDoc c) = fGrid (cDoc c0)" "ViewToDoc c pt' = ViewToDoc c0 pt'"
    using assms(4,6-8,11) by (auto simp: begin_move_def ViewToDoc_def)
  let ?m = "c\<lparr>fLastMouse := pt', fDragLast := ViewToDoc c pt'\<rparr>"
  have moved: "c' = drag_move ?m" using assms(3,10) base(1) by (simp add: MouseMoved_def Let_def ViewToDoc_def)
  have "snap (cDoc c) = snap (cDoc c0)" using base(4) by (simp add: snap_def fun_eq_iff)
  then have "fShapes (cDoc c') = move_shapes dx dy (zip [k, a, b] [rect_of a ss, rect_of b ss]) ss"
    using base by (simp add: moved drag_move_def Let_def assms(4,13-16))
  moreover have "ss' = fShapes (cDoc c')"
    by (simp add: assms(12) MouseUp_def Let_def on_doc_def drag_move_def moved assms(3))
  ultimately show ?thesis
    using assms(5-8,11) snap_travel(2)[OF assms(9)] by (auto simp: is_box_at assms(15,16))
qed

theorem connector_misplaces_the_boxes_witness:
  "\<exists>c'. MouseMoved (62, 40) True (MouseDown 0 False (32, 36) wired) = Some c'
    \<and> rect_of 1 (fShapes (cDoc (MouseUp False c'))) = Rect 72 8 88 24
    \<and> rect_of 2 (fShapes (cDoc (MouseUp False c'))) = Rect 40 0 56 16"
proof -
  let ?p = "(32, 36) :: point"
  have press: "fDrag (MouseDown 0 False ?p wired) = DRAG_MOVE" "fSelection (MouseDown 0 False ?p wired) = [3, 1, 2]"
    by (simp_all add: wired_def joined_pair_press begin_move_def)
  have boxes: "\<not> is_box (cDoc wired) 3" "is_box (cDoc wired) 1" "is_box (cDoc wired) 2" "fDrag wired = DRAG_NONE" "2 \<le> fGrid (cDoc wired)"
      "rect_of 1 (fShapes (cDoc wired)) = Rect 0 0 16 16" "rect_of 2 (fShapes (cDoc wired)) = Rect 40 0 56 16"
    by (simp_all add: is_box_at box_at_def kind_at_def joined_pair_shapes new_shape_def wired_def rect_of_def)
  have travel: "fst (ViewToDoc wired (62, 40)) - fst (ViewToDoc wired ?p) = 30" "snd (ViewToDoc wired (62, 40)) - snd (ViewToDoc wired ?p) = 4"
    by (simp_all add: ViewToDoc_def wired_def)
  have snapped: "snap (cDoc wired) 30 = 32" "snap (cDoc wired) 4 = 8" "snap (cDoc wired) 0 = 0"
    by (simp_all add: snap_def wired_def joined_pair_shapes roundf_def floor_eq_iff)
  obtain c' where c': "MouseMoved (62, 40) True (MouseDown 0 False ?p wired) = Some c'"
    using gesture_moved[OF drag_press[of wired 0 False ?p], of "(62, 40)" True] boxes by auto
  from connector_misplaces_the_boxes[OF boxes(4) refl press _ boxes(1-3,5) c' refl refl refl refl refl refl, of False] show ?thesis
    using c' boxes(6,7) by (simp add: travel snapped offset_def)
qed

section \<open>Resizing\<close>

lemma roundf_mono: "x \<le> y \<Longrightarrow> roundf x \<le> roundf y"
proof -
  assume le: "x \<le> y"
  have "x < 0 \<Longrightarrow> 0 \<le> y \<Longrightarrow> \<lceil>x - 1 / 2\<rceil> \<le> \<lfloor>y + 1 / 2\<rfloor>"
  proof -
    assume "x < 0" "0 \<le> y"
    then have "\<lceil>x - 1 / 2\<rceil> \<le> 0" "0 \<le> \<lfloor>y + 1 / 2\<rfloor>" by (simp_all add: ceiling_le_iff le_floor_iff)
    then show ?thesis by linarith
  qed
  then show ?thesis using le by (auto simp: roundf_def floor_mono ceiling_mono)
qed

lemma SnapRect_valid: "rect_valid r \<Longrightarrow> 2 \<le> fGrid d \<Longrightarrow> rect_valid (SnapRect d r)"
  by (auto simp: SnapRect_def Let_def rect_valid_def intro!: mult_right_mono roundf_mono divide_right_mono)

text \<open>
  A resize never turns a box inside out: whatever the handle and wherever the pointer goes, the box
  resized has its left edge no further right than its right edge and its top no lower than its bottom,
  and the edges that the handle does not hold are where snapping puts them.
\<close>

theorem resize_never_inverts:
  assumes "fDrag c = DRAG_RESIZE" and "rect_valid (fDragOriginal c)" and "2 \<le> fGrid (cDoc c)" and "fSelection c = i # rest"
    and "ShapeById (cDoc c) i \<noteq> None" and "MouseMoved pt True c = Some c'"
    and "r = rect_of i (fShapes (cDoc c'))" and "o0 = SnapRect (cDoc c) (fDragOriginal c)"
  shows "rect_valid r \<and> (0 \<le> fResizeX c \<longrightarrow> rect_left r = rect_left o0) \<and> (fResizeX c \<le> 0 \<longrightarrow> rect_right r = rect_right o0)
    \<and> (0 \<le> fResizeY c \<longrightarrow> rect_top r = rect_top o0) \<and> (fResizeY c \<le> 0 \<longrightarrow> rect_bottom r = rect_bottom o0)"
proof -
  let ?c = "c\<lparr>fLastMouse := pt, fDragLast := ViewToDoc c pt\<rparr>"
  have "r = SnapRect (cDoc c) (resized ?c)"
    using assms(1,4-7) by (auto simp: MouseMoved_def Let_def ViewToDoc_def on_doc_def ShapeById_def rect_of_def find_change_shape)
  moreover have "rect_valid (resized ?c)"
    using assms(2) by (auto simp: resized_def Let_def rect_valid_def)
  ultimately show ?thesis
    using SnapRect_valid[of "resized ?c" "cDoc c"] assms(3,8) by (auto simp: resized_def SnapRect_def Let_def)
qed

definition stretching :: canvas where
  "stretching = (new_canvas joined_pair)\<lparr>fSelection := [1], fDrag := DRAG_RESIZE, fResizeX := - 1, fDragOriginal := Rect 0 0 16 16\<rparr>"

theorem resize_never_inverts_witness:
  "\<exists>c'. MouseMoved (90, 30) True stretching = Some c' \<and> rect_valid (rect_of 1 (fShapes (cDoc c')))"
proof -
  have c: "fDrag stretching = DRAG_RESIZE" "rect_valid (fDragOriginal stretching)" "2 \<le> fGrid (cDoc stretching)" "fSelection stretching = [1]"
      "ShapeById (cDoc stretching) 1 \<noteq> None"
    by (simp_all add: stretching_def rect_valid_def ShapeById_def joined_pair_shapes new_shape_def)
  then obtain c' where "MouseMoved (90, 30) True stretching = Some c'" by (simp add: MouseMoved_def Let_def)
  from resize_never_inverts[OF c this refl refl] this show ?thesis by blast
qed

text \<open>Escape in the middle of a resize: the next move reads the first of an empty selection.\<close>

theorem escape_in_a_resize:
  assumes "fDrag c = DRAG_RESIZE"
  shows "MouseMoved pt True (KeyDown [B_ESCAPE] c) = None \<and> MouseMoved pt True (KeyDown [B_DELETE] c) = None"
  using assms by (simp add: MouseMoved_def KeyDown_def Select_def DeleteSelection_def Let_def)

theorem escape_in_a_resize_witness: "MouseMoved (0, 0) True (KeyDown [B_ESCAPE] stretching) = None"
  using escape_in_a_resize[of stretching "(0, 0)"] by (simp add: stretching_def)

section \<open>Connectors and copies\<close>

text \<open>A connector begun at a shape that is then deleted: it is added without a shape to come from.\<close>

theorem connector_from_a_deleted_shape:
  assumes "fTool c = PD_TOOL_CONNECTOR" and "fConnectFrom c = i" and "i \<in> set (fSelection c)" and "ids_ok (cDoc c)"
    and "ShapeById (cDoc c) i \<noteq> None" and "c1 = KeyDown [B_DELETE] c" and "ShapeAtPoint (cDoc c1) (ViewToDoc c1 pt) \<notin> {0, i}"
  shows "\<not> joins_shapes (fShapes (cDoc (MouseDown now shift pt c1)))"
proof -
  let ?d = "RemoveShapes (fSelection c) (cDoc c)"
  have c1: "c1 = c\<lparr>cDoc := ?d, fSelection := []\<rparr>"
    using assms(3,6) by (auto simp: KeyDown_def DeleteSelection_def Let_def)
  obtain s where s: "s \<in> set (fShapes (cDoc c))" "shape_id s = i"
    using assms(5) by (auto simp: ShapeById_def find_Some_iff in_set_conv_nth)
  then have i: "i \<noteq> 0" "i < fNextId (cDoc c)" using assms(4) by (auto simp: ids_ok_def)
  have gone: "i \<notin> shape_id ` set (fShapes ?d)"
    using gone_from_set(1)[of "fSelection c" "fShapes (cDoc c)"] assms(3) by (auto simp: RemoveShapes_def Let_def)
  define conn where "conn = new_shape\<lparr>shape_id := fNextId ?d, shape_kind := PD_CONNECTOR, shape_rect := SnapRect (Snapshot ?d) (Rect 0 0 0 0),
      fromId := i, toId := ShapeAtPoint ?d (ViewToDoc c1 pt)\<rparr>"
  have "fShapes (cDoc (MouseDown now shift pt c1)) = fShapes ?d @ [conn]"
    using assms(1,2,7) i(1) by (simp add: c1 MouseDown_def press_connector_def connect_def Let_def Select_def AddShape_def on_added_def ViewToDoc_def
        conn_def new_shape_def)
  moreover have "fNextId ?d = fNextId (cDoc c)" by (simp add: RemoveShapes_def Let_def)
  ultimately show ?thesis
    using gone i(2) by (auto simp: joins_shapes_def conn_def)
qed

theorem connector_from_a_deleted_shape_witness:
  "\<not> joins_shapes (fShapes (cDoc (MouseDown 0 False (72, 36) (KeyDown [B_DELETE]
     ((new_canvas joined_pair)\<lparr>fTool := PD_TOOL_CONNECTOR, fConnectFrom := 1, fSelection := [1]\<rparr>)))))"
proof -
  let ?c = "(new_canvas joined_pair)\<lparr>fTool := PD_TOOL_CONNECTOR, fConnectFrom := 1, fSelection := [1]\<rparr>"
  have "ShapeAtPoint (cDoc (KeyDown [B_DELETE] ?c)) (ViewToDoc (KeyDown [B_DELETE] ?c) (72, 36)) = 2"
    by (simp add: KeyDown_def DeleteSelection_def Let_def RemoveShapes_def ShapeAtPoint_def ViewToDoc_def kMargin_def joined_pair_shapes new_shape_def rect_has_def)
  with connector_from_a_deleted_shape[of ?c 1 _ "(72, 36)" 0 False, OF _ _ _ _ _ refl] show ?thesis
    by (simp add: ids_ok_def joined_pair_def new_drawing_def new_shape_def ShapeById_def)
qed

text \<open>A copy of an image shape shows no image: the copy's \<open>imageId\<close> is never set.\<close>

theorem duplicate_loses_the_image:
  assumes "fSelection c = [i]" and "ShapeById (cDoc c) i = Some s" and "shape_kind s = PD_IMAGE"
  shows "\<exists>s'. fShapes (cDoc (DuplicateSelection c)) = fShapes (cDoc c) @ [s'] \<and> shape_kind s' = PD_IMAGE \<and> shape_style s' = shape_style s
    \<and> shape_label s' = shape_label s \<and> imageId s' = 0"
proof -
  have keep: "find P (xs @ ys) = Some s" if "find P xs = Some s" for P :: "shape \<Rightarrow> bool" and xs ys
    using that by (induction xs) auto
  show ?thesis
    using assms keep[of "\<lambda>s. shape_id s = i" "fShapes (cDoc c)"]
    by (simp add: DuplicateSelection_def copy_box_def copy_connector_def AddShape_def on_added_def Let_def Select_def ShapeById_def new_shape_def)
qed

end
