(* ===== verification/WriterDocument.thy ===== *)
theory WriterDocument
  imports History "HOL-Library.Word" Complex_Main
begin

text \<open>
  ProseWriter's document, \<open>prosewriter/app/src/PWDocument.h\<close> and \<open>PWDocument.cpp\<close>: paragraphs of
  bytes with runs of character formats, images at byte offsets, one address space of bytes in which a
  separator between paragraphs counts one, every editing operation and the undo steps. Offsets and
  lengths are naturals, as every caller guarantees; text holds no NUL byte. A loop that can go on for
  ever is a partial function, \<open>None\<close> when it does.
\<close>

section \<open>Data\<close>

text \<open>The enumerations are bytes that a file may set to any value: \<open>Other\<close> is one without a name.\<close>

type_synonym rgb_color = "8 word \<times> 8 word \<times> 8 word \<times> 8 word"

record char_format =
  family :: string
  font_size :: rat
  color :: rgb_color
  bold :: bool
  italic :: bool
  underline :: bool

datatype alignment = PW_ALIGN_LEFT | PW_ALIGN_CENTER | PW_ALIGN_RIGHT | PW_ALIGN_JUSTIFY | OtherAlignment int

datatype list_kind = PW_LIST_NONE | PW_LIST_BULLET | PW_LIST_NUMBER | OtherList int

datatype tab_kind = PW_TAB_LEFT | PW_TAB_CENTER | PW_TAB_RIGHT | OtherTab int

record para_format =
  alignment :: alignment
  indentLeft :: rat
  indentRight :: rat
  indentFirst :: rat
  lineSpacing :: rat
  spaceBefore :: rat
  spaceAfter :: rat
  listKind :: list_kind
  tabs :: "(rat \<times> tab_kind) list"

record run =
  start :: nat
  len :: nat
  fmt :: char_format

text \<open>A \<open>BBitmap\<close>: its size in pixels, colour space, bytes a row, and all its bytes.\<close>

datatype colour_space = B_RGB32 | B_RGBA32 | OtherSpace int

record raster =
  raster_width :: int
  raster_height :: int
  ColorSpace :: colour_space
  BytesPerRow :: int
  raster_bytes :: "nat list"

record inline_image =
  bitmap :: "raster option"
  widthPt :: rat
  heightPt :: rat

record para =
  runs :: "run list"
  body :: string
  format :: para_format
  images :: "nat \<Rightarrow> inline_image option"
  para_id :: int
  revision :: nat

datatype step_kind = INSERT | REMOVE | FORMAT | PARAFORMAT

record undo_step =
  kind :: step_kind
  step_offset :: nat
  step_length :: nat
  step_text :: string
  step_runs :: "run list"
  step_images :: "nat \<Rightarrow> inline_image option"
  step_format :: para_format
  coalesce :: bool

record style =
  style_name :: string
  style_chr :: char_format
  style_para :: para_format

record writer =
  fParas :: "para list"
  fNextParaId :: int
  fDefault :: char_format
  fUndo :: "undo_step list"
  fRedo :: "undo_step list"
  fStyles :: "style list"
  fModified :: bool
  fCoalesce :: bool
  fHeader :: string
  fFooter :: string
  fInternalEdit :: bool
  fPlainTextCache :: string
  fPlainTextValid :: bool

definition new_para_format :: para_format where
  "new_para_format = \<lparr>alignment = PW_ALIGN_LEFT, indentLeft = 0, indentRight = 0, indentFirst = 0, lineSpacing = 1,
     spaceBefore = 0, spaceAfter = 0, listKind = PW_LIST_NONE, tabs = []\<rparr>"

definition new_para :: para where
  "new_para = \<lparr>runs = [], body = [], format = new_para_format, images = Map.empty, para_id = 0, revision = 0\<rparr>"

definition new_step :: "step_kind \<Rightarrow> nat \<Rightarrow> nat \<Rightarrow> undo_step" where
  "new_step k o' n = \<lparr>kind = k, step_offset = o', step_length = n, step_text = [], step_runs = [], step_images = Map.empty,
     step_format = new_para_format, coalesce = False\<rparr>"

text \<open>\<open>family\<close> is the kit's plain font, whatever it is.\<close>

definition MakeDefaultFormat :: "string \<Rightarrow> char_format" where
  "MakeDefaultFormat fam = \<lparr>family = fam, font_size = 12, color = (0, 0, 0, 255), bold = False, italic = False, underline = False\<rparr>"

definition new_writer :: "string \<Rightarrow> writer" where
  "new_writer fam =
     \<lparr>fParas = [new_para\<lparr>para_id := 1, runs := [\<lparr>start = 0, len = 0, fmt = MakeDefaultFormat fam\<rparr>]\<rparr>], fNextParaId = 2,
      fDefault = MakeDefaultFormat fam, fUndo = [], fRedo = [], fStyles = [], fModified = False, fCoalesce = True,
      fHeader = [], fFooter = [], fInternalEdit = False, fPlainTextCache = [], fPlainTextValid = False\<rparr>"

section \<open>Addresses\<close>

fun locate_from :: "nat \<Rightarrow> nat \<Rightarrow> nat \<Rightarrow> para list \<Rightarrow> nat \<times> nat" where
  "locate_from i pos off [] = (i - 1, 0)"
| "locate_from i pos off (p # ps) =
     (let paraEnd = pos + length (body p) in
      if off < paraEnd \<or> off = paraEnd \<and> ps = [] then (i, off - pos)
      else if off = paraEnd \<or> ps = [] then (i, length (body p))
      else locate_from (Suc i) (paraEnd + 1) off ps)"

definition Locate :: "para list \<Rightarrow> nat \<Rightarrow> nat \<times> nat" where
  "Locate ps off = locate_from 0 0 off ps"

definition ParaStart :: "para list \<Rightarrow> nat \<Rightarrow> nat" where
  "ParaStart ps i = sum_list (map (\<lambda>p. length (body p) + 1) (take i ps))"

definition Length :: "para list \<Rightarrow> nat" where
  "Length ps = sum_list (map (\<lambda>p. length (body p) + 1) ps) - 1"

definition IsSeparatorOffset :: "para list \<Rightarrow> nat \<Rightarrow> bool" where
  "IsSeparatorOffset ps off = (let (i, k) = Locate ps off in k = length (body (ps ! i)) \<and> i + 1 < length ps)"

fun plain_text :: "para list \<Rightarrow> string" where
  "plain_text [] = []"
| "plain_text (p # ps) = body p @ (if ps \<noteq> [] then newline # plain_text ps else [])"

definition PlainText :: "writer \<Rightarrow> string \<times> writer" where
  "PlainText d = (if fPlainTextValid d then (fPlainTextCache d, d)
     else (plain_text (fParas d), d\<lparr>fPlainTextCache := plain_text (fParas d), fPlainTextValid := True\<rparr>))"

fun get_text :: "nat \<Rightarrow> nat \<Rightarrow> nat \<Rightarrow> para list \<Rightarrow> string" where
  "get_text pos off n [] = []"
| "get_text pos off n (p # ps) =
     (if n = 0 then []
      else let plen = length (body p); from = off - pos; tk = min (plen - from) n;
               hit = off < pos + plen \<and> tk > 0;
               piece = (if hit then take tk (drop from (body p)) else []);
               n' = (if hit then n - tk else n);
               off' = (if hit then pos + from + tk else off);
               nl = n' > 0 \<and> off' = pos + plen \<and> ps \<noteq> []
           in piece @ (if nl then [newline] else [])
              @ get_text (pos + plen + 1) (if nl then pos + plen + 1 else off') (if nl then n' - 1 else n') ps)"

definition GetText :: "para list \<Rightarrow> nat \<Rightarrow> nat \<Rightarrow> string" where
  "GetText ps off n = get_text 0 off n ps"

section \<open>Runs\<close>

definition run_end :: "run \<Rightarrow> nat" where
  "run_end r = start r + len r"

definition FormatAt :: "writer \<Rightarrow> nat \<Rightarrow> char_format" where
  "FormatAt d off =
     (let (i, k) = Locate (fParas d) off; rs = runs (fParas d ! i) in
      case find (\<lambda>r. start r \<le> k \<and> k < run_end r) rs of Some r \<Rightarrow> fmt r
      | None \<Rightarrow> (case find (\<lambda>r. run_end r \<le> k \<and> len r > 0) (rev rs) of Some r \<Rightarrow> fmt r
        | None \<Rightarrow> if rs = [] then fDefault d else fmt (hd rs)))"

fun merge_runs :: "run list \<Rightarrow> run list \<Rightarrow> run list" where
  "merge_runs merged [] = merged"
| "merge_runs merged (r # rs) =
     (if len r = 0 then merge_runs merged rs
      else if merged \<noteq> [] \<and> fmt (last merged) = fmt r \<and> run_end (last merged) = start r
      then merge_runs (butlast merged @ [(last merged)\<lparr>len := len (last merged) + len r\<rparr>]) rs
      else merge_runs (merged @ [r]) rs)"

definition NormalizeRuns :: "char_format \<Rightarrow> para \<Rightarrow> para" where
  "NormalizeRuns def p =
     (let merged = merge_runs [] (runs p) in
      p\<lparr>runs := (if merged = [] then [\<lparr>start = 0, len = length (body p), fmt = def\<rparr>] else merged)\<rparr>)"

definition FormatForInsert :: "char_format \<Rightarrow> para \<Rightarrow> nat \<Rightarrow> char_format" where
  "FormatForInsert def p pos =
     (case find (\<lambda>r. len r > 0 \<and> pos > start r \<and> pos \<le> run_end r) (rev (runs p)) of Some r \<Rightarrow> fmt r
      | None \<Rightarrow> if runs p = [] then def else fmt (hd (runs p)))"

definition PushUndo :: "undo_step \<Rightarrow> writer \<Rightarrow> writer" where
  "PushUndo s d =
     (let d = d\<lparr>fModified := True, fPlainTextValid := False\<rparr> in
      if fInternalEdit d then d
      else d\<lparr>fUndo := push_capped 512 s (fUndo d), fRedo := []\<rparr>)"

section \<open>Inserting\<close>

definition IsSingleUTF8Char :: "string \<Rightarrow> bool" where
  "IsSingleUTF8Char s =
     (case s of [] \<Rightarrow> False
      | ch # cs \<Rightarrow>
          let c = (of_char ch :: 8 word);
              step = (if and c 0xE0 = 0xC0 then 2 else if and c 0xF0 = 0xE0 then 3 else if and c 0xF8 = 0xF0 then 4 else 1)
          in length s = step)"

text \<open>What becomes of one run when \<open>n\<close> bytes of format \<open>f\<close> come in at \<open>k\<close>, and the pass that sorts the new run in, over the reversed list.\<close>

definition insert_run :: "nat \<Rightarrow> nat \<Rightarrow> char_format \<Rightarrow> run \<Rightarrow> run list" where
  "insert_run k n f r =
     (if k > start r \<and> k < run_end r then
        [r\<lparr>len := k - start r\<rparr>, \<lparr>start = k, len = n, fmt = f\<rparr>, r\<lparr>start := k + n, len := run_end r - k\<rparr>]
      else if k = run_end r \<and> k \<noteq> 0 then [r]
      else [if start r \<ge> k then r\<lparr>start := start r + n\<rparr> else r])"

fun bubble :: "run list \<Rightarrow> run list" where
  "bubble (x # y # rs) = (if start y > start x then y # bubble (x # rs) else x # bubble (y # rs))"
| "bubble rs = rs"

definition insert_runs :: "nat \<Rightarrow> nat \<Rightarrow> char_format \<Rightarrow> run list \<Rightarrow> run list" where
  "insert_runs k n f rs =
     (let rs' = concat (map (insert_run k n f) rs) in
      if length rs' = length rs then rev (bubble (rev (rs' @ [\<lparr>start = k, len = n, fmt = f\<rparr>]))) else rs')"

definition shift_images :: "nat \<Rightarrow> nat \<Rightarrow> (nat \<Rightarrow> 'a option) \<Rightarrow> nat \<Rightarrow> 'a option" where
  "shift_images k n m = (\<lambda>j. if j < k then m j else if j < k + n then None else m (j - n))"

definition insert_para :: "char_format \<Rightarrow> nat \<Rightarrow> string \<Rightarrow> char_format \<Rightarrow> para \<Rightarrow> para" where
  "insert_para def k text f p =
     (let p = NormalizeRuns def (p\<lparr>body := take k (body p) @ text @ drop k (body p), runs := insert_runs k (length text) f (runs p)\<rparr>)
      in p\<lparr>images := shift_images k (length text) (images p), revision := revision p + 1\<rparr>)"

text \<open>A single character right behind the last insertion joins its step.\<close>

definition joins_last :: "nat \<Rightarrow> string \<Rightarrow> writer \<Rightarrow> bool" where
  "joins_last off text d \<longleftrightarrow> fCoalesce d \<and> fUndo d \<noteq> [] \<and> kind (last (fUndo d)) = INSERT \<and> coalesce (last (fUndo d))
     \<and> step_offset (last (fUndo d)) + step_length (last (fUndo d)) = off \<and> IsSingleUTF8Char text"

definition insert_piece :: "nat \<Rightarrow> string \<Rightarrow> char_format option \<Rightarrow> writer \<Rightarrow> writer" where
  "insert_piece off text f d =
     (let (i, k) = Locate (fParas d) off; p = fParas d ! i;
          f = (case f of Some f \<Rightarrow> f | None \<Rightarrow> FormatForInsert (fDefault d) p k);
          d = d\<lparr>fParas := (fParas d)[i := insert_para (fDefault d) k text f p]\<rparr>;
          s = (new_step INSERT off (length text))\<lparr>step_text := text, coalesce := fCoalesce d\<rparr>
      in if joins_last off text d
         then let b = last (fUndo d) in
           d\<lparr>fUndo := butlast (fUndo d) @ [b\<lparr>step_length := step_length b + length text, step_text := step_text b @ text\<rparr>],
             fModified := True, fPlainTextValid := False\<rparr>
         else PushUndo s d)"

section \<open>Splitting\<close>

definition split_right :: "nat \<Rightarrow> run list \<Rightarrow> run list" where
  "split_right k rs = concat (map (\<lambda>r.
     if start r \<ge> k then [r\<lparr>start := start r - k\<rparr>]
     else if run_end r > k then [r\<lparr>start := 0, len := run_end r - k\<rparr>] else []) rs)"

definition split_left :: "nat \<Rightarrow> run list \<Rightarrow> run list" where
  "split_left k rs = map (\<lambda>r. if run_end r > k then r\<lparr>len := k - start r\<rparr> else r) (filter (\<lambda>r. start r < k) rs)"

definition SplitPara :: "nat \<Rightarrow> writer \<Rightarrow> writer" where
  "SplitPara off d =
     (let (i, k) = Locate (fParas d) off; p = fParas d ! i;
          nxt = NormalizeRuns (fDefault d) (new_para\<lparr>para_id := fNextParaId d, format := format p, body := drop k (body p),
                  runs := split_right k (runs p), images := (\<lambda>j. images p (k + j))\<rparr>);
          p = NormalizeRuns (fDefault d) (p\<lparr>body := take k (body p), runs := split_left k (runs p),
                  images := (\<lambda>j. if j \<ge> k then None else images p j)\<rparr>);
          ps = take i (fParas d) @ [p\<lparr>revision := revision p + 1\<rparr>, nxt] @ drop (Suc i) (fParas d)
      in PushUndo ((new_step INSERT off 1)\<lparr>step_text := [newline]\<rparr>) (d\<lparr>fParas := ps, fNextParaId := fNextParaId d + 1\<rparr>))"

text \<open>A payload with newlines: a piece, a split, and on behind it.\<close>

function insert_lines :: "nat \<Rightarrow> string \<Rightarrow> char_format option \<Rightarrow> writer \<Rightarrow> writer" where
  "insert_lines pos text f d =
     (if text = [] then d
      else let seg = takeWhile (\<lambda>c. c \<noteq> newline) text; rest = dropWhile (\<lambda>c. c \<noteq> newline) text;
               d = (if seg \<noteq> [] then insert_piece pos seg f d else d)
           in if rest = [] then d
              else insert_lines (pos + length seg + 1) (tl rest) f (SplitPara (pos + length seg) d))"
  by auto
termination
proof (relation "measure (\<lambda>(pos, text, f, d). length text)")
  fix pos :: nat and t seg rest :: string and f :: "char_format option" and d e :: writer
  assume "rest = dropWhile (\<lambda>c. c \<noteq> newline) t" "rest \<noteq> []"
  then have "0 < length rest" "length rest \<le> length t" using length_dropWhile_le[of "\<lambda>c. c \<noteq> newline" t] by auto
  then have "length (tl rest) < length t" by (simp only: length_tl)
  then show "((pos + length seg + 1, tl rest, f, SplitPara (pos + length seg) e), pos, t, f, d) \<in> measure (\<lambda>(pos, text, f, d). length text)"
    by simp
qed simp

declare insert_lines.simps [simp del]

definition Insert :: "nat \<Rightarrow> string \<Rightarrow> char_format option \<Rightarrow> writer \<Rightarrow> writer" where
  "Insert off text f d =
     (if text = [] then d else if newline \<in> set text then insert_lines off text f d else insert_piece off text f d)"

section \<open>Removing\<close>

definition clip_runs :: "nat \<Rightarrow> nat \<Rightarrow> nat \<Rightarrow> run list \<Rightarrow> run list" where
  "clip_runs base k n rs = concat (map (\<lambda>r.
     let from = max k (start r); to = min (k + n) (run_end r) in
     if to > from then [\<lparr>start = base + (from - k), len = to - from, fmt = fmt r\<rparr>] else []) rs)"

partial_function (option) capture_loop ::
    "para list \<Rightarrow> nat \<Rightarrow> nat \<Rightarrow> nat \<Rightarrow> nat \<Rightarrow> nat \<Rightarrow> run list \<Rightarrow> run list option" where
  "capture_loop ps off stop pos i k saved =
     (if pos < stop \<and> i < length ps then
        let p = ps ! i; crosses = k + (stop - pos) > length (body p);
            tk = (if crosses then length (body p) - k else stop - pos);
            saved = (if tk > 0 then saved @ clip_runs (pos - off) k tk (runs p) else saved)
        in if crosses \<and> i + 1 < length ps then capture_loop ps off stop (pos + tk + 1) (i + 1) 0 saved
           else capture_loop ps off stop (pos + tk) i (k + tk) saved
      else Some saved)"

declare capture_loop.simps [code]

definition CaptureRuns :: "para list \<Rightarrow> nat \<Rightarrow> nat \<Rightarrow> run list option" where
  "CaptureRuns ps off n = (let (i, k) = Locate ps off in capture_loop ps off (off + n) off i k [])"

definition remove_run :: "nat \<Rightarrow> nat \<Rightarrow> run \<Rightarrow> run list" where
  "remove_run k n r =
     (if run_end r \<le> k \<or> start r \<ge> k + n then [if start r \<ge> k + n then r\<lparr>start := start r - n\<rparr> else r]
      else (if start r < k then [r\<lparr>len := k - start r\<rparr>] else [])
         @ (if run_end r > k + n then [r\<lparr>start := k, len := run_end r - k - n\<rparr>] else []))"

definition remove_para :: "char_format \<Rightarrow> nat \<Rightarrow> nat \<Rightarrow> para \<Rightarrow> para" where
  "remove_para def k n p =
     (let p = p\<lparr>images := (\<lambda>j. if j < k then images p j else images p (j + n)), body := take k (body p) @ drop (k + n) (body p),
                runs := concat (map (remove_run k n) (runs p))\<rparr>;
          p = NormalizeRuns def p
      in p\<lparr>revision := revision p + 1\<rparr>)"

definition keep_images :: "nat \<Rightarrow> nat \<Rightarrow> nat \<Rightarrow> para \<Rightarrow> (nat \<Rightarrow> inline_image option) \<Rightarrow> nat \<Rightarrow> inline_image option" where
  "keep_images base k n p saved =
     (\<lambda>g. if base + k \<le> g \<and> g < base + k + n \<and> images p (g - base) \<noteq> None then images p (g - base) else saved g)"

definition merge_next :: "para \<Rightarrow> para \<Rightarrow> para" where
  "merge_next p nxt =
     (let boundary = length (body p) in
      p\<lparr>images := (\<lambda>j. if j \<ge> boundary \<and> images nxt (j - boundary) \<noteq> None then images nxt (j - boundary) else images p j),
        body := body p @ body nxt, runs := runs p @ map (\<lambda>r. r\<lparr>start := start r + boundary\<rparr>) (runs nxt),
        revision := revision p + 1\<rparr>)"

partial_function (option) remove_loop ::
    "char_format \<Rightarrow> nat \<Rightarrow> nat \<Rightarrow> nat \<Rightarrow> nat \<Rightarrow> para list \<Rightarrow> (nat \<Rightarrow> inline_image option)
      \<Rightarrow> (para list \<times> (nat \<Rightarrow> inline_image option)) option" where
  "remove_loop def stop pos i k ps saved =
     (if pos < stop then
        let p = ps ! i; crosses = k + (stop - pos) > length (body p);
            tk = (if crosses then length (body p) - k else stop - pos);
            saved = (if tk > 0 then keep_images (ParaStart ps i) k tk p saved else saved);
            p = (if tk > 0 then remove_para def k tk p else p)
        in if crosses \<and> i + 1 < length ps
           then remove_loop def stop (pos + tk + 1) i (length (body p))
                  (take i ps @ [merge_next p (ps ! (i + 1))] @ drop (i + 2) ps) saved
           else remove_loop def stop (pos + tk) i (k + tk) (ps[i := p]) saved
      else Some (ps, saved))"

declare remove_loop.simps [code]

text \<open>\<open>None\<close>: the call does not return.\<close>

definition Remove :: "nat \<Rightarrow> nat \<Rightarrow> writer \<Rightarrow> writer option" where
  "Remove off n d =
     (if n = 0 \<or> off \<ge> Length (fParas d) then Some d
      else let n = (if off + n > Length (fParas d) then Length (fParas d) - off else n);
               removed = GetText (fParas d) off n; (i, k) = Locate (fParas d) off
           in case CaptureRuns (fParas d) off n of None \<Rightarrow> None
              | Some saved \<Rightarrow> (case remove_loop (fDefault d) (off + n) off i k (fParas d) Map.empty of None \<Rightarrow> None
                | Some (ps, imgs) \<Rightarrow> Some (PushUndo
                    ((new_step REMOVE off n)\<lparr>step_text := removed, step_runs := saved, step_images := imgs\<rparr>)
                    (d\<lparr>fParas := ps\<rparr>))))"

section \<open>Formatting\<close>

definition format_run :: "nat \<Rightarrow> nat \<Rightarrow> char_format \<Rightarrow> run \<Rightarrow> run list" where
  "format_run k n f r =
     (if run_end r \<le> k \<or> start r \<ge> k + n then [r]
      else (if start r < k then [r\<lparr>len := k - start r\<rparr>] else [])
         @ [\<lparr>start = max k (start r), len = min (run_end r) (k + n) - max k (start r), fmt = f\<rparr>]
         @ (if run_end r > k + n then [r\<lparr>start := k + n, len := run_end r - k - n\<rparr>] else []))"

definition format_para :: "char_format \<Rightarrow> nat \<Rightarrow> nat \<Rightarrow> char_format \<Rightarrow> para \<Rightarrow> para" where
  "format_para def k n f p =
     (let p = NormalizeRuns def (p\<lparr>runs := concat (map (format_run k n f) (runs p))\<rparr>) in p\<lparr>revision := revision p + 1\<rparr>)"

function format_loop :: "char_format \<Rightarrow> char_format \<Rightarrow> nat \<Rightarrow> nat \<Rightarrow> para list \<Rightarrow> para list" where
  "format_loop def f stop pos ps =
     (if pos < stop then
        let (i, k) = Locate ps pos; p = ps ! i;
            avail = (if IsSeparatorOffset ps pos then 0 else length (body p) - k);
            tk = min (stop - pos) avail
        in if avail = 0 then format_loop def f stop (pos + 1) ps
           else format_loop def f stop (pos + tk) (ps[i := format_para def k tk f p])
      else ps)"
  by auto
termination
  by (relation "measure (\<lambda>(def, f, stop, pos, ps). stop - pos)") auto

declare format_loop.simps [simp del]

definition ApplyFormat :: "nat \<Rightarrow> nat \<Rightarrow> char_format \<Rightarrow> writer \<Rightarrow> writer option" where
  "ApplyFormat off n f d =
     (if n = 0 then Some d
      else case CaptureRuns (fParas d) off n of None \<Rightarrow> None
        | Some saved \<Rightarrow> Some (PushUndo ((new_step FORMAT off n)\<lparr>step_runs := saved\<rparr>)
            (d\<lparr>fParas := format_loop (fDefault d) f (off + n) off (fParas d)\<rparr>)))"

definition SetParaFormat :: "int \<Rightarrow> para_format \<Rightarrow> writer \<Rightarrow> writer" where
  "SetParaFormat i f d =
     (if i < 0 \<or> int (length (fParas d)) \<le> i then d
      else let p = fParas d ! nat i in
        PushUndo ((new_step PARAFORMAT (nat i) 0)\<lparr>step_format := format p\<rparr>)
          (d\<lparr>fParas := (fParas d)[nat i := p\<lparr>format := f, revision := revision p + 1\<rparr>]\<rparr>))"

end
