(* ===== verification/WriterRuns.thy ===== *)
theory WriterRuns
  imports WriterDocument
begin

text \<open>
  What the surgery on runs does: a paragraph's runs lie end to end over its bytes, and so give every
  byte a format. Inserting, removing, formatting and splitting keep that, and change the row of formats
  the way they change the row of bytes.
\<close>

named_theorems run_simps

declare run_end_def [run_simps]

section \<open>Runs over bytes\<close>

fun tiled :: "nat \<Rightarrow> run list \<Rightarrow> nat \<Rightarrow> bool" where
  "tiled a [] b \<longleftrightarrow> a = b"
| "tiled a (r # rs) b \<longleftrightarrow> start r = a \<and> tiled (a + len r) rs b"

definition formats :: "run list \<Rightarrow> char_format list" where
  "formats rs = concat (map (\<lambda>r. replicate (len r) (fmt r)) rs)"

lemma formats_simps [simp]:
  "formats [] = []" "formats (r # rs) = replicate (len r) (fmt r) @ formats rs" "formats (rs @ ss) = formats rs @ formats ss"
  by (simp_all add: formats_def)

lemma tiled_append: "tiled a (xs @ ys) c \<longleftrightarrow> (\<exists>b. tiled a xs b \<and> tiled b ys c)"
  by (induction xs arbitrary: a) auto

lemma tiled_length: "tiled a rs b \<Longrightarrow> b = a + length (formats rs)"
proof (induction rs arbitrary: a)
  case (Cons r rs)
  then have "tiled (a + len r) rs b" by simp
  then show ?case using Cons.IH by fastforce
qed simp

lemma tiled_bounds: "tiled a rs b \<Longrightarrow> r \<in> set rs \<Longrightarrow> a \<le> start r \<and> run_end r \<le> b"
proof (induction rs arbitrary: a)
  case (Cons s rs)
  then show ?case using tiled_length[of "a + len s" rs b] by (fastforce simp: run_simps)
qed simp

lemma tiled_shift: "tiled a rs b \<Longrightarrow> tiled (a + n) (map (\<lambda>r. r\<lparr>start := start r + n\<rparr>) rs) (b + n)"
proof (induction rs arbitrary: a)
  case (Cons r rs)
  then show ?case using Cons.IH[of "a + len r"] by (simp add: ac_simps)
qed simp

lemma formats_shift [simp]: "formats (map (\<lambda>r. r\<lparr>start := f r\<rparr>) rs) = formats rs"
  by (induction rs) auto

text \<open>A surgery that treats every run for itself: \<open>move\<close> says where a place between bytes goes.\<close>

lemma tiled_surgery:
  assumes "tiled a rs b" and "\<And>r. tiled (move (start r)) (g r) (move (run_end r))"
  shows "tiled (move a) (concat (map g rs)) (move b)"
  using assms(1) by (induction rs arbitrary: a) (auto simp: tiled_append run_simps intro: assms(2)[unfolded run_simps])

section \<open>Normalizing\<close>

lemma merge_runs_spec:
  assumes "tiled 0 merged b" and "tiled b rs c"
  shows "tiled 0 (merge_runs merged rs) c \<and> formats (merge_runs merged rs) = formats merged @ formats rs"
  using assms
proof (induction merged rs arbitrary: b rule: merge_runs.induct)
  case (2 merged r rs)
  show ?case
  proof (cases "len r = 0")
    case True
    then show ?thesis using 2 by simp
  next
    case False
    show ?thesis
    proof (cases "merged \<noteq> [] \<and> fmt (last merged) = fmt r \<and> run_end (last merged) = start r")
      case join: True
      then obtain ms m where ms: "merged = ms @ [m]" by (metis rev_exhaust)
      then have "tiled 0 (ms @ [m\<lparr>len := len m + len r\<rparr>]) (b + len r)"
        using 2 by (auto simp: tiled_append)
      then show ?thesis using 2 False join ms by (auto simp: replicate_add)
    next
      case apart: False
      have "tiled 0 (merged @ [r]) (b + len r)" using 2 by (auto simp: tiled_append)
      then show ?thesis using 2 False apart by auto
    qed
  qed
qed simp

definition para_ok :: "para \<Rightarrow> bool" where
  "para_ok p \<longleftrightarrow> tiled 0 (runs p) (length (body p)) \<and> newline \<notin> set (body p)"

lemma NormalizeRuns_simps [simp]:
  "body (NormalizeRuns def p) = body p" "format (NormalizeRuns def p) = format p" "images (NormalizeRuns def p) = images p"
  "para_id (NormalizeRuns def p) = para_id p" "revision (NormalizeRuns def p) = revision p"
  by (simp_all add: NormalizeRuns_def Let_def)

lemma NormalizeRuns_runs:
  assumes "tiled 0 (runs p) (length (body p))"
  shows "tiled 0 (runs (NormalizeRuns def p)) (length (body p))" "formats (runs (NormalizeRuns def p)) = formats (runs p)"
proof -
  have m: "tiled 0 (merge_runs [] (runs p)) (length (body p))" "formats (merge_runs [] (runs p)) = formats (runs p)"
    using merge_runs_spec[of "[]" 0 "runs p" "length (body p)"] assms by auto
  show "tiled 0 (runs (NormalizeRuns def p)) (length (body p))" "formats (runs (NormalizeRuns def p)) = formats (runs p)"
    using m tiled_length[OF m(1)] by (auto simp: NormalizeRuns_def Let_def)
qed

section \<open>Inserting\<close>

lemma tiled_split:
  assumes "tiled a rs c" and "a \<le> k" and "k \<le> c"
  shows "(\<exists>xs ys. rs = xs @ ys \<and> tiled a xs k \<and> tiled k ys c \<and> (\<forall>r \<in> set xs. run_end r \<le> k)
      \<and> (\<forall>r \<in> set ys. k \<le> start r \<and> k < run_end r))
    \<or> (\<exists>xs r ys. rs = xs @ r # ys \<and> tiled a xs (start r) \<and> tiled (run_end r) ys c \<and> start r < k \<and> k < run_end r)"
  using assms
proof (induction rs arbitrary: a)
  case (Cons r rs)
  have r: "start r = a" "tiled (run_end r) rs c" using Cons.prems by (auto simp: run_simps)
  consider "run_end r \<le> k" | "k < run_end r" "a = k" | "k < run_end r" "a < k"
    using Cons.prems(2) by linarith
  then show ?case
  proof cases
    case 1
    from Cons.IH[OF r(2) 1 Cons.prems(3)] show ?thesis
    proof (elim disjE exE conjE)
      fix xs ys
      assume "rs = xs @ ys" "tiled (run_end r) xs k" "tiled k ys c" "\<forall>r\<in>set xs. run_end r \<le> k" "\<forall>r\<in>set ys. k \<le> start r \<and> k < run_end r"
      then show ?thesis using 1 r(1) by (intro disjI1 exI[of _ "r # xs"] exI[of _ ys]) (simp add: run_simps)
    next
      fix xs r' ys
      assume "rs = xs @ r' # ys" "tiled (run_end r) xs (start r')" "tiled (run_end r') ys c" "start r' < k" "k < run_end r'"
      then show ?thesis using r(1) by (intro disjI2 exI[of _ "r # xs"] exI[of _ r'] exI[of _ ys]) (simp add: run_simps)
    qed
  next
    case 2
    then have "k \<le> start s \<and> k < run_end s" if "s \<in> set rs" for s
      using tiled_bounds[OF r(2) that] by (auto simp: run_simps)
    then show ?thesis using 2 r Cons.prems(1) by (intro disjI1 exI[of _ "[]"] exI[of _ "r # rs"]) auto
  next
    case 3
    then show ?thesis using r by (intro disjI2 exI[of _ "[]"] exI[of _ r] exI[of _ rs]) simp
  qed
qed auto

lemma bubble_sorted: "sorted_wrt (\<lambda>x y. start y \<le> start x) rs \<Longrightarrow> bubble rs = rs"
  by (induction rs rule: bubble.induct) auto

lemma bubble_over:
  "\<forall>y \<in> set ys. start x < start y \<Longrightarrow> bubble (x # zs) = x # zs \<Longrightarrow> bubble (x # ys @ zs) = ys @ x # zs"
  by (induction ys) auto

lemma tiled_sorted: "tiled a rs b \<Longrightarrow> sorted_wrt (\<lambda>x y. start x \<le> start y) rs"
proof (induction rs arbitrary: a)
  case (Cons r rs)
  then show ?case using tiled_bounds[of "a + len r" rs b] by fastforce
qed simp

lemma insert_runs_sorted:
  assumes "concat (map (insert_run k n f) rs) = xs @ map (\<lambda>r. r\<lparr>start := start r + n\<rparr>) ys" and "rs = xs @ ys"
    and "tiled 0 xs k" and "\<forall>r \<in> set ys. k \<le> start r" and "0 < n"
  shows "insert_runs k n f rs = xs @ \<lparr>start = k, len = n, fmt = f\<rparr> # map (\<lambda>r. r\<lparr>start := start r + n\<rparr>) ys"
proof -
  let ?new = "\<lparr>start = k, len = n, fmt = f\<rparr>" and ?ys = "map (\<lambda>r. r\<lparr>start := start r + n\<rparr>) ys"
  have "sorted_wrt (\<lambda>x y. start y \<le> start x) (?new # rev xs)"
    using tiled_sorted[OF assms(3)] tiled_bounds[OF assms(3)] by (fastforce simp: sorted_wrt_rev run_simps)
  then have "bubble (?new # rev ?ys @ rev xs) = rev ?ys @ ?new # rev xs"
    using assms(4,5) by (intro bubble_over bubble_sorted) auto
  then show ?thesis using assms(1,2) by (simp add: insert_runs_def Let_def)
qed

lemma insert_runs_spec:
  assumes "tiled 0 rs c" and "k \<le> c" and "0 < n"
  shows "tiled 0 (insert_runs k n f rs) (c + n)
    \<and> formats (insert_runs k n f rs) = take k (formats rs) @ replicate n f @ drop k (formats rs)"
proof -
  let ?up = "map (\<lambda>r. r\<lparr>start := start r + n\<rparr>)"
  have apart: ?thesis if "rs = xs @ ys" "tiled 0 xs k" "tiled k ys c" "concat (map (insert_run k n f) rs) = xs @ ?up ys" for xs ys
  proof -
    have "\<forall>r \<in> set ys. k \<le> start r" using tiled_bounds[OF that(3)] by blast
    then have "insert_runs k n f rs = xs @ \<lparr>start = k, len = n, fmt = f\<rparr> # ?up ys"
      using insert_runs_sorted[OF that(4,1,2) _ assms(3)] by blast
    then show ?thesis
      using that(1,2) tiled_shift[OF that(3), of n] tiled_length[OF that(2)] by (auto simp: tiled_append)
  qed
  show ?thesis
  proof (cases "k = 0")
    case True
    then have "concat (map (insert_run k n f) rs) = ?up rs" for rs
      by (induction rs) (auto simp: insert_run_def)
    then show ?thesis using apart[of "[]" rs] True assms(1) by simp
  next
    case False
    have low: "concat (map (insert_run k n f) xs) = xs" if "\<forall>r \<in> set xs. run_end r \<le> k" for xs
      using that False by (induction xs) (auto simp: insert_run_def run_simps)
    have high: "concat (map (insert_run k n f) ys) = ?up ys" if "\<forall>r \<in> set ys. k \<le> start r \<and> k < run_end r" for ys
      using that by (induction ys) (auto simp: insert_run_def run_simps)
    from tiled_split[OF assms(1) le0 assms(2)] show ?thesis
    proof (elim disjE exE conjE)
      fix xs ys
      assume "rs = xs @ ys" "tiled 0 xs k" "tiled k ys c" "\<forall>r\<in>set xs. run_end r \<le> k" "\<forall>r\<in>set ys. k \<le> start r \<and> k < run_end r"
      then show ?thesis using apart[of xs ys] low high by simp
    next
      fix xs r ys
      assume r: "rs = xs @ r # ys" "tiled 0 xs (start r)" "tiled (run_end r) ys c" "start r < k" "k < run_end r"
      have "\<forall>s \<in> set xs. run_end s \<le> k" using tiled_bounds[OF r(2)] r(4) by fastforce
      moreover have "\<forall>s \<in> set ys. k \<le> start s \<and> k < run_end s"
        using tiled_bounds[OF r(3)] r(5) by (fastforce simp: run_simps)
      ultimately have "concat (map (insert_run k n f) rs)
          = xs @ [r\<lparr>len := k - start r\<rparr>, \<lparr>start = k, len = n, fmt = f\<rparr>, r\<lparr>start := k + n, len := run_end r - k\<rparr>] @ ?up ys"
        using r(1,4,5) low high by (simp add: insert_run_def)
      moreover from this have "insert_runs k n f rs
          = xs @ [r\<lparr>len := k - start r\<rparr>, \<lparr>start = k, len = n, fmt = f\<rparr>, r\<lparr>start := k + n, len := run_end r - k\<rparr>] @ ?up ys"
        using r(1) by (simp add: insert_runs_def Let_def)
      moreover have "tiled (run_end r + n) (?up ys) (c + n)" using tiled_shift[OF r(3)] .
      moreover have "length (formats xs) = start r" using tiled_length[OF r(2)] by simp
      ultimately show ?thesis
        using r by (auto simp: tiled_append run_simps take_replicate drop_replicate ac_simps simp flip: replicate_add)
    qed
  qed
qed

section \<open>Removing, formatting, splitting\<close>

lemma take_drop_runs:
  "take j (replicate m x @ xs) = replicate (min j m) x @ take (j - m) xs"
  "drop j (replicate m x @ xs) = replicate (m - j) x @ drop (j - m) xs"
  by (simp_all add: take_replicate drop_replicate)

lemma remove_runs_spec:
  assumes "tiled a rs c"
  shows "tiled (min a k + (a - (k + n))) (concat (map (remove_run k n) rs)) (min c k + (c - (k + n)))
    \<and> formats (concat (map (remove_run k n) rs)) = take (k - a) (formats rs) @ drop (k + n - a) (formats rs)"
proof
  show "tiled (min a k + (a - (k + n))) (concat (map (remove_run k n) rs)) (min c k + (c - (k + n)))"
    using assms by (rule tiled_surgery[where move = "\<lambda>x. min x k + (x - (k + n))"]) (auto simp: remove_run_def run_simps)
  show "formats (concat (map (remove_run k n) rs)) = take (k - a) (formats rs) @ drop (k + n - a) (formats rs)"
    using assms
  proof (induction rs arbitrary: a)
    case (Cons r rs)
    then have r: "start r = a" "formats (concat (map (remove_run k n) rs))
        = take (k - (a + len r)) (formats rs) @ drop (k + n - (a + len r)) (formats rs)"
      by auto
    have "formats (remove_run k n r) = replicate (min (k - a) (len r)) (fmt r) @ replicate (len r - (k + n - a)) (fmt r)"
      using r(1) by (auto simp: remove_run_def run_simps min_def simp flip: replicate_add)
    moreover have "len r - (k + n - a) = 0 \<or> k - (a + len r) = 0" by auto
    ultimately show ?case using r(2) by (auto simp: take_drop_runs)
  qed simp
qed

lemma format_runs_spec:
  assumes "tiled a rs c" and "a \<le> k" and "k + n \<le> c"
  shows "tiled a (concat (map (format_run k n f) rs)) c
    \<and> formats (concat (map (format_run k n f) rs)) = take (k - a) (formats rs) @ replicate n f @ drop (k + n - a) (formats rs)"
proof
  show "tiled a (concat (map (format_run k n f) rs)) c"
    using assms(1) by (rule tiled_surgery[where move = "\<lambda>x. x"]) (auto simp: format_run_def run_simps)
  have "formats (concat (map (format_run k n f) rs))
      = take (k - a) (formats rs) @ replicate (min (k + n) c - max k a) f @ drop (k + n - a) (formats rs)"
    using assms(1)
  proof (induction rs arbitrary: a)
    case (Cons r rs)
    then have r: "start r = a" "formats (concat (map (format_run k n f) rs)) = take (k - (a + len r)) (formats rs)
        @ replicate (min (k + n) c - max k (a + len r)) f @ drop (k + n - (a + len r)) (formats rs)"
      by auto
    have c: "a + len r \<le> c" using Cons.prems tiled_length[of "a + len r" rs c] by simp
    have f: "formats (format_run k n f r) = replicate (min (k - a) (len r)) (fmt r)
        @ replicate (min (k + n) (a + len r) - max k a) f @ replicate (len r - (k + n - a)) (fmt r)"
      using r(1) by (auto simp: format_run_def run_simps min_def max_def simp flip: replicate_add)
    consider "a + len r \<le> k" | "k < a + len r" "a + len r \<le> k + n" | "k + n < a + len r" by linarith
    then show ?case
    proof cases
      case 1
      then show ?thesis using r(2) f by (auto simp: take_drop_runs min_def max_def)
    next
      case 2
      then have "a + len r - max k a + (min (k + n) c - (a + len r)) = min (k + n) c - max k a"
        using c by (auto simp: min_def max_def)
      then have "replicate (a + len r - max k a) f @ replicate (min (k + n) c - (a + len r)) f = replicate (min (k + n) c - max k a) f"
        by (metis replicate_add)
      then show ?thesis using r(2) f 2 by (simp add: take_drop_runs)
    next
      case 3
      then show ?thesis using r(2) f c by (simp add: take_drop_runs min_def max_def)
    qed
  qed simp
  then show "formats (concat (map (format_run k n f) rs)) = take (k - a) (formats rs) @ replicate n f @ drop (k + n - a) (formats rs)"
    using assms(2,3) by (simp add: min_def max_def)
qed

lemma split_left_alt: "split_left k rs
    = concat (map (\<lambda>r. if start r < k then [if run_end r > k then r\<lparr>len := k - start r\<rparr> else r] else []) rs)"
  by (induction rs) (auto simp: split_left_def)

lemma split_left_spec:
  assumes "tiled a rs c"
  shows "tiled (min a k) (split_left k rs) (min c k) \<and> formats (split_left k rs) = take (k - a) (formats rs)"
proof
  show "tiled (min a k) (split_left k rs) (min c k)"
    unfolding split_left_alt using assms by (rule tiled_surgery[where move = "\<lambda>x. min x k"]) (auto simp: run_simps)
  show "formats (split_left k rs) = take (k - a) (formats rs)"
    unfolding split_left_alt using assms by (induction rs arbitrary: a) (auto simp: take_drop_runs run_simps min_def)
qed

lemma split_right_spec:
  assumes "tiled a rs c"
  shows "tiled (a - k) (split_right k rs) (c - k) \<and> formats (split_right k rs) = drop (k - a) (formats rs)"
proof
  show "tiled (a - k) (split_right k rs) (c - k)"
    unfolding split_right_def using assms by (rule tiled_surgery[where move = "\<lambda>x. x - k"]) (auto simp: run_simps)
  show "formats (split_right k rs) = drop (k - a) (formats rs)"
    unfolding split_right_def using assms by (induction rs arbitrary: a) (auto simp: take_drop_runs run_simps)
qed

end
