(* ===== verification/WriterOps.thy ===== *)
theory WriterOps
  imports WriterDocument
begin

text \<open>
  What ProseWriter's document offers on top of its editing surface, \<open>prosewriter/app/src/PWDocument.cpp\<close>:
  undo and redo, images, tables, named styles, header texts, the marks of a saved document, and search. \<open>None\<close>: the call does not
  return.
\<close>

section \<open>Undo\<close>

text \<open>The saved runs go back over the range, one after the other.\<close>

fun apply_runs :: "nat \<Rightarrow> run list \<Rightarrow> writer \<Rightarrow> writer option" where
  "apply_runs off [] d = Some d"
| "apply_runs off (r # rs) d =
     (if len r > 0 then (case ApplyFormat (off + start r) (len r) (fmt r) d of None \<Rightarrow> None | Some d \<Rightarrow> apply_runs off rs d)
      else apply_runs off rs d)"

text \<open>The images of a step, wherever their offsets now land; the map is walked in the order of its keys.\<close>

fun put_images :: "nat list \<Rightarrow> (nat \<Rightarrow> inline_image option) \<Rightarrow> para list \<Rightarrow> para list" where
  "put_images [] m ps = ps"
| "put_images (g # gs) m ps =
     (case m g of None \<Rightarrow> put_images gs m ps
      | Some img \<Rightarrow> let (i, k) = Locate ps g; p = ps ! i in
          put_images gs m (ps[i := p\<lparr>images := (images p)(k \<mapsto> img), revision := revision p + 1\<rparr>]))"

definition undo_one :: "undo_step \<Rightarrow> writer \<Rightarrow> writer option" where
  "undo_one s d =
     (case kind s of
        INSERT \<Rightarrow> Remove (step_offset s) (step_length s) d
      | REMOVE \<Rightarrow>
          let d = Insert (step_offset s) (step_text s) None d in
          (case ApplyFormat (step_offset s) (step_length s) (FormatAt d (step_offset s)) d of None \<Rightarrow> None
           | Some d \<Rightarrow> (case apply_runs (step_offset s) (step_runs s) d of None \<Rightarrow> None
             | Some d \<Rightarrow> Some (d\<lparr>fParas := put_images [step_offset s..<step_offset s + step_length s] (step_images s) (fParas d)\<rparr>)))
      | FORMAT \<Rightarrow>
          (case CaptureRuns (fParas d) (step_offset s) (step_length s) of None \<Rightarrow> None
           | Some now \<Rightarrow> apply_runs (step_offset s) (step_runs s)
               (d\<lparr>fRedo := butlast (fRedo d) @ [(last (fRedo d))\<lparr>step_runs := now\<rparr>]\<rparr>))
      | PARAFORMAT \<Rightarrow>
          Some (if step_offset s < length (fParas d)
            then let p = fParas d ! step_offset s in
              d\<lparr>fParas := (fParas d)[step_offset s := p\<lparr>format := step_format s, revision := revision p + 1\<rparr>]\<rparr>
            else d))"

definition Undo :: "writer \<Rightarrow> writer option" where
  "Undo d =
     (if fUndo d = [] then Some d
      else let s = last (fUndo d); depth = length (fUndo d) - 1 in
        map_option (\<lambda>d. d\<lparr>fCoalesce := True, fInternalEdit := False, fUndo := take depth (fUndo d), fModified := True,
            fPlainTextValid := False\<rparr>)
          (undo_one s (d\<lparr>fUndo := butlast (fUndo d), fRedo := fRedo d @ [s], fCoalesce := False, fInternalEdit := True\<rparr>)))"

text \<open>A step done again, with what it is to be undone by.\<close>

definition redo_one :: "undo_step \<Rightarrow> writer \<Rightarrow> (undo_step \<times> writer) option" where
  "redo_one s d =
     (case kind s of
        INSERT \<Rightarrow> Some (s, Insert (step_offset s) (step_text s) None d)
      | REMOVE \<Rightarrow> map_option (Pair s) (Remove (step_offset s) (step_length s) d)
      | FORMAT \<Rightarrow>
          (case CaptureRuns (fParas d) (step_offset s) (step_length s) of None \<Rightarrow> None
           | Some now \<Rightarrow> map_option (Pair (s\<lparr>step_runs := now\<rparr>)) (apply_runs (step_offset s) (step_runs s) d))
      | PARAFORMAT \<Rightarrow>
          Some (if step_offset s < length (fParas d)
            then let p = fParas d ! step_offset s in
              (s\<lparr>step_format := format p\<rparr>,
               d\<lparr>fParas := (fParas d)[step_offset s := p\<lparr>format := step_format s, revision := revision p + 1\<rparr>]\<rparr>)
            else (s, d)))"

definition Redo :: "writer \<Rightarrow> writer option" where
  "Redo d =
     (if fRedo d = [] then Some d
      else let s = last (fRedo d); depth = length (fUndo d) in
        map_option (\<lambda>(s, d). d\<lparr>fCoalesce := True, fInternalEdit := False, fUndo := take depth (fUndo d) @ [s],
            fModified := True, fPlainTextValid := False\<rparr>)
          (redo_one s (d\<lparr>fRedo := butlast (fRedo d), fCoalesce := False, fInternalEdit := True\<rparr>)))"

definition SetUndoCoalescing :: "bool \<Rightarrow> writer \<Rightarrow> writer" where
  "SetUndoCoalescing on d = d\<lparr>fCoalesce := on\<rparr>"

definition SavedClean :: "writer \<Rightarrow> writer" where
  "SavedClean d = d\<lparr>fModified := False\<rparr>"

definition SetDefaultFormat :: "char_format \<Rightarrow> writer \<Rightarrow> writer" where
  "SetDefaultFormat f d = d\<lparr>fDefault := f\<rparr>"

section \<open>Images\<close>

datatype status = B_OK | B_BAD_VALUE | B_NOT_ALLOWED

definition kObjectChar :: string where
  "kObjectChar = [CHR 0xEF, CHR 0xBF, CHR 0xBC]"

definition InsertImage :: "nat \<Rightarrow> raster option \<Rightarrow> rat \<Rightarrow> rat \<Rightarrow> writer \<Rightarrow> status \<times> writer" where
  "InsertImage off bits w h d =
     (if bits = None then (B_BAD_VALUE, d)
      else let (i, k) = Locate (fParas d) off; d = Insert off kObjectChar None d; p = fParas d ! i in
        (B_OK, d\<lparr>fParas := (fParas d)[i := p\<lparr>images := (images p)(k \<mapsto> \<lparr>bitmap = bits, widthPt = w, heightPt = h\<rparr>),
                                           revision := revision p + 1\<rparr>]\<rparr>))"

definition ImageAt :: "writer \<Rightarrow> nat \<Rightarrow> inline_image option" where
  "ImageAt d off = (let (i, k) = Locate (fParas d) off in images (fParas d ! i) k)"

section \<open>Tables\<close>

definition kCellSep :: char where
  "kCellSep = CHR 0x1D"

text \<open>The rows of a new table: separators, and a split before the next row.\<close>

fun table_rows :: "nat \<Rightarrow> nat \<Rightarrow> nat \<Rightarrow> char_format option \<Rightarrow> writer \<Rightarrow> writer" where
  "table_rows 0 cols pos head d = d"
| "table_rows (Suc rows) cols pos head d =
     (let row = replicate (cols - 1) kCellSep; d = Insert pos row head d; pos = pos + length row in
      if rows > 0 then table_rows rows cols (pos + 1) None (SplitPara pos d) else d)"

definition InsertTable :: "nat \<Rightarrow> int \<Rightarrow> int \<Rightarrow> bool \<Rightarrow> writer \<Rightarrow> status \<times> writer" where
  "InsertTable off rows cols header d =
     (if rows < 1 \<or> rows > 100 \<or> cols < 1 \<or> cols > 50 then (B_BAD_VALUE, d)
      else (B_OK, table_rows (nat rows) (nat cols) off
              (if header then Some ((FormatAt d off)\<lparr>bold := True\<rparr>) else None) d))"

definition IsRow :: "para list \<Rightarrow> int \<Rightarrow> bool" where
  "IsRow ps i \<longleftrightarrow> \<not> (i < 0 \<or> int (length ps) \<le> i) \<and> kCellSep \<in> set (body (ps ! nat i))"

text \<open>The walk over a row's bytes to the start of a cell: how many bytes, when the row has the cell.\<close>

fun skip_cells :: "nat \<Rightarrow> string \<Rightarrow> nat option" where
  "skip_cells 0 cs = Some 0"
| "skip_cells (Suc col) [] = None"
| "skip_cells (Suc col) (c # cs) = map_option Suc (skip_cells (if c = kCellSep then col else Suc col) cs)"

definition CellStart :: "para list \<Rightarrow> nat \<Rightarrow> nat \<Rightarrow> nat option" where
  "CellStart ps i col = map_option ((+) (ParaStart ps i)) (skip_cells col (body (ps ! i)))"

definition cell_seps :: "string \<Rightarrow> nat" where
  "cell_seps cs = length (filter (\<lambda>c. c = kCellSep) cs)"

function last_row :: "para list \<Rightarrow> nat \<Rightarrow> nat" where
  "last_row ps i = (if IsRow ps (int i + 1) then last_row ps (i + 1) else i)"
  by auto
termination by (relation "measure (\<lambda>(ps, i). length ps - i)") (auto simp: IsRow_def)

declare last_row.simps [simp del]

fun first_row :: "para list \<Rightarrow> nat \<Rightarrow> nat" where
  "first_row ps 0 = 0"
| "first_row ps (Suc i) = (if IsRow ps (int i) then first_row ps i else Suc i)"

definition InsertTableRowAfter :: "nat \<Rightarrow> writer \<Rightarrow> status \<times> nat option \<times> writer" where
  "InsertTableRowAfter off d =
     (let i = fst (Locate (fParas d) off) in
      if \<not> IsRow (fParas d) (int i) then (B_NOT_ALLOWED, None, d)
      else let cols = cell_seps (body (fParas d ! i)) + 1; row = replicate (cols - 1) kCellSep;
               pos = ParaStart (fParas d) i + length (body (fParas d ! i)) in
        (B_OK, Some (pos + 1), Insert (pos + 1) row None (SplitPara pos d)))"

definition column_at :: "para list \<Rightarrow> nat \<Rightarrow> nat \<Rightarrow> nat" where
  "column_at ps i k = cell_seps (take k (body (ps ! i)))"

definition insert_cell :: "nat \<Rightarrow> nat \<Rightarrow> writer \<Rightarrow> writer" where
  "insert_cell col p d =
     Insert (case CellStart (fParas d) p col of Some pos \<Rightarrow> pos
        | None \<Rightarrow> ParaStart (fParas d) p + length (body (fParas d ! p))) [kCellSep] None d"

definition InsertTableColumnAt :: "nat \<Rightarrow> writer \<Rightarrow> status \<times> nat option \<times> writer" where
  "InsertTableColumnAt off d =
     (let (i, k) = Locate (fParas d) off in
      if \<not> IsRow (fParas d) (int i) then (B_NOT_ALLOWED, None, d)
      else let col = column_at (fParas d) i k;
               d = fold (insert_cell col) (rev [i..<last_row (fParas d) i + 1]) d
           in (B_OK, CellStart (fParas d) i col, d))"

definition DeleteTableRow :: "nat \<Rightarrow> writer \<Rightarrow> (status \<times> nat option \<times> writer) option" where
  "DeleteTableRow off d =
     (let i = fst (Locate (fParas d) off); ps = fParas d in
      if \<not> IsRow ps (int i) then Some (B_NOT_ALLOWED, None, d)
      else let pos = ParaStart ps i; n = length (body (ps ! i)) in
        map_option (\<lambda>d. (B_OK, Some pos, d))
          (if \<not> IsRow ps (int i - 1) \<and> \<not> IsRow ps (int i + 1)
           then (case Remove pos n d of None \<Rightarrow> None | Some d \<Rightarrow> Remove pos 1 d)
           else if IsRow ps (int i + 1) \<and> \<not> IsRow ps (int i - 1) then Remove pos (n + 1) d
           else Remove (pos - 1) (n + 1) d))"

definition delete_cell :: "nat \<Rightarrow> nat \<Rightarrow> writer \<Rightarrow> writer option" where
  "delete_cell col p d =
     (case CellStart (fParas d) p col of None \<Rightarrow> Some d
      | Some pos \<Rightarrow>
          let stop = (case CellStart (fParas d) p (col + 1) of Some stop \<Rightarrow> stop
                | None \<Rightarrow> ParaStart (fParas d) p + length (body (fParas d ! p)))
          in Remove pos (stop - pos) d)"

fun delete_cells :: "nat \<Rightarrow> nat list \<Rightarrow> writer \<Rightarrow> writer option" where
  "delete_cells col [] d = Some d"
| "delete_cells col (p # ps) d = (case delete_cell col p d of None \<Rightarrow> None | Some d \<Rightarrow> delete_cells col ps d)"

definition DeleteTableColumnAt :: "nat \<Rightarrow> writer \<Rightarrow> (status \<times> nat option \<times> writer) option" where
  "DeleteTableColumnAt off d =
     (let (i, k) = Locate (fParas d) off; ps = fParas d in
      if \<not> IsRow ps (int i) then Some (B_NOT_ALLOWED, None, d)
      else let col = column_at ps i k; rows = [first_row ps i..<last_row ps i + 1];
               maxCells = Max (set (map (\<lambda>p. cell_seps (body (ps ! p)) + 1) rows))
           in if maxCells \<le> 1 then Some (B_NOT_ALLOWED, None, d)
              else map_option (\<lambda>d. (B_OK, Some (case CellStart (fParas d) i col of Some pos \<Rightarrow> pos | None \<Rightarrow> off), d))
                     (delete_cells col (rev rows) d))"

section \<open>Styles and header texts\<close>

definition StyleAt :: "writer \<Rightarrow> int \<Rightarrow> style option" where
  "StyleAt d i = (if i < 0 \<or> int (length (fStyles d)) \<le> i then None else Some (fStyles d ! nat i))"

definition StyleNamed :: "writer \<Rightarrow> string \<Rightarrow> style option" where
  "StyleNamed d name = find (\<lambda>s. style_name s = name) (fStyles d)"

fun set_style :: "string \<Rightarrow> char_format \<Rightarrow> para_format \<Rightarrow> style list \<Rightarrow> style list" where
  "set_style name chr par [] = [\<lparr>style_name = name, style_chr = chr, style_para = par\<rparr>]"
| "set_style name chr par (s # ss) =
     (if style_name s = name then s\<lparr>style_chr := chr, style_para := par\<rparr> # ss else s # set_style name chr par ss)"

definition AddStyle :: "string \<Rightarrow> char_format \<Rightarrow> para_format \<Rightarrow> writer \<Rightarrow> writer" where
  "AddStyle name chr par d = d\<lparr>fStyles := set_style name chr par (fStyles d), fModified := True\<rparr>"

definition RemoveStyle :: "int \<Rightarrow> writer \<Rightarrow> writer" where
  "RemoveStyle i d =
     (if 0 \<le> i \<and> i < int (length (fStyles d))
      then d\<lparr>fStyles := take (nat i) (fStyles d) @ drop (Suc (nat i)) (fStyles d), fModified := True\<rparr> else d)"

definition ClearStyles :: "writer \<Rightarrow> writer" where
  "ClearStyles d = d\<lparr>fStyles := []\<rparr>"

definition SetHeaderText :: "string \<Rightarrow> writer \<Rightarrow> writer" where
  "SetHeaderText t d = d\<lparr>fHeader := t, fModified := True\<rparr>"

definition SetFooterText :: "string \<Rightarrow> writer \<Rightarrow> writer" where
  "SetFooterText t d = d\<lparr>fFooter := t, fModified := True\<rparr>"

definition ApplyStyle :: "nat \<Rightarrow> nat \<Rightarrow> int \<Rightarrow> writer \<Rightarrow> writer option" where
  "ApplyStyle off n i d =
     (case StyleAt d i of None \<Rightarrow> Some d
      | Some s \<Rightarrow> (case (if n > 0 then ApplyFormat off n (style_chr s) d else Some d) of None \<Rightarrow> None
        | Some d \<Rightarrow>
            let n = (if n > 0 then n else 1); first = fst (Locate (fParas d) off); final = fst (Locate (fParas d) (off + n)) in
            Some (fold (\<lambda>p d. if p < length (fParas d) then SetParaFormat (int p) (style_para s) d else d) [first..<final + 1] d)))"

function ComposeHeaderText :: "string \<Rightarrow> int \<Rightarrow> int \<Rightarrow> string" where
  "ComposeHeaderText [] page pages = []"
| "ComposeHeaderText (c # cs) page pages =
     (if take 6 (c # cs) = ''{page}'' then show_int page @ ComposeHeaderText (drop 5 cs) page pages
      else if take 7 (c # cs) = ''{pages}'' then show_int pages @ ComposeHeaderText (drop 6 cs) page pages
      else c # ComposeHeaderText cs page pages)"
  by pat_completeness auto
termination by (relation "measure (\<lambda>(p, page, pages). length p)") auto

section \<open>Search\<close>

definition FoldChar :: "bool \<Rightarrow> char \<Rightarrow> char" where
  "FoldChar caseSensitive c =
     (if caseSensitive then c
      else if of_char c \<ge> (65 :: nat) \<and> of_char c \<le> (90 :: nat) then char_of (of_char c + 32 :: nat) else c)"

definition MatchAt :: "string \<Rightarrow> nat \<Rightarrow> string \<Rightarrow> bool \<Rightarrow> bool" where
  "MatchAt t pos needle caseSensitive \<longleftrightarrow>
     list_all (\<lambda>i. FoldChar caseSensitive (t ! (pos + i)) = FoldChar caseSensitive (needle ! i)) [0..<length needle]"

definition search :: "string \<Rightarrow> nat \<Rightarrow> string \<Rightarrow> nat \<Rightarrow> bool \<Rightarrow> nat option" where
  "search t docLen needle from caseSensitive =
     find (\<lambda>pos. MatchAt t pos needle caseSensitive) [from..<docLen + 1 - length needle]"

text \<open>\<open>None\<close> stands for -1; the match has the length of the needle.\<close>

definition FindNext :: "string \<Rightarrow> int \<Rightarrow> bool \<Rightarrow> bool \<Rightarrow> writer \<Rightarrow> nat option \<times> writer" where
  "FindNext needle from caseSensitive wrap d =
     (if needle = [] then (None, d)
      else let (t, d) = PlainText d; n = Length (fParas d); from = nat from in
        case search t n needle from caseSensitive of Some pos \<Rightarrow> (Some pos, d)
        | None \<Rightarrow> if wrap \<and> from > 0 then (search t n needle 0 caseSensitive, d) else (None, d))"

partial_function (option) replace_loop ::
    "string \<Rightarrow> string \<Rightarrow> bool \<Rightarrow> nat \<Rightarrow> nat \<Rightarrow> writer \<Rightarrow> (nat \<times> writer) option" where
  "replace_loop needle with caseSensitive pos count d =
     (case FindNext needle (int pos) caseSensitive False d of
        (None, d) \<Rightarrow> Some (count, d)
      | (Some found, d) \<Rightarrow> (case Remove found (length needle) d of None \<Rightarrow> None
          | Some d \<Rightarrow> replace_loop needle with caseSensitive (found + length with) (count + 1) (Insert found with None d)))"

declare replace_loop.simps [code]

text \<open>The outer \<open>None\<close>: it does not return; the inner one is -1.\<close>

definition ReplaceAll :: "string \<Rightarrow> string \<Rightarrow> bool \<Rightarrow> writer \<Rightarrow> (nat option \<times> writer) option" where
  "ReplaceAll needle with caseSensitive d =
     (if needle = [] \<or> needle = with then Some (None, d)
      else map_option (\<lambda>(count, d). (Some count, d)) (replace_loop needle with caseSensitive 0 0 d))"

end
