(* ===== verification/WriterText.thy ===== *)
theory WriterText
  imports WriterRuns WriterOps
begin

text \<open>
  The document as one row of cells: bytes with their formats, and separators. Every editing operation
  is shown to be the plain operation on this row: inserting, taking out, formatting a range.
\<close>

section \<open>Cells\<close>

type_synonym cell = "(char \<times> char_format) option"

definition para_cells :: "para \<Rightarrow> cell list" where
  "para_cells p = map Some (zip (body p) (formats (runs p)))"

fun cells :: "para list \<Rightarrow> cell list" where
  "cells [] = []"
| "cells (p # ps) = para_cells p @ (if ps \<noteq> [] then None # cells ps else [])"

definition bytes :: "cell list \<Rightarrow> string" where
  "bytes cs = map (\<lambda>c. case c of None \<Rightarrow> newline | Some (b, f) \<Rightarrow> b) cs"

definition styled :: "char_format \<Rightarrow> string \<Rightarrow> cell list" where
  "styled f t = map (\<lambda>c. if c = newline then None else Some (c, f)) t"

definition paras_ok :: "para list \<Rightarrow> bool" where
  "paras_ok ps \<longleftrightarrow> ps \<noteq> [] \<and> (\<forall>p \<in> set ps. para_ok p)"

definition lead :: "para list \<Rightarrow> cell list" where
  "lead ps = concat (map (\<lambda>p. para_cells p @ [None]) ps)"

definition trail :: "para list \<Rightarrow> cell list" where
  "trail ps = concat (map (\<lambda>p. None # para_cells p) ps)"

lemma lead_trail_simps [simp]:
  "lead [] = []" "lead (p # ps) = para_cells p @ None # lead ps" "lead (ps @ qs) = lead ps @ lead qs"
  "trail [] = []" "trail (p # ps) = None # para_cells p @ trail ps"
  by (simp_all add: lead_def trail_def)

lemma bytes_simps [simp]:
  "bytes [] = []" "bytes (None # cs) = newline # bytes cs" "bytes (Some (b, f) # cs) = b # bytes cs"
  "bytes (cs @ ds) = bytes cs @ bytes ds" "length (bytes cs) = length cs"
  "take n (bytes cs) = bytes (take n cs)" "drop n (bytes cs) = bytes (drop n cs)"
  by (simp_all add: bytes_def take_map drop_map)

lemma bytes_styled [simp]: "bytes (styled f t) = t"
  by (induction t) (auto simp: bytes_def styled_def)

lemma length_styled [simp]: "length (styled f t) = length t"
  by (simp add: styled_def)

lemma styled_simps [simp]: "styled f [] = []" "styled f (s @ t) = styled f s @ styled f t" "styled f (newline # t) = None # styled f t"
  by (simp_all add: styled_def)

lemma trail_cells: "trail ps = (if ps = [] then [] else None # cells ps)"
  by (induction ps) auto

lemma cells_focus: "cells (as @ p # bs) = lead as @ para_cells p @ trail bs"
  by (induction as) (auto simp: trail_cells)

lemma paras_ok_focus [simp]: "paras_ok (as @ p # bs) \<longleftrightarrow> (\<forall>q \<in> set as. para_ok q) \<and> para_ok p \<and> (\<forall>q \<in> set bs. para_ok q)"
  by (auto simp: paras_ok_def)

lemma para_formats: "para_ok p \<Longrightarrow> length (formats (runs p)) = length (body p)"
  by (metis add_0 para_ok_def tiled_length)

lemma length_para_cells [simp]: "para_ok p \<Longrightarrow> length (para_cells p) = length (body p)"
  by (simp add: para_cells_def para_formats)

lemma bytes_para_cells [simp]: "para_ok p \<Longrightarrow> bytes (para_cells p) = body p"
  using para_formats[of p] by (simp add: bytes_def para_cells_def comp_def case_prod_beta)

lemma plain_text_cells: "(\<forall>p \<in> set ps. para_ok p) \<Longrightarrow> plain_text ps = bytes (cells ps)"
  by (induction ps) auto

lemma Length_cells: "paras_ok ps \<Longrightarrow> Length ps = length (cells ps)"
proof -
  have "\<forall>p \<in> set ps. para_ok p \<Longrightarrow> ps \<noteq> [] \<Longrightarrow> sum_list (map (\<lambda>p. length (body p) + 1) ps) = length (cells ps) + 1" for ps
    by (induction ps) (auto split: if_splits)
  then show "paras_ok ps \<Longrightarrow> Length ps = length (cells ps)" by (simp add: Length_def paras_ok_def)
qed

lemma ParaStart_lead: "(\<forall>q \<in> set as. para_ok q) \<Longrightarrow> ParaStart (as @ bs) (length as) = length (lead as)"
  by (induction as) (auto simp: ParaStart_def)

text \<open>The paragraph and the place in it that an offset names.\<close>

definition focus :: "para list \<Rightarrow> nat \<Rightarrow> para list \<Rightarrow> para \<Rightarrow> nat \<Rightarrow> para list \<Rightarrow> bool" where
  "focus ps off as p k bs \<longleftrightarrow> ps = as @ p # bs \<and> k \<le> length (body p) \<and> off = length (lead as) + k \<and> Locate ps off = (length as, k)"

lemma focusD:
  assumes "focus ps off as p k bs"
  shows "ps = as @ p # bs" "k \<le> length (body p)" "Locate ps off = (length as, k)" "off = length (lead as) + k"
    "ps ! length as = p" "ps[length as := q] = as @ q # bs" "take (length as) ps = as" "drop (Suc (length as)) ps = bs"
  using assms by (auto simp: focus_def)

lemma locate_from_focus:
  assumes "paras_ok ps" and "pos \<le> off" and "off \<le> pos + length (cells ps)"
  shows "\<exists>as p bs k. ps = as @ p # bs \<and> k \<le> length (body p) \<and> off = pos + length (lead as) + k
    \<and> locate_from i pos off ps = (i + length as, k)"
  using assms
proof (induction i pos off ps rule: locate_from.induct)
  case (2 i pos off p ps)
  let ?stop = "pos + length (body p)"
  show ?case
  proof (cases "off \<le> ?stop \<or> ps = []")
    case True
    then show ?thesis using 2(2-4)
      by (intro exI[of _ "[]"] exI[of _ p] exI[of _ ps] exI[of _ "off - pos"]) (auto simp: paras_ok_def Let_def)
  next
    case False
    then have "paras_ok ps" "?stop + 1 \<le> off" "off \<le> ?stop + 1 + length (cells ps)"
      using 2(2-4) by (auto simp: paras_ok_def)
    from 2(1)[OF refl _ _ this] False obtain as q bs k where
      "ps = as @ q # bs" "k \<le> length (body q)" "off = ?stop + 1 + length (lead as) + k"
      "locate_from (Suc i) (?stop + 1) off ps = (Suc i + length as, k)"
      by auto
    then show ?thesis using False 2(2)
      by (intro exI[of _ "p # as"] exI[of _ q] exI[of _ bs] exI[of _ k]) (auto simp: paras_ok_def Let_def)
  qed
qed (simp add: paras_ok_def)

lemma obtain_focus:
  assumes "paras_ok ps" and "off \<le> length (cells ps)"
  obtains as p k bs where "focus ps off as p k bs"
  using locate_from_focus[OF assms(1) le0, of off 0] assms(2) by (auto simp: focus_def Locate_def)

section \<open>Paragraphs under the operations\<close>

lemma para_cells_take: "take k (para_cells p) = map Some (zip (take k (body p)) (take k (formats (runs p))))"
  by (simp add: para_cells_def take_map take_zip)

lemma para_cells_drop: "drop k (para_cells p) = map Some (zip (drop k (body p)) (drop k (formats (runs p))))"
  by (simp add: para_cells_def drop_map drop_zip)

lemma insert_para_cells:
  assumes "para_ok p" and "k \<le> length (body p)" and "t \<noteq> []" and "newline \<notin> set t"
  shows "para_ok (insert_para def k t f p)"
    "para_cells (insert_para def k t f p) = take k (para_cells p) @ styled f t @ drop k (para_cells p)"
proof -
  let ?q = "p\<lparr>body := take k (body p) @ t @ drop k (body p), runs := insert_runs k (length t) f (runs p)\<rparr>"
  have spec: "tiled 0 (runs ?q) (length (body ?q))" "formats (runs ?q) = take k (formats (runs p)) @ replicate (length t) f @ drop k (formats (runs p))"
    using insert_runs_spec[of "runs p" "length (body p)" k "length t" f] assms by (auto simp: para_ok_def ac_simps)
  have nl: "newline \<notin> set (body ?q)"
    using assms by (auto simp: para_ok_def dest: in_set_takeD in_set_dropD)
  show "para_ok (insert_para def k t f p)"
    using NormalizeRuns_runs(1)[OF spec(1)] nl by (simp add: insert_para_def Let_def para_ok_def)
  have "styled f t = map Some (zip t (replicate (length t) f))"
    using assms(4) by (auto simp: styled_def zip_replicate2)
  then show "para_cells (insert_para def k t f p) = take k (para_cells p) @ styled f t @ drop k (para_cells p)"
    using NormalizeRuns_runs(2)[OF spec(1)] spec(2) para_formats[OF assms(1)] assms(2)
    by (simp only: para_cells_take para_cells_drop) (simp add: insert_para_def Let_def para_cells_def)
qed

lemma remove_para_cells:
  assumes "para_ok p" and "k + n \<le> length (body p)"
  shows "para_ok (remove_para def k n p)" "para_cells (remove_para def k n p) = take k (para_cells p) @ drop (k + n) (para_cells p)"
    "body (remove_para def k n p) = take k (body p) @ drop (k + n) (body p)"
proof -
  let ?q = "p\<lparr>images := (\<lambda>j. if j < k then images p j else images p (j + n)), body := take k (body p) @ drop (k + n) (body p),
                runs := concat (map (remove_run k n) (runs p))\<rparr>"
  have "tiled 0 (concat (map (remove_run k n) (runs p))) (min (length (body p)) k + (length (body p) - (k + n)))"
    "formats (runs ?q) = take k (formats (runs p)) @ drop (k + n) (formats (runs p))"
    using remove_runs_spec[of 0 "runs p" "length (body p)" k n] assms by (auto simp: para_ok_def)
  then have spec: "tiled 0 (runs ?q) (length (body ?q))" "formats (runs ?q) = take k (formats (runs p)) @ drop (k + n) (formats (runs p))"
    using assms(2) by (simp_all add: min_def)
  show body: "body (remove_para def k n p) = take k (body p) @ drop (k + n) (body p)"
    by (simp add: remove_para_def Let_def)
  show "para_ok (remove_para def k n p)"
    using NormalizeRuns_runs(1)[OF spec(1)] assms(1)
    by (auto simp: remove_para_def Let_def para_ok_def dest: in_set_takeD in_set_dropD)
  show "para_cells (remove_para def k n p) = take k (para_cells p) @ drop (k + n) (para_cells p)"
    using NormalizeRuns_runs(2)[OF spec(1)] spec(2) para_formats[OF assms(1)] assms(2)
    by (simp only: para_cells_take para_cells_drop) (simp add: remove_para_def Let_def para_cells_def)
qed

definition restyle :: "char_format \<Rightarrow> cell list \<Rightarrow> cell list" where
  "restyle f cs = map (map_option (\<lambda>(b, g). (b, f))) cs"

lemma restyle_simps [simp]:
  "restyle f [] = []" "restyle f (cs @ ds) = restyle f cs @ restyle f ds" "restyle f (None # cs) = None # restyle f cs"
  "length (restyle f cs) = length cs" "bytes (restyle f cs) = bytes cs"
  by (auto simp: restyle_def bytes_def split: option.split)

lemma format_para_cells:
  assumes "para_ok p" and "k + n \<le> length (body p)"
  shows "para_ok (format_para def k n f p)" "body (format_para def k n f p) = body p"
    "para_cells (format_para def k n f p) = take k (para_cells p) @ restyle f (take n (drop k (para_cells p))) @ drop (k + n) (para_cells p)"
proof -
  let ?q = "p\<lparr>runs := concat (map (format_run k n f) (runs p))\<rparr>"
  have spec: "tiled 0 (runs ?q) (length (body ?q))"
    "formats (runs ?q) = take k (formats (runs p)) @ replicate n f @ drop (k + n) (formats (runs p))"
    using format_runs_spec[of 0 "runs p" "length (body p)" k n f] assms by (auto simp: para_ok_def)
  show "para_ok (format_para def k n f p)" "body (format_para def k n f p) = body p"
    using NormalizeRuns_runs(1)[OF spec(1)] assms(1) by (simp_all add: format_para_def Let_def para_ok_def)
  have zips: "zip b (take k g @ replicate n f @ drop (k + n) g)
      = zip (take k b) (take k g) @ zip (take n (drop k b)) (replicate n f) @ zip (drop (k + n) b) (drop (k + n) g)"
    if "length g = length b" "k + n \<le> length b" for b :: string and g
  proof -
    have "b = take k b @ take n (drop k b) @ drop (k + n) b" by (metis append_take_drop_id drop_drop add.commute)
    then have "zip b (take k g @ replicate n f @ drop (k + n) g)
        = zip (take k b @ take n (drop k b) @ drop (k + n) b) (take k g @ replicate n f @ drop (k + n) g)" by simp
    then show ?thesis using that by simp
  qed
  have mid: "restyle f (map Some (zip (take n (drop k b)) (take n (drop k g)))) = map Some (zip (take n (drop k b)) (replicate n f))"
    if "length g = length b" "k + n \<le> length b" for b :: string and g
    using that by (auto simp: restyle_def zip_replicate2 list_eq_iff_nth_eq min_def)
  show "para_cells (format_para def k n f p) = take k (para_cells p) @ restyle f (take n (drop k (para_cells p))) @ drop (k + n) (para_cells p)"
    using NormalizeRuns_runs(2)[OF spec(1)] spec(2) para_formats[OF assms(1)] assms(2)
    by (simp only: para_cells_take para_cells_drop take_map take_zip drop_zip drop_map mid)
      (simp add: format_para_def Let_def para_cells_def zips)
qed

lemma split_para_cells:
  assumes "para_ok p" and "k \<le> length (body p)" and "runs l = split_left k (runs p)" "body l = take k (body p)"
    and "runs r = split_right k (runs p)" "body r = drop k (body p)"
  shows "para_ok (NormalizeRuns def l)" "para_ok (NormalizeRuns def r)"
    "para_cells (NormalizeRuns def l) = take k (para_cells p)" "para_cells (NormalizeRuns def r) = drop k (para_cells p)"
proof -
  have t: "tiled 0 (runs p) (length (body p))" using assms(1) by (simp add: para_ok_def)
  have l: "tiled 0 (runs l) (length (body l))" "formats (runs l) = take k (formats (runs p))"
    using split_left_spec[OF t, of k] assms(2-4) by (simp_all add: min_def split: if_splits)
  have r: "tiled 0 (runs r) (length (body r))" "formats (runs r) = drop k (formats (runs p))"
    using split_right_spec[OF t, of k] assms(2,5,6) by simp_all
  show "para_ok (NormalizeRuns def l)" "para_ok (NormalizeRuns def r)"
    using NormalizeRuns_runs(1)[OF l(1)] NormalizeRuns_runs(1)[OF r(1)] assms(1,4,6)
    by (auto simp: para_ok_def dest: in_set_takeD in_set_dropD)
  show "para_cells (NormalizeRuns def l) = take k (para_cells p)" "para_cells (NormalizeRuns def r) = drop k (para_cells p)"
    using NormalizeRuns_runs(2)[OF l(1)] NormalizeRuns_runs(2)[OF r(1)] l(2) r(2) assms(4,6)
    by (simp_all add: para_cells_take para_cells_drop) (simp_all add: para_cells_def)
qed

section \<open>Inserting\<close>

lemma PushUndo_simps [simp]:
  "fParas (PushUndo s d) = fParas d" "fNextParaId (PushUndo s d) = fNextParaId d" "fDefault (PushUndo s d) = fDefault d"
  "fPlainTextValid (PushUndo s d) = False" "fModified (PushUndo s d) = True" "fInternalEdit (PushUndo s d) = fInternalEdit d"
  "fCoalesce (PushUndo s d) = fCoalesce d"
  by (simp_all add: PushUndo_def Let_def)

lemma focus_take_drop:
  assumes "focus ps off as p k bs" and "paras_ok ps"
  shows "take off (cells ps) = lead as @ take k (para_cells p)" "drop off (cells ps) = drop k (para_cells p) @ trail bs"
  using assms by (auto simp: focus_def cells_focus)

lemma insert_piece_cells:
  assumes "paras_ok (fParas d)" and "off \<le> length (cells (fParas d))" and "t \<noteq> []" and "newline \<notin> set t"
  shows "\<exists>f. paras_ok (fParas (insert_piece off t fo d)) \<and> (\<forall>g. fo = Some g \<longrightarrow> f = g)
    \<and> cells (fParas (insert_piece off t fo d)) = take off (cells (fParas d)) @ styled f t @ drop off (cells (fParas d))"
proof -
  obtain as p k bs where f: "focus (fParas d) off as p k bs" by (rule obtain_focus[OF assms(1,2)])
  note ps = focusD[OF f]
  have ok: "para_ok p" using assms(1) ps(1) by simp
  let ?f = "case fo of Some f \<Rightarrow> f | None \<Rightarrow> FormatForInsert (fDefault d) p k"
  have "fParas (insert_piece off t fo d) = as @ insert_para (fDefault d) k t ?f p # bs"
    by (simp add: insert_piece_def Let_def ps(3,5,6) cong: option.case_cong)
  then show ?thesis
    using insert_para_cells[OF ok ps(2) assms(3,4), of "fDefault d" ?f] assms(1) ps(1) focus_take_drop[OF f assms(1)]
    by (intro exI[of _ ?f]) (auto simp: cells_focus)
qed

lemma SplitPara_cells:
  assumes "paras_ok (fParas d)" and "off \<le> length (cells (fParas d))"
  shows "paras_ok (fParas (SplitPara off d))"
    "cells (fParas (SplitPara off d)) = take off (cells (fParas d)) @ None # drop off (cells (fParas d))"
proof -
  obtain as p k bs where f: "focus (fParas d) off as p k bs" by (rule obtain_focus[OF assms])
  note ps = focusD[OF f]
  have ok: "para_ok p" using assms(1) ps(1) by simp
  define l where "l = p\<lparr>body := take k (body p), runs := split_left k (runs p), images := (\<lambda>j. if j \<ge> k then None else images p j)\<rparr>"
  define r where "r = new_para\<lparr>para_id := fNextParaId d, format := format p, body := drop k (body p),
                  runs := split_right k (runs p), images := (\<lambda>j. images p (k + j))\<rparr>"
  have l: "runs l = split_left k (runs p)" "body l = take k (body p)" and r: "runs r = split_right k (runs p)" "body r = drop k (body p)"
    by (simp_all add: l_def r_def)
  note split = split_para_cells[OF ok ps(2) l r, of "fDefault d"]
  let ?l = "(NormalizeRuns (fDefault d) l)\<lparr>revision := revision l + 1\<rparr>"
  have "fParas (SplitPara off d) = as @ ?l # NormalizeRuns (fDefault d) r # bs"
    by (simp add: SplitPara_def Let_def l_def r_def ps(3,5,7,8) cong: if_cong)
  moreover have "para_ok ?l" "para_cells ?l = take k (para_cells p)"
    using split(1,3) by (simp_all add: para_ok_def para_cells_def)
  ultimately show "paras_ok (fParas (SplitPara off d))"
    "cells (fParas (SplitPara off d)) = take off (cells (fParas d)) @ None # drop off (cells (fParas d))"
    using split(2,4) assms(1) ps(1) focus_take_drop[OF f assms(1)] by (auto simp: cells_focus)
qed

lemma insert_lines_cells:
  assumes "paras_ok (fParas d)" and "off \<le> length (cells (fParas d))"
  shows "\<exists>cs. paras_ok (fParas (insert_lines off t fo d)) \<and> bytes cs = t \<and> (\<forall>g. fo = Some g \<longrightarrow> cs = styled g t)
    \<and> cells (fParas (insert_lines off t fo d)) = take off (cells (fParas d)) @ cs @ drop off (cells (fParas d))"
  using assms
proof (induction off t fo d rule: insert_lines.induct)
  case (1 off t fo d)
  show ?case
  proof (cases "t = []")
    case True
    then have "insert_lines off t fo d = d" by (subst insert_lines.simps) simp
    then show ?thesis using 1(2) True by (simp add: exI[of _ "[]"])
  next
    case False
    define seg rest where "seg = takeWhile (\<lambda>c. c \<noteq> newline) t" and "rest = dropWhile (\<lambda>c. c \<noteq> newline) t"
    define e where "e = (if seg \<noteq> [] then insert_piece off seg fo d else d)"
    let ?C = "cells (fParas d)"
    have seg: "newline \<notin> set seg" by (auto simp: seg_def dest: set_takeWhileD)
    have t: "t = seg @ rest" by (simp add: seg_def rest_def)
    obtain f where e: "paras_ok (fParas e)" "\<forall>g. fo = Some g \<longrightarrow> f = g" "cells (fParas e) = take off ?C @ styled f seg @ drop off ?C"
    proof (cases "seg = []")
      case True
      then show ?thesis using that[of "the fo"] 1(2) by (auto simp: e_def styled_def)
    next
      case False
      then show ?thesis using that insert_piece_cells[OF 1(2,3) False seg, of fo] by (auto simp: e_def)
    qed
    show ?thesis
    proof (cases rest)
      case Nil
      then have "insert_lines off t fo d = e"
        using False by (subst insert_lines.simps) (simp add: Let_def flip: seg_def rest_def e_def)
      then show ?thesis using e t Nil by (intro exI[of _ "styled f t"]) auto
    next
      case (Cons c rest')
      then have c: "c = newline" "rest \<noteq> []" using hd_dropWhile[of "\<lambda>c. c \<noteq> newline" t] by (auto simp: rest_def)
      have len: "off + length seg \<le> length (cells (fParas e))" using e(3) 1(3) by simp
      note split = SplitPara_cells[OF e(1) len]
      have len2: "off + length seg + 1 \<le> length (cells (fParas (SplitPara (off + length seg) e)))"
        using split(2) len by simp
      from 1(1)[OF False seg_def rest_def e_def c(2) split(1) len2] Cons obtain cs where
        cs: "paras_ok (fParas (insert_lines (off + length seg + 1) rest' fo (SplitPara (off + length seg) e)))" "bytes cs = rest'"
          "\<forall>g. fo = Some g \<longrightarrow> cs = styled g rest'"
          "cells (fParas (insert_lines (off + length seg + 1) rest' fo (SplitPara (off + length seg) e)))
            = take (off + length seg + 1) (cells (fParas (SplitPara (off + length seg) e))) @ cs
              @ drop (off + length seg + 1) (cells (fParas (SplitPara (off + length seg) e)))"
        by auto
      have "insert_lines off t fo d = insert_lines (off + length seg + 1) rest' fo (SplitPara (off + length seg) e)"
        using False Cons by (subst insert_lines.simps) (simp add: Let_def flip: seg_def rest_def e_def)
      moreover have "take (off + length seg + 1) (cells (fParas (SplitPara (off + length seg) e))) = take off ?C @ styled f seg @ [None]"
        "drop (off + length seg + 1) (cells (fParas (SplitPara (off + length seg) e))) = drop off ?C"
        using split(2) e(3) 1(3) by simp_all
      ultimately show ?thesis
        using cs e(2) t Cons c(1) by (intro exI[of _ "styled f seg @ None # cs"]) auto
    qed
  qed
qed

lemma Insert_cells:
  assumes "paras_ok (fParas d)" and "off \<le> length (cells (fParas d))"
  shows "\<exists>cs. paras_ok (fParas (Insert off t fo d)) \<and> bytes cs = t \<and> (\<forall>g. fo = Some g \<longrightarrow> cs = styled g t)
    \<and> cells (fParas (Insert off t fo d)) = take off (cells (fParas d)) @ cs @ drop off (cells (fParas d))"
proof -
  consider "t = []" | "t \<noteq> []" "newline \<in> set t" | "t \<noteq> []" "newline \<notin> set t" by blast
  then show ?thesis
  proof cases
    case 1
    then show ?thesis using assms by (simp add: Insert_def exI[of _ "[]"])
  next
    case 2
    then show ?thesis using insert_lines_cells[OF assms, of t fo] by (simp add: Insert_def)
  next
    case 3
    then show ?thesis using insert_piece_cells[OF assms 3, of fo] by (auto simp: Insert_def intro: exI[of _ "styled f t" for f])
  qed
qed

end
