(* ===== verification/WriterEdit.thy ===== *)
theory WriterEdit
  imports WriterText
begin

text \<open>
  Reading, removing and formatting a range of the document, over the row of cells: the loops return
  whenever the range lies in the document, and do what the plain operations on the row do.
\<close>

section \<open>Reading\<close>

lemma get_text_take: "pos \<le> off \<Longrightarrow> get_text pos off n ps = take n (drop (off - pos) (plain_text ps))"
proof (induction ps arbitrary: pos off n)
  case (Cons p ps)
  let ?L = "length (body p)"
  consider "n = 0" | "0 < n" "off < pos + ?L" "n < pos + ?L - off" | "0 < n" "off < pos + ?L" "pos + ?L - off \<le> n"
    | "0 < n" "off = pos + ?L" | "0 < n" "pos + ?L < off" by linarith
  then show ?case
  proof cases
    case 2
    then have "get_text a b 0 ps = []" for a b by (cases ps) auto
    then show ?thesis using 2 Cons.prems by (auto simp: Let_def min_def)
  next
    case 3
    define tk where "tk = ?L - (off - pos)"
    have none: "get_text a b 0 ps = []" for a b by (cases ps) auto
    have tk: "min (?L - (off - pos)) n = tk" "0 < tk" "tk \<le> n" "pos + (off - pos) + tk = pos + ?L"
      "take tk (drop (off - pos) (body p)) = drop (off - pos) (body p)" "off - pos \<le> ?L"
      using 3 Cons.prems by (auto simp: tk_def)
    have "get_text pos off n (p # ps) = drop (off - pos) (body p) @ (if n - tk > 0 \<and> ps \<noteq> [] then [newline] else [])
        @ get_text (pos + ?L + 1) (if n - tk > 0 \<and> ps \<noteq> [] then pos + ?L + 1 else pos + ?L)
            (if n - tk > 0 \<and> ps \<noteq> [] then n - tk - 1 else n - tk) ps"
      using 3 tk by (simp add: Let_def none)
    moreover have "take n (drop (off - pos) (plain_text (p # ps)))
        = drop (off - pos) (body p) @ take (n - tk) (if ps \<noteq> [] then newline # plain_text ps else [])"
      using tk by (simp add: tk_def)
    moreover have "get_text (pos + ?L + 1) (pos + ?L + 1) m ps = take m (plain_text ps)" for m
      using Cons.IH by simp
    ultimately show ?thesis using none by (cases "n = tk") (auto simp: take_Cons')
  next
    case 4
    then show ?thesis using Cons by (auto simp: Let_def take_Cons')
  next
    case 5
    then show ?thesis using Cons by (auto simp: Let_def drop_Cons')
  qed simp
qed simp

lemma GetText_cells: "paras_ok ps \<Longrightarrow> GetText ps off n = bytes (take n (drop off (cells ps)))"
  using get_text_take[of 0 off n ps] plain_text_cells[of ps] by (simp add: GetText_def paras_ok_def)

section \<open>Runs over a range\<close>

definition covers :: "nat \<Rightarrow> cell list \<Rightarrow> run list \<Rightarrow> bool" where
  "covers base cs rs \<longleftrightarrow>
     (\<forall>r \<in> set rs. \<forall>j. start r \<le> j \<longrightarrow> j < run_end r \<longrightarrow>
        base \<le> j \<and> j - base < length cs \<and> (\<exists>c. cs ! (j - base) = Some (c, fmt r)))
     \<and> (\<forall>j < length cs. \<forall>c f. cs ! j = Some (c, f) \<longrightarrow> (\<exists>r \<in> set rs. start r \<le> base + j \<and> base + j < run_end r))"

lemma covers_Nil [simp]: "covers base [] []" "covers base [None] []"
  by (simp_all add: covers_def)

lemma covers_append:
  assumes "covers base cs rs" and "covers (base + length cs) ds ss"
  shows "covers base (cs @ ds) (rs @ ss)"
  unfolding covers_def
proof (intro conjI ballI allI impI)
  fix r j assume r: "r \<in> set (rs @ ss)" "start r \<le> j" "j < run_end r"
  then consider "base \<le> j" "j - base < length cs" "\<exists>c. cs ! (j - base) = Some (c, fmt r)"
    | "base + length cs \<le> j" "j - (base + length cs) < length ds" "\<exists>c. ds ! (j - (base + length cs)) = Some (c, fmt r)"
    using assms by (auto simp: covers_def)
  then show "base \<le> j" "j - base < length (cs @ ds)" "\<exists>c. (cs @ ds) ! (j - base) = Some (c, fmt r)"
    by (cases; auto simp: nth_append)+
next
  fix j c f assume j: "j < length (cs @ ds)" "(cs @ ds) ! j = Some (c, f)"
  show "\<exists>r \<in> set (rs @ ss). start r \<le> base + j \<and> base + j < run_end r"
  proof (cases "j < length cs")
    case True
    then show ?thesis using assms(1) j by (auto simp: covers_def nth_append)
  next
    case False
    then have "j - length cs < length ds" "ds ! (j - length cs) = Some (c, f)" using j by (auto simp: nth_append)
    then have "\<exists>r \<in> set ss. start r \<le> base + length cs + (j - length cs) \<and> base + length cs + (j - length cs) < run_end r"
      using assms(2) unfolding covers_def by blast
    then show ?thesis using False by auto
  qed
qed

lemma tiled_format:
  "tiled a rs c \<Longrightarrow> r \<in> set rs \<Longrightarrow> start r \<le> x \<Longrightarrow> x < run_end r \<Longrightarrow> formats rs ! (x - a) = fmt r"
proof (induction rs arbitrary: a)
  case (Cons s rs)
  show ?case
  proof (cases "r \<in> set rs")
    case True
    then have "a + len s \<le> x" "formats rs ! (x - (a + len s)) = fmt r"
      using Cons tiled_bounds[of "a + len s" rs c r] by auto
    then show ?thesis by (simp add: nth_append)
  next
    case False
    then show ?thesis using Cons.prems by (auto simp: nth_append run_simps)
  qed
qed simp

lemma tiled_covered: "tiled a rs c \<Longrightarrow> a \<le> x \<Longrightarrow> x < c \<Longrightarrow> \<exists>r \<in> set rs. start r \<le> x \<and> x < run_end r"
proof (induction rs arbitrary: a)
  case (Cons s rs)
  then show ?case by (cases "x < a + len s") (auto simp: run_simps)
qed simp

lemma clip_runs_covers:
  assumes "para_ok p" and "k + n \<le> length (body p)"
  shows "covers base (take n (drop k (para_cells p))) (clip_runs base k n (runs p))"
proof -
  have t: "tiled 0 (runs p) (length (body p))" using assms(1) by (simp add: para_ok_def)
  have cell: "take n (drop k (para_cells p)) ! j = Some (body p ! (k + j), formats (runs p) ! (k + j))" if "j < n" for j
    using that assms para_formats[OF assms(1)] by (simp add: para_cells_def)
  have len: "length (take n (drop k (para_cells p))) = n" using assms by simp
  show ?thesis
    unfolding covers_def len
  proof (intro conjI ballI allI impI)
    fix r j assume r: "r \<in> set (clip_runs base k n (runs p))" "start r \<le> j" "j < run_end r"
    then obtain s where s: "s \<in> set (runs p)" "fmt r = fmt s" "start r = base + (max k (start s) - k)"
        "len r = min (k + n) (run_end s) - max k (start s)" "max k (start s) < min (k + n) (run_end s)"
      by (auto simp: clip_runs_def Let_def split: if_splits)
    define x where "x = k + (j - base)"
    have x: "start s \<le> x" "x < run_end s" "base \<le> j" "j - base < n"
      using r(2,3) s(3-5) by (auto simp: x_def run_simps max_def min_def split: if_splits)
    then show "base \<le> j" "j - base < n" by simp_all
    have "formats (runs p) ! x = fmt r" using tiled_format[OF t s(1) x(1,2)] s(2) by simp
    then show "\<exists>c. take n (drop k (para_cells p)) ! (j - base) = Some (c, fmt r)"
      using cell[OF x(4)] by (simp add: x_def)
  next
    fix j c f assume j: "j < n" "take n (drop k (para_cells p)) ! j = Some (c, f)"
    obtain s where s: "s \<in> set (runs p)" "start s \<le> k + j" "k + j < run_end s"
      using tiled_covered[OF t, of "k + j"] j(1) assms(2) by auto
    let ?r = "\<lparr>start = base + (max k (start s) - k), len = min (k + n) (run_end s) - max k (start s), fmt = fmt s\<rparr>"
    have "max k (start s) < min (k + n) (run_end s)" using s j(1) by auto
    then have "?r \<in> set (clip_runs base k n (runs p))"
      using s(1) by (auto simp: clip_runs_def Let_def)
    moreover have "start ?r \<le> base + j" "base + j < run_end ?r"
      using s(2,3) j(1) by (auto simp: run_simps max_def min_def)
    ultimately show "\<exists>r \<in> set (clip_runs base k n (runs p)). start r \<le> base + j \<and> base + j < run_end r" by blast
  qed
qed

lemma capture_loop_covers:
  assumes "paras_ok (as @ p # bs)" and "k \<le> length (body p)" and "off \<le> pos"
    and "stop - pos \<le> length (drop k (para_cells p) @ trail bs)" and "pos \<le> stop"
  shows "\<exists>rs. capture_loop (as @ p # bs) off stop pos (length as) k saved = Some (saved @ rs)
    \<and> covers (pos - off) (take (stop - pos) (drop k (para_cells p) @ trail bs)) rs"
  using assms
proof (induction bs arbitrary: as p k pos saved)
  case Nil
  then have ok: "para_ok p" "k + (stop - pos) \<le> length (body p)" by auto
  have stop: "capture_loop ps off stop stop i k' s = Some s" for ps i k' s
    by (subst capture_loop.simps) simp
  show ?case
  proof (cases "pos = stop")
    case True
    then show ?thesis by (simp add: stop)
  next
    case False
    then have "capture_loop (as @ [p]) off stop pos (length as) k saved = Some (saved @ clip_runs (pos - off) k (stop - pos) (runs p))"
      using ok(2) Nil.prems(5) by (subst capture_loop.simps) (simp add: Let_def stop)
    then show ?thesis using clip_runs_covers[OF ok, of "pos - off"] Nil.prems ok by simp
  qed
next
  case (Cons q bs)
  have ok: "para_ok p" using Cons.prems(1) by simp
  have stop: "capture_loop ps off stop stop i k' s = Some s" for ps i k' s
    by (subst capture_loop.simps) simp
  consider "pos = stop" | "pos < stop" "k + (stop - pos) \<le> length (body p)" | "pos < stop" "length (body p) < k + (stop - pos)"
    using Cons.prems(5) by linarith
  then show ?case
  proof cases
    case 1
    then show ?thesis by (simp add: stop)
  next
    case 2
    then have "capture_loop (as @ p # q # bs) off stop pos (length as) k saved = Some (saved @ clip_runs (pos - off) k (stop - pos) (runs p))"
      by (subst capture_loop.simps) (simp add: Let_def stop)
    then show ?thesis using clip_runs_covers[OF ok 2(2), of "pos - off"] Cons.prems ok 2 by simp
  next
    case 3
    define tk where "tk = length (body p) - k"
    let ?saved = "if tk > 0 then saved @ clip_runs (pos - off) k tk (runs p) else saved"
    have step: "capture_loop (as @ p # q # bs) off stop pos (length as) k saved
        = capture_loop ((as @ [p]) @ q # bs) off stop (pos + tk + 1) (length (as @ [p])) 0 ?saved"
      using 3 by (subst capture_loop.simps) (simp add: Let_def tk_def)
    have "stop - (pos + tk + 1) \<le> length (drop 0 (para_cells q) @ trail bs)" "pos + tk + 1 \<le> stop"
      using Cons.prems(2,4) ok 3 by (auto simp: tk_def)
    with Cons.IH[of "as @ [p]" q 0 "pos + tk + 1" ?saved] Cons.prems(1,3) obtain rs where
      rs: "capture_loop ((as @ [p]) @ q # bs) off stop (pos + tk + 1) (length (as @ [p])) 0 ?saved = Some (?saved @ rs)"
        "covers (pos + tk + 1 - off) (take (stop - (pos + tk + 1)) (para_cells q @ trail bs)) rs"
      by auto
    let ?new = "if tk > 0 then clip_runs (pos - off) k tk (runs p) else []"
    have "covers (pos - off) (drop k (para_cells p)) ?new"
      using clip_runs_covers[of p k tk "pos - off"] ok Cons.prems(2) by (auto simp: tk_def)
    moreover have "pos + tk + 1 - off = pos - off + length (drop k (para_cells p)) + length [None :: cell]"
      using ok Cons.prems(2,3) by (simp add: tk_def)
    from rs(2)[unfolded this]
    have "covers (pos - off + length (drop k (para_cells p)) + length [None :: cell]) (take (stop - (pos + tk + 1)) (para_cells q @ trail bs)) rs" .
    ultimately have "covers (pos - off) (drop k (para_cells p) @ [None] @ take (stop - (pos + tk + 1)) (para_cells q @ trail bs)) (?new @ [] @ rs)"
      by (intro covers_append) (simp_all add: add.assoc)
    moreover have "take (stop - pos) (drop k (para_cells p) @ trail (q # bs))
        = drop k (para_cells p) @ [None] @ take (stop - (pos + tk + 1)) (para_cells q @ trail bs)"
      using 3 ok Cons.prems(2) by (simp add: tk_def take_Cons')
    ultimately show ?thesis using step rs(1) by (intro exI[of _ "?new @ rs"]) simp
  qed
qed

lemma CaptureRuns_covers:
  assumes "paras_ok ps" and "off + n \<le> length (cells ps)"
  shows "\<exists>rs. CaptureRuns ps off n = Some rs \<and> covers 0 (take n (drop off (cells ps))) rs"
proof -
  have "off \<le> length (cells ps)" using assms(2) by simp
  then obtain as p k bs where f: "focus ps off as p k bs" by (rule obtain_focus[OF assms(1)])
  note focus = focusD[OF f]
  have ok: "paras_ok (as @ p # bs)" using assms(1) focus(1) by simp
  have "off + n - off \<le> length (drop k (para_cells p) @ trail bs)"
    using focus_take_drop(2)[OF f assms(1)] assms(2) by (metis add_diff_cancel_left' diff_le_mono le_add1 length_drop)
  from capture_loop_covers[OF ok focus(2) order_refl this le_add1, of "[]"] show ?thesis
    using focus(1,3) focus_take_drop(2)[OF f assms(1)] by (simp add: CaptureRuns_def)
qed

section \<open>Removing\<close>

lemma merge_next_cells:
  assumes "para_ok p" and "para_ok q"
  shows "para_ok (merge_next p q)" "para_cells (merge_next p q) = para_cells p @ para_cells q"
    "body (merge_next p q) = body p @ body q"
proof -
  have "tiled (0 + length (body p)) (map (\<lambda>r. r\<lparr>start := start r + length (body p)\<rparr>) (runs q)) (length (body q) + length (body p))"
    using assms(2) by (intro tiled_shift) (simp add: para_ok_def)
  then show "para_ok (merge_next p q)"
    using assms by (auto simp: para_ok_def merge_next_def Let_def tiled_append ac_simps)
  show "para_cells (merge_next p q) = para_cells p @ para_cells q" "body (merge_next p q) = body p @ body q"
    using para_formats[OF assms(1)] by (simp_all add: para_cells_def merge_next_def Let_def)
qed

lemma remove_loop_cells:
  assumes "paras_ok (as @ p # bs)" and "k \<le> length (body p)"
    and "stop - pos \<le> length (drop k (para_cells p) @ trail bs)" and "pos \<le> stop"
  shows "\<exists>p' bs' saved'. remove_loop def stop pos (length as) k (as @ p # bs) saved = Some (as @ p' # bs', saved')
    \<and> paras_ok (as @ p' # bs')
    \<and> para_cells p' @ trail bs' = take k (para_cells p) @ drop (stop - pos) (drop k (para_cells p) @ trail bs)"
  using assms
proof (induction bs arbitrary: p pos saved)
  case Nil
  have stop: "remove_loop def stop stop i k' ps s = Some (ps, s)" for ps i k' s
    by (subst remove_loop.simps) simp
  have ok: "para_ok p" "k + (stop - pos) \<le> length (body p)" using Nil.prems by auto
  show ?case
  proof (cases "pos = stop")
    case True
    then show ?thesis using Nil.prems by (simp add: stop)
  next
    case False
    then have "remove_loop def stop pos (length as) k (as @ [p]) saved
        = Some (as @ [remove_para def k (stop - pos) p], keep_images (ParaStart (as @ [p]) (length as)) k (stop - pos) p saved)"
      using ok(2) Nil.prems(4) by (subst remove_loop.simps) (simp add: Let_def stop)
    moreover have "para_cells (remove_para def k (stop - pos) p) = take k (para_cells p) @ drop (stop - pos) (drop k (para_cells p))"
      using remove_para_cells(2)[OF ok, of def] by (simp add: add.commute)
    ultimately show ?thesis using remove_para_cells(1)[OF ok, of def] Nil.prems(1) by auto
  qed
next
  case (Cons q bs)
  have stop: "remove_loop def stop stop i k' ps s = Some (ps, s)" for ps i k' s
    by (subst remove_loop.simps) simp
  have ok: "para_ok p" "para_ok q" using Cons.prems(1) by simp_all
  consider "pos = stop" | "pos < stop" "k + (stop - pos) \<le> length (body p)" | "pos < stop" "length (body p) < k + (stop - pos)"
    using Cons.prems(4) by linarith
  then show ?case
  proof cases
    case 1
    have "take k (para_cells p) @ drop k (para_cells p) @ trail (q # bs) = para_cells p @ trail (q # bs)"
      by (metis append_assoc append_take_drop_id)
    then show ?thesis using 1 Cons.prems(1) by (simp add: stop)
  next
    case 2
    then have "remove_loop def stop pos (length as) k (as @ p # q # bs) saved
        = Some (as @ remove_para def k (stop - pos) p # q # bs, keep_images (ParaStart (as @ p # q # bs) (length as)) k (stop - pos) p saved)"
      by (subst remove_loop.simps) (simp add: Let_def stop)
    moreover have "para_cells (remove_para def k (stop - pos) p) @ trail (q # bs)
        = take k (para_cells p) @ drop (stop - pos) (drop k (para_cells p) @ trail (q # bs))"
      using remove_para_cells(2)[OF ok(1) 2(2), of def] ok(1) 2(2) by (simp add: add.commute)
    ultimately show ?thesis using remove_para_cells(1)[OF ok(1) 2(2), of def] Cons.prems(1) by auto
  next
    case 3
    define tk where "tk = length (body p) - k"
    let ?p = "if tk > 0 then remove_para def k tk p else p"
    let ?saved = "if tk > 0 then keep_images (ParaStart (as @ p # q # bs) (length as)) k tk p saved else saved"
    have p: "para_ok ?p" "para_cells ?p = take k (para_cells p)" "length (body ?p) = k"
      using remove_para_cells[of p k tk def] ok Cons.prems(2) by (auto simp: tk_def)
    note m = merge_next_cells[OF p(1) ok(2)]
    have step: "remove_loop def stop pos (length as) k (as @ p # q # bs) saved
        = remove_loop def stop (pos + tk + 1) (length as) k (as @ merge_next ?p q # bs) ?saved"
      using 3 p(3) by (subst remove_loop.simps) (auto simp: Let_def tk_def nth_append)
    have drop: "drop (stop - pos) (drop k (para_cells p) @ trail (q # bs)) = drop (stop - (pos + tk + 1)) (para_cells q @ trail bs)"
      using 3 ok Cons.prems(2) by (simp add: tk_def drop_Cons')
    have merged: "length (body (merge_next ?p q)) = k + length (body q)"
      "drop k (para_cells (merge_next ?p q)) = para_cells q" "take k (para_cells (merge_next ?p q)) = take k (para_cells p)"
      using p(2,3) m(2,3) ok(1) Cons.prems(2) by simp_all
    have "k \<le> length (body (merge_next ?p q))" "pos + tk + 1 \<le> stop"
      "stop - (pos + tk + 1) \<le> length (drop k (para_cells (merge_next ?p q)) @ trail bs)"
      unfolding merged using Cons.prems(2,3) ok 3 by (auto simp: tk_def)
    with Cons.IH[of "merge_next ?p q" "pos + tk + 1" ?saved] m(1) Cons.prems(1) obtain p' bs' saved' where
      "remove_loop def stop (pos + tk + 1) (length as) k (as @ merge_next ?p q # bs) ?saved = Some (as @ p' # bs', saved')"
      "paras_ok (as @ p' # bs')"
      "para_cells p' @ trail bs' = take k (para_cells (merge_next ?p q)) @ drop (stop - (pos + tk + 1)) (drop k (para_cells (merge_next ?p q)) @ trail bs)"
      by auto
    then show ?thesis
      using step drop by (intro exI[of _ p'] exI[of _ bs'] exI[of _ saved']) (simp add: merged)
  qed
qed

lemma Remove_cells:
  assumes "paras_ok (fParas d)" and "0 < n" and "off + n \<le> length (cells (fParas d))"
  shows "\<exists>ps saved imgs. paras_ok ps \<and> cells ps = take off (cells (fParas d)) @ drop (off + n) (cells (fParas d))
    \<and> covers 0 (take n (drop off (cells (fParas d)))) saved
    \<and> Remove off n d = Some (PushUndo ((new_step REMOVE off n)\<lparr>step_text := bytes (take n (drop off (cells (fParas d)))),
        step_runs := saved, step_images := imgs\<rparr>) (d\<lparr>fParas := ps\<rparr>))"
proof -
  have "off \<le> length (cells (fParas d))" using assms(3) by simp
  then obtain as p k bs where f: "focus (fParas d) off as p k bs" by (rule obtain_focus[OF assms(1)])
  note focus = focusD[OF f]
  have ok: "paras_ok (as @ p # bs)" using assms(1) focus(1) by simp
  have tail: "drop off (cells (fParas d)) = drop k (para_cells p) @ trail bs" using focus_take_drop(2)[OF f assms(1)] .
  then have "off + n - off \<le> length (drop k (para_cells p) @ trail bs)"
    using assms(3) by (metis add_diff_cancel_left' diff_le_mono length_drop)
  from remove_loop_cells[OF ok focus(2) this le_add1] obtain p' bs' imgs where
    r: "remove_loop (fDefault d) (off + n) off (length as) k (as @ p # bs) Map.empty = Some (as @ p' # bs', imgs)" "paras_ok (as @ p' # bs')"
      "para_cells p' @ trail bs' = take k (para_cells p) @ drop (off + n - off) (drop k (para_cells p) @ trail bs)"
    by blast
  obtain saved where saved: "CaptureRuns (fParas d) off n = Some saved" "covers 0 (take n (drop off (cells (fParas d)))) saved"
    using CaptureRuns_covers[OF assms(1,3)] by blast
  have "cells (as @ p' # bs') = take off (cells (fParas d)) @ drop (off + n) (cells (fParas d))"
    using r(3) focus_take_drop(1)[OF f assms(1)] tail by (simp add: cells_focus add.commute flip: drop_drop)
  moreover have "Remove off n d = Some (PushUndo ((new_step REMOVE off n)\<lparr>step_text := bytes (take n (drop off (cells (fParas d)))),
        step_runs := saved, step_images := imgs\<rparr>) (d\<lparr>fParas := as @ p' # bs'\<rparr>))"
  proof -
    have "\<not> (n = 0 \<or> Length (fParas d) \<le> off)" "\<not> Length (fParas d) < off + n"
      using assms(2,3) Length_cells[OF assms(1)] by auto
    then show ?thesis
      unfolding Remove_def using saved(1) r(1)[folded focus(1)] focus(3) GetText_cells[OF assms(1), of off n] by simp
  qed
  ultimately show ?thesis using r(2) saved(2) by blast
qed

section \<open>Formatting\<close>

lemma format_loop_cells:
  assumes "paras_ok ps" and "pos \<le> stop" and "stop \<le> length (cells ps)"
  shows "paras_ok (format_loop def f stop pos ps)
    \<and> cells (format_loop def f stop pos ps) = take pos (cells ps) @ restyle f (take (stop - pos) (drop pos (cells ps))) @ drop stop (cells ps)"
  using assms
proof (induction "stop - pos" arbitrary: pos ps rule: less_induct)
  case less
  let ?C = "cells ps"
  show ?case
  proof (cases "pos < stop")
    case False
    then have "format_loop def f stop pos ps = ps" by (subst format_loop.simps) simp
    then show ?thesis using less.prems False by simp
  next
    case True
    have "pos \<le> length ?C" using less.prems by simp
    then obtain as p k bs where f: "focus ps pos as p k bs" by (rule obtain_focus[OF less.prems(1)])
    note focus = focusD[OF f]
    note halves = focus_take_drop[OF f less.prems(1)]
    have ok: "para_ok p" using less.prems(1) focus(1) by simp
    define avail where "avail = (if IsSeparatorOffset ps pos then 0 else length (body p) - k)"
    have avail: "avail = length (body p) - k"
      using focus(1,2,3,5) by (auto simp: avail_def IsSeparatorOffset_def)
    define tk where "tk = min (stop - pos) avail"
    have loop: "format_loop def f stop pos ps = (if avail = 0 then format_loop def f stop (pos + 1) ps
        else format_loop def f stop (pos + tk) (as @ format_para def k tk f p # bs))"
      unfolding tk_def avail_def using True by (subst format_loop.simps) (simp only: Let_def focus(3,5,6) prod.case if_True)
    have cut: "take (stop - pos) (drop pos ?C) = take m (drop pos ?C) @ take (stop - (pos + m)) (drop (pos + m) ?C)"
      if "m \<le> stop - pos" for m
    proof -
      have "m + (stop - (pos + m)) = stop - pos" using that by arith
      then show ?thesis using take_add[of m "stop - (pos + m)" "drop pos ?C"] by (simp add: add.commute)
    qed
    show ?thesis
    proof (cases "avail = 0")
      case no: True
      then have "drop pos ?C = trail bs" using halves(2) avail focus(2) ok by simp
      moreover have "pos < length ?C" using True less.prems(3) by simp
      ultimately have cell: "take 1 (drop pos ?C) = [None]" by (cases bs) (auto simp: take_Cons')
      have "take (pos + 1) ?C = take pos ?C @ [None]" using cell by (simp only: take_add)
      moreover have "restyle f (take (stop - pos) (drop pos ?C)) = None # restyle f (take (stop - (pos + 1)) (drop (pos + 1) ?C))"
        using cut[of 1] True cell by simp
      ultimately show ?thesis
        using less.hyps[of "pos + 1" ps] less.prems True no loop by simp
    next
      case some: False
      let ?ps = "as @ format_para def k tk f p # bs"
      have tk: "k + tk \<le> length (body p)" "0 < tk" "tk \<le> stop - pos" using avail some focus(2) True by (auto simp: tk_def)
      note fp = format_para_cells[OF ok tk(1), of def f]
      have ps: "paras_ok ?ps" using fp(1) less.prems(1) focus(1) by simp
      have piece: "take tk (drop pos ?C) = take tk (drop k (para_cells p))" using halves(2) tk(1) ok by simp
      have rest: "drop (pos + tk) ?C = drop (k + tk) (para_cells p) @ trail bs"
        using halves(2) tk(1) ok by (simp add: add.commute[of _ tk] flip: drop_drop)
      have new: "cells ?ps = (take pos ?C @ restyle f (take tk (drop pos ?C))) @ drop (pos + tk) ?C"
        using halves(1) piece rest fp(3) by (simp add: cells_focus)
      have len: "length (take pos ?C @ restyle f (take tk (drop pos ?C))) = pos + tk"
        using tk less.prems(2,3) by simp
      have "paras_ok (format_loop def f stop (pos + tk) ?ps) \<and> cells (format_loop def f stop (pos + tk) ?ps)
          = take (pos + tk) (cells ?ps) @ restyle f (take (stop - (pos + tk)) (drop (pos + tk) (cells ?ps))) @ drop stop (cells ?ps)"
        using less.hyps[of "pos + tk" ?ps] ps tk less.prems(2,3) new len by simp
      moreover have "take (pos + tk) (cells ?ps) = take pos ?C @ restyle f (take tk (drop pos ?C))"
        "drop (pos + tk) (cells ?ps) = drop (pos + tk) ?C"
        using new len by (metis append_eq_conv_conj, metis append_eq_conv_conj)
      moreover have "drop stop (cells ?ps) = drop stop ?C"
      proof -
        have "stop - (pos + tk) + (pos + tk) = stop" using tk(3) less.prems(2) by arith
        then show ?thesis using arg_cong[OF calculation(3), of "drop (stop - (pos + tk))"] by simp
      qed
      ultimately show ?thesis using cut[OF tk(3)] loop some by simp
    qed
  qed
qed

section \<open>Past the end\<close>

lemma capture_loop_stays_inside:
  assumes "capture_loop ps off stop pos i k saved = Some rs" and "i < length ps" and "k \<le> length (body (ps ! i))"
  shows "stop \<le> pos + (sum_list (map (\<lambda>p. length (body p) + 1) (drop i ps)) - 1 - k)"
proof -
  have "i < length ps \<longrightarrow> k \<le> length (body (ps ! i)) \<longrightarrow> stop \<le> pos + (sum_list (map (\<lambda>p. length (body p) + 1) (drop i ps)) - 1 - k)"
  proof (induction rule: capture_loop.raw_induct[OF _ assms(1),
        where P = "\<lambda>ps off stop pos i k saved rs. i < length ps \<longrightarrow> k \<le> length (body (ps ! i))
          \<longrightarrow> stop \<le> pos + (sum_list (map (\<lambda>p. length (body p) + 1) (drop i ps)) - 1 - k)"])
    case (1 loop ps off stop pos i k saved rs)
    show ?case
    proof (intro impI)
      assume i: "i < length ps" and k: "k \<le> length (body (ps ! i))"
      let ?L = "length (body (ps ! i))" and ?S = "\<lambda>i. sum_list (map (\<lambda>p. length (body p) + 1) (drop i ps))"
      have S: "?S i = ?L + 1 + ?S (Suc i)" using i by (simp add: Cons_nth_drop_Suc[symmetric])
      consider "stop \<le> pos + (?L - k)" | "pos < stop" "k + (stop - pos) > ?L" "i + 1 < length ps"
        | "pos < stop" "k + (stop - pos) > ?L" "\<not> i + 1 < length ps" using k by linarith
      then show "stop \<le> pos + (?S i - 1 - k)"
      proof cases
        case 1
        then show ?thesis using S k by simp
      next
        case 2
        then have "?S (Suc i) = length (body (ps ! Suc i)) + 1 + ?S (Suc (Suc i))" by (simp add: Cons_nth_drop_Suc[symmetric])
        moreover obtain s where "loop ps off stop (pos + (?L - k) + 1) (i + 1) 0 s = Some rs"
          using 1(2) 2 i by (auto simp: Let_def)
        from 1(1)[OF this] have "stop \<le> pos + (?L - k) + 1 + (?S (Suc i) - 1)" using 2(3) by simp
        ultimately show ?thesis using S k by simp
      next
        case 3
        obtain s where "loop ps off stop (pos + (?L - k)) i (k + (?L - k)) s = Some rs"
          using 1(2) 3 i by (auto simp: Let_def)
        from 1(1)[OF this] i k have "stop \<le> pos + (?L - k) + (?S i - 1 - ?L)" by simp
        then show ?thesis using S k by simp
      qed
    qed
  qed
  then show ?thesis using assms(2,3) by blast
qed

end
