(* ===== verification/WriterHistory.thy ===== *)
theory WriterHistory
  imports WriterEdit WriterOps
begin

text \<open>
  Undo and redo of ProseWriter's document: a step undone puts back the bytes and the formats of the
  row, a history of steps is a line of texts with a cursor.
\<close>

section \<open>Formats put back\<close>

definition framed :: "writer \<Rightarrow> writer \<Rightarrow> bool" where
  "framed d d' \<longleftrightarrow> fUndo d' = fUndo d \<and> fRedo d' = fRedo d \<and> fCoalesce d' = fCoalesce d \<and> fInternalEdit d' = fInternalEdit d
     \<and> fDefault d' = fDefault d \<and> fStyles d' = fStyles d \<and> fHeader d' = fHeader d \<and> fFooter d' = fFooter d"

lemma framed_refl [simp]: "framed d d"
  by (simp add: framed_def)

lemma framed_trans: "framed d e \<Longrightarrow> framed e f \<Longrightarrow> framed d f"
  by (simp add: framed_def)

lemma PushUndo_framed [simp]: "fInternalEdit d \<Longrightarrow> framed d (PushUndo s (d\<lparr>fParas := ps\<rparr>))"
  by (simp add: framed_def PushUndo_def)

lemma insert_piece_framed: "fInternalEdit d \<Longrightarrow> \<not> fCoalesce d \<Longrightarrow> framed d (insert_piece off t fo d)"
  by (simp add: insert_piece_def Let_def joins_last_def split: prod.split)

lemma SplitPara_framed: "fInternalEdit d \<Longrightarrow> framed d (SplitPara off d)"
  by (simp add: SplitPara_def Let_def framed_def PushUndo_def split: prod.split)

lemma insert_lines_framed: "fInternalEdit d \<Longrightarrow> \<not> fCoalesce d \<Longrightarrow> framed d (insert_lines off t fo d)"
proof (induction off t fo d rule: insert_lines.induct)
  case (1 off t fo d)
  let ?seg = "takeWhile (\<lambda>c. c \<noteq> newline) t" and ?rest = "dropWhile (\<lambda>c. c \<noteq> newline) t"
  let ?d = "if ?seg \<noteq> [] then insert_piece off ?seg fo d else d"
  have piece: "framed d ?d" using insert_piece_framed[OF "1.prems"] by simp
  then have on: "fInternalEdit ?d" "\<not> fCoalesce ?d" using "1.prems" by (auto simp: framed_def)
  have split: "framed d (SplitPara (off + length ?seg) ?d)"
    using framed_trans[OF piece SplitPara_framed[OF on(1)]] .
  then have "fInternalEdit (SplitPara (off + length ?seg) ?d)" "\<not> fCoalesce (SplitPara (off + length ?seg) ?d)"
    using "1.prems" by (auto simp: framed_def)
  with "1.IH"[of ?seg ?rest ?d] have
    "t \<noteq> [] \<Longrightarrow> ?rest \<noteq> [] \<Longrightarrow> framed d (insert_lines (off + length ?seg + 1) (tl ?rest) fo (SplitPara (off + length ?seg) ?d))"
    using framed_trans[OF split] by simp
  with piece show ?case by (subst insert_lines.simps) (simp add: Let_def)
qed

lemma Insert_framed: "fInternalEdit d \<Longrightarrow> \<not> fCoalesce d \<Longrightarrow> framed d (Insert off t fo d)"
  by (simp add: Insert_def insert_piece_framed insert_lines_framed)

lemma ApplyFormat_cells:
  assumes "paras_ok (fParas d)" and "0 < n" and "off + n \<le> length (cells (fParas d))"
  shows "\<exists>ps saved. paras_ok ps
    \<and> cells ps = take off (cells (fParas d)) @ restyle f (take n (drop off (cells (fParas d)))) @ drop (off + n) (cells (fParas d))
    \<and> covers 0 (take n (drop off (cells (fParas d)))) saved
    \<and> ApplyFormat off n f d = Some (PushUndo ((new_step FORMAT off n)\<lparr>step_runs := saved\<rparr>) (d\<lparr>fParas := ps\<rparr>))"
proof -
  obtain saved where saved: "CaptureRuns (fParas d) off n = Some saved" "covers 0 (take n (drop off (cells (fParas d)))) saved"
    using CaptureRuns_covers[OF assms(1,3)] by blast
  have "ApplyFormat off n f d = Some (PushUndo ((new_step FORMAT off n)\<lparr>step_runs := saved\<rparr>)
      (d\<lparr>fParas := format_loop (fDefault d) f (off + n) off (fParas d)\<rparr>))"
    using saved(1) assms(2) by (simp add: ApplyFormat_def)
  with saved(2) format_loop_cells[OF assms(1) le_add1 assms(3), of "fDefault d" f] show ?thesis
    by (intro exI[of _ "format_loop (fDefault d) f (off + n) off (fParas d)"] exI[of _ saved]) simp
qed

text \<open>What one cell becomes when runs are put over the row from \<open>off\<close> on.\<close>

definition paint_run :: "nat \<Rightarrow> nat \<Rightarrow> run \<Rightarrow> cell \<Rightarrow> cell" where
  "paint_run off i r c = (if off + start r \<le> i \<and> i < off + run_end r then map_option (\<lambda>(b, g). (b, fmt r)) c else c)"

definition shape :: "cell list \<Rightarrow> char option list" where
  "shape cs = map (map_option fst) cs"

lemma shape_simps [simp]:
  "shape [] = []" "shape (c # cs) = map_option fst c # shape cs" "shape (cs @ ds) = shape cs @ shape ds" "length (shape cs) = length cs"
  "shape (restyle f cs) = shape cs" "shape (take n cs) = take n (shape cs)" "shape (drop n cs) = drop n (shape cs)"
  by (auto simp: shape_def restyle_def take_map drop_map comp_def option.map_comp case_prod_beta)

lemma shape_bytes: "shape cs = shape ds \<Longrightarrow> bytes cs = bytes ds"
proof -
  have "bytes cs = map (\<lambda>c. case c of None \<Rightarrow> newline | Some b \<Rightarrow> b) (shape cs)" for cs
    by (auto simp: bytes_def shape_def split: option.split)
  then show "shape cs = shape ds \<Longrightarrow> bytes cs = bytes ds" by metis
qed

lemma apply_runs_cells:
  assumes "paras_ok (fParas d)" and "off + n \<le> length (cells (fParas d))" and "fInternalEdit d" and "\<forall>r \<in> set rs. 0 < len r \<longrightarrow> run_end r \<le> n"
  shows "\<exists>d'. apply_runs off rs d = Some d' \<and> framed d d' \<and> paras_ok (fParas d') \<and> shape (cells (fParas d')) = shape (cells (fParas d))
    \<and> (\<forall>i < length (cells (fParas d)). cells (fParas d') ! i = fold (paint_run off i) rs (cells (fParas d) ! i))"
  using assms
proof (induction rs arbitrary: d)
  case (Cons r rs)
  let ?C = "cells (fParas d)"
  show ?case
  proof (cases "len r = 0")
    case True
    then have "paint_run off i r c = c" for i c by (auto simp: paint_run_def run_end_def)
    with True Cons show ?thesis by simp
  next
    case False
    have fits: "off + start r + len r \<le> length ?C" using Cons.prems False by (simp add: run_end_def)
    obtain ps saved where ps: "paras_ok ps"
      "cells ps = take (off + start r) ?C @ restyle (fmt r) (take (len r) (drop (off + start r) ?C)) @ drop (off + start r + len r) ?C"
      "ApplyFormat (off + start r) (len r) (fmt r) d = Some (PushUndo ((new_step FORMAT (off + start r) (len r))\<lparr>step_runs := saved\<rparr>) (d\<lparr>fParas := ps\<rparr>))"
      using ApplyFormat_cells[OF Cons.prems(1) _ fits, of "fmt r"] False by blast
    define e where "e = PushUndo ((new_step FORMAT (off + start r) (len r))\<lparr>step_runs := saved\<rparr>) (d\<lparr>fParas := ps\<rparr>)"
    have e: "framed d e" "fParas e = ps" using Cons.prems(3) by (simp_all add: e_def)
    have shape: "shape (cells ps) = shape ?C"
      unfolding ps(2) by (simp add: drop_drop add.commute flip: shape_simps(6,7)) (metis append_take_drop_id drop_drop add.commute shape_simps(3))
    then have len: "length (cells ps) = length ?C" by (metis shape_simps(4))
    have here: "cells ps ! i = paint_run off i r (?C ! i)" if "i < length ?C" for i
      using that fits unfolding ps(2) by (auto simp: nth_append paint_run_def run_end_def restyle_def)
    have "fInternalEdit e" using e(1) Cons.prems(3) by (simp add: framed_def)
    with Cons.IH[of e] ps(1) len e(2) Cons.prems(2,4) obtain d' where
      "apply_runs off rs e = Some d'" "framed e d'" "paras_ok (fParas d')" "shape (cells (fParas d')) = shape (cells ps)"
      "\<forall>i < length ?C. cells (fParas d') ! i = fold (paint_run off i) rs (cells ps ! i)"
      by auto
    then show ?thesis using ps(3) e(1) False shape here framed_trans by (auto simp: e_def)
  qed
qed simp

lemma fold_paint:
  assumes "\<forall>r \<in> set rs. off + start r \<le> i \<longrightarrow> i < off + run_end r \<longrightarrow> fmt r = f"
  shows "fold (paint_run off i) rs (Some (b, g)) = Some (b, if \<exists>r \<in> set rs. off + start r \<le> i \<and> i < off + run_end r then f else g)"
  using assms by (induction rs arbitrary: g) (auto simp: paint_run_def)

lemma fold_paint_None: "fold (paint_run off i) rs None = None"
  by (induction rs) (auto simp: paint_run_def)

lemma covers_run_end: "covers 0 W rs \<Longrightarrow> \<forall>r \<in> set rs. 0 < len r \<longrightarrow> run_end r \<le> length W"
proof (intro ballI impI)
  fix r assume "covers 0 W rs" "r \<in> set rs" "0 < len r"
  then have "start r \<le> run_end r - 1" "run_end r - 1 < run_end r" by (simp_all add: run_end_def)
  with \<open>covers 0 W rs\<close> \<open>r \<in> set rs\<close> have "run_end r - 1 - 0 < length W" unfolding covers_def by blast
  then show "run_end r \<le> length W" by simp
qed

lemma paint_outside:
  assumes "\<forall>r \<in> set rs. 0 < len r \<longrightarrow> run_end r \<le> n" and "\<not> (off \<le> i \<and> i < off + n)"
  shows "fold (paint_run off i) rs c = c"
proof -
  have "\<not> (off + start r \<le> i \<and> i < off + run_end r)" if "r \<in> set rs" for r
    using assms that by (cases "0 < len r") (force simp: run_end_def)+
  then show ?thesis by (cases c) (auto simp: fold_paint_None fold_paint)
qed

lemma paint_window:
  assumes "\<forall>r \<in> set rs. 0 < len r \<longrightarrow> run_end r \<le> n" and "off + n \<le> length C"
    and "length C' = length C" and "\<forall>i < length C. C' ! i = fold (paint_run off i) rs (C ! i)"
  shows "C' = take off C @ take n (drop off C') @ drop (off + n) C"
proof (rule nth_equalityI)
  show "length C' = length (take off C @ take n (drop off C') @ drop (off + n) C)" using assms(2,3) by simp
  fix i assume "i < length C'"
  then show "C' ! i = (take off C @ take n (drop off C') @ drop (off + n) C) ! i"
    using assms(2-4) paint_outside[OF assms(1), of off i] by (cases "off \<le> i \<and> i < off + n") (auto simp: nth_append)
qed

lemma paint_restores:
  assumes "covers 0 W rs" and "length W = n" and "off + n \<le> length C" and "shape (take n (drop off C)) = shape W"
    and "length C' = length C" and "\<forall>i < length C. C' ! i = fold (paint_run off i) rs (C ! i)"
  shows "C' = take off C @ W @ drop (off + n) C"
proof (rule nth_equalityI)
  show "length C' = length (take off C @ W @ drop (off + n) C)" using assms(2,3,5) by simp
  fix i assume "i < length C'"
  then have i: "C' ! i = fold (paint_run off i) rs (C ! i)" "i < length C" using assms(5,6) by simp_all
  show "C' ! i = (take off C @ W @ drop (off + n) C) ! i"
  proof (cases "off \<le> i \<and> i < off + n")
    case False
    then have "fold (paint_run off i) rs (C ! i) = C ! i" using paint_outside covers_run_end[OF assms(1)] assms(2) by blast
    then show ?thesis using i False assms(2) by (auto simp: nth_append)
  next
    case True
    define j where "j = i - off"
    have j: "i = off + j" "j < n" using True by (auto simp: j_def)
    have "shape (take n (drop off C)) ! j = shape W ! j" using assms(4) by simp
    then have fst: "map_option fst (C ! i) = map_option fst (W ! j)"
      using j assms(2,3) by (simp add: shape_def)
    show ?thesis
    proof (cases "W ! j")
      case None
      then show ?thesis using fst i j assms(2,3) by (simp add: fold_paint_None nth_append)
    next
      case (Some c)
      then obtain b f where W: "W ! j = Some (b, f)" by (cases c) auto
      with fst obtain g where C: "C ! i = Some (b, g)" by (cases "C ! i") auto
      have "\<exists>r \<in> set rs. off + start r \<le> i \<and> i < off + run_end r"
        using assms(1,2) j W unfolding covers_def by fastforce
      moreover have "\<forall>r \<in> set rs. off + start r \<le> i \<longrightarrow> i < off + run_end r \<longrightarrow> fmt r = f"
        using assms(1) j W unfolding covers_def by fastforce
      ultimately have "fold (paint_run off i) rs (Some (b, g)) = Some (b, f)" using fold_paint[of rs off i f b g] by simp
      then show ?thesis using i(1) W C j assms(2,3) by (simp add: nth_append)
    qed
  qed
qed

section \<open>Rows without newline bytes\<close>

definition clean :: "cell list \<Rightarrow> bool" where
  "clean cs \<longleftrightarrow> (\<forall>b f. Some (b, f) \<in> set cs \<longrightarrow> b \<noteq> newline)"

lemma clean_simps [simp]:
  "clean []" "clean (None # cs) \<longleftrightarrow> clean cs" "clean (Some (b, f) # cs) \<longleftrightarrow> b \<noteq> newline \<and> clean cs"
  "clean (cs @ ds) \<longleftrightarrow> clean cs \<and> clean ds"
  by (auto simp: clean_def)

lemma clean_part: "clean cs \<Longrightarrow> clean (take n cs)" "clean cs \<Longrightarrow> clean (drop n cs)"
  by (auto simp: clean_def dest: in_set_takeD in_set_dropD)

lemma clean_cells: "\<forall>p \<in> set ps. para_ok p \<Longrightarrow> clean (cells ps)"
proof (induction ps)
  case (Cons p ps)
  have "clean (para_cells p)"
    using Cons.prems by (auto simp: clean_def para_cells_def para_ok_def dest: set_zip_leftD)
  with Cons show ?case by simp
qed simp

lemma clean_shape: "clean cs \<Longrightarrow> shape cs = map (\<lambda>b. if b = newline then None else Some b) (bytes cs)"
  by (induction cs) (auto simp: bytes_def clean_def split: option.split)

section \<open>One step undone\<close>

lemma cells_update: "i < length ps \<Longrightarrow> para_cells q = para_cells (ps ! i) \<Longrightarrow> cells (ps[i := q]) = cells ps"
  using cells_focus[of "take i ps" "ps ! i" "drop (Suc i) ps"] by (simp add: upd_conv_take_nth_drop cells_focus flip: id_take_nth_drop)

lemma paras_ok_update: "paras_ok ps \<Longrightarrow> para_ok q \<Longrightarrow> paras_ok (ps[i := q])"
  by (auto simp: paras_ok_def dest: set_update_subset_insert[THEN subsetD])

lemma put_images_cells: "paras_ok ps \<Longrightarrow> paras_ok (put_images gs m ps) \<and> cells (put_images gs m ps) = cells ps"
proof (induction gs arbitrary: ps)
  case (Cons g gs)
  show ?case
  proof (cases "m g")
    case (Some img)
    obtain i k where l: "Locate ps g = (i, k)" by force
    let ?q = "(ps ! i)\<lparr>images := (images (ps ! i))(k \<mapsto> img), revision := revision (ps ! i) + 1\<rparr>"
    have "para_cells ?q = para_cells (ps ! i)" by (simp add: para_cells_def)
    moreover have "i < length ps \<Longrightarrow> para_ok ?q" using Cons.prems by (simp add: paras_ok_def para_ok_def)
    ultimately have new: "paras_ok (ps[i := ?q]) \<and> cells (ps[i := ?q]) = cells ps"
      using Cons.prems paras_ok_update[OF Cons.prems, of ?q i] cells_update[of i ps ?q] by (cases "i < length ps") (simp_all add: list_update_beyond del: fun_upd_apply)
    have "put_images (g # gs) m ps = put_images gs m (ps[i := ?q])" using Some l by (simp add: Let_def)
    then show ?thesis using Cons.IH[of "ps[i := ?q]"] new by (simp del: fun_upd_apply)
  qed (use Cons in simp)
qed simp

lemma clean_of: "paras_ok ps \<Longrightarrow> clean (cells ps)"
  by (simp add: clean_cells paras_ok_def)

lemma undo_remove:
  assumes "kind s = REMOVE" and "paras_ok (fParas d)" and "step_offset s \<le> length (cells (fParas d))"
    and "0 < step_length s" and "length (step_text s) = step_length s" and "\<forall>r \<in> set (step_runs s). 0 < len r \<longrightarrow> run_end r \<le> step_length s"
    and "fInternalEdit d" and "\<not> fCoalesce d"
  shows "\<exists>d' cs. undo_one s d = Some d' \<and> framed d d' \<and> paras_ok (fParas d') \<and> bytes cs = step_text s
    \<and> cells (fParas d') = take (step_offset s) (cells (fParas d)) @ cs @ drop (step_offset s) (cells (fParas d))
    \<and> (\<forall>W. clean W \<longrightarrow> bytes W = step_text s \<longrightarrow> covers 0 W (step_runs s) \<longrightarrow> cs = W)"
proof -
  let ?C = "cells (fParas d)" and ?off = "step_offset s" and ?n = "step_length s" and ?i = "Insert (step_offset s) (step_text s) None d"
  obtain cs where ins: "paras_ok (fParas ?i)" "bytes cs = step_text s" "cells (fParas ?i) = take ?off ?C @ cs @ drop ?off ?C"
    using Insert_cells[OF assms(2,3), of "step_text s" None] by blast
  have ncs: "length cs = ?n" using ins(2) assms(5) by (metis bytes_simps(5))
  have i: "framed d ?i" "fInternalEdit ?i" "?off + ?n \<le> length (cells (fParas ?i))"
    using Insert_framed[OF assms(7,8), of ?off "step_text s" None] assms(3,7) ins(3) ncs by (auto simp: framed_def)
  obtain ps saved where f: "paras_ok ps"
    "cells ps = take ?off (cells (fParas ?i)) @ restyle (FormatAt ?i ?off) (take ?n (drop ?off (cells (fParas ?i)))) @ drop (?off + ?n) (cells (fParas ?i))"
    "ApplyFormat ?off ?n (FormatAt ?i ?off) ?i = Some (PushUndo ((new_step FORMAT ?off ?n)\<lparr>step_runs := saved\<rparr>) (?i\<lparr>fParas := ps\<rparr>))"
    using ApplyFormat_cells[OF ins(1) assms(4) i(3), of "FormatAt ?i ?off"] by blast
  define e where "e = PushUndo ((new_step FORMAT ?off ?n)\<lparr>step_runs := saved\<rparr>) (?i\<lparr>fParas := ps\<rparr>)"
  let ?base = "restyle (FormatAt ?i ?off) cs"
  have e: "framed ?i e" "fInternalEdit e" "paras_ok (fParas e)" "cells (fParas e) = take ?off ?C @ ?base @ drop ?off ?C"
    using f(1,2) PushUndo_framed[OF i(2)] i(2) ins(3) ncs assms(3) by (simp_all add: e_def)
  have "?off + ?n \<le> length (cells (fParas e))" using e(4) ncs assms(3) by simp
  from apply_runs_cells[OF e(3) this e(2) assms(6)] obtain d' where
    d': "apply_runs ?off (step_runs s) e = Some d'" "framed e d'" "paras_ok (fParas d')" "shape (cells (fParas d')) = shape (cells (fParas e))"
      "\<forall>i < length (cells (fParas e)). cells (fParas d') ! i = fold (paint_run ?off i) (step_runs s) (cells (fParas e) ! i)"
    by blast
  have len: "length (cells (fParas d')) = length (cells (fParas e))" using d'(4) by (metis shape_simps(4))
  define ds where "ds = take ?n (drop ?off (cells (fParas d')))"
  have out: "cells (fParas d') = take ?off ?C @ ds @ drop ?off ?C"
    using paint_window[OF assms(6) \<open>?off + ?n \<le> length (cells (fParas e))\<close> len d'(5)] e(4) ncs assms(3) by (simp add: ds_def)
  have nds: "length ds = ?n" using len e(4) ncs assms(3) by (simp add: ds_def)
  have "shape (cells (fParas d')) = shape (take ?off ?C @ cs @ drop ?off ?C)" using d'(4) e(4) by simp
  then have same: "shape ds = shape cs" unfolding out using ncs nds by simp
  have only: "ds = W" if W: "clean W" "bytes W = step_text s" "covers 0 W (step_runs s)" for W
  proof -
    have "clean cs" using clean_of[OF ins(1)] ins(3) by simp
    then have "shape cs = shape W" using W(1,2) ins(2) by (simp add: clean_shape)
    moreover have "length W = ?n" using W(2) assms(5) by (metis bytes_simps(5))
    ultimately have "cells (fParas d') = take ?off (cells (fParas e)) @ W @ drop (?off + ?n) (cells (fParas e))"
      using paint_restores[OF W(3) _ \<open>?off + ?n \<le> length (cells (fParas e))\<close> _ len d'(5)] e(4) ncs assms(3) by simp
    then show ?thesis using out e(4) ncs assms(3) by simp
  qed
  let ?d' = "d'\<lparr>fParas := put_images [?off..<?off + ?n] (step_images s) (fParas d')\<rparr>"
  have "undo_one s d = Some ?d'"
    using assms(1) f(3) d'(1) by (simp add: undo_one_def Let_def e_def)
  moreover have "framed d ?d'" using i(1) e(1) d'(2) by (simp add: framed_def)
  moreover have "paras_ok (fParas ?d') \<and> cells (fParas ?d') = take ?off ?C @ ds @ drop ?off ?C"
    using put_images_cells[OF d'(3)] out by simp
  ultimately show ?thesis using shape_bytes[OF same] ins(2) only by (intro exI[of _ ?d'] exI[of _ ds]) simp
qed

lemma Remove_internal:
  assumes "paras_ok (fParas d)" and "0 < n" and "off + n \<le> length (cells (fParas d))" and "fInternalEdit d"
  shows "\<exists>d'. Remove off n d = Some d' \<and> framed d d' \<and> paras_ok (fParas d')
    \<and> cells (fParas d') = take off (cells (fParas d)) @ drop (off + n) (cells (fParas d))"
proof -
  obtain ps saved imgs where r: "paras_ok ps" "cells ps = take off (cells (fParas d)) @ drop (off + n) (cells (fParas d))"
    "Remove off n d = Some (PushUndo ((new_step REMOVE off n)\<lparr>step_text := bytes (take n (drop off (cells (fParas d)))),
        step_runs := saved, step_images := imgs\<rparr>) (d\<lparr>fParas := ps\<rparr>))"
    using Remove_cells[OF assms(1-3)] by blast
  then show ?thesis using PushUndo_framed[OF assms(4)] by simp
qed

lemma apply_runs_back:
  assumes "paras_ok (fParas d)" and "off + n \<le> length (cells (fParas d))" and "fInternalEdit d"
    and "\<forall>r \<in> set rs. 0 < len r \<longrightarrow> run_end r \<le> n"
  shows "\<exists>d'. apply_runs off rs d = Some d' \<and> framed d d' \<and> paras_ok (fParas d') \<and> shape (cells (fParas d')) = shape (cells (fParas d))
    \<and> (\<forall>W. shape W = shape (take n (drop off (cells (fParas d)))) \<longrightarrow> covers 0 W rs
        \<longrightarrow> cells (fParas d') = take off (cells (fParas d)) @ W @ drop (off + n) (cells (fParas d)))"
proof -
  let ?C = "cells (fParas d)"
  obtain d' where d': "apply_runs off rs d = Some d'" "framed d d'" "paras_ok (fParas d')" "shape (cells (fParas d')) = shape ?C"
      "\<forall>i < length ?C. cells (fParas d') ! i = fold (paint_run off i) rs (?C ! i)"
    using apply_runs_cells[OF assms] by blast
  have len: "length (cells (fParas d')) = length ?C" using d'(4) by (metis shape_simps(4))
  have "cells (fParas d') = take off ?C @ W @ drop (off + n) ?C"
    if W: "shape W = shape (take n (drop off ?C))" "covers 0 W rs" for W
  proof -
    have "length W = n" using W(1) assms(2) by (metis add_diff_cancel_left' diff_le_mono length_drop length_take min.absorb2 shape_simps(4))
    then show ?thesis using paint_restores[OF W(2) _ assms(2) W(1)[symmetric] len d'(5)] by simp
  qed
  with d' show ?thesis by blast
qed

text \<open>Undoing and redoing a formatting step: either keeps the formats that were, for the way back.\<close>

lemma undo_format:
  assumes "kind s = FORMAT" and "paras_ok (fParas d)" and "step_offset s + step_length s \<le> length (cells (fParas d))"
    and "\<forall>r \<in> set (step_runs s). 0 < len r \<longrightarrow> run_end r \<le> step_length s" and "fInternalEdit d"
  shows "\<exists>d' now. undo_one s d = Some d' \<and> framed (d\<lparr>fRedo := butlast (fRedo d) @ [(last (fRedo d))\<lparr>step_runs := now\<rparr>]\<rparr>) d'
    \<and> covers 0 (take (step_length s) (drop (step_offset s) (cells (fParas d)))) now
    \<and> paras_ok (fParas d') \<and> shape (cells (fParas d')) = shape (cells (fParas d))
    \<and> (\<forall>W. shape W = shape (take (step_length s) (drop (step_offset s) (cells (fParas d)))) \<longrightarrow> covers 0 W (step_runs s)
        \<longrightarrow> cells (fParas d') = take (step_offset s) (cells (fParas d)) @ W @ drop (step_offset s + step_length s) (cells (fParas d)))"
proof -
  obtain now where now: "CaptureRuns (fParas d) (step_offset s) (step_length s) = Some now"
      "covers 0 (take (step_length s) (drop (step_offset s) (cells (fParas d)))) now"
    using CaptureRuns_covers[OF assms(2,3)] by blast
  with assms(1) apply_runs_back[of "d\<lparr>fRedo := butlast (fRedo d) @ [(last (fRedo d))\<lparr>step_runs := now\<rparr>]\<rparr>" "step_offset s" "step_length s" "step_runs s"]
    assms(2-5) show ?thesis by (simp add: undo_one_def) blast
qed

lemma redo_format:
  assumes "kind s = FORMAT" and "paras_ok (fParas d)" and "step_offset s + step_length s \<le> length (cells (fParas d))"
    and "\<forall>r \<in> set (step_runs s). 0 < len r \<longrightarrow> run_end r \<le> step_length s" and "fInternalEdit d"
  shows "\<exists>d' now. redo_one s d = Some (s\<lparr>step_runs := now\<rparr>, d') \<and> framed d d'
    \<and> covers 0 (take (step_length s) (drop (step_offset s) (cells (fParas d)))) now
    \<and> paras_ok (fParas d') \<and> shape (cells (fParas d')) = shape (cells (fParas d))"
proof -
  obtain now where "CaptureRuns (fParas d) (step_offset s) (step_length s) = Some now"
      "covers 0 (take (step_length s) (drop (step_offset s) (cells (fParas d)))) now"
    using CaptureRuns_covers[OF assms(2,3)] by blast
  with assms(1) apply_runs_back[OF assms(2,3,5,4)] show ?thesis by (auto simp: redo_one_def)
qed

lemma undo_paraformat:
  assumes "kind s = PARAFORMAT" and "paras_ok (fParas d)"
  shows "\<exists>d'. undo_one s d = Some d' \<and> framed d d' \<and> paras_ok (fParas d') \<and> cells (fParas d') = cells (fParas d)"
    "\<exists>s' d'. redo_one s d = Some (s', d') \<and> framed d d' \<and> paras_ok (fParas d') \<and> cells (fParas d') = cells (fParas d)
      \<and> kind s' = PARAFORMAT"
proof -
  let ?i = "step_offset s"
  let ?q = "(fParas d ! ?i)\<lparr>format := step_format s, revision := revision (fParas d ! ?i) + 1\<rparr>"
  have "para_cells ?q = para_cells (fParas d ! ?i)" by (simp add: para_cells_def)
  moreover have "?i < length (fParas d) \<Longrightarrow> para_ok ?q" using assms(2) by (simp add: paras_ok_def para_ok_def)
  ultimately have "?i < length (fParas d) \<Longrightarrow> paras_ok ((fParas d)[?i := ?q]) \<and> cells ((fParas d)[?i := ?q]) = cells (fParas d)"
    using paras_ok_update[OF assms(2), of ?q ?i] cells_update[of ?i "fParas d" ?q] by simp
  then show "\<exists>d'. undo_one s d = Some d' \<and> framed d d' \<and> paras_ok (fParas d') \<and> cells (fParas d') = cells (fParas d)"
    "\<exists>s' d'. redo_one s d = Some (s', d') \<and> framed d d' \<and> paras_ok (fParas d') \<and> cells (fParas d') = cells (fParas d) \<and> kind s' = PARAFORMAT"
    using assms by (auto simp: undo_one_def redo_one_def Let_def framed_def)
qed

section \<open>Formatting past the end\<close>

lemma CaptureRuns_past_end:
  assumes "paras_ok ps" and "off \<le> length (cells ps)" and "length (cells ps) < off + n"
  shows "CaptureRuns ps off n = None"
proof (rule ccontr)
  assume "CaptureRuns ps off n \<noteq> None"
  then obtain rs where rs: "CaptureRuns ps off n = Some rs" by blast
  obtain as p k bs where f: "focus ps off as p k bs" by (rule obtain_focus[OF assms(1,2)])
  note focus = focusD[OF f]
  have ok: "para_ok p" "\<forall>q \<in> set bs. para_ok q" using assms(1) focus(1) by simp_all
  then have "sum_list (map (\<lambda>p. length (body p) + 1) (p # bs)) = length (para_cells p @ trail bs) + 1"
    by (induction bs) auto
  moreover have "length as < length ps" "drop (length as) ps = p # bs" using focus(1) by auto
  ultimately have "off + n \<le> off + (length (para_cells p @ trail bs) - k)"
    using capture_loop_stays_inside[of ps off "off + n" off "length as" k "[]" rs] rs focus(2,3,5) by (simp add: CaptureRuns_def)
  then show False using assms(3) focus(1,2,4) ok by (simp add: cells_focus)
qed

text \<open>
  C27 Formatting is safe inside the document only. At an offset of the document the loop that saves the
  old runs returns exactly when the range ends in the document; a range that reaches past the end keeps
  it at the end of the last paragraph for ever, where a removal would have clipped the range.
\<close>

theorem formatting_past_the_end:
  assumes "paras_ok (fParas d)" and "off \<le> Length (fParas d)"
  shows "ApplyFormat off n f d = None \<longleftrightarrow> Length (fParas d) < off + n"
proof (cases "Length (fParas d) < off + n")
  case True
  then show ?thesis using assms CaptureRuns_past_end[OF assms(1), of off n] Length_cells[OF assms(1)] by (simp add: ApplyFormat_def)
next
  case False
  then show ?thesis using ApplyFormat_cells[OF assms(1), of n off f] Length_cells[OF assms(1)] by (cases "n = 0") (auto simp: ApplyFormat_def)
qed

theorem formatting_past_the_end_witness: "ApplyFormat 1 2 (MakeDefaultFormat []) (Insert 0 ''ab'' None (new_writer [])) = None"
proof -
  have "paras_ok (fParas (Insert 0 ''ab'' None (new_writer [])))" "Length (fParas (Insert 0 ''ab'' None (new_writer []))) = 2"
    by code_simp+
  then show ?thesis using formatting_past_the_end[of "Insert 0 ''ab'' None (new_writer [])" 1 2 "MakeDefaultFormat []"] by simp
qed

end
