(* ===== verification/WriterLine.thy ===== *)
theory WriterLine
  imports WriterHistory
begin

text \<open>
  The history of ProseWriter's document as a line with a cursor. On the rows of cells (bytes with
  their formats) the undo steps name every earlier row, and undoing goes back along them exactly.
  On the texts, where redoing has a say, undoing and redoing move along the line of texts.
\<close>

section \<open>Lines of steps\<close>

fun line :: "('s \<Rightarrow> 'c \<Rightarrow> 'c) \<Rightarrow> 's list \<Rightarrow> 'c \<Rightarrow> 'c list" where
  "line g [] c = []"
| "line g (s # ss) c = g s c # line g ss (g s c)"

fun line_ok :: "('s \<Rightarrow> 'c \<Rightarrow> bool) \<Rightarrow> ('s \<Rightarrow> 'c \<Rightarrow> 'c) \<Rightarrow> 's list \<Rightarrow> 'c \<Rightarrow> bool" where
  "line_ok p g [] c \<longleftrightarrow> True"
| "line_ok p g (s # ss) c \<longleftrightarrow> p s c \<and> line_ok p g ss (g s c)"

lemma line_take: "line g (take n ss) c = take n (line g ss c)"
  by (induction ss arbitrary: n c) (auto simp: take_Cons')

lemma line_ok_take: "line_ok p g ss c \<Longrightarrow> line_ok p g (take n ss) c"
  by (induction ss arbitrary: n c) (auto simp: take_Cons')

lemma line_empty [simp]: "line g ss c = [] \<longleftrightarrow> ss = []" "length (line g ss c) = length ss"
  by (induction ss arbitrary: c) auto

section \<open>The rows behind\<close>

definition row_of :: "string \<Rightarrow> run list \<Rightarrow> cell list" where
  "row_of t rs = map (\<lambda>j. if t ! j = newline then None
     else Some (t ! j, fmt (the (find (\<lambda>r. start r \<le> j \<and> j < run_end r) rs)))) [0..<length t]"

lemma row_of_simps [simp]: "length (row_of t rs) = length t" "bytes (row_of t rs) = t" "clean (row_of t rs)"
proof -
  show "bytes (row_of t rs) = t"
    by (rule nth_equalityI) (auto simp: row_of_def bytes_def)
qed (auto simp: row_of_def clean_def)

lemma row_of_covers:
  assumes "clean W" and "covers 0 W rs"
  shows "row_of (bytes W) rs = W"
proof (rule nth_equalityI)
  fix j assume "j < length (row_of (bytes W) rs)"
  then have j: "j < length W" by simp
  show "row_of (bytes W) rs ! j = W ! j"
  proof (cases "W ! j")
    case None
    then show ?thesis using j by (simp add: row_of_def bytes_def)
  next
    case (Some c)
    obtain b f where W: "W ! j = Some (b, f)" using Some by (cases c) auto
    have "Some (b, f) \<in> set W" using W j by (metis nth_mem)
    then have b: "b \<noteq> newline" using assms(1) by (auto simp: clean_def)
    have "\<exists>r \<in> set rs. start r \<le> j \<and> j < run_end r" using assms(2) W j unfolding covers_def by fastforce
    then obtain r where r: "find (\<lambda>r. start r \<le> j \<and> j < run_end r) rs = Some r"
      by (metis (mono_tags, lifting) find_None_iff not_Some_eq)
    then have "r \<in> set rs" "start r \<le> j" "j < run_end r" by (auto simp: find_Some_iff)
    then have "fmt r = f" using assms(2) W unfolding covers_def by fastforce
    then show ?thesis using r W b j by (simp add: row_of_def bytes_def)
  qed
qed simp

text \<open>The row before a step, from the row after it; the steps that say it.\<close>

definition step_row :: "undo_step \<Rightarrow> cell list \<Rightarrow> cell list" where
  "step_row s C =
     (case kind s of
        INSERT \<Rightarrow> take (step_offset s) C @ drop (step_offset s + step_length s) C
      | REMOVE \<Rightarrow> take (step_offset s) C @ row_of (step_text s) (step_runs s) @ drop (step_offset s) C
      | FORMAT \<Rightarrow> take (step_offset s) C @ row_of (bytes (take (step_length s) (drop (step_offset s) C))) (step_runs s)
          @ drop (step_offset s + step_length s) C
      | PARAFORMAT \<Rightarrow> C)"

definition can_row :: "undo_step \<Rightarrow> cell list \<Rightarrow> bool" where
  "can_row s C \<longleftrightarrow>
     (case kind s of
        INSERT \<Rightarrow> 0 < step_length s \<and> step_offset s + step_length s \<le> length C
          \<and> bytes (take (step_length s) (drop (step_offset s) C)) = step_text s
      | REMOVE \<Rightarrow> 0 < step_length s \<and> step_offset s \<le> length C \<and> length (step_text s) = step_length s
          \<and> covers 0 (row_of (step_text s) (step_runs s)) (step_runs s)
      | FORMAT \<Rightarrow> 0 < step_length s \<and> step_offset s + step_length s \<le> length C
          \<and> covers 0 (row_of (bytes (take (step_length s) (drop (step_offset s) C))) (step_runs s)) (step_runs s)
      | PARAFORMAT \<Rightarrow> True)"

text \<open>One step undone leads to the row that it names.\<close>

lemma undo_one_row:
  assumes "can_row s (cells (fParas d))" and "paras_ok (fParas d)" and "fInternalEdit d" and "\<not> fCoalesce d"
  shows "\<exists>d'. undo_one s d = Some d' \<and> paras_ok (fParas d') \<and> cells (fParas d') = step_row s (cells (fParas d)) \<and> fUndo d' = fUndo d"
proof (cases "kind s")
  case INSERT
  then show ?thesis
    using Remove_internal[OF assms(2) _ _ assms(3), of "step_length s" "step_offset s"] assms(1)
    by (auto simp: can_row_def step_row_def undo_one_def framed_def)
next
  case REMOVE
  let ?W = "row_of (step_text s) (step_runs s)"
  from assms(1) REMOVE have can: "0 < step_length s" "step_offset s \<le> length (cells (fParas d))" "length (step_text s) = step_length s"
      "covers 0 ?W (step_runs s)" by (simp_all add: can_row_def)
  have "\<forall>r \<in> set (step_runs s). 0 < len r \<longrightarrow> run_end r \<le> step_length s" using covers_run_end[OF can(4)] can(3) by simp
  from undo_remove[OF REMOVE assms(2) can(2,1,3) this assms(3,4)] obtain d' cs where
    d': "undo_one s d = Some d'" "framed d d'" "paras_ok (fParas d')"
      "cells (fParas d') = take (step_offset s) (cells (fParas d)) @ cs @ drop (step_offset s) (cells (fParas d))"
      "clean ?W \<longrightarrow> bytes ?W = step_text s \<longrightarrow> covers 0 ?W (step_runs s) \<longrightarrow> cs = ?W" by blast
  then show ?thesis using can(4) REMOVE by (auto simp: step_row_def framed_def)
next
  case FORMAT
  let ?V = "take (step_length s) (drop (step_offset s) (cells (fParas d)))"
  let ?W = "row_of (bytes ?V) (step_runs s)"
  from assms(1) FORMAT have can: "step_offset s + step_length s \<le> length (cells (fParas d))" "covers 0 ?W (step_runs s)"
    by (simp_all add: can_row_def)
  have "length ?W = step_length s" using can(1) by simp
  then have "\<forall>r \<in> set (step_runs s). 0 < len r \<longrightarrow> run_end r \<le> step_length s" using covers_run_end[OF can(2)] by simp
  from undo_format[OF FORMAT assms(2) can(1) this assms(3)] obtain d' now where
    d': "undo_one s d = Some d'" "framed (d\<lparr>fRedo := butlast (fRedo d) @ [(last (fRedo d))\<lparr>step_runs := now\<rparr>]\<rparr>) d'" "paras_ok (fParas d')"
      "shape ?W = shape ?V \<longrightarrow> covers 0 ?W (step_runs s) \<longrightarrow>
        cells (fParas d') = take (step_offset s) (cells (fParas d)) @ ?W @ drop (step_offset s + step_length s) (cells (fParas d))"
    by blast
  have "clean ?V" using clean_of[OF assms(2)] by (simp add: clean_part)
  then have "shape ?W = shape ?V" by (simp add: clean_shape del: bytes_simps(6,7) shape_simps(6,7))
  then show ?thesis using d' can(2) FORMAT by (auto simp: step_row_def framed_def)
next
  case PARAFORMAT
  then show ?thesis using undo_paraformat(1)[OF PARAFORMAT assms(2)]
    by (auto simp: step_row_def framed_def)
qed

definition row_at :: "writer \<Rightarrow> cell list" where
  "row_at d = cells (fParas d)"

definition rows_before :: "writer \<Rightarrow> cell list list" where
  "rows_before d = line step_row (rev (fUndo d)) (row_at d)"

definition rows_kept :: "writer \<Rightarrow> bool" where
  "rows_kept d \<longleftrightarrow> paras_ok (fParas d) \<and> \<not> fInternalEdit d \<and> length (fUndo d) \<le> 512
     \<and> line_ok can_row step_row (rev (fUndo d)) (row_at d)"

lemma rev_snoc_simps: "fUndo d \<noteq> [] \<Longrightarrow> rev (fUndo d) = last (fUndo d) # rev (butlast (fUndo d))"
  by (metis append_butlast_last_id rev.simps(2) rev_append rev_swap append_Cons append_Nil rev_rev_ident)

lemma Undo_unfold:
  assumes "fUndo d \<noteq> []"
    and "undo_one (last (fUndo d)) (d\<lparr>fUndo := butlast (fUndo d), fRedo := fRedo d @ [last (fUndo d)], fCoalesce := False, fInternalEdit := True\<rparr>) = Some e"
    and "fUndo e = butlast (fUndo d)"
  shows "Undo d = Some (e\<lparr>fCoalesce := True, fInternalEdit := False, fModified := True, fPlainTextValid := False\<rparr>)"
  using assms by (simp add: Undo_def Let_def)

lemma Undo_row:
  assumes "rows_kept d" and "rows_before d = c # cs"
  shows "\<exists>d'. Undo d = Some d' \<and> rows_kept d' \<and> row_at d' = c \<and> rows_before d' = cs"
proof -
  let ?s = "last (fUndo d)"
  let ?d = "d\<lparr>fUndo := butlast (fUndo d), fRedo := fRedo d @ [?s], fCoalesce := False, fInternalEdit := True\<rparr>"
  have ne: "fUndo d \<noteq> []" using assms(2) by (auto simp: rows_before_def)
  then have here: "can_row ?s (row_at d)" "c = step_row ?s (row_at d)" "cs = line step_row (rev (butlast (fUndo d))) c"
      "line_ok can_row step_row (rev (butlast (fUndo d))) c"
    using assms ne by (auto simp: rows_kept_def rows_before_def rev_snoc_simps)
  obtain e where e: "undo_one ?s ?d = Some e" "paras_ok (fParas e)" "cells (fParas e) = c" "fUndo e = butlast (fUndo d)"
    using undo_one_row[of ?s ?d] here(1,2) assms(1) by (auto simp: rows_kept_def row_at_def)
  from Undo_unfold[OF ne e(1,4)] e here(3,4) assms(1) show ?thesis
    by (auto simp: rows_kept_def rows_before_def row_at_def)
qed

section \<open>Edits\<close>

text \<open>The edits that are one step each: what lies in the document, and does not join the last step.\<close>

inductive writer_edit :: "writer \<Rightarrow> writer \<Rightarrow> bool" where
  inserted: "t \<noteq> [] \<Longrightarrow> newline \<notin> set t \<Longrightarrow> off \<le> Length (fParas d) \<Longrightarrow> \<not> joins_last off t d \<Longrightarrow> writer_edit d (Insert off t fo d)"
| para_split: "off \<le> Length (fParas d) \<Longrightarrow> writer_edit d (SplitPara off d)"
| removed: "0 < n \<Longrightarrow> off + n \<le> Length (fParas d) \<Longrightarrow> Remove off n d = Some d' \<Longrightarrow> writer_edit d d'"
| formatted: "0 < n \<Longrightarrow> off + n \<le> Length (fParas d) \<Longrightarrow> ApplyFormat off n f d = Some d' \<Longrightarrow> writer_edit d d'"
| para_formatted: "0 \<le> i \<Longrightarrow> i < int (length (fParas d)) \<Longrightarrow> writer_edit d (SetParaFormat i f d)"

text \<open>What an edit pushes: one step that names the row before, on a document that is sound after.\<close>

definition pushes :: "undo_step \<Rightarrow> writer \<Rightarrow> writer \<Rightarrow> bool" where
  "pushes s d d' \<longleftrightarrow> fUndo d' = push_capped 512 s (fUndo d) \<and> fRedo d' = [] \<and> fInternalEdit d' = fInternalEdit d \<and> paras_ok (fParas d')
     \<and> can_row s (row_at d') \<and> step_row s (row_at d') = row_at d"

lemma PushUndo_pushes: "\<not> fInternalEdit d \<Longrightarrow> fUndo (PushUndo s d) = push_capped 512 s (fUndo d)" "\<not> fInternalEdit d \<Longrightarrow> fRedo (PushUndo s d) = []"
  by (simp_all add: PushUndo_def)

lemma new_step_simps [simp]:
  "kind (new_step k off n) = k" "step_offset (new_step k off n) = off" "step_length (new_step k off n) = n"
  by (simp_all add: new_step_def)

lemma inserted_pushes:
  assumes "paras_ok (fParas d)" and "\<not> fInternalEdit d" and "t \<noteq> []" and "newline \<notin> set t" and "off \<le> length (row_at d)" and "\<not> joins_last off t d"
  shows "pushes ((new_step INSERT off (length t))\<lparr>step_text := t, coalesce := fCoalesce d\<rparr>) d (Insert off t fo d)"
proof -
  have i: "Insert off t fo d = insert_piece off t fo d" using assms(3,4) by (simp add: Insert_def)
  obtain cs where cs: "paras_ok (fParas (Insert off t fo d))" "bytes cs = t"
    "cells (fParas (Insert off t fo d)) = take off (row_at d) @ cs @ drop off (row_at d)"
    using Insert_cells[OF assms(1) assms(5)[unfolded row_at_def], of t fo] by (auto simp: row_at_def)
  have "length cs = length t" using cs(2) by (metis bytes_simps(5))
  then have "can_row ((new_step INSERT off (length t))\<lparr>step_text := t, coalesce := fCoalesce d\<rparr>) (row_at (Insert off t fo d))"
    "step_row ((new_step INSERT off (length t))\<lparr>step_text := t, coalesce := fCoalesce d\<rparr>) (row_at (Insert off t fo d)) = row_at d"
    using assms(3,5) cs(2,3) by (simp_all add: can_row_def step_row_def row_at_def[of "Insert off t fo d"] del: bytes_simps(6,7))
  moreover have "\<not> joins_last off t (d\<lparr>fParas := ps\<rparr>)" for ps using assms(6) by (simp add: joins_last_def)
  then have "fUndo (Insert off t fo d) = push_capped 512 ((new_step INSERT off (length t))\<lparr>step_text := t, coalesce := fCoalesce d\<rparr>) (fUndo d)"
    "fRedo (Insert off t fo d) = []" "fInternalEdit (Insert off t fo d) = fInternalEdit d"
    using assms(2) unfolding i insert_piece_def by (simp_all add: Let_def PushUndo_pushes split: prod.split)
  ultimately show ?thesis using cs(1) by (simp add: pushes_def)
qed

lemma split_pushes:
  assumes "paras_ok (fParas d)" and "\<not> fInternalEdit d" and "off \<le> length (row_at d)"
  shows "pushes ((new_step INSERT off 1)\<lparr>step_text := [newline]\<rparr>) d (SplitPara off d)"
proof -
  have row: "row_at (SplitPara off d) = take off (row_at d) @ None # drop off (row_at d)" "paras_ok (fParas (SplitPara off d))"
    using SplitPara_cells[OF assms(1) assms(3)[unfolded row_at_def]] by (simp_all add: row_at_def)
  have "fUndo (SplitPara off d) = push_capped 512 ((new_step INSERT off 1)\<lparr>step_text := [newline]\<rparr>) (fUndo d)"
    "fRedo (SplitPara off d) = []" "fInternalEdit (SplitPara off d) = fInternalEdit d"
    using assms(2) unfolding SplitPara_def by (simp_all add: Let_def PushUndo_pushes split: prod.split)
  then show ?thesis using row assms(3) by (simp add: pushes_def can_row_def step_row_def)
qed

lemma removed_pushes:
  assumes "paras_ok (fParas d)" and "\<not> fInternalEdit d" and "0 < n" and "off + n \<le> length (row_at d)"
  shows "\<exists>s d'. Remove off n d = Some d' \<and> pushes s d d' \<and> kind s = REMOVE \<and> step_offset s = off \<and> step_length s = n
    \<and> step_text s = bytes (take n (drop off (row_at d)))"
proof -
  let ?W = "take n (drop off (row_at d))"
  obtain ps saved imgs where r: "paras_ok ps" "cells ps = take off (row_at d) @ drop (off + n) (row_at d)" "covers 0 ?W saved"
    "Remove off n d = Some (PushUndo ((new_step REMOVE off n)\<lparr>step_text := bytes ?W, step_runs := saved, step_images := imgs\<rparr>) (d\<lparr>fParas := ps\<rparr>))"
    using Remove_cells[OF assms(1,3) assms(4)[unfolded row_at_def]] by (auto simp: row_at_def)
  have W: "row_of (bytes ?W) saved = ?W"
    using row_of_covers[OF _ r(3)] clean_of[OF assms(1)] by (simp add: clean_part row_at_def del: bytes_simps(6,7))
  let ?s = "(new_step REMOVE off n)\<lparr>step_text := bytes ?W, step_runs := saved, step_images := imgs\<rparr>"
  let ?e = "PushUndo ?s (d\<lparr>fParas := ps\<rparr>)"
  have row: "row_at ?e = take off (row_at d) @ drop (off + n) (row_at d)" using r(2) by (simp add: row_at_def)
  have "take off (row_at d) @ ?W @ drop (off + n) (row_at d) = row_at d"
    by (metis append_take_drop_id drop_drop add.commute)
  then have "step_row ?s (row_at ?e) = row_at d" using assms(4) W unfolding row by (simp add: step_row_def del: bytes_simps(6,7))
  moreover have "can_row ?s (row_at ?e)" using W r(3) assms(3,4) unfolding row by (simp add: can_row_def del: bytes_simps(6,7))
  ultimately have "pushes ?s d ?e" using r(1) assms(2) by (simp add: pushes_def PushUndo_pushes)
  then show ?thesis using r(4) by (intro exI[of _ ?s] exI[of _ ?e]) simp
qed

lemma formatted_pushes:
  assumes "paras_ok (fParas d)" and "\<not> fInternalEdit d" and "0 < n" and "off + n \<le> length (row_at d)"
  shows "\<exists>s d'. ApplyFormat off n f d = Some d' \<and> pushes s d d' \<and> kind s = FORMAT \<and> shape (row_at d') = shape (row_at d)"
proof -
  let ?W = "take n (drop off (row_at d))"
  obtain ps saved where r: "paras_ok ps" "cells ps = take off (row_at d) @ restyle f ?W @ drop (off + n) (row_at d)" "covers 0 ?W saved"
    "ApplyFormat off n f d = Some (PushUndo ((new_step FORMAT off n)\<lparr>step_runs := saved\<rparr>) (d\<lparr>fParas := ps\<rparr>))"
    using ApplyFormat_cells[OF assms(1,3) assms(4)[unfolded row_at_def], of f] by (auto simp: row_at_def)
  let ?s = "(new_step FORMAT off n)\<lparr>step_runs := saved\<rparr>"
  let ?e = "PushUndo ?s (d\<lparr>fParas := ps\<rparr>)"
  have row: "row_at ?e = take off (row_at d) @ restyle f ?W @ drop (off + n) (row_at d)" using r(2) by (simp add: row_at_def)
  have whole: "take off (row_at d) @ ?W @ drop (off + n) (row_at d) = row_at d"
    by (metis append_take_drop_id drop_drop add.commute)
  have window: "bytes (take n (drop off (row_at ?e))) = bytes ?W"
    unfolding row using assms(4) by (simp del: bytes_simps(6,7))
  have W: "row_of (bytes ?W) saved = ?W"
    using row_of_covers[OF _ r(3)] clean_of[OF assms(1)] by (simp add: clean_part row_at_def del: bytes_simps(6,7))
  have "step_row ?s (row_at ?e) = take off (row_at ?e) @ ?W @ drop (off + n) (row_at ?e)"
    using W window by (simp add: step_row_def del: bytes_simps(6,7))
  also have "\<dots> = row_at d" using whole assms(4) unfolding row by simp
  finally have "step_row ?s (row_at ?e) = row_at d" .
  moreover have "can_row ?s (row_at ?e)"
    using W window r(3) assms(3,4) unfolding can_row_def row by (simp del: bytes_simps(6,7))
  ultimately have "pushes ?s d ?e" using r(1) assms(2) by (simp add: pushes_def PushUndo_pushes)
  moreover have "shape (row_at ?e) = shape (row_at d)"
    unfolding row by (metis shape_simps(3,5) whole)
  ultimately show ?thesis using r(4) by (intro exI[of _ ?s] exI[of _ ?e]) simp
qed

lemma SetParaFormat_pushes:
  assumes "paras_ok (fParas d)" and "\<not> fInternalEdit d" and "0 \<le> i" and "i < int (length (fParas d))"
  shows "\<exists>s. pushes s d (SetParaFormat i f d) \<and> kind s = PARAFORMAT"
proof -
  let ?q = "(fParas d ! nat i)\<lparr>format := f, revision := revision (fParas d ! nat i) + 1\<rparr>"
  have "nat i < length (fParas d)" using assms(3,4) by simp
  moreover have "para_cells ?q = para_cells (fParas d ! nat i)" by (simp add: para_cells_def)
  moreover have "para_ok ?q" using assms(1) calculation(1) by (simp add: paras_ok_def para_ok_def)
  ultimately have "paras_ok ((fParas d)[nat i := ?q])" "cells ((fParas d)[nat i := ?q]) = cells (fParas d)"
    using paras_ok_update[OF assms(1)] cells_update by auto
  then have "pushes ((new_step PARAFORMAT (nat i) 0)\<lparr>step_format := format (fParas d ! nat i)\<rparr>) d (SetParaFormat i f d)"
    using assms(2-4) by (simp add: pushes_def SetParaFormat_def Let_def PushUndo_pushes can_row_def step_row_def row_at_def)
  then show ?thesis by (intro exI[of _ "(new_step PARAFORMAT (nat i) 0)\<lparr>step_format := format (fParas d ! nat i)\<rparr>"]) simp
qed

lemma pushes_kept:
  assumes "rows_kept d" and "pushes s d d'"
  shows "rows_kept d' \<and> rows_before d' = take 512 (row_at d # rows_before d)"
proof -
  have cap: "length (fUndo d) \<le> 512" using assms(1) by (simp add: rows_kept_def)
  have rev: "rev (fUndo d') = take 512 (s # rev (fUndo d))" using assms(2) rev_push_capped[OF cap] by (simp add: pushes_def)
  have "line_ok can_row step_row (s # rev (fUndo d)) (row_at d')" "line step_row (s # rev (fUndo d)) (row_at d') = row_at d # rows_before d"
    using assms by (simp_all add: rows_kept_def pushes_def rows_before_def)
  then show ?thesis
    using assms length_push_capped[OF cap, of s] rev line_ok_take[of can_row step_row "s # rev (fUndo d)" "row_at d'" 512]
      line_take[of step_row 512 "s # rev (fUndo d)" "row_at d'"]
    by (simp add: rows_kept_def pushes_def rows_before_def)
qed

lemma writer_edit_pushes:
  assumes "writer_edit d d'" and "paras_ok (fParas d)" and "\<not> fInternalEdit d"
  shows "\<exists>s. pushes s d d'"
  using assms(1)
proof cases
  case (inserted t off fo)
  then show ?thesis using inserted_pushes[OF assms(2,3) inserted(2,3)] Length_cells[OF assms(2)] by (auto simp: row_at_def)
next
  case (para_split off)
  then show ?thesis using split_pushes[OF assms(2,3)] Length_cells[OF assms(2)] by (auto simp: row_at_def)
next
  case (removed n off)
  have "off + n \<le> length (row_at d)" using removed(2) Length_cells[OF assms(2)] by (simp add: row_at_def)
  from removed_pushes[OF assms(2,3) removed(1) this] removed(3) show ?thesis by auto
next
  case (formatted n off f)
  have "off + n \<le> length (row_at d)" using formatted(2) Length_cells[OF assms(2)] by (simp add: row_at_def)
  from formatted_pushes[OF assms(2,3) formatted(1) this, of f] formatted(3) show ?thesis by auto
next
  case (para_formatted i f)
  then show ?thesis using SetParaFormat_pushes[OF assms(2,3)] by blast
qed

interpretation writer_rows: undo_line rows_kept row_at rows_before "\<lambda>d. the (Undo d)" writer_edit 512
proof unfold_locales
  fix d d' c cs
  show "rows_before d = [] \<Longrightarrow> the (Undo d) = d" by (simp add: rows_before_def Undo_def)
  show "rows_kept d \<Longrightarrow> rows_before d = c # cs
      \<Longrightarrow> rows_kept (the (Undo d)) \<and> row_at (the (Undo d)) = c \<and> rows_before (the (Undo d)) = cs"
    using Undo_row by fastforce
  show "rows_kept d \<Longrightarrow> writer_edit d d' \<Longrightarrow> rows_kept d' \<and> rows_before d' = take 512 (row_at d # rows_before d)"
    using writer_edit_pushes pushes_kept by (metis rows_kept_def)
qed

text \<open>Typing that joins the last step: the row it leads back to is the one that step led back to.\<close>

lemma typed_on:
  assumes "rows_kept d" and "joins_last off t d" and "newline \<notin> set t" and "off \<le> length (row_at d)"
  shows "rows_kept (Insert off t fo d) \<and> rows_before (Insert off t fo d) = rows_before d"
proof -
  have ok: "paras_ok (fParas d)" using assms(1) by (simp add: rows_kept_def)
  have "t \<noteq> []" using assms(2) by (auto simp: joins_last_def IsSingleUTF8Char_def)
  then have i: "Insert off t fo d = insert_piece off t fo d" using assms(3) by (simp add: Insert_def)
  obtain cs where cs: "paras_ok (fParas (Insert off t fo d))" "bytes cs = t"
    "cells (fParas (Insert off t fo d)) = take off (row_at d) @ cs @ drop off (row_at d)"
    using Insert_cells[OF ok assms(4)[unfolded row_at_def], of t fo] by (auto simp: row_at_def)
  then have row: "row_at (Insert off t fo d) = take off (row_at d) @ cs @ drop off (row_at d)" by (simp add: row_at_def)
  have ncs: "length cs = length t" using cs(2) by (metis bytes_simps(5))
  let ?b = "last (fUndo d)"
  let ?c = "?b\<lparr>step_length := step_length ?b + length t, step_text := step_text ?b @ t\<rparr>"
  have b: "fUndo d \<noteq> []" "kind ?b = INSERT" "step_offset ?b + step_length ?b = off" using assms(2) by (simp_all add: joins_last_def)
  have "joins_last off t (d\<lparr>fParas := ps\<rparr>)" for ps using assms(2) by (simp add: joins_last_def)
  then have fields: "fUndo (Insert off t fo d) = butlast (fUndo d) @ [?c]" "fInternalEdit (Insert off t fo d) = fInternalEdit d"
    unfolding i insert_piece_def by (simp_all add: Let_def split: prod.split)
  have "can_row ?b (row_at d)" "line_ok can_row step_row (rev (butlast (fUndo d))) (step_row ?b (row_at d))"
    using assms(1) rev_snoc_simps[OF b(1)] by (simp_all add: rows_kept_def)
  moreover have "take (step_length ?b + length t) (drop (step_offset ?b) (row_at (Insert off t fo d)))
      = take (step_length ?b) (drop (step_offset ?b) (row_at d)) @ cs"
    using b(3) assms(4) ncs unfolding row by (auto simp: take_drop add.commute)
  then have "can_row ?c (row_at (Insert off t fo d))" "step_row ?c (row_at (Insert off t fo d)) = step_row ?b (row_at d)"
    using calculation(1) b(2,3) assms(4) ncs cs(2) unfolding row by (auto simp: can_row_def step_row_def simp del: bytes_simps(6,7))
  moreover have "length (butlast (fUndo d)) < 512" using assms(1) b(1) by (cases "fUndo d") (auto simp: rows_kept_def)
  ultimately show ?thesis
    using assms(1) cs(1) fields unfolding rows_kept_def rows_before_def rev_snoc_simps[OF b(1)] by simp
qed

section \<open>Rows of edits\<close>

text \<open>Edits one after the other, with the rows before each; typing may join the last step.\<close>

inductive writer_edits :: "writer \<Rightarrow> cell list list \<Rightarrow> writer \<Rightarrow> bool" where
  edits_none: "writer_edits d [] d"
| edits_more: "writer_edits d before d' \<Longrightarrow> writer_edit d' d'' \<Longrightarrow> writer_edits d (row_at d' # before) d''"
| edits_typed: "writer_edits d before d' \<Longrightarrow> joins_last off t d' \<Longrightarrow> newline \<notin> set t \<Longrightarrow> off \<le> Length (fParas d')
    \<Longrightarrow> writer_edits d before (Insert off t fo d')"

lemma writer_edits_line: "writer_edits d before d' \<Longrightarrow> rows_kept d \<Longrightarrow> writer_rows.edits d before d' \<and> rows_kept d'"
proof (induction rule: writer_edits.induct)
  case (edits_more d before d' d'')
  then show ?case using writer_rows.edit_past by (blast intro: writer_rows.edits.intros)
next
  case (edits_typed d before d' off t fo)
  then have "rows_kept (Insert off t fo d') \<and> rows_before (Insert off t fo d') = rows_before d'"
    using typed_on[of d' off t fo] Length_cells[of "fParas d'"] by (simp add: rows_kept_def row_at_def)
  with edits_typed show ?case using writer_rows.edits_joined by blast
qed (auto intro: writer_rows.edits.intros)

fun undoes :: "nat \<Rightarrow> writer \<Rightarrow> writer option" where
  "undoes 0 d = Some d"
| "undoes (Suc n) d = (case Undo d of None \<Rightarrow> None | Some d \<Rightarrow> undoes n d)"

lemma undoes_rows: "rows_kept d \<Longrightarrow> undoes n d = Some (((\<lambda>d. the (Undo d)) ^^ n) d)"
proof (induction n arbitrary: d)
  case (Suc n)
  have "\<exists>d'. Undo d = Some d' \<and> rows_kept d'"
    using Undo_row[OF Suc.prems] Suc.prems by (cases "rows_before d") (auto simp: rows_before_def Undo_def)
  then show ?case using Suc.IH by (auto simp: funpow_Suc_right simp del: funpow.simps(2))
qed simp

lemma edits_then_undoes:
  assumes "writer_edits d before d'" and "rows_kept d" and "n \<le> length before" and "n \<le> 512"
  shows "\<exists>e. undoes n d' = Some e \<and> row_at e = (row_at d' # before) ! n"
  using writer_edits_line[OF assms(1,2)] undoes_rows writer_rows.undo_edits[of d before d' n] assms(2-4)
  by (auto simp: rows_kept_def rows_before_def)

section \<open>Properties\<close>

lemma new_writer_kept: "rows_kept (new_writer fam)"
  by (simp add: rows_kept_def new_writer_def paras_ok_def para_ok_def new_para_def)


lemma Remove_row:
  assumes "paras_ok (fParas d)"
  shows "\<exists>d'. Remove off n d = Some d' \<and> paras_ok (fParas d') \<and> row_at d' = take off (row_at d) @ drop (off + n) (row_at d)"
proof (cases "n = 0 \<or> Length (fParas d) \<le> off")
  case True
  then have "take off (row_at d) @ drop (off + n) (row_at d) = row_at d" "Remove off n d = Some d"
    using Length_cells[OF assms] by (auto simp: row_at_def Remove_def)
  then show ?thesis using assms by simp
next
  case False
  define m where "m = (if off + n > Length (fParas d) then Length (fParas d) - off else n)"
  have m: "0 < m" "off + m \<le> length (row_at d)" "drop (off + m) (row_at d) = drop (off + n) (row_at d)"
    using False Length_cells[OF assms] by (auto simp: m_def row_at_def)
  have "Remove off n d = Remove off m d" using False m(1) by (auto simp: Remove_def m_def Let_def)
  then show ?thesis using Remove_cells[OF assms m(1) m(2)[unfolded row_at_def]] m(3) by (auto simp: row_at_def)
qed

text \<open>
  C5 On a document whose runs tile their paragraphs, every edit is the plain operation on the one row
  of cells, a byte with its format or the end of a paragraph: an insertion puts its text in, with the
  format it is given, whatever newlines it holds; a removal cuts the range out, clipped to the document;
  formatting a range inside the document gives each byte of it the format and touches no other; a split
  puts one paragraph end in. None of them loops for ever, and the runs still tile the paragraphs.
\<close>

theorem edits_on_the_row:
  assumes "paras_ok (fParas d)" and "off \<le> Length (fParas d)"
  shows "(\<exists>cs. paras_ok (fParas (Insert off t fo d)) \<and> bytes cs = t \<and> (\<forall>f. fo = Some f \<longrightarrow> cs = styled f t)
        \<and> row_at (Insert off t fo d) = take off (row_at d) @ cs @ drop off (row_at d))
    \<and> (\<exists>d'. Remove off n d = Some d' \<and> paras_ok (fParas d') \<and> row_at d' = take off (row_at d) @ drop (off + n) (row_at d))
    \<and> (off + n \<le> Length (fParas d) \<longrightarrow> (\<exists>d'. ApplyFormat off n f d = Some d' \<and> paras_ok (fParas d')
        \<and> row_at d' = take off (row_at d) @ restyle f (take n (drop off (row_at d))) @ drop (off + n) (row_at d)))
    \<and> paras_ok (fParas (SplitPara off d)) \<and> row_at (SplitPara off d) = take off (row_at d) @ None # drop off (row_at d)"
proof -
  have off: "off \<le> length (cells (fParas d))" using assms Length_cells by simp
  have "\<exists>d'. ApplyFormat off n f d = Some d' \<and> paras_ok (fParas d')
        \<and> row_at d' = take off (row_at d) @ restyle f (take n (drop off (row_at d))) @ drop (off + n) (row_at d)"
    if "off + n \<le> Length (fParas d)"
  proof (cases "n = 0")
    case True
    then show ?thesis using assms(1) by (simp add: ApplyFormat_def)
  next
    case False
    then show ?thesis using ApplyFormat_cells[OF assms(1), of n off f] that Length_cells[OF assms(1)] by (auto simp: row_at_def)
  qed
  with Insert_cells[OF assms(1) off, of t fo] SplitPara_cells[OF assms(1) off] Remove_row[OF assms(1), of off n]
  show ?thesis by (simp add: row_at_def)
qed

definition two_lines :: writer where
  "two_lines = SplitPara 2 (Insert 0 ''abc'' None (new_writer ''Sans''))"

lemma two_lines_ok: "paras_ok (fParas two_lines)" "Length (fParas two_lines) = 4" "bytes (row_at two_lines) = ''ab'' @ newline # ''c''"
  by code_simp+

theorem edits_on_the_row_witness:
  "\<exists>d'. Remove 1 2 two_lines = Some d' \<and> row_at d' = take 1 (row_at two_lines) @ drop 3 (row_at two_lines)"
  using edits_on_the_row[of two_lines 1 "[]" None 2 "MakeDefaultFormat []"] two_lines_ok by (auto simp: numeral_3_eq_3)

text \<open>
  C6 Undoing leads back. After any row of edits that lie in the document (insertions, splits,
  removals, formatting, paragraph formats, and typing that joins the step before), from any document
  whose steps are sound, undoing n of them returns and the document has exactly the bytes, formats and
  paragraph ends it had before the n-th last edit; at most 512 are kept.
\<close>

theorem edits_undone:
  assumes "writer_edits d before d'" and "rows_kept d" and "n \<le> length before" and "n \<le> 512"
  shows "\<exists>e. undoes n d' = Some e \<and> row_at e = (row_at d' # before) ! n \<and> rows_kept d'"
  using edits_then_undoes[OF assms] writer_edits_line[OF assms(1,2)] by blast

lemma two_lines_edits: "writer_edits (new_writer ''Sans'') [row_at (Insert 0 ''abc'' None (new_writer ''Sans'')), row_at (new_writer ''Sans'')] two_lines"
proof -
  have "Length (fParas (Insert 0 ''abc'' None (new_writer ''Sans''))) = 3" by code_simp
  then have "writer_edit (Insert 0 ''abc'' None (new_writer ''Sans'')) two_lines"
    unfolding two_lines_def by (intro writer_edit.para_split) simp
  moreover have "writer_edit (new_writer ''Sans'') (Insert 0 ''abc'' None (new_writer ''Sans''))"
    by (rule writer_edit.inserted) (simp_all add: newline_def joins_last_def new_writer_def)
  ultimately show ?thesis by (blast intro: writer_edits.intros)
qed

theorem edits_undone_witness: "\<exists>e. undoes 2 two_lines = Some e \<and> row_at e = row_at (new_writer ''Sans'')"
  using edits_undone[OF two_lines_edits new_writer_kept, of 2] by auto

end
