(* ===== verification/WriterRedo.thy ===== *)
theory WriterRedo
  imports WriterLine
begin

text \<open>
  Undoing and redoing ProseWriter's document, on its text: every undo step and every redo step names
  the text it leads to, and both ways lie on one line of texts. A redo does not always bring back the
  formats, so the line is one of texts and not of rows.
\<close>

section \<open>Steps on the text\<close>

definition text_at :: "writer \<Rightarrow> string" where
  "text_at d = bytes (row_at d)"

definition step_back :: "undo_step \<Rightarrow> string \<Rightarrow> string" where
  "step_back s t =
     (case kind s of INSERT \<Rightarrow> take (step_offset s) t @ drop (step_offset s + step_length s) t
      | REMOVE \<Rightarrow> take (step_offset s) t @ step_text s @ drop (step_offset s) t
      | _ \<Rightarrow> t)"

definition step_on :: "undo_step \<Rightarrow> string \<Rightarrow> string" where
  "step_on s t =
     (case kind s of INSERT \<Rightarrow> take (step_offset s) t @ step_text s @ drop (step_offset s) t
      | REMOVE \<Rightarrow> take (step_offset s) t @ drop (step_offset s + step_length s) t
      | _ \<Rightarrow> t)"

definition runs_fit :: "undo_step \<Rightarrow> bool" where
  "runs_fit s \<longleftrightarrow> (\<forall>r \<in> set (step_runs s). 0 < len r \<longrightarrow> run_end r \<le> step_length s)"

definition has_text :: "undo_step \<Rightarrow> string \<Rightarrow> bool" where
  "has_text s t \<longleftrightarrow> 0 < step_length s \<and> step_offset s + step_length s \<le> length t
     \<and> take (step_length s) (drop (step_offset s) t) = step_text s"

definition takes_text :: "undo_step \<Rightarrow> string \<Rightarrow> bool" where
  "takes_text s t \<longleftrightarrow> 0 < step_length s \<and> step_offset s \<le> length t \<and> length (step_text s) = step_length s"

definition can_back :: "undo_step \<Rightarrow> string \<Rightarrow> bool" where
  "can_back s t \<longleftrightarrow>
     (case kind s of INSERT \<Rightarrow> has_text s t
      | REMOVE \<Rightarrow> takes_text s t \<and> runs_fit s
      | FORMAT \<Rightarrow> step_offset s + step_length s \<le> length t \<and> runs_fit s
      | PARAFORMAT \<Rightarrow> True)"

definition can_on :: "undo_step \<Rightarrow> string \<Rightarrow> bool" where
  "can_on s t \<longleftrightarrow>
     (case kind s of INSERT \<Rightarrow> takes_text s t
      | REMOVE \<Rightarrow> has_text s t \<and> runs_fit s
      | FORMAT \<Rightarrow> step_offset s + step_length s \<le> length t \<and> runs_fit s
      | PARAFORMAT \<Rightarrow> True)"

lemma has_text_cut: "has_text s t \<Longrightarrow> t = take (step_offset s) t @ step_text s @ drop (step_offset s + step_length s) t"
  unfolding has_text_def by (metis append_take_drop_id add.commute drop_drop)

lemma has_text_out:
  assumes "has_text s t"
  shows "takes_text s (take (step_offset s) t @ drop (step_offset s + step_length s) t)"
    "take (step_offset s) (take (step_offset s) t @ drop (step_offset s + step_length s) t) @ step_text s
      @ drop (step_offset s) (take (step_offset s) t @ drop (step_offset s + step_length s) t) = t"
proof -
  have "step_text s = take (step_length s) (drop (step_offset s) t)" using assms by (simp add: has_text_def)
  then have l: "length (step_text s) = step_length s" "length (take (step_offset s) t) = step_offset s"
    using assms by (auto simp: has_text_def min_def)
  show "takes_text s (take (step_offset s) t @ drop (step_offset s + step_length s) t)"
    using assms l(1) by (auto simp: has_text_def takes_text_def)
  show "take (step_offset s) (take (step_offset s) t @ drop (step_offset s + step_length s) t) @ step_text s
      @ drop (step_offset s) (take (step_offset s) t @ drop (step_offset s + step_length s) t) = t"
    using has_text_cut[OF assms] l(2) by simp
qed

lemma takes_text_in:
  assumes "takes_text s t"
  shows "has_text s (take (step_offset s) t @ step_text s @ drop (step_offset s) t)"
    "take (step_offset s) (take (step_offset s) t @ step_text s @ drop (step_offset s) t)
      @ drop (step_offset s + step_length s) (take (step_offset s) t @ step_text s @ drop (step_offset s) t) = t"
  using assms by (simp_all add: has_text_def takes_text_def)

lemma step_ways:
  "can_back s t \<Longrightarrow> can_on s (step_back s t) \<and> step_on s (step_back s t) = t"
  "can_on s t \<Longrightarrow> can_back s (step_on s t) \<and> step_back s (step_on s t) = t"
  by (cases "kind s"; simp only: can_back_def can_on_def step_back_def step_on_def step_kind.case has_text_out takes_text_in simp_thms)+

lemma row_text:
  assumes "can_row s C"
  shows "can_back s (bytes C)" "step_back s (bytes C) = bytes (step_row s C)"
proof -
  have "runs_fit s" if "covers 0 W (step_runs s)" "length W = step_length s" for W
    using covers_run_end[OF that(1)] that(2) by (simp add: runs_fit_def)
  with assms show "can_back s (bytes C)"
    by (cases "kind s") (force simp: can_row_def can_back_def has_text_def takes_text_def)+
  have whole: "take o' C @ take n (drop o' C) @ drop (o' + n) C = C" for o' n
    by (metis append_take_drop_id drop_drop add.commute)
  show "step_back s (bytes C) = bytes (step_row s C)"
  proof (cases "kind s")
    case FORMAT
    then have "bytes (step_row s C) = bytes (take (step_offset s) C @ take (step_length s) (drop (step_offset s) C)
        @ drop (step_offset s + step_length s) C)"
      by (simp add: step_row_def del: bytes_simps(6,7))
    then show ?thesis using FORMAT unfolding whole by (simp add: step_back_def)
  qed (simp_all add: step_back_def step_row_def)
qed

section \<open>One step undone and redone\<close>

lemma runs_fit_now: "covers 0 (take (step_length s) (drop (step_offset s) C)) now \<Longrightarrow> runs_fit (s\<lparr>step_runs := now\<rparr>)"
  using covers_run_end by (fastforce simp: runs_fit_def)

lemma undo_one_text:
  assumes "can_back s (text_at d)" and "paras_ok (fParas d)" and "fInternalEdit d" and "\<not> fCoalesce d" and "fRedo d = rs @ [s]"
  shows "\<exists>d' s'. undo_one s d = Some d' \<and> paras_ok (fParas d') \<and> text_at d' = step_back s (text_at d) \<and> fUndo d' = fUndo d
    \<and> fRedo d' = rs @ [s'] \<and> can_on s' (step_back s (text_at d)) \<and> step_on s' (step_back s (text_at d)) = text_at d"
proof (cases "kind s")
  case INSERT
  then show ?thesis
    using Remove_internal[OF assms(2) _ _ assms(3), of "step_length s" "step_offset s"] assms(1,5) step_ways(1)[OF assms(1)]
    by (fastforce simp: can_back_def has_text_def step_back_def undo_one_def framed_def text_at_def row_at_def)
next
  case REMOVE
  from assms(1) REMOVE have can: "0 < step_length s" "step_offset s \<le> length (cells (fParas d))" "length (step_text s) = step_length s"
      "\<forall>r \<in> set (step_runs s). 0 < len r \<longrightarrow> run_end r \<le> step_length s"
    by (simp_all add: can_back_def takes_text_def runs_fit_def text_at_def row_at_def)
  from undo_remove[OF REMOVE assms(2) can(2,1,3,4) assms(3,4)] obtain d' cs where
    "undo_one s d = Some d'" "framed d d'" "paras_ok (fParas d')" "bytes cs = step_text s"
      "cells (fParas d') = take (step_offset s) (cells (fParas d)) @ cs @ drop (step_offset s) (cells (fParas d))" by blast
  then show ?thesis using REMOVE assms(5) step_ways(1)[OF assms(1)]
    by (auto simp: step_back_def framed_def text_at_def row_at_def)
next
  case FORMAT
  from assms(1) FORMAT have can: "step_offset s + step_length s \<le> length (cells (fParas d))"
      "\<forall>r \<in> set (step_runs s). 0 < len r \<longrightarrow> run_end r \<le> step_length s"
    by (simp_all add: can_back_def runs_fit_def text_at_def row_at_def)
  from undo_format[OF FORMAT assms(2) can assms(3)] obtain d' now where
    d': "undo_one s d = Some d'" "framed (d\<lparr>fRedo := butlast (fRedo d) @ [(last (fRedo d))\<lparr>step_runs := now\<rparr>]\<rparr>) d'"
      "covers 0 (take (step_length s) (drop (step_offset s) (cells (fParas d)))) now" "paras_ok (fParas d')"
      "shape (cells (fParas d')) = shape (cells (fParas d))"
    by blast
  have "text_at d' = text_at d" using shape_bytes[OF d'(5)] by (simp add: text_at_def row_at_def)
  then show ?thesis using d' runs_fit_now[OF d'(3)] FORMAT assms(5) can(1)
    by (intro exI[of _ d'] exI[of _ "s\<lparr>step_runs := now\<rparr>"]) (simp add: framed_def step_back_def step_on_def can_on_def text_at_def row_at_def)
next
  case PARAFORMAT
  then show ?thesis using undo_paraformat(1)[OF PARAFORMAT assms(2)] assms(5)
    by (auto simp: step_back_def step_on_def can_on_def framed_def text_at_def row_at_def)
qed

lemma redo_one_text:
  assumes "can_on s (text_at d)" and "paras_ok (fParas d)" and "fInternalEdit d" and "\<not> fCoalesce d"
  shows "\<exists>d' s'. redo_one s d = Some (s', d') \<and> framed d d' \<and> paras_ok (fParas d') \<and> text_at d' = step_on s (text_at d)
    \<and> can_back s' (step_on s (text_at d)) \<and> step_back s' (step_on s (text_at d)) = text_at d"
proof (cases "kind s")
  case INSERT
  then have "step_offset s \<le> length (cells (fParas d))"
    using assms(1) by (simp add: can_on_def takes_text_def text_at_def row_at_def)
  with Insert_cells[OF assms(2) this, of "step_text s" None] obtain cs where
    "paras_ok (fParas (Insert (step_offset s) (step_text s) None d))" "bytes cs = step_text s"
    "cells (fParas (Insert (step_offset s) (step_text s) None d)) = take (step_offset s) (cells (fParas d)) @ cs @ drop (step_offset s) (cells (fParas d))"
    by blast
  then show ?thesis using INSERT Insert_framed[OF assms(3,4)] step_ways(2)[OF assms(1)]
    by (simp add: redo_one_def step_on_def text_at_def row_at_def)
next
  case REMOVE
  then show ?thesis
    using Remove_internal[OF assms(2) _ _ assms(3), of "step_length s" "step_offset s"] assms(1) step_ways(2)[OF assms(1)]
    by (fastforce simp: can_on_def has_text_def step_on_def redo_one_def text_at_def row_at_def)
next
  case FORMAT
  from assms(1) FORMAT have can: "step_offset s + step_length s \<le> length (cells (fParas d))"
      "\<forall>r \<in> set (step_runs s). 0 < len r \<longrightarrow> run_end r \<le> step_length s"
    by (simp_all add: can_on_def runs_fit_def text_at_def row_at_def)
  from redo_format[OF FORMAT assms(2) can assms(3)] obtain d' now where
    d': "redo_one s d = Some (s\<lparr>step_runs := now\<rparr>, d')" "framed d d'"
      "covers 0 (take (step_length s) (drop (step_offset s) (cells (fParas d)))) now" "paras_ok (fParas d')"
      "shape (cells (fParas d')) = shape (cells (fParas d))"
    by blast
  have "text_at d' = text_at d" using shape_bytes[OF d'(5)] by (simp add: text_at_def row_at_def)
  then show ?thesis using d' runs_fit_now[OF d'(3)] FORMAT can(1)
    by (simp add: step_back_def step_on_def can_back_def text_at_def row_at_def)
next
  case PARAFORMAT
  then show ?thesis using undo_paraformat(2)[OF PARAFORMAT assms(2)]
    by (fastforce simp: step_back_def step_on_def can_back_def text_at_def row_at_def)
qed

section \<open>The line of texts\<close>

definition texts_before :: "writer \<Rightarrow> string list" where
  "texts_before d = line step_back (rev (fUndo d)) (text_at d)"

text \<open>
  The texts that the next \<open>k\<close> redo steps lead to. Typing that joins the last step keeps the redo steps of
  a text that is gone (see below), so only so many of them belong to the line.
\<close>

definition texts_after :: "nat \<Rightarrow> writer \<Rightarrow> string list" where
  "texts_after k d = line step_on (take k (rev (fRedo d))) (text_at d)"

definition texts_kept :: "nat \<Rightarrow> writer \<Rightarrow> bool" where
  "texts_kept k d \<longleftrightarrow> paras_ok (fParas d) \<and> \<not> fInternalEdit d \<and> length (fUndo d) + length (fRedo d) \<le> 512 \<and> k \<le> length (fRedo d)
     \<and> line_ok can_back step_back (rev (fUndo d)) (text_at d) \<and> line_ok can_on step_on (take k (rev (fRedo d))) (text_at d)"

lemma length_texts: "length (texts_before d) = length (fUndo d)" "texts_kept k d \<Longrightarrow> length (texts_after k d) = k"
  by (simp_all add: texts_before_def texts_after_def texts_kept_def)

lemma Undo_text:
  assumes "texts_kept k d" and "texts_before d = c # cs"
  shows "\<exists>d'. Undo d = Some d' \<and> texts_kept (Suc k) d' \<and> text_at d' = c \<and> texts_before d' = cs
    \<and> texts_after (Suc k) d' = text_at d # texts_after k d"
proof -
  let ?s = "last (fUndo d)"
  let ?d = "d\<lparr>fUndo := butlast (fUndo d), fRedo := fRedo d @ [?s], fCoalesce := False, fInternalEdit := True\<rparr>"
  have ne: "fUndo d \<noteq> []" using assms(2) by (auto simp: texts_before_def)
  have same: "text_at ?d = text_at d" by (simp add: text_at_def row_at_def)
  have here: "can_back ?s (text_at d)" "c = step_back ?s (text_at d)" "cs = line step_back (rev (butlast (fUndo d))) c"
      "line_ok can_back step_back (rev (butlast (fUndo d))) c"
    using assms ne by (auto simp: texts_kept_def texts_before_def rev_snoc_simps)
  obtain e s' where e: "undo_one ?s ?d = Some e" "paras_ok (fParas e)" "text_at e = c" "fUndo e = butlast (fUndo d)"
      "fRedo e = fRedo d @ [s']" "can_on s' c" "step_on s' c = text_at d"
    using undo_one_text[of ?s ?d "fRedo d"] here(1,2) same assms(1) by (auto simp: texts_kept_def)
  let ?e = "e\<lparr>fCoalesce := True, fInternalEdit := False, fModified := True, fPlainTextValid := False\<rparr>"
  have now: "text_at ?e = c" using e(3) by (simp add: text_at_def row_at_def)
  have "length (fUndo d) = Suc (length (butlast (fUndo d)))" using ne by (cases "fUndo d") auto
  then have "texts_kept (Suc k) ?e" using e here(4) now assms(1) by (auto simp: texts_kept_def)
  moreover have "texts_before ?e = cs" "texts_after (Suc k) ?e = text_at d # texts_after k d"
    using e(4,5,7) now here(3) by (simp_all add: texts_before_def texts_after_def)
  ultimately show ?thesis using Undo_unfold[OF ne e(1,4)] now by simp
qed

lemma Redo_text:
  assumes "texts_kept (Suc k) d"
  shows "\<exists>d' c cs. texts_after (Suc k) d = c # cs \<and> Redo d = Some d' \<and> texts_kept k d' \<and> text_at d' = c \<and> texts_after k d' = cs
    \<and> texts_before d' = text_at d # texts_before d"
proof -
  let ?s = "last (fRedo d)"
  let ?d = "d\<lparr>fRedo := butlast (fRedo d), fCoalesce := False, fInternalEdit := True\<rparr>"
  have ne: "fRedo d \<noteq> []" using assms by (auto simp: texts_kept_def)
  then have rev: "rev (fRedo d) = ?s # rev (butlast (fRedo d))" by (metis append_butlast_last_id rev_eq_Cons_iff rev_rev_ident)
  have same: "text_at ?d = text_at d" by (simp add: text_at_def row_at_def)
  define c where "c = step_on ?s (text_at d)"
  have here: "can_on ?s (text_at d)" "texts_after (Suc k) d = c # line step_on (take k (rev (butlast (fRedo d)))) c"
      "line_ok can_on step_on (take k (rev (butlast (fRedo d)))) c"
    using assms by (auto simp: texts_kept_def texts_after_def rev c_def)
  obtain e s' where e: "redo_one ?s ?d = Some (s', e)" "paras_ok (fParas e)" "text_at e = c" "framed ?d e"
      "can_back s' c" "step_back s' c = text_at d"
    using redo_one_text[of ?s ?d] here(1) same assms by (auto simp: texts_kept_def c_def)
  let ?e = "e\<lparr>fCoalesce := True, fInternalEdit := False, fUndo := fUndo d @ [s'], fModified := True, fPlainTextValid := False\<rparr>"
  have now: "text_at ?e = c" using e(3) by (simp add: text_at_def row_at_def)
  have lists: "fUndo e = fUndo d" "fRedo e = butlast (fRedo d)" using e(4) by (simp_all add: framed_def)
  have redo: "Redo d = Some ?e" using ne e(1) lists by (simp add: Redo_def Let_def)
  have "length (fRedo d) = Suc (length (butlast (fRedo d)))" using ne by (cases "fRedo d") auto
  then have "texts_kept k ?e" using e here(3) now lists assms(1) by (auto simp: texts_kept_def)
  moreover have "texts_before ?e = text_at d # texts_before d"
    using e(6) lists now by (simp add: texts_before_def)
  moreover have "texts_after k ?e = line step_on (take k (rev (butlast (fRedo d)))) c"
    using lists now by (simp add: texts_after_def)
  ultimately show ?thesis using redo now here(2) by blast
qed

lemma pushes_texts:
  assumes "texts_kept k d" and "pushes s d d'"
  shows "texts_kept 0 d' \<and> texts_before d' = take 512 (text_at d # texts_before d)"
proof -
  have cap: "length (fUndo d) \<le> 512" using assms(1) by (simp add: texts_kept_def)
  have rev: "rev (fUndo d') = take 512 (s # rev (fUndo d))" using assms(2) rev_push_capped[OF cap] by (simp add: pushes_def)
  have "can_back s (text_at d')" "step_back s (text_at d') = text_at d"
    using row_text[of s "row_at d'"] assms(2) by (simp_all add: pushes_def text_at_def)
  then have "line_ok can_back step_back (s # rev (fUndo d)) (text_at d')" "line step_back (s # rev (fUndo d)) (text_at d') = text_at d # texts_before d"
    using assms by (simp_all add: texts_kept_def texts_before_def)
  then show ?thesis
    using assms length_push_capped[OF cap, of s] rev line_ok_take[of can_back step_back "s # rev (fUndo d)" "text_at d'" 512]
      line_take[of step_back 512 "s # rev (fUndo d)" "text_at d'"]
    by (simp add: texts_kept_def pushes_def texts_before_def)
qed

text \<open>Typing that joins the last step: the text that step leads back to stays, and no redo step is left on the line.\<close>

lemma grown_step:
  assumes "can_back s T" and "kind s = INSERT" and "step_offset s + step_length s = off"
  shows "can_back (s\<lparr>step_length := step_length s + length t, step_text := step_text s @ t\<rparr>) (take off T @ t @ drop off T)"
    and "step_back (s\<lparr>step_length := step_length s + length t, step_text := step_text s @ t\<rparr>) (take off T @ t @ drop off T) = step_back s T"
proof -
  have b: "0 < step_length s" "off \<le> length T" "take (step_length s) (drop (step_offset s) T) = step_text s"
    using assms by (auto simp: can_back_def has_text_def)
  have "drop (step_offset s) (take off T @ t @ drop off T) = step_text s @ t @ drop off T"
    using b(2) assms(3) by (auto simp flip: b(3) simp: drop_take)
  moreover have "length (step_text s) = step_length s" using b(2) assms(3) by (auto simp flip: b(3))
  ultimately show "can_back (s\<lparr>step_length := step_length s + length t, step_text := step_text s @ t\<rparr>) (take off T @ t @ drop off T)"
    using b assms(2,3) by (simp add: can_back_def has_text_def)
  show "step_back (s\<lparr>step_length := step_length s + length t, step_text := step_text s @ t\<rparr>) (take off T @ t @ drop off T) = step_back s T"
    using b(2) assms(2,3) by (auto simp: step_back_def)
qed

lemma typed_texts:
  assumes "texts_kept k d" and "joins_last off t d" and "newline \<notin> set t" and "off \<le> Length (fParas d)"
  shows "texts_kept 0 (Insert off t fo d) \<and> texts_before (Insert off t fo d) = texts_before d"
proof -
  have ok: "paras_ok (fParas d)" using assms(1) by (simp add: texts_kept_def)
  have "t \<noteq> []" using assms(2) by (auto simp: joins_last_def IsSingleUTF8Char_def)
  then have i: "Insert off t fo d = insert_piece off t fo d" using assms(3) by (simp add: Insert_def)
  have "off \<le> length (cells (fParas d))" using assms(4) Length_cells[OF ok] by simp
  then obtain cs where cs: "paras_ok (fParas (Insert off t fo d))" "bytes cs = t"
    "cells (fParas (Insert off t fo d)) = take off (cells (fParas d)) @ cs @ drop off (cells (fParas d))"
    using Insert_cells[OF ok, of off t fo] by auto
  then have typed: "text_at (Insert off t fo d) = take off (text_at d) @ t @ drop off (text_at d)" by (simp add: text_at_def row_at_def)
  let ?b = "last (fUndo d)"
  have b: "fUndo d \<noteq> []" "kind ?b = INSERT" "step_offset ?b + step_length ?b = off" using assms(2) by (simp_all add: joins_last_def)
  have "joins_last off t (d\<lparr>fParas := ps\<rparr>)" for ps using assms(2) by (simp add: joins_last_def)
  then have fields: "fUndo (Insert off t fo d) = butlast (fUndo d) @ [?b\<lparr>step_length := step_length ?b + length t, step_text := step_text ?b @ t\<rparr>]"
      "fInternalEdit (Insert off t fo d) = fInternalEdit d" "fRedo (Insert off t fo d) = fRedo d"
    unfolding i insert_piece_def by (simp_all add: Let_def split: prod.split)
  have "can_back ?b (text_at d)" "line_ok can_back step_back (rev (butlast (fUndo d))) (step_back ?b (text_at d))"
    using assms(1) rev_snoc_simps[OF b(1)] by (simp_all add: texts_kept_def)
  moreover note grown_step[OF calculation(1) b(2,3), of t]
  moreover have "length (fUndo d) = Suc (length (butlast (fUndo d)))" using b(1) by (cases "fUndo d") auto
  ultimately show ?thesis
    using assms(1) cs(1) fields typed unfolding texts_kept_def texts_before_def rev_snoc_simps[OF b(1)] by simp
qed

section \<open>The document as a history of texts\<close>

text \<open>The number of redo steps on the line goes with the document.\<close>

definition undo_at :: "nat \<times> writer \<Rightarrow> nat \<times> writer" where
  "undo_at = (\<lambda>(k, d). if fUndo d = [] then (k, d) else (Suc k, the (Undo d)))"

definition redo_at :: "nat \<times> writer \<Rightarrow> nat \<times> writer" where
  "redo_at = (\<lambda>(k, d). if k = 0 \<or> fRedo d = [] then (k, d) else (k - 1, the (Redo d)))"

definition kept_at :: "nat \<times> writer \<Rightarrow> bool" where
  "kept_at = (\<lambda>(k, d). texts_kept k d)"

interpretation writer_texts: undo_history kept_at "\<lambda>(k, d). text_at d" "\<lambda>(k, d). texts_before d"
  "\<lambda>(k, d). texts_after k d" undo_at redo_at "\<lambda>(k, d) (k', d'). writer_edit d d' \<and> k' = 0" 512
proof (unfold_locales, unfold split_paired_all prod.case kept_at_def)
  fix k d k' d' c and cs :: "string list"
  show "texts_before d = [] \<Longrightarrow> undo_at (k, d) = (k, d)" by (simp add: texts_before_def undo_at_def)
  show "texts_after k d = [] \<Longrightarrow> redo_at (k, d) = (k, d)" by (auto simp: texts_after_def redo_at_def)
  show "(case undo_at (k, d) of (k, d) \<Rightarrow> texts_kept k d) \<and> (case undo_at (k, d) of (k, d) \<Rightarrow> text_at d) = c
      \<and> (case undo_at (k, d) of (k, d) \<Rightarrow> texts_before d) = cs
      \<and> (case undo_at (k, d) of (k, d) \<Rightarrow> texts_after k d) = text_at d # texts_after k d"
    if "texts_kept k d" "texts_before d = c # cs"
    using Undo_text[OF that] that(2) by (auto simp: undo_at_def texts_before_def)
  show "(case redo_at (k, d) of (k, d) \<Rightarrow> texts_kept k d) \<and> (case redo_at (k, d) of (k, d) \<Rightarrow> text_at d) = c
      \<and> (case redo_at (k, d) of (k, d) \<Rightarrow> texts_after k d) = cs
      \<and> (case redo_at (k, d) of (k, d) \<Rightarrow> texts_before d) = text_at d # texts_before d"
    if kept: "texts_kept k d" and after: "texts_after k d = c # cs"
  proof -
    obtain i where k: "k = Suc i" using after by (cases k) (auto simp: texts_after_def)
    moreover have "fRedo d \<noteq> []" using after by (auto simp: texts_after_def)
    ultimately show ?thesis using Redo_text[of i d] kept after by (auto simp: redo_at_def)
  qed
  show "texts_kept k d \<Longrightarrow> writer_edit d d' \<and> k' = 0
      \<Longrightarrow> texts_kept k' d' \<and> texts_before d' = take 512 (text_at d # texts_before d) \<and> texts_after k' d' = []"
    using writer_edit_pushes[of d d'] pushes_texts[of k d] by (auto simp: texts_kept_def texts_after_def)
qed

fun redoes :: "nat \<Rightarrow> writer \<Rightarrow> writer option" where
  "redoes 0 d = Some d"
| "redoes (Suc n) d = (case Redo d of None \<Rightarrow> None | Some d \<Rightarrow> redoes n d)"

lemma undoes_at: "texts_kept k d \<Longrightarrow> n \<le> length (fUndo d) \<Longrightarrow> \<exists>j. (undo_at ^^ n) (k, d) = (j, the (undoes n d)) \<and> undoes n d \<noteq> None"
proof (induction n arbitrary: k d)
  case (Suc n)
  then obtain c cs where "texts_before d = c # cs" by (cases "texts_before d") (auto simp: texts_before_def)
  with Undo_text[OF Suc.prems(1)] obtain d' where d': "Undo d = Some d'" "texts_kept (Suc k) d'" "texts_before d' = cs" "texts_before d = c # cs" by blast
  then have "n \<le> length (fUndo d')" using Suc.prems(2) by (metis Suc_le_mono length_Cons length_texts(1))
  moreover have "undo_at (k, d) = (Suc k, d')" using d' by (auto simp: undo_at_def texts_before_def)
  ultimately show ?case using Suc.IH[OF d'(2)] d'(1) by (simp add: funpow_Suc_right del: funpow.simps(2))
qed simp

lemma redoes_at: "texts_kept k d \<Longrightarrow> n \<le> k \<Longrightarrow> \<exists>j. (redo_at ^^ n) (k, d) = (j, the (redoes n d)) \<and> redoes n d \<noteq> None"
proof (induction n arbitrary: k d)
  case (Suc n)
  then obtain i where k: "k = Suc i" "n \<le> i" by (cases k) auto
  from Redo_text[of i d] Suc.prems(1) k(1) obtain d' where d': "Redo d = Some d'" "texts_kept i d'" "texts_after (Suc i) d \<noteq> []" by auto
  then have "redo_at (k, d) = (i, d')" using k(1) by (auto simp: redo_at_def texts_after_def)
  with Suc.IH[OF d'(2) k(2)] d'(1) show ?case by (simp add: funpow_Suc_right del: funpow.simps(2))
qed simp

lemma undoes_text:
  assumes "texts_kept k d" and "n \<le> length (fUndo d)"
  shows "\<exists>e e'. undoes n d = Some e \<and> redoes n e = Some e' \<and> text_at e = (text_at d # texts_before d) ! n \<and> text_at e' = text_at d
    \<and> paras_ok (fParas e) \<and> paras_ok (fParas e')"
proof -
  have kept: "kept_at (k, d)" and n: "n \<le> length (case (k, d) of (k, d) \<Rightarrow> texts_before d)"
    using assms by (simp_all add: kept_at_def length_texts)
  obtain j e where e: "(undo_at ^^ n) (k, d) = (j, e)" "undoes n d = Some e" using undoes_at[OF assms] by auto
  from writer_texts.undo_times[OF kept n] have u: "texts_kept j e" "text_at e = (text_at d # texts_before d) ! n"
      "length (texts_after j e) = n + length (texts_after k d)"
    by (simp_all add: e(1) kept_at_def)
  have "n \<le> j" using u(3) length_texts(2)[OF u(1)] by simp
  from redoes_at[OF u(1) this] obtain i e' where e': "(redo_at ^^ n) (j, e) = (i, e')" "redoes n e = Some e'" by auto
  have "text_at e' = text_at d" using writer_texts.undos_redos[OF kept n] by (simp add: e(1) e'(1))
  moreover have "texts_kept i e'"
    using writer_texts.redo_times[of "(j, e)" n] u(1,3) by (simp add: e'(1) kept_at_def)
  ultimately show ?thesis using e(2) e'(2) u by (auto simp: texts_kept_def)
qed

lemma redoes_text:
  assumes "texts_kept k d" and "n \<le> k"
  shows "\<exists>e. redoes n d = Some e \<and> text_at e = (text_at d # texts_after k d) ! n \<and> paras_ok (fParas e)"
proof -
  obtain j e where e: "(redo_at ^^ n) (k, d) = (j, e)" "redoes n d = Some e" using redoes_at[OF assms] by auto
  from writer_texts.redo_times[of "(k, d)" n] assms e show ?thesis
    by (auto simp: kept_at_def length_texts texts_kept_def)
qed

section \<open>Properties\<close>

text \<open>
  What a user does, from a new document on: edits, typing that joins the step before, undos and redos in
  any order, with the texts that were seen. \<open>past\<close> holds the texts before, the newest first, of which
  512 are kept; \<open>future\<close> holds the texts that were undone and not yet redone. A text enters these lists as
  it stood in the document, not as a step recorded it. Typing that joins the last step lets go of the
  future, like every edit, although the program keeps its redo steps.
\<close>

inductive writer_history :: "string \<Rightarrow> string list \<Rightarrow> writer \<Rightarrow> string list \<Rightarrow> bool" for fam where
  fresh: "writer_history fam [] (new_writer fam) []"
| edited: "writer_history fam past d future \<Longrightarrow> writer_edit d d' \<Longrightarrow> writer_history fam (take 512 (text_at d # past)) d' []"
| typed: "writer_history fam past d future \<Longrightarrow> joins_last off t d \<Longrightarrow> newline \<notin> set t \<Longrightarrow> off \<le> Length (fParas d)
    \<Longrightarrow> writer_history fam past (Insert off t fo d) []"
| undone: "writer_history fam (t # past) d future \<Longrightarrow> Undo d = Some d' \<Longrightarrow> writer_history fam past d' (text_at d # future)"
| redone: "writer_history fam past d (t # future) \<Longrightarrow> Redo d = Some d' \<Longrightarrow> writer_history fam (text_at d # past) d' future"

lemma new_writer_texts: "texts_kept 0 (new_writer fam)"
  by (simp add: texts_kept_def new_writer_def paras_ok_def para_ok_def new_para_def)

lemma history_kept:
  "writer_history fam past d future \<Longrightarrow> texts_kept (length future) d \<and> texts_before d = past \<and> texts_after (length future) d = future"
proof (induction rule: writer_history.induct)
  case fresh
  then show ?case using new_writer_texts by (simp add: texts_before_def texts_after_def new_writer_def)
next
  case (edited past d future d')
  then show ?case
    using writer_edit_pushes[of d d'] pushes_texts[of "length future" d] by (auto simp: texts_kept_def texts_after_def)
next
  case (typed past d future off t fo)
  then show ?case using typed_texts[of "length future" d off t fo] by (simp add: texts_after_def)
next
  case (undone t past d future d')
  then show ?case using Undo_text[of "length future" d t past] by auto
next
  case (redone past d t future d')
  then show ?case using Redo_text[of "length future" d] by auto
qed

text \<open>
  C7 Undo and redo walk along the texts that were there. From a new document on, after edits (the
  insertions, splits, removals and formattings of C6), typing that joins the step before, undos and redos
  in any order, the document has an undo step for each of the last 512 texts before: undoing n times returns and brings back the n-th of them, and n redos behind it
  return and bring the present text back; redoing m times, up to the number of texts that were undone and
  not edited away, returns and brings the m-th of those. The runs tile the paragraphs all along. (What a
  redo does behind joined typing, when nothing that was undone is left, is C30.)
\<close>

theorem undoes_then_redoes:
  assumes "writer_history fam past d future"
  shows "length (fUndo d) = length past
    \<and> (\<forall>n \<le> length past. \<exists>e e'. undoes n d = Some e \<and> text_at e = (text_at d # past) ! n \<and> paras_ok (fParas e)
          \<and> redoes n e = Some e' \<and> text_at e' = text_at d \<and> paras_ok (fParas e'))
    \<and> (\<forall>m \<le> length future. \<exists>e. redoes m d = Some e \<and> text_at e = (text_at d # future) ! m \<and> paras_ok (fParas e))"
proof -
  note kept = history_kept[OF assms]
  then have "length (fUndo d) = length past" using length_texts(1)[of d] by simp
  then show ?thesis using kept undoes_text[of "length future" d] redoes_text[of "length future" d] by (metis (lifting))
qed

definition undone_twice :: writer where
  "undone_twice = the (Undo (the (Undo two_lines)))"

lemma two_lines_history:
  "writer_history ''Sans'' [] undone_twice [''abc'', ''ab'' @ newline # ''c'']"
proof -
  let ?one = "Insert 0 ''abc'' None (new_writer ''Sans'')"
  have "Length (fParas ?one) = 3" by code_simp
  then have "writer_edit ?one two_lines"
    unfolding two_lines_def by (intro writer_edit.para_split) simp
  moreover have "writer_edit (new_writer ''Sans'') ?one"
    by (rule writer_edit.inserted) (simp_all add: newline_def joins_last_def new_writer_def)
  moreover have "text_at (new_writer ''Sans'') = []" "text_at ?one = ''abc''" "text_at two_lines = ''ab'' @ newline # ''c''" by code_simp+
  ultimately have two: "writer_history ''Sans'' [''abc'', []] two_lines []"
    using writer_history.edited[OF writer_history.edited[OF writer_history.fresh]] by fastforce
  moreover have "\<not> Option.is_none (Undo two_lines)" "\<not> Option.is_none (Undo (the (Undo two_lines)))" by code_simp+
  then have "Undo two_lines = Some (the (Undo two_lines))" "Undo (the (Undo two_lines)) = Some undone_twice"
    by (simp_all add: undone_twice_def Option.is_none_def)
  ultimately have "writer_history ''Sans'' [] undone_twice [text_at (the (Undo two_lines)), text_at two_lines]"
    using writer_history.undone by blast
  moreover have "text_at (the (Undo two_lines)) = ''abc''" "text_at two_lines = ''ab'' @ newline # ''c''" by code_simp+
  ultimately show ?thesis by simp
qed

theorem undoes_then_redoes_witness: "\<exists>e. redoes 2 undone_twice = Some e \<and> text_at e = ''ab'' @ newline # ''c''"
  using undoes_then_redoes[OF two_lines_history] by (auto dest!: spec[of _ 2])

text \<open>
  C30 Typing that joins the step before keeps every redo step, although the text they were taken from
  is gone: the number of steps stays, the last one has grown by the new bytes, and the next redo
  replays a step of the text before. With "XYZ" undone behind "a" and "b" typed instead, a redo still
  puts "XYZ" in, before the "b".
\<close>

theorem typing_keeps_stale_redo:
  assumes "joins_last off t d" and "newline \<notin> set t"
  shows "fRedo (Insert off t fo d) = fRedo d \<and> length (fUndo (Insert off t fo d)) = length (fUndo d)
    \<and> step_text (last (fUndo (Insert off t fo d))) = step_text (last (fUndo d)) @ t"
proof -
  have "t \<noteq> []" using assms(1) by (auto simp: joins_last_def IsSingleUTF8Char_def)
  then have "Insert off t fo d = insert_piece off t fo d" using assms(2) by (simp add: Insert_def)
  moreover have "joins_last off t (d\<lparr>fParas := ps\<rparr>)" for ps using assms(1) by (simp add: joins_last_def)
  moreover have "fUndo d \<noteq> []" using assms(1) by (simp add: joins_last_def)
  ultimately show ?thesis by (simp add: insert_piece_def Let_def Suc_leI split: prod.split)
qed

definition after_undo :: writer where
  "after_undo = the (Undo (Insert 1 ''XYZ'' None (Insert 0 ''a'' None (new_writer ''Sans''))))"

theorem typing_keeps_stale_redo_witness:
  "fRedo (Insert 1 ''b'' None after_undo) = fRedo after_undo \<and> map_option text_at (Redo (Insert 1 ''b'' None after_undo)) = Some ''aXYZb''"
proof -
  have "joins_last 1 ''b'' after_undo" by code_simp
  moreover have "map_option text_at (Redo (Insert 1 ''b'' None after_undo)) = Some ''aXYZb''" by code_simp
  ultimately show ?thesis using typing_keeps_stale_redo[of 1 "''b''" after_undo None] by (simp add: newline_def)
qed

end
