(* ===== verification/WriterFile.thy ===== *)
theory WriterFile
  imports WriterText Messages DocumentFiles
begin

text \<open>
  How ProseWriter stores a document, \<open>PWCharFormat::Archive\<close> to \<open>PWDocument::LoadFromFile\<close> in
  \<open>prosewriter/app/src/PWDocument.cpp\<close>. The lookup of fields in a message and the making of a bitmap from
  its bytes are parameters, \<open>field\<close> and \<open>import_bits\<close>. The images of a paragraph lie at offsets of it;
  a run or an image that a file puts at a negative offset, which the program never writes, is taken to
  be at 0.
\<close>

section \<open>Formats\<close>

definition pack_colour :: "rgb_color \<Rightarrow> 32 word" where
  "pack_colour c = (case c of (r, g, b, a) \<Rightarrow> ucast r OR push_bit 8 (ucast g) OR push_bit 16 (ucast b) OR push_bit 24 (ucast a))"

definition unpack_colour :: "32 word \<Rightarrow> rgb_color" where
  "unpack_colour v = (ucast (v AND 0xFF), ucast (drop_bit 8 v AND 0xFF), ucast (drop_bit 16 v AND 0xFF), ucast (drop_bit 24 v AND 0xFF))"

definition ArchiveChar :: "char_format \<Rightarrow> message" where
  "ArchiveChar f = [(''family'', FString (family f)), (''size'', FFloat (font_size f)), (''color'', FInt32 (sint (pack_colour (color f)))),
     (''bold'', FBool (bold f)), (''italic'', FBool (italic f)), (''underline'', FBool (underline f))]"

text \<open>\<open>strlcpy\<close> into a \<open>font_family\<close>, which holds 63 bytes and a NUL.\<close>

definition font_family_room :: nat where
  "font_family_room = 63"

definition UnarchiveChar :: "lookup \<Rightarrow> message \<Rightarrow> char_format \<Rightarrow> char_format" where
  "UnarchiveChar field m f =
     f\<lparr>family := (case FindString field m ''family'' of Some fam \<Rightarrow> take font_family_room fam | None \<Rightarrow> []),
       font_size := FindFloat field m ''size'' (font_size f),
       color := (case field m ''color'' 0 of Some (FInt32 v) \<Rightarrow> unpack_colour (word_of_int v) | _ \<Rightarrow> color f),
       bold := FindBool field m ''bold'' (bold f), italic := FindBool field m ''italic'' (italic f),
       underline := FindBool field m ''underline'' (underline f)\<rparr>"

definition alignment_number :: "alignment \<Rightarrow> int" where
  "alignment_number a = (case a of PW_ALIGN_LEFT \<Rightarrow> 0 | PW_ALIGN_CENTER \<Rightarrow> 1 | PW_ALIGN_RIGHT \<Rightarrow> 2 | PW_ALIGN_JUSTIFY \<Rightarrow> 3
     | OtherAlignment n \<Rightarrow> n)"

definition alignment_of :: "int \<Rightarrow> alignment" where
  "alignment_of n = (if n = 0 then PW_ALIGN_LEFT else if n = 1 then PW_ALIGN_CENTER else if n = 2 then PW_ALIGN_RIGHT
     else if n = 3 then PW_ALIGN_JUSTIFY else OtherAlignment n)"

definition list_number :: "list_kind \<Rightarrow> int" where
  "list_number k = (case k of PW_LIST_NONE \<Rightarrow> 0 | PW_LIST_BULLET \<Rightarrow> 1 | PW_LIST_NUMBER \<Rightarrow> 2 | OtherList n \<Rightarrow> n)"

definition list_of :: "int \<Rightarrow> list_kind" where
  "list_of n = (if n = 0 then PW_LIST_NONE else if n = 1 then PW_LIST_BULLET else if n = 2 then PW_LIST_NUMBER else OtherList n)"

definition tab_number :: "tab_kind \<Rightarrow> int" where
  "tab_number k = (case k of PW_TAB_LEFT \<Rightarrow> 0 | PW_TAB_CENTER \<Rightarrow> 1 | PW_TAB_RIGHT \<Rightarrow> 2 | OtherTab n \<Rightarrow> n)"

definition tab_of :: "int \<Rightarrow> tab_kind" where
  "tab_of n = (if n = 0 then PW_TAB_LEFT else if n = 1 then PW_TAB_CENTER else if n = 2 then PW_TAB_RIGHT else OtherTab n)"

definition tab_message :: "rat \<times> tab_kind \<Rightarrow> message" where
  "tab_message t = [(''x'', FFloat (fst t)), (''kind'', FInt8 (tab_number (snd t)))]"

definition ArchivePara :: "para_format \<Rightarrow> message" where
  "ArchivePara f = [(''align'', FInt8 (alignment_number (alignment f))), (''il'', FFloat (indentLeft f)), (''ir'', FFloat (indentRight f)),
     (''if'', FFloat (indentFirst f)), (''ls'', FFloat (lineSpacing f)), (''sb'', FFloat (spaceBefore f)), (''sa'', FFloat (spaceAfter f)),
     (''list'', FInt8 (list_number (listKind f)))] @ map (\<lambda>t. (''tab'', FMessage (tab_message t))) (tabs f)"

definition tab_in :: "lookup \<Rightarrow> message \<Rightarrow> rat \<times> tab_kind" where
  "tab_in field m = (FindFloat field m ''x'' 0, (case field m ''kind'' 0 of Some (FInt8 k) \<Rightarrow> tab_of k | _ \<Rightarrow> PW_TAB_LEFT))"

text \<open>\<open>None\<close>: the loop over the tabs does not end.\<close>

definition UnarchivePara :: "lookup \<Rightarrow> message \<Rightarrow> para_format \<Rightarrow> para_format option" where
  "UnarchivePara field m f =
     map_option (\<lambda>ts. \<lparr>alignment = (case field m ''align'' 0 of Some (FInt8 v) \<Rightarrow> alignment_of v | _ \<Rightarrow> alignment f),
         indentLeft = FindFloat field m ''il'' (indentLeft f), indentRight = FindFloat field m ''ir'' (indentRight f),
         indentFirst = FindFloat field m ''if'' (indentFirst f), lineSpacing = FindFloat field m ''ls'' (lineSpacing f),
         spaceBefore = FindFloat field m ''sb'' (spaceBefore f), spaceAfter = FindFloat field m ''sa'' (spaceAfter f),
         listKind = (case field m ''list'' 0 of Some (FInt8 v) \<Rightarrow> list_of v | _ \<Rightarrow> listKind f), tabs = ts\<rparr>)
       (for_messages field m ''tab'' (\<lambda>t ts. ts @ [tab_in field t]) 0 [])"

section \<open>Saving\<close>

definition image_offsets :: "para \<Rightarrow> nat list" where
  "image_offsets p = filter (\<lambda>k. images p k \<noteq> None) [0..<length (body p) + 1]"

text \<open>
  Of a bitmap the first width times height times four bytes are stored, whatever its colour space and
  its bytes a row, and neither of the two. Where it has fewer the code reads behind them.
\<close>

definition image_message :: "nat \<Rightarrow> inline_image \<Rightarrow> message" where
  "image_message k g = [(''offset'', FInt32 (int k)), (''w'', FFloat (widthPt g)), (''h'', FFloat (heightPt g))]
     @ (case bitmap g of None \<Rightarrow> []
        | Some b \<Rightarrow> [(''bw'', FFloat (of_int (raster_width b))), (''bh'', FFloat (of_int (raster_height b))),
            (''bits'', FData (take (nat (raster_width b * raster_height b * 4)) (raster_bytes b)))])"

definition run_message :: "run \<Rightarrow> message" where
  "run_message r = [(''start'', FInt32 (int (start r))), (''length'', FInt32 (int (len r)))] @ ArchiveChar (fmt r)"

definition para_message :: "para \<Rightarrow> message" where
  "para_message p = [(''text'', FString (body p))] @ ArchivePara (format p)
     @ map (\<lambda>k. (''image'', FMessage (image_message k (the (images p k))))) (image_offsets p)
     @ map (\<lambda>r. (''run'', FMessage (run_message r))) (runs p)"

definition style_message :: "style \<Rightarrow> message" where
  "style_message s = [(''name'', FString (style_name s))] @ ArchiveChar (style_chr s) @ ArchivePara (style_para s)"

definition SaveToMessage :: "writer \<Rightarrow> message" where
  "SaveToMessage d = [(''header'', FString (fHeader d)), (''footer'', FString (fFooter d))]
     @ map (\<lambda>s. (''style'', FMessage (style_message s))) (fStyles d)
     @ map (\<lambda>p. (''para'', FMessage (para_message p))) (fParas d)"

section \<open>Loading\<close>

definition new_char_format :: char_format where
  "new_char_format = \<lparr>family = [], font_size = 12, color = (0, 0, 0, 255), bold = False, italic = False, underline = False\<rparr>"

definition run_in :: "lookup \<Rightarrow> string \<Rightarrow> message \<Rightarrow> run" where
  "run_in field fam m =
     (let f = UnarchiveChar field m new_char_format in
      \<lparr>start = nat (FindInt32 field m ''start'' 0), len = nat (FindInt32 field m ''length'' 0),
       fmt = (if family f = [] then f\<lparr>family := fam\<rparr> else f)\<rparr>)"

text \<open>
  The bitmap of so many pixels and the colour space \<open>B_RGB32\<close> with the bytes put in by \<open>ImportBits\<close>, when
  both succeed; \<open>bitmap_kit\<close> is what the interface kit documents for bytes that fill the bitmap.
\<close>

type_synonym importer = "rat \<Rightarrow> rat \<Rightarrow> nat list \<Rightarrow> raster option"

definition bitmap_kit :: "importer \<Rightarrow> bool" where
  "bitmap_kit import_bits \<longleftrightarrow> (\<forall>w h bs. 0 < w \<longrightarrow> 0 < h \<longrightarrow> length bs = nat (w * h * 4) \<longrightarrow>
     import_bits (of_int w) (of_int h) bs
       = Some \<lparr>raster_width = w, raster_height = h, ColorSpace = B_RGB32, BytesPerRow = w * 4, raster_bytes = bs\<rparr>)"

definition image_in :: "lookup \<Rightarrow> importer \<Rightarrow> message \<Rightarrow> (nat \<Rightarrow> inline_image option) \<Rightarrow> nat \<Rightarrow> inline_image option" where
  "image_in field import_bits m imgs =
     imgs(nat (FindInt32 field m ''offset'' 0) \<mapsto>
       \<lparr>bitmap = (case FindData field m ''bits'' of None \<Rightarrow> None
           | Some bits \<Rightarrow> import_bits (FindFloat field m ''bw'' 1) (FindFloat field m ''bh'' 1) bits),
        widthPt = FindFloat field m ''w'' 0, heightPt = FindFloat field m ''h'' 0\<rparr>)"

text \<open>One paragraph of the loop; the outer option is \<open>None\<close> once a loop does not end.\<close>

definition load_para :: "lookup \<Rightarrow> importer \<Rightarrow> string \<Rightarrow> message \<Rightarrow> writer option \<Rightarrow> writer option" where
  "load_para field import_bits fam m dd =
     (case dd of None \<Rightarrow> None
      | Some d \<Rightarrow>
          let text = (case FindString field m ''text'' of Some t \<Rightarrow> t | None \<Rightarrow> []) in
          (case UnarchivePara field m new_para_format of None \<Rightarrow> None
           | Some pf \<Rightarrow> (case for_messages field m ''run'' (\<lambda>r rs. rs @ [run_in field fam r]) 0 [] of None \<Rightarrow> None
             | Some rs \<Rightarrow>
                 let rs = (if rs = [] then [\<lparr>start = 0, len = length text, fmt = MakeDefaultFormat fam\<rparr>] else rs);
                     p = NormalizeRuns (fDefault d) (new_para\<lparr>para_id := fNextParaId d, body := text, format := pf, runs := rs\<rparr>)
                 in (case for_messages field m ''image'' (image_in field import_bits) 0 Map.empty of None \<Rightarrow> None
                     | Some imgs \<Rightarrow> Some (d\<lparr>fNextParaId := fNextParaId d + 1, fParas := fParas d @ [p\<lparr>images := imgs\<rparr>]\<rparr>)))))"

definition load_style :: "lookup \<Rightarrow> message \<Rightarrow> style list option \<Rightarrow> style list option" where
  "load_style field m ss =
     (case (ss, UnarchivePara field m new_para_format) of
        (Some ss, Some pf) \<Rightarrow> Some (ss @ [\<lparr>style_name = (case FindString field m ''name'' of Some n \<Rightarrow> n | None \<Rightarrow> []),
            style_chr = UnarchiveChar field m new_char_format, style_para = pf\<rparr>])
      | _ \<Rightarrow> None)"

text \<open>It always answers \<open>B_OK\<close>; \<open>fam\<close> is the family of the kit's plain font.\<close>

definition LoadFromMessage :: "lookup \<Rightarrow> importer \<Rightarrow> string \<Rightarrow> message \<Rightarrow> writer \<Rightarrow> writer option" where
  "LoadFromMessage field import_bits fam m d =
     (let d = d\<lparr>fParas := [], fUndo := [], fRedo := [], fHeader := [], fFooter := [], fStyles := []\<rparr> in
      case Option.bind (for_messages field m ''para'' (load_para field import_bits fam) 0 (Some d)) id of None \<Rightarrow> None
      | Some d \<Rightarrow>
          let d = (if fParas d = []
                then d\<lparr>fParas := [new_para\<lparr>para_id := fNextParaId d, runs := [\<lparr>start = 0, len = 0, fmt = MakeDefaultFormat fam\<rparr>]\<rparr>],
                       fNextParaId := fNextParaId d + 1\<rparr> else d);
              d = d\<lparr>fHeader := (case FindString field m ''header'' of Some h \<Rightarrow> h | None \<Rightarrow> []),
                    fFooter := (case FindString field m ''footer'' of Some h \<Rightarrow> h | None \<Rightarrow> [])\<rparr>
          in (case Option.bind (for_messages field m ''style'' (load_style field) 0 (Some [])) id of None \<Rightarrow> None
              | Some ss \<Rightarrow> Some (d\<lparr>fStyles := ss, fModified := False, fPlainTextValid := False\<rparr>)))"

text \<open>\<open>SaveToFile\<close> and \<open>LoadFromFile\<close>; the document is \<open>None\<close> where a loop does not end.\<close>

definition SaveWriting :: "(message \<Rightarrow> nat + string) \<Rightarrow> string \<Rightarrow> save_env \<Rightarrow> files \<Rightarrow> writer \<Rightarrow> status \<times> files" where
  "SaveWriting flatten path env fs d = SaveToFile ''.pwtmp'' B_OK (flatten (SaveToMessage d)) path env fs"

definition LoadWriting :: "lookup \<Rightarrow> importer \<Rightarrow> string \<Rightarrow> (string \<Rightarrow> nat + message) \<Rightarrow> load_env \<Rightarrow> writer \<Rightarrow> status \<times> writer option" where
  "LoadWriting field import_bits fam unflatten env d = LoadFromFile (256 * 1024 * 1024) unflatten
     (\<lambda>m d. (B_OK, Option.bind d (LoadFromMessage field import_bits fam m))) env (Some d)"

section \<open>Round trips\<close>

lemma unpack_pack: "unpack_colour (pack_colour c) = c"
  by (cases c) (simp only: unpack_colour_def pack_colour_def prod.case packed_bytes)

definition char_storable :: "char_format \<Rightarrow> bool" where
  "char_storable f \<longleftrightarrow> length (family f) \<le> font_family_room"

definition para_storable :: "para_format \<Rightarrow> bool" where
  "para_storable f \<longleftrightarrow> alignment_of (alignment_number (alignment f)) = alignment f \<and> list_of (list_number (listKind f)) = listKind f
     \<and> (\<forall>t \<in> set (tabs f). tab_of (tab_number (snd t)) = snd t)"

lemma numbers_storable:
  "(\<And>n. a \<noteq> OtherAlignment n) \<Longrightarrow> alignment_of (alignment_number a) = a"
  "(\<And>n. l \<noteq> OtherList n) \<Longrightarrow> list_of (list_number l) = l"
  "(\<And>n. t \<noteq> OtherTab n) \<Longrightarrow> tab_of (tab_number t) = t"
  subgoal by (cases a) (simp_all add: alignment_of_def alignment_number_def)
  subgoal by (cases l) (simp_all add: list_of_def list_number_def)
  subgoal by (cases t) (simp_all add: tab_of_def tab_number_def)
  done

text \<open>Only the fields a format looks for matter, wherever they lie in the message.\<close>

lemma UnarchiveChar_archived:
  assumes "message_kit field" and "char_storable f"
    and "\<And>n. n \<in> {''family'', ''size'', ''color'', ''bold'', ''italic'', ''underline''} \<Longrightarrow> map_of m n = map_of (ArchiveChar f) n"
  shows "UnarchiveChar field m g = f"
  using assms by (cases f) (simp add: UnarchiveChar_def find_defs kit_first ArchiveChar_def unpack_pack char_storable_def)

lemma fold_append: "fold (\<lambda>x xs. xs @ [f x]) ys acc = acc @ map f ys"
  by (induction ys arbitrary: acc) auto

lemma UnarchivePara_archived:
  assumes "message_kit field" and "para_storable f" and "values_of m ''tab'' = map FMessage (map tab_message (tabs f))"
    and "\<And>n. n \<in> {''align'', ''il'', ''ir'', ''if'', ''ls'', ''sb'', ''sa'', ''list''} \<Longrightarrow> map_of m n = map_of (ArchivePara f) n"
  shows "UnarchivePara field m g = Some f"
proof -
  have "map (tab_in field) (map tab_message ts) = ts" if "\<forall>t \<in> set ts. tab_of (tab_number (snd t)) = snd t" for ts
    using that by (induction ts) (auto simp: tab_in_def tab_message_def FindFloat_def kit_first[OF assms(1)])
  then have "for_messages field m ''tab'' (\<lambda>t ts. ts @ [tab_in field t]) 0 [] = Some (tabs f)"
    using for_messages_fold[OF assms(1,3), of 0 "\<lambda>t ts. ts @ [tab_in field t]" "[]"] assms(2) by (simp add: fold_append para_storable_def)
  then show ?thesis
    using assms(2,4) by (cases f) (simp add: UnarchivePara_def FindFloat_def kit_first[OF assms(1)] ArchivePara_def para_storable_def)
qed

lemma style_fields:
  "n \<in> {''family'', ''size'', ''color'', ''bold'', ''italic'', ''underline''} \<Longrightarrow> map_of (style_message s) n = map_of (ArchiveChar (style_chr s)) n"
  "n \<in> {''align'', ''il'', ''ir'', ''if'', ''ls'', ''sb'', ''sa'', ''list''} \<Longrightarrow> map_of (style_message s) n = map_of (ArchivePara (style_para s)) n"
  "map_of (style_message s) ''name'' = Some (FString (style_name s))"
  "values_of (style_message s) ''tab'' = map FMessage (map tab_message (tabs (style_para s)))"
  subgoal by (elim insertE emptyE; simp add: style_message_def ArchiveChar_def)
  subgoal by (elim insertE emptyE; simp add: style_message_def ArchiveChar_def ArchivePara_def)
  by (simp_all add: style_message_def ArchiveChar_def ArchivePara_def comp_def)

lemma load_style_message:
  assumes "message_kit field" and "char_storable (style_chr s)" and "para_storable (style_para s)"
  shows "load_style field (style_message s) (Some ss) = Some (ss @ [s])"
  using UnarchiveChar_archived[OF assms(1,2) style_fields(1)] UnarchivePara_archived[OF assms(1,3) style_fields(4,2)] assms(1)
  by (cases s) (simp add: load_style_def FindString_def kit_first style_fields)

lemma fold_load_styles:
  assumes "message_kit field" and "\<forall>s \<in> set ts. char_storable (style_chr s) \<and> para_storable (style_para s)"
  shows "fold (load_style field) (map style_message ts) (Some ss) = Some (ss @ ts)"
  using assms(2) by (induction ts arbitrary: ss) (auto simp: load_style_message[OF assms(1)])

section \<open>Paragraphs\<close>

definition run_storable :: "run \<Rightarrow> bool" where
  "run_storable r \<longleftrightarrow> char_storable (fmt r) \<and> family (fmt r) \<noteq> []"

lemma run_fields:
  "n \<in> {''family'', ''size'', ''color'', ''bold'', ''italic'', ''underline''} \<Longrightarrow> map_of (run_message r) n = map_of (ArchiveChar (fmt r)) n"
  "map_of (run_message r) ''start'' = Some (FInt32 (int (start r)))" "map_of (run_message r) ''length'' = Some (FInt32 (int (len r)))"
  by (auto simp: run_message_def)

lemma run_in_message: "message_kit field \<Longrightarrow> run_storable r \<Longrightarrow> run_in field fam (run_message r) = r"
  using UnarchiveChar_archived[OF _ _ run_fields(1), of field r new_char_format]
  by (cases r) (auto simp: run_in_def run_storable_def FindInt32_def kit_first run_fields Let_def)

text \<open>A bitmap of four bytes a pixel without padding, as \<open>B_RGB32\<close> and \<open>B_RGBA32\<close> are.\<close>

definition image_storable :: "inline_image \<Rightarrow> bool" where
  "image_storable g \<longleftrightarrow> (\<forall>b. bitmap g = Some b \<longrightarrow> 0 < raster_width b \<and> 0 < raster_height b \<and> BytesPerRow b = raster_width b * 4
     \<and> length (raster_bytes b) = nat (raster_width b * raster_height b * 4))"

text \<open>What is left of an image: the colour space is \<open>B_RGB32\<close> after loading, in which no pixel is transparent.\<close>

definition opaque_image :: "inline_image \<Rightarrow> inline_image" where
  "opaque_image g = g\<lparr>bitmap := map_option (\<lambda>b. b\<lparr>ColorSpace := B_RGB32\<rparr>) (bitmap g)\<rparr>"

lemma image_in_message:
  assumes "message_kit field" and "bitmap_kit import_bits" and "image_storable g"
  shows "image_in field import_bits (image_message k g) imgs = imgs(k \<mapsto> opaque_image g)"
proof (cases "bitmap g")
  case None
  then show ?thesis using assms(1)
    by (cases g) (simp add: image_in_def image_message_def FindInt32_def FindData_def FindFloat_def kit_first opaque_image_def)
next
  case (Some b)
  moreover from Some assms(2,3) have "import_bits (of_int (raster_width b)) (of_int (raster_height b)) (raster_bytes b) = Some (b\<lparr>ColorSpace := B_RGB32\<rparr>)"
    by (cases b) (auto simp: bitmap_kit_def image_storable_def)
  ultimately show ?thesis using assms(1,3)
    by (cases g) (simp add: image_in_def image_message_def FindInt32_def FindData_def FindFloat_def kit_first image_storable_def opaque_image_def)
qed

lemma fold_images:
  assumes "message_kit field" and "bitmap_kit import_bits" and "\<forall>k \<in> set ks. image_storable (the (m k))"
  shows "fold (image_in field import_bits) (map (\<lambda>k. image_message k (the (m k))) ks) imgs
    = (\<lambda>j. if j \<in> set ks then Some (opaque_image (the (m j))) else imgs j)"
  using assms(3) by (induction ks arbitrary: imgs) (auto simp: image_in_message[OF assms(1,2)] fun_eq_iff)

definition para_kept :: "para \<Rightarrow> bool" where
  "para_kept p \<longleftrightarrow> para_ok p \<and> para_storable (format p) \<and> runs p \<noteq> [] \<and> (\<forall>r \<in> set (runs p). run_storable r)
     \<and> (\<forall>k g. images p k = Some g \<longrightarrow> k \<le> length (body p) \<and> image_storable g)"

lemma para_fields:
  "n \<in> {''align'', ''il'', ''ir'', ''if'', ''ls'', ''sb'', ''sa'', ''list''} \<Longrightarrow> map_of (para_message p) n = map_of (ArchivePara (format p)) n"
  "map_of (para_message p) ''text'' = Some (FString (body p))"
  "values_of (para_message p) ''tab'' = map FMessage (map tab_message (tabs (format p)))"
  "values_of (para_message p) ''run'' = map FMessage (map run_message (runs p))"
  "values_of (para_message p) ''image'' = map FMessage (map (\<lambda>k. image_message k (the (images p k))) (image_offsets p))"
  subgoal by (elim insertE emptyE; simp add: para_message_def ArchivePara_def)
  by (simp_all add: para_message_def ArchivePara_def comp_def)

text \<open>A stored paragraph comes back with its text, formats and images, these opaque; its runs come back merged.\<close>

definition same_para :: "para \<Rightarrow> para \<Rightarrow> bool" where
  "same_para p q \<longleftrightarrow> body q = body p \<and> para_cells q = para_cells p \<and> format q = format p
     \<and> images q = map_option opaque_image \<circ> images p \<and> para_ok q"

lemma load_para_message:
  assumes "message_kit field" and "bitmap_kit import_bits" and "para_kept p"
  shows "\<exists>q. same_para p q \<and> load_para field import_bits fam (para_message p) (Some d)
    = Some (d\<lparr>fNextParaId := fNextParaId d + 1, fParas := fParas d @ [q]\<rparr>)"
proof -
  have kept: "para_ok p" "para_storable (format p)" "runs p \<noteq> []" "\<forall>r \<in> set (runs p). run_storable r"
    using assms(3) by (simp_all add: para_kept_def)
  have pf: "UnarchivePara field (para_message p) new_para_format = Some (format p)"
    using UnarchivePara_archived[OF assms(1) kept(2) para_fields(3,1)] .
  have "map (run_in field fam) (map run_message (runs p)) = runs p"
    using kept(4) by (induction "runs p") (auto simp: run_in_message[OF assms(1)] map_idI)
  then have rs: "for_messages field (para_message p) ''run'' (\<lambda>r rs. rs @ [run_in field fam r]) 0 [] = Some (runs p)"
    using for_messages_fold[OF assms(1) para_fields(4), of 0 p "\<lambda>r rs. rs @ [run_in field fam r]" "[]"] by (simp add: fold_append)
  let ?images = "map_option opaque_image \<circ> images p"
  have "(if j \<in> set (image_offsets p) then Some (opaque_image (the (images p j))) else None) = ?images j" for j
  proof (cases "images p j")
    case (Some g)
    then have "j \<le> length (body p)" using assms(3) by (simp add: para_kept_def)
    then show ?thesis using Some by (auto simp: image_offsets_def)
  qed (auto simp: image_offsets_def)
  then have "(\<lambda>j. if j \<in> set (image_offsets p) then Some (opaque_image (the (images p j))) else None) = ?images" by blast
  moreover have "\<forall>k \<in> set (image_offsets p). image_storable (the (images p k))"
    using assms(3) by (auto simp: image_offsets_def para_kept_def)
  ultimately have imgs: "for_messages field (para_message p) ''image'' (image_in field import_bits) 0 Map.empty = Some ?images"
    using for_messages_fold[OF assms(1) para_fields(5), of 0 p "image_in field import_bits" Map.empty]
      fold_images[OF assms(1,2), of "image_offsets p" "images p" Map.empty] by simp
  define q where "q = NormalizeRuns (fDefault d) (new_para\<lparr>para_id := fNextParaId d, body := body p, format := format p, runs := runs p\<rparr>)"
  have n: "tiled 0 (runs q) (length (body p))" "formats (runs q) = formats (runs p)"
    using NormalizeRuns_runs[of "new_para\<lparr>para_id := fNextParaId d, body := body p, format := format p, runs := runs p\<rparr>" "fDefault d"] kept(1)
    by (simp_all add: q_def para_ok_def)
  then have "same_para p (q\<lparr>images := ?images\<rparr>)"
    using kept(1) by (simp add: same_para_def q_def para_ok_def para_cells_def)
  then show ?thesis
    using pf rs imgs kept(3) assms(1)
    by (intro exI[of _ "q\<lparr>images := ?images\<rparr>"]) (simp add: load_para_def FindString_def kit_first para_fields(2) q_def Let_def)
qed

lemma fold_load_paras:
  assumes "message_kit field" and "bitmap_kit import_bits" and "\<forall>p \<in> set ps. para_kept p"
  shows "\<exists>qs. list_all2 same_para ps qs \<and> fold (load_para field import_bits fam) (map para_message ps) (Some d)
    = Some (d\<lparr>fNextParaId := fNextParaId d + int (length ps), fParas := fParas d @ qs\<rparr>)"
  using assms(3)
proof (induction ps arbitrary: d)
  case (Cons p ps)
  obtain q where q: "same_para p q" "load_para field import_bits fam (para_message p) (Some d) = Some (d\<lparr>fNextParaId := fNextParaId d + 1, fParas := fParas d @ [q]\<rparr>)"
    using load_para_message[OF assms(1,2), of p fam d] Cons.prems by auto
  obtain qs where qs: "list_all2 same_para ps qs"
    "fold (load_para field import_bits fam) (map para_message ps) (Some (d\<lparr>fNextParaId := fNextParaId d + 1, fParas := fParas d @ [q]\<rparr>))
      = Some (d\<lparr>fNextParaId := fNextParaId d + 1 + int (length ps), fParas := fParas d @ q # qs\<rparr>)"
    using Cons.IH[of "d\<lparr>fNextParaId := fNextParaId d + 1, fParas := fParas d @ [q]\<rparr>"] Cons.prems by auto
  then show ?case using q by (intro exI[of _ "q # qs"]) (simp add: algebra_simps)
qed simp

section \<open>The document on the disk\<close>

definition writing_kept :: "writer \<Rightarrow> bool" where
  "writing_kept d \<longleftrightarrow> fParas d \<noteq> [] \<and> (\<forall>p \<in> set (fParas d). para_kept p)
     \<and> (\<forall>s \<in> set (fStyles d). char_storable (style_chr s) \<and> para_storable (style_para s))"

lemma saved_writing_fields:
  "map_of (SaveToMessage d) ''header'' = Some (FString (fHeader d))" "map_of (SaveToMessage d) ''footer'' = Some (FString (fFooter d))"
  "values_of (SaveToMessage d) ''style'' = map FMessage (map style_message (fStyles d))"
  "values_of (SaveToMessage d) ''para'' = map FMessage (map para_message (fParas d))"
  by (simp_all add: SaveToMessage_def comp_def)

lemma load_saved_writing:
  assumes "message_kit field" and "bitmap_kit import_bits" and "writing_kept d"
  shows "\<exists>ps. list_all2 same_para (fParas d) ps \<and> LoadFromMessage field import_bits fam (SaveToMessage d) e
    = Some (e\<lparr>fParas := ps, fNextParaId := fNextParaId e + int (length (fParas d)), fUndo := [], fRedo := [],
        fStyles := fStyles d, fHeader := fHeader d, fFooter := fFooter d, fModified := False, fPlainTextValid := False\<rparr>)"
proof -
  let ?e = "e\<lparr>fParas := [], fUndo := [], fRedo := [], fHeader := [], fFooter := [], fStyles := []\<rparr>"
  have kept: "fParas d \<noteq> []" "\<forall>p \<in> set (fParas d). para_kept p"
    "\<forall>s \<in> set (fStyles d). char_storable (style_chr s) \<and> para_storable (style_para s)"
    using assms(3) by (simp_all add: writing_kept_def)
  obtain ps where ps: "list_all2 same_para (fParas d) ps"
    "fold (load_para field import_bits fam) (map para_message (fParas d)) (Some ?e) = Some (?e\<lparr>fNextParaId := fNextParaId ?e + int (length (fParas d)), fParas := fParas ?e @ ps\<rparr>)"
    using fold_load_paras[OF assms(1,2) kept(2)] by blast
  then have paras: "for_messages field (SaveToMessage d) ''para'' (load_para field import_bits fam) 0 (Some ?e)
      = Some (Some (?e\<lparr>fNextParaId := fNextParaId e + int (length (fParas d)), fParas := ps\<rparr>))"
    using for_messages_fold[OF assms(1) saved_writing_fields(4), of 0 d "load_para field import_bits fam" "Some ?e"] by simp
  have styles: "for_messages field (SaveToMessage d) ''style'' (load_style field) 0 (Some []) = Some (Some (fStyles d))"
    using for_messages_fold[OF assms(1) saved_writing_fields(3), of 0 d "load_style field" "Some []"] fold_load_styles[OF assms(1) kept(3), of "[]"] by simp
  have "ps \<noteq> []" using ps(1) kept(1) by auto
  then show ?thesis
    using ps(1) paras styles by (intro exI[of _ ps]) (simp add: LoadFromMessage_def FindString_def kit_first[OF assms(1)] saved_writing_fields Let_def)
qed

lemma same_paras: "list_all2 same_para ps qs \<Longrightarrow> cells qs = cells ps \<and> map format qs = map format ps \<and> map images qs = map (\<lambda>p. map_option opaque_image \<circ> images p) ps \<and> (\<forall>q \<in> set qs. para_ok q)"
proof (induction rule: list_all2_induct)
  case (Cons p ps q qs)
  have "qs = [] \<longleftrightarrow> ps = []" using Cons.hyps by auto
  with Cons show ?case by (auto simp: same_para_def)
qed simp

text \<open>
  C8 A document that was saved is the document that is opened, its images opaque: when \<open>SaveToFile\<close> answered
  \<open>B_OK\<close> and the flattened document is at most 256 MB, a document that loads the file, in whatever
  pieces it is read and whatever it held before, has the same row of bytes, formats and paragraph ends,
  the same paragraph formats with their tabs, styles and header texts, every image at its place with
  its sizes and bytes but in the colour space \<open>B_RGB32\<close>, an empty history and no mark of a change; its runs
  tile the paragraphs. A larger document is saved just so, and then refused: nothing is loaded. The
  images are of four bytes a pixel without padding.
\<close>

theorem writing_survives_the_disk:
  assumes "message_kit field" and "bitmap_kit import_bits" and "writing_kept d"
    and "flatten (SaveToMessage d) = Inr stored" and "unflatten stored = Inr (SaveToMessage d)" and "4 \<le> length stored"
    and "SaveWriting flatten path senv fs d = (B_OK, fs')"
    and "fs' path = Some (concat chunks)" and "[] \<notin> set chunks"
  shows "if length stored \<le> 256 * 1024 * 1024
    then \<exists>e. LoadWriting field import_bits fam unflatten (fine_load chunks) old = (B_OK, Some e)
      \<and> cells (fParas e) = cells (fParas d) \<and> map format (fParas e) = map format (fParas d)
      \<and> map images (fParas e) = map (\<lambda>p. map_option opaque_image \<circ> images p) (fParas d)
      \<and> fStyles e = fStyles d \<and> fHeader e = fHeader d \<and> fFooter e = fFooter d \<and> fUndo e = [] \<and> fRedo e = [] \<and> \<not> fModified e
      \<and> paras_ok (fParas e)
    else LoadWriting field import_bits fam unflatten (fine_load chunks) old = (B_BAD_VALUE, Some old)"
proof -
  have saved: "SaveToFile ''.pwtmp'' B_OK (Inr stored) path senv fs = (B_OK, fs')"
    using assms(4,7) by (simp add: SaveWriting_def)
  have load: "LoadWriting field import_bits fam unflatten (fine_load chunks) old =
      (if length stored \<le> 256 * 1024 * 1024 then (B_OK, LoadFromMessage field import_bits fam (SaveToMessage d) old) else (B_BAD_VALUE, Some old))"
    unfolding LoadWriting_def LoadFromFile_saved[where unflatten = unflatten, OF saved assms(5,6,8,9), simplified] by auto
  obtain ps where ps: "list_all2 same_para (fParas d) ps" "LoadFromMessage field import_bits fam (SaveToMessage d) old
    = Some (old\<lparr>fParas := ps, fNextParaId := fNextParaId old + int (length (fParas d)), fUndo := [], fRedo := [],
        fStyles := fStyles d, fHeader := fHeader d, fFooter := fFooter d, fModified := False, fPlainTextValid := False\<rparr>)"
    using load_saved_writing[OF assms(1-3)] by blast
  have "ps \<noteq> []" using ps(1) assms(3) by (auto simp: writing_kept_def)
  then show ?thesis
    using load ps(2) same_paras[OF ps(1)] by (simp add: paras_ok_def)
qed

text \<open>A letter of two paragraphs; the second is an image of one half-transparent pixel.\<close>

definition seal :: inline_image where
  "seal = \<lparr>bitmap = Some \<lparr>raster_width = 1, raster_height = 1, ColorSpace = B_RGBA32, BytesPerRow = 4, raster_bytes = [1, 2, 3, 128]\<rparr>,
     widthPt = 10, heightPt = 12\<rparr>"

definition letter :: writer where
  "letter = (new_writer ''Sans'')\<lparr>fParas := [new_para\<lparr>para_id := 1, runs := [\<lparr>start = 0, len = 2, fmt = MakeDefaultFormat ''Sans''\<rparr>], body := ''ab''\<rparr>,
     new_para\<lparr>para_id := 2, runs := [\<lparr>start = 0, len = 3, fmt = MakeDefaultFormat ''Sans''\<rparr>], body := [CHR 0xEF, CHR 0xBF, CHR 0xBC],
       images := [0 \<mapsto> seal]\<rparr>], fNextParaId := 3\<rparr>"

lemma letter_kept: "writing_kept letter"
  by (simp add: writing_kept_def para_kept_def letter_def new_writer_def new_para_def para_ok_def run_simps newline_def para_storable_def
      new_para_format_def run_storable_def char_storable_def MakeDefaultFormat_def font_family_room_def numbers_storable seal_def image_storable_def)

definition plain_importer :: importer where
  "plain_importer w h bs = Some \<lparr>raster_width = \<lfloor>w\<rfloor>, raster_height = \<lfloor>h\<rfloor>, ColorSpace = B_RGB32, BytesPerRow = \<lfloor>w\<rfloor> * 4, raster_bytes = bs\<rparr>"

lemma plain_importer_kit: "bitmap_kit plain_importer"
  by (simp add: bitmap_kit_def plain_importer_def)

theorem writing_survives_the_disk_witness:
  "\<exists>e. LoadWriting nth_field plain_importer ''Sans'' (\<lambda>b. Inr (SaveToMessage letter)) (fine_load [''HM'', ''F1&dWp'']) (new_writer ''Mono'') = (B_OK, Some e)
    \<and> cells (fParas e) = cells (fParas letter) \<and> images (fParas e ! 1) 0 = Some (opaque_image seal)"
proof -
  obtain fs' where saved: "SaveWriting (\<lambda>m. Inr ''HMF1&dWp'') ''/d'' fine_save Map.empty letter = (B_OK, fs')"
    "fs' ''/d'' = Some (concat [''HM'', ''F1&dWp''])"
    using fine_save_saves[of "''HMF1&dWp''" "''.pwtmp''" "''/d''" Map.empty] by (auto simp: SaveWriting_def)
  obtain e where e: "LoadWriting nth_field plain_importer ''Sans'' (\<lambda>b. Inr (SaveToMessage letter)) (fine_load [''HM'', ''F1&dWp'']) (new_writer ''Mono'') = (B_OK, Some e)"
    "cells (fParas e) = cells (fParas letter)" "map images (fParas e) = map (\<lambda>p. map_option opaque_image \<circ> images p) (fParas letter)"
    using writing_survives_the_disk[where stored = "''HMF1&dWp''" and flatten = "\<lambda>m. Inr ''HMF1&dWp''" and fam = "''Sans''" and old = "new_writer ''Mono''"
        and unflatten = "\<lambda>b. Inr (SaveToMessage letter)", OF message_kit_nth_field plain_importer_kit letter_kept _ _ _ saved] by auto
  have "length (fParas e) = 2" using arg_cong[OF e(3), of length] by (simp add: letter_def)
  then have "images (fParas e ! 1) 0 = Some (opaque_image seal)"
    using arg_cong[OF e(3), of "\<lambda>xs. xs ! 1"] by (simp add: letter_def)
  then show ?thesis using e(1,2) by blast
qed

text \<open>An image with an alpha channel does not come back as it was.\<close>

lemma alpha_is_lost:
  assumes "bitmap g = Some b" and "ColorSpace b = B_RGBA32"
  shows "opaque_image g \<noteq> g"
proof
  assume "opaque_image g = g"
  then have "bitmap (opaque_image g) = bitmap g" by simp
  then show False using assms by (cases b) (simp add: opaque_image_def)
qed

end
