(* ===== verification/WriterFind.thy ===== *)
theory WriterFind
  imports WriterLine WriterFile
begin

text \<open>
  Finding and replacing in ProseWriter's document, and the flat text they search: the cached text is
  always the text of the paragraphs, a search finds the first occurrence, and replacing all of them
  returns and is one pass over the text.
\<close>

section \<open>The cached text\<close>

definition cache_ok :: "writer \<Rightarrow> bool" where
  "cache_ok d \<longleftrightarrow> (fPlainTextValid d \<longrightarrow> fPlainTextCache d = plain_text (fParas d))"

lemma cache_invalid: "\<not> fPlainTextValid d \<Longrightarrow> cache_ok d"
  by (simp add: cache_ok_def)

lemma PlainText_text: "cache_ok d \<Longrightarrow> fst (PlainText d) = plain_text (fParas d) \<and> cache_ok (snd (PlainText d)) \<and> fParas (snd (PlainText d)) = fParas d"
  by (simp add: PlainText_def cache_ok_def)

lemma insert_piece_invalid: "\<not> fPlainTextValid (insert_piece off t fo d)"
  by (simp add: insert_piece_def Let_def split: prod.split)

lemma SplitPara_invalid: "\<not> fPlainTextValid (SplitPara off d)"
  by (simp add: SplitPara_def Let_def split: prod.split)

lemma insert_lines_cache: "cache_ok d \<Longrightarrow> cache_ok (insert_lines off t fo d)"
proof (induction off t fo d rule: insert_lines.induct)
  case (1 off t fo d)
  let ?seg = "takeWhile (\<lambda>c. c \<noteq> newline) t" and ?rest = "dropWhile (\<lambda>c. c \<noteq> newline) t"
  let ?d = "if ?seg \<noteq> [] then insert_piece off ?seg fo d else d"
  have "cache_ok ?d" using "1.prems" insert_piece_invalid cache_invalid by simp
  moreover have "cache_ok (SplitPara (off + length ?seg) ?d)" by (simp add: cache_invalid SplitPara_invalid)
  ultimately show ?case using "1.IH"[of ?seg ?rest ?d] "1.prems" by (subst insert_lines.simps) (simp add: Let_def)
qed

lemma Insert_cache: "cache_ok d \<Longrightarrow> cache_ok (Insert off t fo d)"
  by (simp add: Insert_def insert_lines_cache cache_invalid insert_piece_invalid)

lemma Remove_cache: "cache_ok d \<Longrightarrow> Remove off n d = Some d' \<Longrightarrow> cache_ok d'"
  by (auto simp: Remove_def Let_def cache_invalid split: if_splits prod.splits option.splits)

lemma ApplyFormat_cache: "cache_ok d \<Longrightarrow> ApplyFormat off n f d = Some d' \<Longrightarrow> cache_ok d'"
  by (auto simp: ApplyFormat_def cache_invalid split: if_splits option.splits)

lemma SetParaFormat_cache: "cache_ok d \<Longrightarrow> cache_ok (SetParaFormat i f d)"
  by (simp add: SetParaFormat_def Let_def cache_invalid)

lemma Undo_cache: "cache_ok d \<Longrightarrow> Undo d = Some d' \<Longrightarrow> cache_ok d'"
  by (auto simp: Undo_def Let_def cache_invalid split: if_splits)

lemma Redo_cache: "cache_ok d \<Longrightarrow> Redo d = Some d' \<Longrightarrow> cache_ok d'"
  by (auto simp: Redo_def Let_def cache_invalid split: if_splits)

section \<open>The reference\<close>

definition alike :: "bool \<Rightarrow> string \<Rightarrow> string \<Rightarrow> bool" where
  "alike caseSensitive s t \<longleftrightarrow> list_all2 (\<lambda>a b. FoldChar caseSensitive a = FoldChar caseSensitive b) s t"

text \<open>One pass over the text: how many occurrences, none within another, and the text with each replaced.\<close>

function replaced :: "bool \<Rightarrow> string \<Rightarrow> string \<Rightarrow> string \<Rightarrow> nat \<times> string" where
  "replaced caseSensitive needle with t =
     (if needle = [] \<or> length t < length needle then (0, t)
      else if alike caseSensitive (take (length needle) t) needle
      then (let (n, r) = replaced caseSensitive needle with (drop (length needle) t) in (n + 1, with @ r))
      else (let (n, r) = replaced caseSensitive needle with (tl t) in (n, hd t # r)))"
  by auto
termination by (relation "measure (\<lambda>(c, needle, with, t). length t)") (auto simp: neq_Nil_conv)

declare replaced.simps [simp del]

lemma MatchAt_alike:
  assumes "pos + length needle \<le> length t"
  shows "MatchAt t pos needle c \<longleftrightarrow> alike c (take (length needle) (drop pos t)) needle"
  using assms by (auto simp: MatchAt_def alike_def list_all2_conv_all_nth list_all_iff)

lemma replaced_end: "length t < length needle \<Longrightarrow> replaced c needle with t = (0, t)"
  by (subst replaced.simps) simp

lemma replaced_skip:
  assumes "needle \<noteq> []" and "pos \<le> found" and "found \<le> length t"
    and "\<forall>j. pos \<le> j \<longrightarrow> j < found \<longrightarrow> j + length needle \<le> length t \<longrightarrow> \<not> MatchAt t j needle c"
  shows "replaced c needle with (drop pos t) = (fst (replaced c needle with (drop found t)), drop pos (take found t) @ snd (replaced c needle with (drop found t)))"
  using assms
proof (induction "found - pos" arbitrary: pos)
  case (Suc m)
  then have pos: "pos < found" "drop pos t = t ! pos # drop (Suc pos) t" by (simp_all add: Cons_nth_drop_Suc)
  have front: "drop pos (take found t) = t ! pos # drop (Suc pos) (take found t)"
    using pos(1) Suc.prems(3) by (simp add: Cons_nth_drop_Suc[symmetric])
  have IH: "replaced c needle with (drop (Suc pos) t) = (fst (replaced c needle with (drop found t)), drop (Suc pos) (take found t) @ snd (replaced c needle with (drop found t)))"
    using Suc pos(1) by simp
  show ?case
  proof (cases "pos + length needle \<le> length t")
    case True
    then have "\<not> alike c (take (length needle) (drop pos t)) needle" using MatchAt_alike[OF True] Suc.prems(4) pos(1) by blast
    moreover have "\<not> length (drop pos t) < length needle" using True by simp
    ultimately show ?thesis using Suc.prems(1) IH front unfolding pos(2) by (subst replaced.simps) (simp add: case_prod_beta)
  next
    case False
    then have "length (drop pos t) < length needle" "length (drop (Suc pos) t) < length needle" "length (drop found t) < length needle"
      using pos(1) Suc.prems(3) by auto
    then have "replaced c needle with (drop pos t) = (0, drop pos t)" "replaced c needle with (drop found t) = (0, drop found t)"
      using replaced_end by blast+
    moreover have "drop pos (take found t) @ drop found t = drop pos t"
      using append_take_drop_id[of "found - pos" "drop pos t"] pos(1) by (simp add: drop_take)
    ultimately show ?thesis by simp
  qed
qed simp

section \<open>Searching\<close>

lemma search_Some:
  assumes "search t (length t) needle from c = Some pos" and "needle \<noteq> []"
  shows "from \<le> pos" "pos + length needle \<le> length t" "MatchAt t pos needle c"
    "\<forall>j. from \<le> j \<longrightarrow> j < pos \<longrightarrow> \<not> MatchAt t j needle c"
proof -
  let ?ps = "[from..<length t + 1 - length needle]"
  obtain i where i: "i < length ?ps" "MatchAt t (?ps ! i) needle c" "pos = ?ps ! i" "\<forall>j<i. \<not> MatchAt t (?ps ! j) needle c"
    using assms(1) by (auto simp: search_def find_Some_iff)
  then have pos: "pos = from + i" by (simp del: upt_Suc)
  have "0 < length needle" using assms(2) by simp
  then show "from \<le> pos" "pos + length needle \<le> length t" "MatchAt t pos needle c" using i pos by (auto simp del: upt_Suc)
  show "\<forall>j. from \<le> j \<longrightarrow> j < pos \<longrightarrow> \<not> MatchAt t j needle c"
  proof (intro allI impI)
    fix j assume "from \<le> j" "j < pos"
    then have "j - from < i" "?ps ! (j - from) = j" using pos i(1) by (auto simp del: upt_Suc)
    then show "\<not> MatchAt t j needle c" using i(4) by metis
  qed
qed

lemma search_None:
  "search t (length t) needle from c = None \<longleftrightarrow> (\<forall>j. from \<le> j \<longrightarrow> j + length needle \<le> length t \<longrightarrow> \<not> MatchAt t j needle c)" if "needle \<noteq> []"
  using that by (auto simp: search_def find_None_iff Suc_diff_le less_Suc_eq_le)

lemma FindNext_text:
  assumes "paras_ok (fParas d)" and "cache_ok d" and "needle \<noteq> []"
  shows "FindNext needle (int from) c False d = (search (bytes (row_at d)) (length (row_at d)) needle from c, snd (PlainText d))"
    and "paras_ok (fParas (snd (PlainText d)))" "row_at (snd (PlainText d)) = row_at d" "cache_ok (snd (PlainText d))"
proof -
  obtain t e where e: "PlainText d = (t, e)" by force
  then have "t = bytes (row_at d)" "fParas e = fParas d" "cache_ok e"
    using PlainText_text[OF assms(2)] plain_text_cells[of "fParas d"] assms(1) by (auto simp: paras_ok_def row_at_def)
  then show "FindNext needle (int from) c False d = (search (bytes (row_at d)) (length (row_at d)) needle from c, snd (PlainText d))"
    "paras_ok (fParas (snd (PlainText d)))" "row_at (snd (PlainText d)) = row_at d" "cache_ok (snd (PlainText d))"
    using e assms(1,3) Length_cells[OF assms(1)] by (auto simp: FindNext_def row_at_def Let_def split: option.split)
qed

section \<open>Replacing\<close>

lemma replace_loop_text:
  assumes "paras_ok (fParas d)" and "cache_ok d" and "needle \<noteq> []" and "pos \<le> length (row_at d)"
  shows "\<exists>d'. replace_loop needle with c pos count d = Some (count + fst (replaced c needle with (drop pos (bytes (row_at d)))), d')
    \<and> paras_ok (fParas d') \<and> cache_ok d'
    \<and> bytes (row_at d') = take pos (bytes (row_at d)) @ snd (replaced c needle with (drop pos (bytes (row_at d))))"
  using assms
proof (induction "length (row_at d) - pos" arbitrary: d pos count rule: less_induct)
  case less
  let ?T = "bytes (row_at d)" and ?e = "snd (PlainText d)"
  note find = FindNext_text(1)[OF less.prems(1-3), of pos c] FindNext_text(2-4)[OF less.prems(1-3)]
  show ?case
  proof (cases "search ?T (length (row_at d)) needle pos c")
    case None
    then have none: "\<forall>j. pos \<le> j \<longrightarrow> j + length needle \<le> length ?T \<longrightarrow> \<not> MatchAt ?T j needle c"
      using search_None[OF less.prems(3), of ?T pos c] by simp
    have "replaced c needle with (drop pos ?T) = (0, drop pos ?T)"
      using replaced_skip[of needle pos "length ?T" ?T c "with"] less.prems(3,4) none replaced_end[of "[]" needle c "with"] by simp
    then show ?thesis using find None by (subst replace_loop.simps) (simp flip: bytes_simps(4))
  next
    case (Some found)
    have s: "pos \<le> found" "found + length needle \<le> length ?T" "MatchAt ?T found needle c" "\<forall>j. pos \<le> j \<longrightarrow> j < found \<longrightarrow> \<not> MatchAt ?T j needle c"
      using search_Some[of ?T needle pos c found] Some less.prems(3) by auto
    have m: "0 < length needle" using less.prems(3) by simp
    have fits: "found + length needle \<le> length (cells (fParas ?e))" using s(2) find(3) by (simp add: row_at_def)
    obtain d1 where d1: "Remove found (length needle) ?e = Some d1" "paras_ok (fParas d1)"
        "row_at d1 = take found (row_at d) @ drop (found + length needle) (row_at d)" "cache_ok d1"
      using Remove_cells[OF find(2) m fits] find(3) by (auto simp: row_at_def cache_invalid)
    have "found \<le> length (cells (fParas d1))" using d1(3) s(2) by (simp add: row_at_def)
    from Insert_cells[OF d1(2) this, of "with" None] obtain cs where
      cs: "paras_ok (fParas (Insert found with None d1))" "bytes cs = with" "row_at (Insert found with None d1) = take found (row_at d1) @ cs @ drop found (row_at d1)"
      by (auto simp: row_at_def)
    define d2 where "d2 = Insert found with None d1"
    have T2: "bytes (row_at d2) = take found ?T @ with @ drop (found + length needle) ?T"
      using cs(2,3) d1(3) s(2) unfolding d2_def by (simp add: cs(2))
    have len: "length (row_at d2) = found + length with + (length (row_at d) - (found + length needle))" "found + length needle \<le> length (row_at d)"
      using arg_cong[OF T2, of length] s(2) by simp_all
    have "length (row_at d2) - (found + length with) < length (row_at d) - pos" "found + length with \<le> length (row_at d2)"
      using len s(1) m by linarith+
    from less.hyps[OF this(1) _ _ less.prems(3) this(2), of "count + 1"] cs(1) Insert_cache[OF d1(4)] obtain d' where
      d': "replace_loop needle with c (found + length with) (count + 1) d2 = Some (count + 1 + fst (replaced c needle with (drop (found + length with) (bytes (row_at d2)))), d')"
        "paras_ok (fParas d')" "cache_ok d'"
        "bytes (row_at d') = take (found + length with) (bytes (row_at d2)) @ snd (replaced c needle with (drop (found + length with) (bytes (row_at d2))))"
      by (auto simp: d2_def)
    have rest: "drop (found + length with) (bytes (row_at d2)) = drop (found + length needle) ?T"
      "take (found + length with) (bytes (row_at d2)) = take found ?T @ with"
      unfolding T2 using s(2) by simp_all
    have here: "replaced c needle with (drop found ?T) = (fst (replaced c needle with (drop (found + length needle) ?T)) + 1,
        with @ snd (replaced c needle with (drop (found + length needle) ?T)))"
      using MatchAt_alike[OF s(2), of c] s(2,3) less.prems(3)
      by (subst replaced.simps) (auto simp: case_prod_beta add.commute simp del: bytes_simps(6,7))
    have whole: "replaced c needle with (drop pos ?T) = (fst (replaced c needle with (drop found ?T)), drop pos (take found ?T) @ snd (replaced c needle with (drop found ?T)))"
      using replaced_skip[of needle pos found ?T c "with"] less.prems(3) s(1,2,4) by simp
    have "replace_loop needle with c pos count d = replace_loop needle with c (found + length with) (count + 1) d2"
      using find(1) Some d1(1) by (subst replace_loop.simps) (simp add: d2_def)
    moreover have "take pos ?T @ drop pos (take found ?T) = take found ?T"
      using append_take_drop_id[of pos "take found ?T"] s(1) by (simp add: min_absorb1 del: append_take_drop_id bytes_simps(6,7))
    ultimately show ?thesis using d' rest here whole by (auto simp del: bytes_simps(6,7) simp flip: append_assoc)
  qed
qed

section \<open>The cache under every operation\<close>

lemma plain_text_update: "body q = body (ps ! i) \<Longrightarrow> plain_text (ps[i := q]) = plain_text ps"
proof (induction ps arbitrary: i)
  case (Cons p ps)
  then show ?case by (cases i) (auto simp: list_update_nonempty)
qed simp

lemma InsertImage_cache: "cache_ok d \<Longrightarrow> cache_ok (snd (InsertImage off bits w h d))"
  using Insert_cache[of d off kObjectChar None]
  by (auto simp: InsertImage_def Let_def cache_ok_def plain_text_update split: prod.split)

lemma table_rows_cache: "cache_ok d \<Longrightarrow> cache_ok (table_rows rows cols pos head d)"
  by (induction rows cols pos head d rule: table_rows.induct) (auto simp: Let_def Insert_cache cache_invalid SplitPara_invalid)

lemma insert_cells_cache: "cache_ok d \<Longrightarrow> cache_ok (fold (insert_cell col) ps d)"
  by (induction ps arbitrary: d) (auto simp: insert_cell_def Insert_cache)

lemma delete_cell_cache: "cache_ok d \<Longrightarrow> delete_cell col p d = Some d' \<Longrightarrow> cache_ok d'"
  by (auto simp: delete_cell_def Let_def dest: Remove_cache split: option.splits)

lemma delete_cells_cache: "cache_ok d \<Longrightarrow> delete_cells col ps d = Some d' \<Longrightarrow> cache_ok d'"
  by (induction ps arbitrary: d) (auto dest: delete_cell_cache split: option.splits)

lemma ApplyStyle_cache:
  assumes "cache_ok d" and "ApplyStyle off n i d = Some d'"
  shows "cache_ok d'"
proof -
  have paras: "cache_ok e \<Longrightarrow> cache_ok (fold (\<lambda>p d. if p < length (fParas d) then SetParaFormat (int p) f d else d) ps e)" for ps f e
    by (induction ps arbitrary: e) (auto simp: SetParaFormat_cache)
  from assms show ?thesis
    using paras ApplyFormat_cache by (auto simp: ApplyStyle_def Let_def simp del: upt_Suc split: option.splits if_splits)
qed

lemma FindNext_cache: "cache_ok d \<Longrightarrow> cache_ok (snd (FindNext needle from c wrap d))"
  using PlainText_text[of d] by (auto simp: FindNext_def Let_def split: prod.split option.split)

lemma side_cache:
  assumes "cache_ok d"
  shows "cache_ok (AddStyle name chr par d)" "cache_ok (RemoveStyle i d)" "cache_ok (ClearStyles d)" "cache_ok (SetHeaderText t d)" "cache_ok (SetFooterText t d)"
    "cache_ok (SetUndoCoalescing on d)" "cache_ok (SavedClean d)" "cache_ok (SetDefaultFormat f d)"
  using assms by (simp_all add: SetUndoCoalescing_def SavedClean_def SetDefaultFormat_def AddStyle_def RemoveStyle_def ClearStyles_def SetHeaderText_def SetFooterText_def cache_ok_def)

lemma replace_loop_cache:
  assumes "replace_loop needle with c pos count d = Some r" and "cache_ok d"
  shows "cache_ok (snd r)"
proof -
  have "cache_ok d \<longrightarrow> cache_ok (snd r)"
  proof (induction rule: replace_loop.raw_induct[OF _ assms(1), where P = "\<lambda>needle with c pos count d r. cache_ok d \<longrightarrow> cache_ok (snd r)"])
    case (1 replace_loop needle "with" c pos count d r)
    note IH = 1(1) and body = 1(2)
    obtain s e where e: "FindNext needle (int pos) c False d = (s, e)" by force
    then have found: "cache_ok e" if "cache_ok d" using FindNext_cache[OF that, of needle "int pos" c False] by simp
    show ?case
    proof (cases s)
      case None
      then show ?thesis using body e found by auto
    next
      case (Some p)
      then obtain d1 where "Remove p (length needle) e = Some d1"
        "replace_loop needle with c (p + length with) (count + 1) (Insert p with None d1) = Some r"
        using body e by (auto split: option.splits)
      then show ?thesis using IH found Remove_cache Insert_cache by metis
    qed
  qed
  then show ?thesis using assms(2) by blast
qed

lemma ReplaceAll_cache: "cache_ok d \<Longrightarrow> ReplaceAll needle with c d = Some (n, d') \<Longrightarrow> cache_ok d'"
  by (auto simp: ReplaceAll_def split: if_splits dest: replace_loop_cache[rotated])

lemma LoadFromMessage_invalid: "LoadFromMessage field import_bits fam m d = Some d' \<Longrightarrow> \<not> fPlainTextValid d'"
  by (auto simp: LoadFromMessage_def Let_def split: option.splits)

lemma LoadWriting_cache:
  assumes "cache_ok d" and "LoadWriting field import_bits fam unflatten env d = (st, Some d')"
  shows "cache_ok d'"
proof -
  have "d' = d \<or> (\<exists>m. LoadFromMessage field import_bits fam m d = Some d')"
    using assms(2) by (auto simp: LoadWriting_def LoadFromFile_def Let_def split: if_splits sum.splits)
  then show ?thesis using assms(1) LoadFromMessage_invalid cache_invalid by blast
qed

text \<open>
  Every call that changes a document or its cached text, in any order; the others only read it. A call
  that does not return leaves no document.
\<close>

inductive writer_call :: "writer \<Rightarrow> writer \<Rightarrow> bool" where
  "writer_call d (Insert off t fo d)"
| "Remove off n d = Some d' \<Longrightarrow> writer_call d d'"
| "writer_call d (SplitPara off d)"
| "ApplyFormat off n f d = Some d' \<Longrightarrow> writer_call d d'"
| "writer_call d (SetParaFormat i pf d)"
| "Undo d = Some d' \<Longrightarrow> writer_call d d'"
| "Redo d = Some d' \<Longrightarrow> writer_call d d'"
| "writer_call d (snd (InsertImage off bits w h d))"
| "writer_call d (snd (InsertTable off rows cols header d))"
| "writer_call d (snd (snd (InsertTableRowAfter off d)))"
| "writer_call d (snd (snd (InsertTableColumnAt off d)))"
| "DeleteTableRow off d = Some (st, caret, d') \<Longrightarrow> writer_call d d'"
| "DeleteTableColumnAt off d = Some (st, caret, d') \<Longrightarrow> writer_call d d'"
| "writer_call d (AddStyle name chr par d)"
| "writer_call d (RemoveStyle i d)"
| "writer_call d (ClearStyles d)"
| "writer_call d (SetHeaderText t d)"
| "writer_call d (SetFooterText t d)"
| "ApplyStyle off n i d = Some d' \<Longrightarrow> writer_call d d'"
| "writer_call d (snd (FindNext needle from c wrap d))"
| "writer_call d (snd (PlainText d))"
| "writer_call d (SetUndoCoalescing on d)"
| "writer_call d (SavedClean d)"
| "writer_call d (SetDefaultFormat f d)"
| "ReplaceAll needle with c d = Some (n, d') \<Longrightarrow> writer_call d d'"
| "LoadFromMessage field import_bits fam m d = Some d' \<Longrightarrow> writer_call d d'"
| "LoadWriting field import_bits fam unflatten env d = (st, Some d') \<Longrightarrow> writer_call d d'"

lemma writer_call_cache: "writer_call d d' \<Longrightarrow> cache_ok d \<Longrightarrow> cache_ok d'"
proof (induction rule: writer_call.induct)
  case (9 d off rows cols header)
  then show ?case by (auto simp: InsertTable_def table_rows_cache)
next
  case (10 d off)
  then show ?case by (auto simp: InsertTableRowAfter_def Let_def Insert_cache cache_invalid SplitPara_invalid)
next
  case (11 d off)
  then show ?case by (auto simp: InsertTableColumnAt_def Let_def insert_cells_cache split: prod.split)
next
  case (12 off d st caret d')
  then show ?case by (auto simp: DeleteTableRow_def Let_def split: if_splits option.splits dest: Remove_cache)
next
  case (13 off d st caret d')
  then show ?case by (auto simp: DeleteTableColumnAt_def Let_def simp del: upt_Suc split: if_splits option.splits prod.splits dest: delete_cells_cache)
qed (auto simp: Insert_cache cache_invalid SplitPara_invalid SetParaFormat_cache InsertImage_cache FindNext_cache PlainText_text
    side_cache LoadFromMessage_invalid
    dest: LoadWriting_cache ReplaceAll_cache Remove_cache ApplyFormat_cache Undo_cache Redo_cache ApplyStyle_cache)

section \<open>Properties\<close>

inductive writer_used :: "string \<Rightarrow> writer \<Rightarrow> bool" for fam where
  "writer_used fam (new_writer fam)"
| "writer_used fam d \<Longrightarrow> writer_call d d' \<Longrightarrow> writer_used fam d'"

text \<open>
  C28 The flat text is never stale. Whatever calls were made on a document, in whatever order, edits,
  replacements, undo and redo, images, tables, styles, searches and loading among them, the text that
  searching and saving read is the text of the paragraphs, newlines between them; asking for it changes
  no paragraph.
\<close>

theorem plain_text_is_current:
  assumes "writer_used fam d"
  shows "fst (PlainText d) = plain_text (fParas d) \<and> fParas (snd (PlainText d)) = fParas d"
proof -
  have "cache_ok d" using assms
    by (induction rule: writer_used.induct) (auto intro: writer_call_cache simp: cache_invalid new_writer_def)
  then show ?thesis using PlainText_text by simp
qed

definition searched :: writer where
  "searched = Insert 2 ''!'' None (snd (PlainText two_lines))"

theorem plain_text_is_current_witness:
  "fst (PlainText searched) = ''ab!'' @ newline # ''c''
   \<and> (\<exists>d'. LoadFromMessage nth_field plain_importer [] [] (snd (PlainText searched)) = Some d' \<and> fst (PlainText d') = [])"
proof -
  have used: "writer_used ''Sans'' searched"
    unfolding searched_def two_lines_def
    by (rule writer_used.intros(2)[OF writer_used.intros(2)[OF writer_used.intros(2)[OF writer_used.intros(2)[OF writer_used.intros(1)
      writer_call.intros(1)] writer_call.intros(3)] writer_call.intros(21)] writer_call.intros(1)])
  from plain_text_is_current[OF used] have "fst (PlainText searched) = plain_text (fParas searched)" by simp
  also have "\<dots> = ''ab!'' @ newline # ''c''" by code_simp
  finally have first: "fst (PlainText searched) = ''ab!'' @ newline # ''c''" .
  let ?d = "snd (PlainText searched)"
  have none: "for_messages nth_field [] n f 0 s = Some s" for n f and s :: 's
    by (subst for_messages.simps) (simp add: FindMessage_def nth_field_def)
  have "\<exists>d'. LoadFromMessage nth_field plain_importer [] [] ?d = Some d' \<and> map body (fParas d') = [[]]"
    by (simp add: LoadFromMessage_def Let_def none new_para_def)
  then obtain d' where d': "LoadFromMessage nth_field plain_importer [] [] ?d = Some d'" "map body (fParas d') = [[]]"
    by (elim exE conjE)
  have "writer_used ''Sans'' d'"
    by (rule writer_used.intros(2)[OF writer_used.intros(2)[OF used writer_call.intros(21)] writer_call.intros(26)[OF d'(1)]])
  from plain_text_is_current[OF this] d'(2) have "fst (PlainText d') = []" by auto
  with first d'(1) show ?thesis by blast
qed

definition matches_at :: "bool \<Rightarrow> string \<Rightarrow> string \<Rightarrow> nat \<Rightarrow> bool" where
  "matches_at c needle t j \<longleftrightarrow> j + length needle \<le> length t \<and> alike c (take (length needle) (drop j t)) needle"

definition first_match :: "bool \<Rightarrow> string \<Rightarrow> string \<Rightarrow> nat \<Rightarrow> nat option \<Rightarrow> bool" where
  "first_match c needle t from r \<longleftrightarrow>
     (case r of None \<Rightarrow> (\<forall>j \<ge> from. \<not> matches_at c needle t j)
      | Some p \<Rightarrow> from \<le> p \<and> matches_at c needle t p \<and> (\<forall>j. from \<le> j \<longrightarrow> j < p \<longrightarrow> \<not> matches_at c needle t j))"

lemma search_first: "needle \<noteq> [] \<Longrightarrow> first_match c needle t from (search t (length t) needle from c)"
proof (cases "search t (length t) needle from c")
  case None
  assume "needle \<noteq> []"
  from search_None[OF this, of t "from" c] None show ?thesis
    unfolding first_match_def matches_at_def None by (auto simp: MatchAt_alike)
next
  case (Some p)
  assume "needle \<noteq> []"
  from search_Some[OF Some this] show ?thesis
    using Some by (auto simp: first_match_def matches_at_def MatchAt_alike)
qed

text \<open>
  C29 A search answers with the first occurrence. From an offset on it finds the least one at which the
  needle matches, bytes compared as told and inside the document; when there is none from there on it
  finds the least one from the start if it is told to wrap, and answers -1 if not; wrapping, -1 means that
  there is none in the whole text. No paragraph changes.
\<close>

theorem search_finds_the_first:
  assumes "paras_ok (fParas d)" and "cache_ok d" and "needle \<noteq> []" and "FindNext needle (int from) c wrap d = (r, d')"
  shows "(if \<exists>j \<ge> from. matches_at c needle (plain_text (fParas d)) j
      then r \<noteq> None \<and> first_match c needle (plain_text (fParas d)) from r
      else if wrap then first_match c needle (plain_text (fParas d)) 0 r else r = None)
    \<and> fParas d' = fParas d"
proof -
  let ?T = "plain_text (fParas d)"
  have T: "?T = bytes (row_at d)" using plain_text_cells[of "fParas d"] assms(1) by (simp add: paras_ok_def row_at_def)
  note find = FindNext_text(1)[OF assms(1-3), of "from" c]
  have n: "Length (fParas d) = length ?T" "fst (PlainText d) = ?T" "fParas (snd (PlainText d)) = fParas d"
    using Length_cells[OF assms(1)] T PlainText_text[OF assms(2)] by (simp_all add: row_at_def)
  have "FindNext needle (int from) c wrap d = (case search ?T (length ?T) needle from c of Some p \<Rightarrow> (Some p, snd (PlainText d))
      | None \<Rightarrow> if wrap \<and> from > 0 then (search ?T (length ?T) needle 0 c, snd (PlainText d)) else (None, snd (PlainText d)))"
  proof -
    obtain e where e: "PlainText d = (?T, e)" using n(2) by (cases "PlainText d") auto
    then have "Length (fParas e) = length ?T" using n(1,3) by simp
    then show ?thesis using assms(3) e n(1) by (simp add: FindNext_def Let_def split: option.split)
  qed
  moreover note here = search_first[OF assms(3), of c ?T "from"] and start = search_first[OF assms(3), of c ?T 0]
  moreover have "(search ?T (length ?T) needle from c = None) \<longleftrightarrow> \<not> (\<exists>j \<ge> from. matches_at c needle ?T j)"
    using here by (cases "search ?T (length ?T) needle from c") (auto simp: first_match_def)
  ultimately show ?thesis
    using assms(4) n(3) by (cases "search ?T (length ?T) needle from c") (auto split: if_splits)
qed

theorem search_finds_the_first_witness:
  "\<exists>r d'. FindNext ''B'' 2 False True two_lines = (r, d') \<and> first_match False ''B'' (plain_text (fParas two_lines)) 0 r"
proof -
  obtain r d' where f: "FindNext ''B'' (int 2) False True two_lines = (r, d')" by force
  have "cache_ok two_lines" by code_simp
  from search_finds_the_first[OF two_lines_ok(1) this _ f]
  have "first_match False ''B'' (plain_text (fParas two_lines)) 0 r \<or> (\<exists>j \<ge> 2. matches_at False ''B'' (plain_text (fParas two_lines)) j)"
    by (auto split: if_splits)
  moreover have "plain_text (fParas two_lines) = ''ab'' @ newline # ''c''" by code_simp
  moreover have "\<not> matches_at False ''B'' (''ab'' @ newline # ''c'') j" if "2 \<le> j" for j
  proof (cases "j < 4")
    case True
    then have "j = 2 \<or> j = 3" using that by auto
    moreover have "\<not> matches_at False ''B'' (''ab'' @ newline # ''c'') 2" "\<not> matches_at False ''B'' (''ab'' @ newline # ''c'') 3" by code_simp+
    ultimately show ?thesis by metis
  qed (simp add: matches_at_def)
  ultimately show ?thesis using f by auto
qed

text \<open>
  C26 Replacing all occurrences returns, whatever replaces them, and is one pass over the text: the
  count and the text are those of the reference, which walks the bytes, replaces each occurrence it
  meets and goes on behind it, so that a replacement is never searched again. The runs still tile the
  paragraphs, across which needles and replacements may reach.
\<close>

theorem replace_all_is_one_pass:
  assumes "paras_ok (fParas d)" and "cache_ok d" and "needle \<noteq> []" and "needle \<noteq> with"
  shows "\<exists>n t d'. replaced c needle with (plain_text (fParas d)) = (n, t) \<and> ReplaceAll needle with c d = Some (Some n, d')
    \<and> plain_text (fParas d') = t \<and> paras_ok (fParas d')"
proof -
  have T: "plain_text (fParas e) = bytes (row_at e)" if "paras_ok (fParas e)" for e
    using plain_text_cells[of "fParas e"] that by (simp add: paras_ok_def row_at_def)
  obtain n t where nt: "replaced c needle with (plain_text (fParas d)) = (n, t)" by force
  obtain d' where "replace_loop needle with c 0 0 d = Some (n, d')" "paras_ok (fParas d')" "bytes (row_at d') = t"
    using replace_loop_text[OF assms(1-3) le0, of "with" c 0] nt T[OF assms(1)] by auto
  then show ?thesis using nt assms(3,4) T by (simp add: ReplaceAll_def)
qed

theorem replace_all_is_one_pass_witness:
  "\<exists>d'. ReplaceAll ''b'' ''bb'' True two_lines = Some (Some 1, d') \<and> plain_text (fParas d') = ''abb'' @ newline # ''c''"
proof -
  have "cache_ok two_lines" by code_simp
  moreover have "replaced True ''b'' ''bb'' (plain_text (fParas two_lines)) = (1, ''abb'' @ newline # ''c'')" by code_simp
  ultimately show ?thesis using replace_all_is_one_pass[OF two_lines_ok(1), of "''b''" "''bb''" True] by auto
qed

end
