(* ===== verification/WriterRtf.thy ===== *)
theory WriterRtf
  imports WriterFile
begin

text \<open>
  ProseWriter's RTF, \<open>prosewriter/app/src/PWRTF.cpp\<close>: the writer, and the reader as a state machine over
  the rest of the text. The text holds no NUL byte; numbers do not overflow.
\<close>

section \<open>Characters\<close>

definition backslash :: char where
  "backslash = CHR 0x5C"

definition quote :: char where
  "quote = CHR 0x27"

definition cell_mark :: char where
  "cell_mark = CHR 0x1D"

definition return :: char where
  "return = CHR 0x0D"

definition tab :: char where
  "tab = CHR 0x09"

definition isalpha :: "char \<Rightarrow> bool" where
  "isalpha c \<longleftrightarrow> CHR ''A'' \<le> c \<and> c \<le> CHR ''Z'' \<or> CHR ''a'' \<le> c \<and> c \<le> CHR ''z''"

text \<open>A \<open>float\<close> cast to an integer.\<close>

definition to_int :: "rat \<Rightarrow> int" where
  "to_int r = (if 0 \<le> r then \<lfloor>r\<rfloor> else \<lceil>r\<rceil>)"

definition hex_char :: "nat \<Rightarrow> char" where
  "hex_char n = (if n < 10 then digit_char n else char_of (87 + n))"

definition hex_val :: "char \<Rightarrow> nat" where
  "hex_val c = (if is_digit c then digit_val c
     else if CHR ''a'' \<le> c \<and> c \<le> CHR ''f'' then of_char c - 87
     else if CHR ''A'' \<le> c \<and> c \<le> CHR ''F'' then of_char c - 55 else 0)"

section \<open>The writer\<close>

definition code :: "string \<Rightarrow> string" where
  "code w = backslash # w @ '' ''"

definition numbered :: "string \<Rightarrow> int \<Rightarrow> string" where
  "numbered w n = backslash # w @ show_int n @ '' ''"

definition escaped :: "char \<Rightarrow> string" where
  "escaped c =
     (if c = backslash \<or> c = CHR ''{'' \<or> c = CHR ''}'' then [backslash, c]
      else if c = cell_mark then code ''tab''
      else if (of_char c :: nat) < 128 then [c]
      else [backslash, quote, hex_char (of_char c div 16), hex_char (of_char c mod 16)])"

definition AppendEscaped :: "string \<Rightarrow> string" where
  "AppendEscaped t = concat (map escaped t)"

definition family_or :: "string \<Rightarrow> char_format \<Rightarrow> string" where
  "family_or fam f = (if family f = [] then fam else family f)"

definition rgb :: "char_format \<Rightarrow> 8 word \<times> 8 word \<times> 8 word" where
  "rgb f = (case color f of (r, g, b, a) \<Rightarrow> (r, g, b))"

definition all_formats :: "writer \<Rightarrow> char_format list" where
  "all_formats d = concat (map (\<lambda>p. map fmt (runs p)) (fParas d))"

definition font_names :: "writer \<Rightarrow> string list" where
  "font_names d =
     (let fam = family (fDefault d) in
      fold (\<lambda>f names. if family_or fam f = fam \<or> family_or fam f \<in> set names then names else names @ [family_or fam f])
        (all_formats d) [fam])"

definition color_table :: "writer \<Rightarrow> (8 word \<times> 8 word \<times> 8 word) list" where
  "color_table d = fold (\<lambda>f cs. if rgb f = (0, 0, 0) \<or> rgb f \<in> set cs then cs else cs @ [rgb f]) (all_formats d) []"

fun index_in :: "'a \<Rightarrow> 'a list \<Rightarrow> nat option" where
  "index_in x [] = None"
| "index_in x (y # ys) = (if x = y then Some 0 else map_option Suc (index_in x ys))"

definition font_entry :: "nat \<times> string \<Rightarrow> string" where
  "font_entry e = ''{'' @ backslash # ''f'' @ show_nat (fst e) @ '' '' @ snd e @ '';}''"

definition color_entry :: "8 word \<times> 8 word \<times> 8 word \<Rightarrow> string" where
  "color_entry c = (case c of (r, g, b) \<Rightarrow> backslash # ''red'' @ show_nat (unat r) @ backslash # ''green'' @ show_nat (unat g)
     @ backslash # ''blue'' @ show_nat (unat b) @ '';'')"

definition header :: "string list \<Rightarrow> (8 word \<times> 8 word \<times> 8 word) list \<Rightarrow> string" where
  "header names cs = ''{'' @ backslash # ''rtf1'' @ backslash # ''ansi'' @ backslash # ''deff0'' @ [newline]
     @ ''{'' @ backslash # ''fonttbl'' @ concat (map font_entry (zip [0..<length names] names)) @ ''}'' @ [newline]
     @ ''{'' @ backslash # ''colortbl;'' @ concat (map color_entry cs) @ ''}'' @ [newline]"

text \<open>The codes that lead from the format before to a run's.\<close>

definition format_codes :: "string list \<Rightarrow> (8 word \<times> 8 word \<times> 8 word) list \<Rightarrow> string \<Rightarrow> char_format \<Rightarrow> char_format \<Rightarrow> string" where
  "format_codes names cs fam prev f =
     (if family prev = family_or fam f then [] else numbered ''f'' (case index_in (family_or fam f) names of Some i \<Rightarrow> int i | None \<Rightarrow> 0))
     @ (if bold prev = bold f then [] else code (if bold f then ''b'' else ''b0''))
     @ (if italic prev = italic f then [] else code (if italic f then ''i'' else ''i0''))
     @ (if underline prev = underline f then [] else code (if underline f then ''ul'' else ''ulnone''))
     @ (if font_size prev = font_size f then [] else numbered ''fs'' (to_int (font_size f * 2 + 1 / 2)))
     @ (if rgb prev = rgb f then []
        else case (if rgb f = (0, 0, 0) then None else index_in (rgb f) cs) of
          Some i \<Rightarrow> numbered ''cf'' (int i + 1) | None \<Rightarrow> code ''cf0'')"

definition next_prev :: "string \<Rightarrow> char_format \<Rightarrow> char_format" where
  "next_prev fam f = f\<lparr>family := take font_family_room (family_or fam f)\<rparr>"

function next_run :: "run list \<Rightarrow> nat \<Rightarrow> nat \<Rightarrow> nat" where
  "next_run rs pos ri = (if ri + 1 < length rs \<and> pos \<ge> run_end (rs ! ri) then next_run rs pos (ri + 1) else ri)"
  by auto
termination by (relation "measure (\<lambda>(rs, pos, ri). length rs - ri)") auto

function segments :: "run list \<Rightarrow> nat \<Rightarrow> nat \<Rightarrow> nat \<Rightarrow> (char_format \<times> nat \<times> nat) list" where
  "segments rs n ri pos =
     (if n \<le> pos then []
      else let ri = next_run rs pos ri; r = rs ! min ri (length rs - 1); e = min (run_end r) n; e = (if e \<le> pos then pos + 1 else e)
           in (fmt r, pos, e) # segments rs n ri e)"
  by auto
termination
proof (relation "measure (\<lambda>(rs, n, ri, pos). n - pos)")
  fix n pos e e' ri' ri :: nat and rs :: "run list"
  assume "\<not> n \<le> pos" "e' = (if e \<le> pos then pos + 1 else e)"
  then show "((rs, n, ri', e'), rs, n, ri, pos) \<in> measure (\<lambda>(rs, n, ri, pos). n - pos)" by auto
qed simp

declare next_run.simps [simp del] segments.simps [simp del]

fun write_segments :: "string list \<Rightarrow> (8 word \<times> 8 word \<times> 8 word) list \<Rightarrow> string \<Rightarrow> string \<Rightarrow> char_format
    \<Rightarrow> (char_format \<times> nat \<times> nat) list \<Rightarrow> string \<times> char_format" where
  "write_segments names cs fam text prev [] = ([], prev)"
| "write_segments names cs fam text prev ((f, pos, e) # segs) =
     (case write_segments names cs fam text (next_prev fam f) segs of
        (out, prev') \<Rightarrow> (format_codes names cs fam prev f @ AppendEscaped (take (e - pos) (drop pos text)) @ out, prev'))"

definition twips :: "rat \<Rightarrow> int" where
  "twips x = to_int (x * 20 + 1 / 2)"

definition geometry :: "para_format \<Rightarrow> string" where
  "geometry f =
     (case alignment f of PW_ALIGN_CENTER \<Rightarrow> code ''qc'' | PW_ALIGN_RIGHT \<Rightarrow> code ''qr'' | PW_ALIGN_JUSTIFY \<Rightarrow> code ''qj'' | _ \<Rightarrow> code ''ql'')
     @ (if indentLeft f = 0 then [] else numbered ''li'' (twips (indentLeft f)))
     @ (if indentRight f = 0 then [] else numbered ''ri'' (twips (indentRight f)))
     @ (if indentFirst f = 0 then [] else numbered ''fi'' (twips (indentFirst f)))
     @ (if lineSpacing f = 1 then [] else numbered ''sl'' (to_int (lineSpacing f * 240 + 1 / 2)))
     @ (if spaceBefore f = 0 then [] else numbered ''sb'' (twips (spaceBefore f)))
     @ (if spaceAfter f = 0 then [] else numbered ''sa'' (twips (spaceAfter f)))
     @ concat (map (\<lambda>t. numbered ''tx'' (twips (fst t))) (tabs f))"

fun write_paras :: "string list \<Rightarrow> (8 word \<times> 8 word \<times> 8 word) list \<Rightarrow> string \<Rightarrow> char_format \<Rightarrow> para list \<Rightarrow> string" where
  "write_paras names cs fam prev [] = []"
| "write_paras names cs fam prev (p # ps) =
     (case write_segments names cs fam (body p) prev (segments (runs p) (length (body p)) 0 0) of
        (out, prev) \<Rightarrow> geometry (format p) @ out @ (if body p = [] then '' '' else [])
          @ (if ps = [] then [] else backslash # ''par'' @ [newline]) @ write_paras names cs fam prev ps)"

definition WriteRTF :: "writer \<Rightarrow> string" where
  "WriteRTF d =
     (let names = font_names d; cs = color_table d in
      header names cs
      @ write_paras names cs (family (fDefault d)) ((fDefault d)\<lparr>bold := False, italic := False, underline := False\<rparr>) (fParas d)
      @ ''}'' @ [newline])"

section \<open>The reader\<close>

record rtf_state =
  st_bold :: bool
  st_italic :: bool
  st_underline :: bool
  st_size :: rat
  st_font :: int
  st_color :: int
  st_align :: alignment
  st_left :: rat
  st_right :: rat
  st_first :: rat
  st_spacing :: rat
  st_before :: rat
  st_after :: rat
  st_tabs :: "rat list"

definition new_state :: rtf_state where
  "new_state = \<lparr>st_bold = False, st_italic = False, st_underline = False, st_size = 12, st_font = 0, st_color = 0, st_align = PW_ALIGN_LEFT,
     st_left = 0, st_right = 0, st_first = 0, st_spacing = 1, st_before = 0, st_after = 0, st_tabs = []\<rparr>"

text \<open>\<open>fRest\<close> is the text from \<open>fPos\<close> on, empty when \<open>fPos\<close> is at or past the end.\<close>

record reader =
  fDoc :: writer
  fRest :: string
  fDepth :: int
  fState :: rtf_state
  fStack :: "rtf_state list"
  fDefaultFormat :: char_format
  fInFontTable :: bool
  fInColorTable :: bool
  fSeenAutoColor :: bool
  fFonts :: "int \<Rightarrow> string option"
  fColors :: "rgb_color list"
  fCurrentName :: string
  fPendingFont :: int
  fPendingColor :: rgb_color
  fTableDepth :: int
  fSeenAlignForPara :: "int set"

definition new_reader :: "writer \<Rightarrow> string \<Rightarrow> reader" where
  "new_reader d text = \<lparr>fDoc = d, fRest = text, fDepth = 0, fState = new_state, fStack = [], fDefaultFormat = fDefault d,
     fInFontTable = False, fInColorTable = False, fSeenAutoColor = False, fFonts = Map.empty, fColors = [], fCurrentName = [],
     fPendingFont = - 1, fPendingColor = (0, 0, 0, 255), fTableDepth = 32000, fSeenAlignForPara = {}\<rparr>"

definition InTable :: "reader \<Rightarrow> bool" where
  "InTable r \<longleftrightarrow> fInFontTable r \<or> fInColorTable r"

definition PopState :: "reader \<Rightarrow> reader" where
  "PopState r = (if fStack r = [] then r else r\<lparr>fState := last (fStack r), fStack := butlast (fStack r)\<rparr>)"

definition emit_format :: "reader \<Rightarrow> char_format" where
  "emit_format r =
     (let s = fState r; f = fDefaultFormat r;
          f = (case fFonts r (st_font s) of Some n \<Rightarrow> if n = [] then f else f\<lparr>family := take font_family_room n\<rparr> | None \<Rightarrow> f);
          f = f\<lparr>font_size := (if st_size s > 0 then st_size s else 12), bold := st_bold s, italic := st_italic s, underline := st_underline s\<rparr>
      in if 1 \<le> st_color s \<and> st_color s \<le> int (length (fColors r)) then f\<lparr>color := fColors r ! nat (st_color s - 1)\<rparr> else f)"

definition Emit :: "string \<Rightarrow> reader \<Rightarrow> reader" where
  "Emit bs r =
     (if bs = [] then r
      else r\<lparr>fDoc := Insert (Length (fParas (fDoc r))) (takeWhile (\<lambda>c. c \<noteq> CHR 0x00) bs) (Some (emit_format r)) (fDoc r)\<rparr>)"

definition byte :: "int \<Rightarrow> char" where
  "byte n = char_of (nat (n mod 256))"

definition EmitUnicode :: "int \<Rightarrow> reader \<Rightarrow> reader" where
  "EmitUnicode cp =
     (let cp = (if cp < 0 then cp + 65536 else cp) in
      Emit (if cp < 0x80 then [byte cp]
        else if cp < 0x800 then [byte (or 0xC0 (drop_bit 6 cp)), byte (or 0x80 (and cp 0x3F))]
        else [byte (or 0xE0 (drop_bit 12 cp)), byte (or 0x80 (and (drop_bit 6 cp) 0x3F)), byte (or 0x80 (and cp 0x3F))]))"

definition Hex2 :: "string \<Rightarrow> nat \<times> string" where
  "Hex2 s = (foldl (\<lambda>v c. v * 16 + hex_val c) 0 (take 2 s), drop 2 s)"

text \<open>\<open>SkipGroup\<close>: the rest of the text behind the end of the current group.\<close>

function skip_group :: "nat \<Rightarrow> string \<Rightarrow> string" where
  "skip_group depth [] = []"
| "skip_group depth (c # s) =
     (if c = CHR ''{'' then skip_group (depth + 1) s
      else if c = CHR ''}'' then (if depth = 0 then s else skip_group (depth - 1) s)
      else if c = backslash then
        (case s of [] \<Rightarrow> []
         | e # s' \<Rightarrow> if e = quote then skip_group depth (drop 2 s') else if e = backslash then skip_group depth s'
             else skip_group depth (dropWhile isalpha s))
      else skip_group depth s)"
  by pat_completeness auto
termination
proof (relation "measure (\<lambda>(depth, s). length s)")
  fix depth e and s :: string and c
  show "((depth, dropWhile isalpha s), (depth, c # s)) \<in> measure (\<lambda>(depth, s). length s)"
    using length_dropWhile_le[of isalpha s] by simp
qed auto

definition ApplyParaFormat :: "int \<Rightarrow> reader \<Rightarrow> reader" where
  "ApplyParaFormat para r =
     (if para < 0 \<or> para \<ge> int (length (fParas (fDoc r))) \<or> para \<in> fSeenAlignForPara r then r
      else let s = fState r;
               f = (format (fParas (fDoc r) ! nat para))\<lparr>alignment := st_align s, indentLeft := st_left s, indentRight := st_right s,
                 indentFirst := st_first s, lineSpacing := (if st_spacing s > 0 then st_spacing s else 1), spaceBefore := st_before s,
                 spaceAfter := st_after s, tabs := map (\<lambda>x. (x, PW_TAB_LEFT)) (st_tabs s)\<rparr>
           in r\<lparr>fDoc := SetParaFormat para f (fDoc r), fSeenAlignForPara := insert para (fSeenAlignForPara r)\<rparr>)"

definition EndParagraph :: "reader \<Rightarrow> reader" where
  "EndParagraph r =
     (let r = r\<lparr>fDoc := Insert (Length (fParas (fDoc r))) [newline] None (fDoc r)\<rparr> in
      ApplyParaFormat (int (length (fParas (fDoc r))) - 2) r)"

definition blank :: "char \<Rightarrow> bool" where
  "blank c \<longleftrightarrow> c = CHR '' '' \<or> c = tab \<or> c = return \<or> c = newline"

definition Trimmed :: "string \<Rightarrow> string" where
  "Trimmed s = rev (dropWhile blank (rev (dropWhile blank s)))"

definition table_channel :: "string \<Rightarrow> bool \<Rightarrow> int \<Rightarrow> rgb_color \<Rightarrow> rgb_color" where
  "table_channel word hasParam param c =
     (case c of (red, green, blue, a) \<Rightarrow>
        if word = ''red'' \<and> hasParam then (word_of_int param, green, blue, a)
        else if word = ''green'' \<and> hasParam then (red, word_of_int param, blue, a)
        else if word = ''blue'' \<and> hasParam then (red, green, word_of_int param, a)
        else c)"

definition TableControl :: "string \<Rightarrow> bool \<Rightarrow> int \<Rightarrow> reader \<Rightarrow> reader" where
  "TableControl word hasParam param r =
     (if word = ''f'' \<and> hasParam \<and> fInFontTable r then
        let r = (if fPendingFont r \<ge> 0 \<and> fCurrentName r \<noteq> [] then r\<lparr>fFonts := (fFonts r)(fPendingFont r \<mapsto> Trimmed (fCurrentName r))\<rparr> else r)
        in r\<lparr>fPendingFont := param, fCurrentName := []\<rparr>
      else r\<lparr>fPendingColor := table_channel word hasParam param (fPendingColor r)\<rparr>)"

definition HandleCharInTable :: "char \<Rightarrow> reader \<Rightarrow> reader" where
  "HandleCharInTable c r =
     (if c = CHR '';'' then
        let r = (if fInFontTable r \<and> fPendingFont r \<ge> 0 \<and> fCurrentName r \<noteq> []
              then r\<lparr>fFonts := (fFonts r)(fPendingFont r \<mapsto> Trimmed (fCurrentName r))\<rparr> else r);
            r = (if fInColorTable r then
                (if fSeenAutoColor r then r\<lparr>fColors := fColors r @ [fPendingColor r], fPendingColor := (0, 0, 0, 255)\<rparr> else r)\<lparr>fSeenAutoColor := True\<rparr>
              else r)
        in r\<lparr>fCurrentName := []\<rparr>
      else if fInFontTable r then r\<lparr>fCurrentName := fCurrentName r @ [c]\<rparr> else r)"

definition IsDestinationWord :: "string \<Rightarrow> bool" where
  "IsDestinationWord w \<longleftrightarrow> w \<in> {''fonttbl'', ''colortbl'', ''stylesheet'', ''info'', ''pict'', ''object'', ''footer'', ''header'', ''footnote'',
     ''listtable'', ''listoverridetable'', ''list'', ''generator'', ''bkmkstart'', ''bkmkend'', ''field'', ''shp'', ''shppict'', ''nonshppict'',
     ''panose'', ''fname'', ''falt'', ''themecolor''}"

definition state_word :: "string \<Rightarrow> bool \<Rightarrow> int \<Rightarrow> rtf_state \<Rightarrow> rtf_state" where
  "state_word w has n s =
     (let on = (\<not> has \<or> n \<noteq> 0); pt = (if has then of_int n / 20 else 0) in
      if w = ''b'' then s\<lparr>st_bold := on\<rparr> else if w = ''i'' then s\<lparr>st_italic := on\<rparr> else if w = ''ul'' then s\<lparr>st_underline := on\<rparr>
      else if w = ''ulnone'' then s\<lparr>st_underline := False\<rparr>
      else if w = ''fs'' then s\<lparr>st_size := (if has then of_int n / 2 else 12)\<rparr>
      else if w = ''f'' then s\<lparr>st_font := (if has then n else 0)\<rparr> else if w = ''cf'' then s\<lparr>st_color := (if has then n else 0)\<rparr>
      else if w = ''ql'' then s\<lparr>st_align := PW_ALIGN_LEFT\<rparr>
      else if w = ''li'' then s\<lparr>st_left := pt\<rparr> else if w = ''ri'' then s\<lparr>st_right := pt\<rparr> else if w = ''fi'' then s\<lparr>st_first := pt\<rparr>
      else if w = ''sl'' then s\<lparr>st_spacing := (if has then of_int n / 240 else 1)\<rparr>
      else if w = ''sb'' then s\<lparr>st_before := pt\<rparr> else if w = ''sa'' then s\<lparr>st_after := pt\<rparr>
      else if w = ''tx'' \<and> has then s\<lparr>st_tabs := st_tabs s @ [of_int n / 20]\<rparr>
      else if w = ''qc'' then s\<lparr>st_align := PW_ALIGN_CENTER\<rparr> else if w = ''qr'' then s\<lparr>st_align := PW_ALIGN_RIGHT\<rparr>
      else if w = ''qj'' then s\<lparr>st_align := PW_ALIGN_JUSTIFY\<rparr>
      else if w = ''plain'' then s\<lparr>st_bold := False, st_italic := False, st_underline := False, st_size := 12, st_color := 0\<rparr>
      else s)"

text \<open>The substitute behind a \<open>u\<close> word is skipped.\<close>

definition skip_substitute :: "string \<Rightarrow> string" where
  "skip_substitute s =
     (case s of c # s' \<Rightarrow> if c = CHR ''?'' then s'
        else (case s' of e # s'' \<Rightarrow> if c = backslash \<and> e = quote then drop 3 s else s | [] \<Rightarrow> s) | [] \<Rightarrow> [])"

definition control_word :: "string \<Rightarrow> bool \<Rightarrow> int \<Rightarrow> reader \<Rightarrow> reader" where
  "control_word word has n r =
     (if word = ''fonttbl'' then r\<lparr>fInFontTable := True, fTableDepth := fDepth r\<rparr>
      else if word = ''colortbl'' then r\<lparr>fInColorTable := True, fSeenAutoColor := False, fTableDepth := fDepth r\<rparr>
      else if InTable r then TableControl word has n r
      else if IsDestinationWord word then r\<lparr>fRest := skip_group 0 (fRest r)\<rparr>
      else if word = ''par'' \<or> word = ''line'' then EndParagraph r
      else if word = ''tab'' then Emit [tab] r
      else if word = ''u'' \<and> has then (EmitUnicode n r)\<lparr>fRest := skip_substitute (fRest r)\<rparr>
      else r\<lparr>fState := state_word word has n (fState r)\<rparr>)"

definition read_param :: "string \<Rightarrow> bool \<times> int \<times> string" where
  "read_param s =
     (if s \<noteq> [] \<and> (is_digit (hd s) \<or> hd s = CHR ''-'') then
        let neg = (hd s = CHR ''-''); (n, rest) = read_digits (if neg then tl s else s) 0
        in (True, if neg then - int n else int n, rest)
      else (False, 0, s))"

definition skip_space :: "string \<Rightarrow> string" where
  "skip_space s = (if s \<noteq> [] \<and> hd s = CHR '' '' then tl s else s)"

definition read_word :: "string \<Rightarrow> string \<times> bool \<times> int \<times> string" where
  "read_word s = (case read_param (dropWhile isalpha s) of (has, n, rest) \<Rightarrow> (takeWhile isalpha s, has, n, skip_space rest))"

text \<open>\<open>Control\<close>; \<open>s\<close> is the text behind the backslash.\<close>

definition Control :: "string \<Rightarrow> reader \<Rightarrow> reader" where
  "Control s r =
     (case s of [] \<Rightarrow> r\<lparr>fRest := []\<rparr>
      | c # s' \<Rightarrow>
          if c = backslash \<or> c = CHR ''{'' \<or> c = CHR ''}'' then (Emit [c] r)\<lparr>fRest := s'\<rparr>
          else if c = quote then (case Hex2 s' of (b, rest) \<Rightarrow> Emit [char_of b] (r\<lparr>fRest := rest\<rparr>))
          else if c = CHR ''*'' then (if s' = [] then r\<lparr>fRest := []\<rparr>
            else case read_word s' of (w, has, n, rest) \<Rightarrow> r\<lparr>fRest := skip_group 0 rest\<rparr>)
          else (case read_word s of (w, has, n, rest) \<Rightarrow> control_word w has n (r\<lparr>fRest := rest\<rparr>)))"

text \<open>One turn of the loop of \<open>Parse\<close>.\<close>

definition parse_step :: "reader \<Rightarrow> reader" where
  "parse_step r =
     (case fRest r of [] \<Rightarrow> r
      | c # s \<Rightarrow>
          if c = CHR ''{'' then r\<lparr>fRest := s, fDepth := fDepth r + 1, fStack := fStack r @ [fState r]\<rparr>
          else if c = CHR ''}'' then
            let r = PopState (r\<lparr>fRest := s, fDepth := fDepth r - 1\<rparr>) in
            if fDepth r < fTableDepth r then r\<lparr>fInFontTable := False, fInColorTable := False, fTableDepth := 32000\<rparr> else r
          else if c = backslash then Control s r
          else if c = newline \<or> c = return then r\<lparr>fRest := s\<rparr>
          else if InTable r then (HandleCharInTable c r)\<lparr>fRest := s\<rparr>
          else (Emit [c] r)\<lparr>fRest := s\<rparr>)"

text \<open>Every turn reads at least one byte.\<close>

lemma fRest_simps [simp]:
  "fRest (Emit bs r) = fRest r" "fRest (EmitUnicode n r) = fRest r" "fRest (ApplyParaFormat i r) = fRest r" "fRest (EndParagraph r) = fRest r"
  "fRest (TableControl w has n r) = fRest r" "fRest (HandleCharInTable c r) = fRest r" "fRest (PopState r) = fRest r"
  by (simp_all add: Emit_def EmitUnicode_def ApplyParaFormat_def EndParagraph_def TableControl_def HandleCharInTable_def PopState_def Let_def
      split: prod.split)

lemma length_read_digits: "length (snd (read_digits s n)) \<le> length s"
  by (induction s n rule: read_digits.induct) (auto simp: le_SucI)

lemma length_read_word: "read_word s = (w, has, n, rest) \<Longrightarrow> length rest \<le> length s"
proof -
  assume "read_word s = (w, has, n, rest)"
  moreover have "length (snd (snd (read_param u))) \<le> length u" for u
    using length_read_digits[of u 0] length_read_digits[of "tl u" 0] by (auto simp: read_param_def Let_def case_prod_beta)
  from this[of "dropWhile isalpha s"] length_dropWhile_le[of isalpha s] have "length (snd (snd (read_param (dropWhile isalpha s)))) \<le> length s"
    by linarith
  ultimately show ?thesis by (auto simp: read_word_def skip_space_def split: prod.splits)
qed

declare skip_group.simps(2) [simp del]

lemma length_skip_group: "length (skip_group depth s) \<le> length s"
proof (induction "length s" arbitrary: depth s rule: less_induct)
  case less
  show ?case
  proof (cases s)
    case (Cons c u)
    have sub: "length (skip_group k v) \<le> length s" if "length v \<le> length u" for k v
      using less[of v k] that Cons by simp
    have "length (dropWhile isalpha v) \<le> Suc (length v)" for v
      using length_dropWhile_le[of isalpha v] by (rule le_SucI)
    then have tail: "length (skip_group k (drop 2 v)) \<le> length s" "length (skip_group k v) \<le> length s"
        "length (skip_group k (dropWhile isalpha v)) \<le> length s" "length (skip_group k (e # v)) \<le> length s" if "u = e # v" for k v e
      using sub that by simp_all
    show ?thesis
      using sub[of u] tail Cons by (simp add: skip_group.simps(2)[of depth c u] split: list.split)
  qed simp
qed

lemma length_control_word: "length (fRest (control_word w has n r)) \<le> length (fRest r)"
  using length_skip_group[of 0 "fRest r"] by (auto simp: control_word_def skip_substitute_def split: list.split)

lemma length_Control: "length (fRest (Control s r)) \<le> length s"
proof -
  have "length (fRest (control_word w has n (r\<lparr>fRest := rest\<rparr>))) \<le> length u" if "read_word u = (w, has, n, rest)" for u w has n rest
    using length_control_word[of w has n "r\<lparr>fRest := rest\<rparr>"] length_read_word[OF that] by simp
  moreover have "length (skip_group 0 rest) \<le> length u" if "read_word u = (w, has, n, rest)" for u w has n rest
    using length_skip_group[of 0 rest] length_read_word[OF that] by simp
  note rests = calculation this
  show ?thesis
  proof (cases s)
    case (Cons c s')
    obtain w has n rest where w: "read_word s = (w, has, n, rest)" by (cases "read_word s") auto
    obtain w' has' n' rest' where w': "read_word s' = (w', has', n', rest')" by (cases "read_word s'") auto
    show ?thesis
      using rests(1)[OF w] rests(2)[OF w'] w w' Cons by (auto simp: Control_def Hex2_def)
  qed (simp add: Control_def)
qed

lemma length_parse_step: "fRest r \<noteq> [] \<Longrightarrow> length (fRest (parse_step r)) < length (fRest r)"
  using length_Control[of "tl (fRest r)" r] by (cases "fRest r") (auto simp: parse_step_def Let_def less_Suc_eq_le)

function parse_loop :: "reader \<Rightarrow> reader" where
  "parse_loop r = (if fDepth r > 0 \<and> fRest r \<noteq> [] then parse_loop (parse_step r) else r)"
  by auto
termination by (relation "measure (\<lambda>r. length (fRest r))") (auto intro: length_parse_step)

declare parse_loop.simps [simp del]

text \<open>\<open>PW_LoadRTF\<close> of a text into a document.\<close>

definition LoadRTF :: "writer \<Rightarrow> string \<Rightarrow> status \<times> writer" where
  "LoadRTF d rtf =
     (if rtf = [] \<or> hd rtf \<noteq> CHR ''{'' then (B_ERROR, d)
      else let r = parse_loop ((new_reader d (tl rtf))\<lparr>fDepth := 1\<rparr>) in
        (B_OK, fDoc (ApplyParaFormat (int (length (fParas (fDoc r))) - 1) r)))"

end
