(* ===== verification/RtfRoundTrip.thy ===== *)
theory RtfRoundTrip
  imports WriterRtf
begin

text \<open>
  What ProseWriter writes as RTF it reads back: the same bytes with the same formats; and what it does
  not bring back, or reads wrongly.
\<close>

section \<open>Reading words\<close>

lemma digit_not_alpha: "is_digit c \<Longrightarrow> \<not> isalpha c"
  by (auto simp: is_digit_def isalpha_def less_eq_char_iff)

lemma takeWhile_word: "list_all isalpha w \<Longrightarrow> s = [] \<or> \<not> isalpha (hd s) \<Longrightarrow> takeWhile isalpha (w @ s) = w \<and> dropWhile isalpha (w @ s) = s"
  by (induction w) (cases s; auto)+

lemma read_word_plain:
  assumes "list_all isalpha w" and "\<not> isalpha c" and "\<not> is_digit c" and "c \<noteq> CHR ''-''"
  shows "read_word (w @ c # u) = (w, False, 0, skip_space (c # u))"
  using takeWhile_word[OF assms(1), of "c # u"] assms(2-4) by (simp add: read_word_def read_param_def)

lemma hd_show_nat: "is_digit (hd (show_nat n))"
  by (rule show_nat_digits[of _ n]) simp

lemma read_word_nat:
  assumes "list_all isalpha w" and "\<not> is_digit c"
  shows "read_word (w @ show_nat n @ c # u) = (w, True, int n, skip_space (c # u))"
proof -
  have hd: "is_digit (hd (show_nat n @ c # u))" "hd (show_nat n @ c # u) \<noteq> CHR ''-''"
    using hd_show_nat[of n] by (auto simp: is_digit_def)
  then have "\<not> isalpha (hd (show_nat n @ c # u))" by (simp add: digit_not_alpha)
  then show ?thesis
    using takeWhile_word[OF assms(1), of "show_nat n @ c # u"] hd read_show_nat[of "c # u" n] assms(2)
    by (simp add: read_word_def read_param_def)
qed

lemma read_word_int:
  assumes "list_all isalpha w" and "\<not> is_digit c"
  shows "read_word (w @ show_int n @ c # u) = (w, True, n, skip_space (c # u))"
proof (cases "n < 0")
  case True
  have minus: "\<not> isalpha CHR ''-''" by (simp add: isalpha_def)
  show ?thesis
    using True takeWhile_word[OF assms(1), of "CHR ''-'' # show_nat (nat (- n)) @ c # u"] minus read_show_nat[of "c # u" "nat (- n)"] assms(2)
    by (simp add: read_word_def read_param_def show_int_def)
next
  case False
  then show ?thesis using read_word_nat[OF assms, of "nat n" u] by (simp add: show_int_def)
qed

section \<open>Turns of the loop\<close>

lemma parse_turn: "0 < fDepth r \<Longrightarrow> parse_loop (r\<lparr>fRest := c # s\<rparr>) = parse_loop (parse_step (r\<lparr>fRest := c # s\<rparr>))"
  by (subst parse_loop.simps) simp

lemma fRest_fRest [simp]: "r\<lparr>fRest := s, fRest := t\<rparr> = r\<lparr>fRest := t\<rparr>"
  by simp

definition is_word :: "string \<Rightarrow> bool" where
  "is_word w \<longleftrightarrow> list_all isalpha w \<and> w \<noteq> []"

lemma parse_word:
  assumes "0 < fDepth r" and "is_word w" and "read_word (w @ s) = (w, has, n, rest)"
  shows "parse_loop (r\<lparr>fRest := backslash # w @ s\<rparr>) = parse_loop (control_word w has n (r\<lparr>fRest := rest\<rparr>))"
proof -
  obtain c v where w: "w = c # v" "isalpha c" using assms(2) by (cases w) (auto simp: is_word_def)
  then have "c \<notin> {backslash, CHR ''{'', CHR ''}'', quote, CHR ''*''}" by (auto simp: isalpha_def backslash_def quote_def)
  then show ?thesis
    using assms(1,3) w(1) by (simp add: parse_turn parse_step_def Control_def) (simp add: backslash_def)
qed

section \<open>Ready for text\<close>

text \<open>The reader past the tables: \<open>names\<close> and \<open>cs\<close> are the tables read.\<close>

definition ready :: "string list \<Rightarrow> (8 word \<times> 8 word \<times> 8 word) list \<Rightarrow> reader \<Rightarrow> bool" where
  "ready names cs r \<longleftrightarrow> fDepth r = 1 \<and> fStack r = [] \<and> \<not> fInFontTable r \<and> \<not> fInColorTable r
     \<and> (\<forall>i < length names. fFonts r (int i) = Some (names ! i)) \<and> fColors r = map (\<lambda>(r, g, b). (r, g, b, 255)) cs
     \<and> color (fDefaultFormat r) = (0, 0, 0, 255) \<and> 0 < st_size (fState r) \<and> paras_ok (fParas (fDoc r))"

text \<open>Reading \<open>s\<close> leads from \<open>r\<close> to \<open>r'\<close>, appends the cells \<open>x\<close> and leaves the format \<open>g\<close>.\<close>

definition leads :: "string list \<Rightarrow> (8 word \<times> 8 word \<times> 8 word) list \<Rightarrow> reader \<Rightarrow> string \<Rightarrow> reader \<Rightarrow> cell list \<Rightarrow> char_format \<Rightarrow> bool" where
  "leads names cs r s r' x g \<longleftrightarrow> (\<forall>u. parse_loop (r\<lparr>fRest := s @ u\<rparr>) = parse_loop (r'\<lparr>fRest := u\<rparr>)) \<and> ready names cs r'
     \<and> cells (fParas (fDoc r')) = cells (fParas (fDoc r)) @ x \<and> emit_format r' = g"

lemma leads_none: "ready names cs r \<Longrightarrow> leads names cs r [] r [] (emit_format r)"
  by (simp add: leads_def)

lemma leads_trans: "leads names cs r s r' x g \<Longrightarrow> leads names cs r' t r'' y h \<Longrightarrow> leads names cs r (s @ t) r'' (x @ y) h"
  by (simp add: leads_def)

lemma emit_format_rest [simp]: "emit_format (r\<lparr>fRest := s\<rparr>) = emit_format r" "emit_format (r\<lparr>fDoc := d\<rparr>) = emit_format r"
  "emit_format (r\<lparr>fSeenAlignForPara := x\<rparr>) = emit_format r"
  by (simp_all add: emit_format_def Let_def)

lemma Emit_rest: "Emit bs (r\<lparr>fRest := s\<rparr>) = (Emit bs r)\<lparr>fRest := s\<rparr>"
  by (simp add: Emit_def)

text \<open>A byte of text.\<close>

definition plain_byte :: "char \<Rightarrow> bool" where
  "plain_byte c \<longleftrightarrow> c \<noteq> CHR 0x00 \<and> c \<noteq> newline \<and> c \<noteq> return \<and> c \<noteq> cell_mark"

lemma Emit_cells:
  assumes "paras_ok (fParas (fDoc r))" and "c \<noteq> CHR 0x00"
  shows "paras_ok (fParas (fDoc (Emit [c] r))) \<and> cells (fParas (fDoc (Emit [c] r))) = cells (fParas (fDoc r)) @ styled (emit_format r) [c]"
  using Insert_cells[OF assms(1), of "Length (fParas (fDoc r))" "[c]" "Some (emit_format r)"] assms
  by (auto simp: Emit_def Length_cells)

lemma ready_Emit:
  assumes "ready names cs r" and "plain_byte c"
  shows "ready names cs (Emit [c] r) \<and> cells (fParas (fDoc (Emit [c] r))) = cells (fParas (fDoc r)) @ [Some (c, emit_format r)]
    \<and> emit_format (Emit [c] r) = emit_format r"
proof -
  have "fDepth (Emit [c] r) = fDepth r" "fStack (Emit [c] r) = fStack r" "fInFontTable (Emit [c] r) = fInFontTable r"
    "fInColorTable (Emit [c] r) = fInColorTable r" "fFonts (Emit [c] r) = fFonts r" "fColors (Emit [c] r) = fColors r"
    "fDefaultFormat (Emit [c] r) = fDefaultFormat r" "fState (Emit [c] r) = fState r"
    by (simp_all add: Emit_def)
  then show ?thesis
    using Emit_cells[of r c] assms by (simp add: ready_def plain_byte_def styled_def) (simp add: Emit_def)
qed

lemma hex_char_val: "n < 16 \<Longrightarrow> hex_val (hex_char n) = n"
proof -
  have "list_all (\<lambda>n. hex_val (hex_char n) = n) [0..<16]" by code_simp
  then show "n < 16 \<Longrightarrow> hex_val (hex_char n) = n" by (simp add: list_all_iff)
qed

lemma leads_byte:
  assumes "ready names cs r" and "plain_byte c"
  shows "leads names cs r (escaped c) (Emit [c] r) [Some (c, emit_format r)] (emit_format r)"
proof -
  have depth: "0 < fDepth r" and table: "\<not> InTable r" using assms(1) by (auto simp: ready_def InTable_def)
  have ne: "newline \<noteq> backslash" "return \<noteq> backslash" "quote \<noteq> backslash" "backslash \<noteq> CHR ''{''" "backslash \<noteq> CHR ''}''" "quote \<noteq> CHR ''{''" "quote \<noteq> CHR ''}''"
    by (simp_all add: newline_def return_def backslash_def quote_def)
  have "parse_loop (r\<lparr>fRest := escaped c @ u\<rparr>) = parse_loop ((Emit [c] r)\<lparr>fRest := u\<rparr>)" for u
  proof (cases "c = backslash \<or> c = CHR ''{'' \<or> c = CHR ''}''")
    case True
    then show ?thesis
      using depth ne by (auto simp: escaped_def parse_turn parse_step_def Control_def Emit_rest)
  next
    case False
    show ?thesis
    proof (cases "(of_char c :: nat) < 128")
      case True
      then show ?thesis
        using False assms(2) depth table
        by (auto simp: escaped_def plain_byte_def parse_turn parse_step_def Emit_rest InTable_def)
    next
      case high: False
      have c: "(of_char c :: nat) < 256" by (rule nat_of_char_less_256)
      then have "(of_char c :: nat) div 16 < 16" "(of_char c :: nat) mod 16 < 16" by (simp_all add: less_mult_imp_div_less)
      then have "Hex2 ([hex_char (of_char c div 16), hex_char (of_char c mod 16)] @ u) = (of_char c, u)"
        by (simp add: Hex2_def hex_char_val)
      then show ?thesis
        using high False assms(2) depth ne
        by (simp add: escaped_def plain_byte_def parse_turn parse_step_def Control_def Emit_rest)
    qed
  qed
  then show ?thesis using ready_Emit[OF assms] by (simp add: leads_def)
qed

lemma leads_text:
  assumes "ready names cs r" and "\<forall>c \<in> set t. plain_byte c"
  shows "\<exists>r'. leads names cs r (AppendEscaped t) r' (styled (emit_format r) t) (emit_format r) \<and> fState r' = fState r"
  using assms
proof (induction t arbitrary: r)
  case (Cons c t)
  have c: "plain_byte c" using Cons.prems(2) by simp
  note one = leads_byte[OF Cons.prems(1) c] and r = ready_Emit[OF Cons.prems(1) c]
  obtain r' where "leads names cs (Emit [c] r) (AppendEscaped t) r' (styled (emit_format r) t) (emit_format r)" "fState r' = fState (Emit [c] r)"
    using Cons.IH[of "Emit [c] r"] Cons.prems(2) r by auto
  moreover have "styled (emit_format r) (c # t) = [Some (c, emit_format r)] @ styled (emit_format r) t"
    using c by (simp add: styled_def plain_byte_def)
  moreover have "AppendEscaped (c # t) = escaped c @ AppendEscaped t" by (simp add: AppendEscaped_def)
  moreover have "fState (Emit [c] r) = fState r" by (simp add: Emit_def)
  ultimately show ?case using leads_trans[OF one] by metis
qed (auto simp: AppendEscaped_def styled_def intro: leads_none)

section \<open>Formats\<close>

definition state_code :: "string \<Rightarrow> bool" where
  "state_code w \<longleftrightarrow> is_word w \<and> w \<notin> {''fonttbl'', ''colortbl'', ''par'', ''line'', ''tab'', ''u''} \<and> \<not> IsDestinationWord w"

lemma state_codes:
  "list_all state_code [''f'', ''b'', ''i'', ''ul'', ''ulnone'', ''fs'', ''cf'', ''ql'', ''qc'', ''qr'', ''qj'', ''li'', ''ri'', ''fi'', ''sl'', ''sb'', ''sa'', ''tx'']"
  by code_simp

lemma parse_state_code:
  assumes "ready names cs r" and "state_code w" and "read_word (w @ s) = (w, has, n, u)"
  shows "parse_loop (r\<lparr>fRest := backslash # w @ s\<rparr>) = parse_loop (r\<lparr>fState := state_word w has n (fState r), fRest := u\<rparr>)"
proof -
  have "control_word w has n (r\<lparr>fRest := u\<rparr>) = r\<lparr>fRest := u, fState := state_word w has n (fState r)\<rparr>"
    using assms(1,2) by (auto simp: control_word_def state_code_def ready_def InTable_def)
  also have "\<dots> = r\<lparr>fState := state_word w has n (fState r), fRest := u\<rparr>" by (cases r) simp
  finally show ?thesis
    using parse_word[OF _ _ assms(3)] assms(1,2) by (simp add: state_code_def ready_def)
qed

lemma leads_state:
  assumes "ready names cs r" and "0 < st_size (state_word w has n (fState r))"
    and "\<And>u. parse_loop (r\<lparr>fRest := s @ u\<rparr>) = parse_loop (r\<lparr>fState := state_word w has n (fState r), fRest := u\<rparr>)"
    and "r' = r\<lparr>fState := state_word w has n (fState r)\<rparr>"
  shows "leads names cs r s r' [] (emit_format r')"
  using assms by (simp add: leads_def ready_def)

lemma leads_code:
  assumes "ready names cs r" and "state_code w" and "0 < st_size (state_word w False 0 (fState r))" and "r' = r\<lparr>fState := state_word w False 0 (fState r)\<rparr>"
  shows "leads names cs r (code w) r' [] (emit_format r')"
proof (rule leads_state[OF assms(1,3) _ assms(4)])
  fix u
  have "read_word (w @ CHR '' '' # u) = (w, False, 0, u)"
    using read_word_plain[of w "CHR '' ''" u] assms(2) by (simp add: state_code_def is_word_def isalpha_def is_digit_def skip_space_def)
  from parse_state_code[OF assms(1,2) this] show "parse_loop (r\<lparr>fRest := code w @ u\<rparr>) = parse_loop (r\<lparr>fState := state_word w False 0 (fState r), fRest := u\<rparr>)"
    by (simp add: code_def)
qed

lemma leads_numbered:
  assumes "ready names cs r" and "state_code w" and "0 < st_size (state_word w True n (fState r))" and "r' = r\<lparr>fState := state_word w True n (fState r)\<rparr>"
  shows "leads names cs r (numbered w n) r' [] (emit_format r')"
proof (rule leads_state[OF assms(1,3) _ assms(4)])
  fix u
  have "read_word (w @ show_int n @ CHR '' '' # u) = (w, True, n, u)"
    using read_word_int[of w "CHR '' ''" n u] assms(2) by (simp add: state_code_def is_word_def is_digit_def skip_space_def)
  from parse_state_code[OF assms(1,2) this] show "parse_loop (r\<lparr>fRest := numbered w n @ u\<rparr>) = parse_loop (r\<lparr>fState := state_word w True n (fState r), fRest := u\<rparr>)"
    by (simp add: numbered_def)
qed

lemma zero_codes: "code ''b0'' = numbered ''b'' 0" "code ''i0'' = numbered ''i'' 0" "code ''cf0'' = numbered ''cf'' 0"
proof -
  have "show_int 0 = ''0''" by code_simp
  then show "code ''b0'' = numbered ''b'' 0" "code ''i0'' = numbered ''i'' 0" "code ''cf0'' = numbered ''cf'' 0"
    by (simp_all add: code_def numbered_def)
qed

lemma state_word_format [simp]:
  "state_word ''b'' has n st = st\<lparr>st_bold := \<not> has \<or> n \<noteq> 0\<rparr>" "state_word ''i'' has n st = st\<lparr>st_italic := \<not> has \<or> n \<noteq> 0\<rparr>"
  "state_word ''ul'' has n st = st\<lparr>st_underline := \<not> has \<or> n \<noteq> 0\<rparr>" "state_word ''ulnone'' has n st = st\<lparr>st_underline := False\<rparr>"
  "state_word ''fs'' True n st = st\<lparr>st_size := of_int n / 2\<rparr>" "state_word ''f'' True n st = st\<lparr>st_font := n\<rparr>"
  "state_word ''cf'' True n st = st\<lparr>st_color := n\<rparr>"
  by (simp_all add: state_word_def Let_def)

lemma emit_format_state:
  "emit_format (r\<lparr>fState := (fState r)\<lparr>st_bold := b\<rparr>\<rparr>) = (emit_format r)\<lparr>bold := b\<rparr>"
  "emit_format (r\<lparr>fState := (fState r)\<lparr>st_italic := b\<rparr>\<rparr>) = (emit_format r)\<lparr>italic := b\<rparr>"
  "emit_format (r\<lparr>fState := (fState r)\<lparr>st_underline := b\<rparr>\<rparr>) = (emit_format r)\<lparr>underline := b\<rparr>"
  "0 < x \<Longrightarrow> emit_format (r\<lparr>fState := (fState r)\<lparr>st_size := x\<rparr>\<rparr>) = (emit_format r)\<lparr>font_size := x\<rparr>"
  by (cases "fFonts r (st_font (fState r))"; simp add: emit_format_def Let_def)+

lemma emit_format_font:
  "fFonts r i = Some n \<Longrightarrow> n \<noteq> [] \<Longrightarrow> length n \<le> font_family_room \<Longrightarrow> emit_format (r\<lparr>fState := (fState r)\<lparr>st_font := i\<rparr>\<rparr>) = (emit_format r)\<lparr>family := n\<rparr>"
  by (cases "fFonts r (st_font (fState r))") (simp_all add: emit_format_def Let_def)

lemma emit_format_color:
  "emit_format (r\<lparr>fState := (fState r)\<lparr>st_color := 0\<rparr>\<rparr>) = (emit_format r)\<lparr>color := color (fDefaultFormat r)\<rparr>"
  "i < length (fColors r) \<Longrightarrow> emit_format (r\<lparr>fState := (fState r)\<lparr>st_color := int i + 1\<rparr>\<rparr>) = (emit_format r)\<lparr>color := fColors r ! i\<rparr>"
  by (cases "fFonts r (st_font (fState r))"; simp add: emit_format_def Let_def)+

text \<open>A format that the tables hold and that RTF can say.\<close>

definition rtf_format :: "string list \<Rightarrow> (8 word \<times> 8 word \<times> 8 word) list \<Rightarrow> char_format \<Rightarrow> bool" where
  "rtf_format names cs f \<longleftrightarrow> family f \<in> set names \<and> family f \<noteq> [] \<and> length (family f) \<le> font_family_room
     \<and> 0 < font_size f \<and> of_int (to_int (font_size f * 2 + 1 / 2)) = font_size f * 2
     \<and> color f = (case rgb f of (r, g, b) \<Rightarrow> (r, g, b, 255)) \<and> (rgb f = (0, 0, 0) \<or> rgb f \<in> set cs)"

lemma index_in_Some: "x \<in> set xs \<Longrightarrow> \<exists>i. index_in x xs = Some i \<and> i < length xs \<and> xs ! i = x"
  by (induction xs) auto

lemma leads_bold: "ready names cs r \<Longrightarrow> \<exists>r'. leads names cs r (if bold (emit_format r) = b then [] else code (if b then ''b'' else ''b0'')) r' [] ((emit_format r)\<lparr>bold := b\<rparr>)"
proof (cases "bold (emit_format r) = b")
  case True
  assume "ready names cs r"
  then have "leads names cs r [] r [] ((emit_format r)\<lparr>bold := b\<rparr>)"
    using leads_none[of names cs r] by (simp flip: True)
  then show ?thesis using True by auto
next
  case False
  assume "ready names cs r"
  then show ?thesis
    using False leads_code[of names cs r "''b''"] leads_numbered[of names cs r "''b''" 0] state_codes
    by (cases b) (auto simp: zero_codes emit_format_state ready_def)
qed

lemma leads_italic: "ready names cs r \<Longrightarrow> \<exists>r'. leads names cs r (if italic (emit_format r) = b then [] else code (if b then ''i'' else ''i0'')) r' [] ((emit_format r)\<lparr>italic := b\<rparr>)"
proof (cases "italic (emit_format r) = b")
  case True
  assume "ready names cs r"
  then have "leads names cs r [] r [] ((emit_format r)\<lparr>italic := b\<rparr>)"
    using leads_none[of names cs r] by (simp flip: True)
  then show ?thesis using True by auto
next
  case False
  assume "ready names cs r"
  then show ?thesis
    using False leads_code[of names cs r "''i''"] leads_numbered[of names cs r "''i''" 0] state_codes
    by (cases b) (auto simp: zero_codes emit_format_state ready_def)
qed

lemma leads_underline: "ready names cs r \<Longrightarrow> \<exists>r'. leads names cs r (if underline (emit_format r) = b then [] else code (if b then ''ul'' else ''ulnone'')) r' [] ((emit_format r)\<lparr>underline := b\<rparr>)"
proof (cases "underline (emit_format r) = b")
  case True
  assume "ready names cs r"
  then have "leads names cs r [] r [] ((emit_format r)\<lparr>underline := b\<rparr>)"
    using leads_none[of names cs r] by (simp flip: True)
  then show ?thesis using True by auto
next
  case False
  assume "ready names cs r"
  then show ?thesis
    using False leads_code[of names cs r "''ul''"] leads_code[of names cs r "''ulnone''"] state_codes
    by (cases b) (auto simp: emit_format_state ready_def)
qed

lemma leads_size:
  assumes "ready names cs r" and "rtf_format names cs f"
  shows "\<exists>r'. leads names cs r (if font_size (emit_format r) = font_size f then [] else numbered ''fs'' (to_int (font_size f * 2 + 1 / 2))) r' []
    ((emit_format r)\<lparr>font_size := font_size f\<rparr>)"
proof (cases "font_size (emit_format r) = font_size f")
  case True
  then have "leads names cs r [] r [] ((emit_format r)\<lparr>font_size := font_size f\<rparr>)"
    using leads_none[OF assms(1)] by (simp flip: True)
  then show ?thesis using True by auto
next
  case False
  have size: "of_int (to_int (font_size f * 2 + 1 / 2)) / 2 = font_size f" "0 < font_size f" using assms(2) by (simp_all add: rtf_format_def)
  show ?thesis
    using False leads_numbered[OF assms(1), of "''fs''" "to_int (font_size f * 2 + 1 / 2)"] state_codes size by (auto simp: emit_format_state)
qed

lemma leads_font:
  assumes "ready names cs r" and "rtf_format names cs f"
  shows "\<exists>r'. leads names cs r (if family (emit_format r) = family f then [] else numbered ''f'' (case index_in (family f) names of Some i \<Rightarrow> int i | None \<Rightarrow> 0)) r' []
    ((emit_format r)\<lparr>family := family f\<rparr>)"
proof (cases "family (emit_format r) = family f")
  case True
  then have "leads names cs r [] r [] ((emit_format r)\<lparr>family := family f\<rparr>)"
    using leads_none[OF assms(1)] by (simp flip: True)
  then show ?thesis using True by auto
next
  case False
  obtain i where i: "index_in (family f) names = Some i" "i < length names" "names ! i = family f"
    using index_in_Some assms(2) by (metis rtf_format_def)
  then have "fFonts r (int i) = Some (family f)" using assms(1) by (simp add: ready_def)
  then show ?thesis
    using False i leads_numbered[OF assms(1), of "''f''" "int i"] state_codes assms emit_format_font[of r "int i" "family f"]
    by (auto simp: ready_def rtf_format_def)
qed

lemma leads_color:
  assumes "ready names cs r" and "rtf_format names cs f" and "color (emit_format r) = (case rgb (emit_format r) of (r, g, b) \<Rightarrow> (r, g, b, 255))"
  shows "\<exists>r'. leads names cs r (if rgb (emit_format r) = rgb f then []
      else case (if rgb f = (0, 0, 0) then None else index_in (rgb f) cs) of Some i \<Rightarrow> numbered ''cf'' (int i + 1) | None \<Rightarrow> code ''cf0'') r' []
    ((emit_format r)\<lparr>color := color f\<rparr>)"
proof (cases "rgb (emit_format r) = rgb f")
  case True
  then have "color f = color (emit_format r)" using assms(2,3) by (simp add: rtf_format_def)
  then show ?thesis using True leads_none[OF assms(1)] by auto
next
  case other: False
  have pos: "0 < st_size (fState r)" using assms(1) by (simp add: ready_def)
  show ?thesis
  proof (cases "rgb f = (0, 0, 0)")
    case True
    then have "color f = color (fDefaultFormat r)" using assms(1,2) by (simp add: rtf_format_def ready_def)
    then show ?thesis
      using True other pos leads_numbered[OF assms(1), of "''cf''" 0] state_codes by (auto simp: zero_codes emit_format_color)
  next
    case False
    then obtain i where i: "index_in (rgb f) cs = Some i" "i < length cs" "cs ! i = rgb f"
      using index_in_Some assms(2) by (metis rtf_format_def)
    then have "i < length (fColors r)" "fColors r ! i = color f" using assms(1,2) by (simp_all add: ready_def rtf_format_def)
    then show ?thesis
      using False other i pos leads_numbered[OF assms(1), of "''cf''" "int i + 1"] state_codes by (auto simp: emit_format_color)
  qed
qed

lemma leads_ready: "leads names cs r s r' x g \<Longrightarrow> ready names cs r' \<and> emit_format r' = g"
  by (simp add: leads_def)

lemma leads_format:
  assumes "ready names cs r" and "rtf_format names cs (emit_format r)" and "rtf_format names cs f"
  shows "\<exists>r'. leads names cs r (format_codes names cs fam (emit_format r) f) r' [] f"
proof -
  have fam: "family_or fam f = family f" using assms(3) by (simp add: family_or_def rtf_format_def)
  obtain r1 where 1: "leads names cs r (if family (emit_format r) = family f then [] else numbered ''f'' (case index_in (family f) names of Some i \<Rightarrow> int i | None \<Rightarrow> 0)) r1 []
      ((emit_format r)\<lparr>family := family f\<rparr>)" using leads_font[OF assms(1,3)] by blast
  note r1 = leads_ready[OF 1]
  obtain r2 where 2: "leads names cs r1 (if bold (emit_format r) = bold f then [] else code (if bold f then ''b'' else ''b0'')) r2 []
      ((emit_format r1)\<lparr>bold := bold f\<rparr>)" using leads_bold[of names cs r1 "bold f"] r1 by auto
  note r2 = leads_ready[OF 2]
  obtain r3 where 3: "leads names cs r2 (if italic (emit_format r) = italic f then [] else code (if italic f then ''i'' else ''i0'')) r3 []
      ((emit_format r2)\<lparr>italic := italic f\<rparr>)" using leads_italic[of names cs r2 "italic f"] r1 r2 by auto
  note r3 = leads_ready[OF 3]
  obtain r4 where 4: "leads names cs r3 (if underline (emit_format r) = underline f then [] else code (if underline f then ''ul'' else ''ulnone'')) r4 []
      ((emit_format r3)\<lparr>underline := underline f\<rparr>)" using leads_underline[of names cs r3 "underline f"] r1 r2 r3 by auto
  note r4 = leads_ready[OF 4]
  obtain r5 where 5: "leads names cs r4 (if font_size (emit_format r) = font_size f then [] else numbered ''fs'' (to_int (font_size f * 2 + 1 / 2))) r5 []
      ((emit_format r4)\<lparr>font_size := font_size f\<rparr>)" using leads_size[of names cs r4 f] assms(3) r1 r2 r3 r4 by auto
  note r5 = leads_ready[OF 5]
  have rgb: "rgb (emit_format r5) = rgb (emit_format r)" "color (emit_format r5) = color (emit_format r)"
    using r1 r2 r3 r4 r5 by (simp_all add: rgb_def)
  obtain r6 where 6: "leads names cs r5 (if rgb (emit_format r) = rgb f then []
        else case (if rgb f = (0, 0, 0) then None else index_in (rgb f) cs) of Some i \<Rightarrow> numbered ''cf'' (int i + 1) | None \<Rightarrow> code ''cf0'') r6 []
      ((emit_format r5)\<lparr>color := color f\<rparr>)" using leads_color[of names cs r5 f] assms(2,3) r5 unfolding rgb by (auto simp: rtf_format_def)
  have "(emit_format r5)\<lparr>color := color f\<rparr> = f" using r1 r2 r3 r4 r5 by (cases f) simp
  then show ?thesis
    using leads_trans[OF 1 leads_trans[OF 2 leads_trans[OF 3 leads_trans[OF 4 leads_trans[OF 5 6]]]]]
    by (intro exI[of _ r6]) (simp only: format_codes_def fam append_Nil)
qed

section \<open>Paragraphs\<close>

lemma next_run_there:
  assumes "ri < length rs" and "pos < run_end (rs ! ri)"
  shows "next_run rs pos ri = ri"
  using assms by (subst next_run.simps) simp

lemma next_run_on:
  assumes "Suc ri < length rs" and "run_end (rs ! ri) \<le> pos" and "pos < run_end (rs ! Suc ri)"
  shows "next_run rs pos ri = Suc ri"
  using assms by (subst next_run.simps) (simp add: next_run_there)

lemma segments_tiled:
  assumes "tiled a rs n" and "\<forall>r \<in> set rs. 0 < len r" and "rs \<noteq> [] \<Longrightarrow> next_run (before @ rs) a ri = length before"
  shows "segments (before @ rs) n ri a = map (\<lambda>r. (fmt r, start r, run_end r)) rs"
  using assms
proof (induction rs arbitrary: a before ri)
  case Nil
  then show ?case by (subst segments.simps) simp
next
  case (Cons r rs)
  have r: "start r = a" "0 < len r" "tiled (a + len r) rs n" using Cons.prems(1,2) by auto
  have n: "a + len r \<le> n" using tiled_length[OF r(3)] by simp
  have nxt: "next_run ((before @ [r]) @ rs) (a + len r) (length before) = length (before @ [r])" if "rs \<noteq> []"
  proof -
    obtain q qs where "rs = q # qs" using \<open>rs \<noteq> []\<close> by (cases rs) auto
    then show ?thesis using r Cons.prems(2) by (simp add: next_run_on nth_append run_end_def)
  qed
  have rest: "segments (before @ r # rs) n (length before) (a + len r) = map (\<lambda>r. (fmt r, start r, run_end r)) rs"
    using Cons.IH[OF r(3) _ nxt] Cons.prems(2) by simp
  have i: "next_run (before @ r # rs) a ri = length before" using Cons.prems(3) by simp
  show ?case
    using r n rest by (subst segments.simps) (simp add: i Let_def nth_append run_end_def min_def)
qed

lemma para_segments:
  assumes "para_ok p" and "\<forall>r \<in> set (runs p). 0 < len r"
  shows "segments (runs p) (length (body p)) 0 0 = map (\<lambda>r. (fmt r, start r, run_end r)) (runs p)"
proof -
  have "next_run (runs p) 0 0 = 0" if "runs p \<noteq> []"
    using that assms by (cases "runs p") (auto simp: para_ok_def intro!: next_run_there simp: run_end_def)
  then show ?thesis using segments_tiled[of 0 "runs p" "length (body p)" "[]" 0] assms by (simp add: para_ok_def)
qed

lemma leads_segments:
  assumes "ready names cs r" and "rtf_format names cs (emit_format r)" and "tiled a rs (length t)" and "\<forall>c \<in> set t. plain_byte c"
    and "\<forall>q \<in> set rs. rtf_format names cs (fmt q)"
  shows "\<exists>r' g. leads names cs r (fst (write_segments names cs fam t (emit_format r) (map (\<lambda>r. (fmt r, start r, run_end r)) rs))) r'
      (map Some (zip (drop a t) (formats rs))) g
    \<and> snd (write_segments names cs fam t (emit_format r) (map (\<lambda>r. (fmt r, start r, run_end r)) rs)) = g \<and> rtf_format names cs g"
  using assms(1-3,5)
proof (induction rs arbitrary: r a)
  case Nil
  then show ?case using leads_none[of names cs r] by auto
next
  case (Cons q rs)
  have q: "start q = a" "tiled (a + len q) rs (length t)" using Cons.prems(3) by auto
  have n: "a + len q \<le> length t" using tiled_length[OF q(2)] by simp
  have f: "rtf_format names cs (fmt q)" using Cons.prems(4) by simp
  let ?t = "take (len q) (drop a t)"
  obtain r1 where 1: "leads names cs r (format_codes names cs fam (emit_format r) (fmt q)) r1 [] (fmt q)"
    using leads_format[OF Cons.prems(1,2) f] by blast
  note r1 = leads_ready[OF 1]
  have plain: "\<forall>c \<in> set ?t. plain_byte c" using assms(4) by (auto dest: in_set_takeD in_set_dropD)
  obtain r2 where 2: "leads names cs r1 (AppendEscaped ?t) r2 (styled (fmt q) ?t) (fmt q)"
    using leads_text[OF conjunct1[OF r1] plain] r1 by auto
  note r2 = leads_ready[OF 2]
  obtain r3 g where 3: "leads names cs r2 (fst (write_segments names cs fam t (fmt q) (map (\<lambda>r. (fmt r, start r, run_end r)) rs))) r3
      (map Some (zip (drop (a + len q) t) (formats rs))) g"
      "snd (write_segments names cs fam t (fmt q) (map (\<lambda>r. (fmt r, start r, run_end r)) rs)) = g" "rtf_format names cs g"
    using Cons.IH[of r2 "a + len q"] r2 q(2) f Cons.prems(4) by auto
  have prev: "next_prev fam (fmt q) = fmt q" using f by (simp add: next_prev_def family_or_def rtf_format_def)
  have cells: "styled (fmt q) ?t @ map Some (zip (drop (a + len q) t) (formats rs)) = map Some (zip (drop a t) (formats (q # rs)))"
  proof -
    have "drop a t = ?t @ drop (a + len q) t" by (metis add.commute append_take_drop_id drop_drop)
    moreover have "length ?t = len q" using n by simp
    moreover have "styled (fmt q) ?t = map Some (zip ?t (replicate (len q) (fmt q)))"
      using plain n by (auto simp: styled_def plain_byte_def zip_replicate2)
    ultimately show ?thesis by (metis formats_simps(2) length_replicate map_append zip_append)
  qed
  from leads_trans[OF 1 leads_trans[OF 2 3(1)]] show ?case
    using 3(2,3) q(1) cells by (intro exI[of _ r3] exI[of _ g]) (simp add: prev run_end_def case_prod_beta)
qed

lemma state_word_geometry:
  assumes "w \<in> {''ql'', ''qc'', ''qr'', ''qj'', ''li'', ''ri'', ''fi'', ''sl'', ''sb'', ''sa'', ''tx''}"
  shows "emit_format (r\<lparr>fState := state_word w has n (fState r)\<rparr>) = emit_format r \<and> st_size (state_word w has n st) = st_size st \<and> state_code w"
proof -
  have "state_code w" using assms state_codes by auto
  moreover have "st_size (state_word w has n st) = st_size st \<and> st_font (state_word w has n st) = st_font st \<and> st_color (state_word w has n st) = st_color st
      \<and> st_bold (state_word w has n st) = st_bold st \<and> st_italic (state_word w has n st) = st_italic st \<and> st_underline (state_word w has n st) = st_underline st" for st
    using assms by (elim insertE emptyE; simp add: state_word_def Let_def)
  ultimately show ?thesis by (simp add: emit_format_def Let_def)
qed

definition keeps :: "string list \<Rightarrow> (8 word \<times> 8 word \<times> 8 word) list \<Rightarrow> string \<Rightarrow> bool" where
  "keeps names cs s \<longleftrightarrow> (\<forall>r. ready names cs r \<longrightarrow> (\<exists>r'. leads names cs r s r' [] (emit_format r)))"

lemma keeps_append: "keeps names cs s \<Longrightarrow> keeps names cs t \<Longrightarrow> keeps names cs (s @ t)"
  unfolding keeps_def by (metis append_Nil leads_ready leads_trans)

lemma keeps_Nil: "keeps names cs []"
  using leads_none by (auto simp: keeps_def)

lemma keeps_code: "w \<in> {''ql'', ''qc'', ''qr'', ''qj''} \<Longrightarrow> keeps names cs (code w)"
  unfolding keeps_def using leads_code[of names cs _ w] state_word_geometry[of w] by (fastforce simp: ready_def)

lemma keeps_numbered: "w \<in> {''li'', ''ri'', ''fi'', ''sl'', ''sb'', ''sa'', ''tx''} \<Longrightarrow> keeps names cs (numbered w n)"
  unfolding keeps_def using leads_numbered[of names cs _ w n] state_word_geometry[of w] by (fastforce simp: ready_def)

lemma keeps_geometry: "keeps names cs (geometry f)"
proof -
  have "keeps names cs (concat (map (\<lambda>t. numbered ''tx'' (twips (fst t))) ts))" for ts :: "(rat \<times> tab_kind) list"
    by (induction ts) (auto intro: keeps_Nil keeps_append keeps_numbered)
  then show ?thesis
    unfolding geometry_def by (intro keeps_append) (auto intro: keeps_Nil keeps_numbered keeps_code split: alignment.split)
qed

lemma cells_cong: "map para_cells ps = map para_cells qs \<Longrightarrow> cells ps = cells qs"
proof (induction ps arbitrary: qs)
  case (Cons p ps)
  then obtain q qs' where "qs = q # qs'" by (cases qs) auto
  with Cons show ?case by auto
qed auto

lemma SetParaFormat_keeps:
  assumes "paras_ok (fParas d)"
  shows "cells (fParas (SetParaFormat i f d)) = cells (fParas d) \<and> paras_ok (fParas (SetParaFormat i f d))"
proof -
  let ?k = "nat i" and ?q = "\<lambda>p. p\<lparr>format := f, revision := revision p + 1\<rparr>"
  have cells: "map para_cells ((fParas d)[?k := ?q (fParas d ! ?k)]) = map para_cells (fParas d)" if "?k < length (fParas d)"
    using that by (simp add: map_update para_cells_def list_update_same_conv)
  have "paras_ok ((fParas d)[?k := ?q (fParas d ! ?k)])" if "?k < length (fParas d)"
    using assms that by (auto simp: paras_ok_def para_ok_def dest!: set_update_subset_insert[THEN subsetD])
  then show ?thesis
    using cells_cong[OF cells] assms by (auto simp: SetParaFormat_def Let_def)
qed

lemma ApplyParaFormat_keeps:
  assumes "ready names cs r"
  shows "ready names cs (ApplyParaFormat i r) \<and> cells (fParas (fDoc (ApplyParaFormat i r))) = cells (fParas (fDoc r))
    \<and> emit_format (ApplyParaFormat i r) = emit_format r"
proof -
  have "ApplyParaFormat i r = r \<or> (\<exists>f s. ApplyParaFormat i r = r\<lparr>fDoc := SetParaFormat i f (fDoc r), fSeenAlignForPara := s\<rparr>)"
    by (auto simp: ApplyParaFormat_def Let_def)
  moreover have "ready names cs (r\<lparr>fDoc := SetParaFormat i f (fDoc r), fSeenAlignForPara := s\<rparr>)" for f s
    using assms SetParaFormat_keeps[of "fDoc r"] by (simp add: ready_def)
  ultimately show ?thesis using assms SetParaFormat_keeps[of "fDoc r"] by (auto simp: ready_def)
qed

lemma Insert_newline: "Insert off [newline] fo d = SplitPara off d"
  by (simp add: Insert_def insert_lines.simps[of off] insert_lines.simps[of "Suc off"])

lemma ApplyParaFormat_rest: "ApplyParaFormat i (r\<lparr>fRest := s\<rparr>) = (ApplyParaFormat i r)\<lparr>fRest := s\<rparr>"
  by (simp add: ApplyParaFormat_def Let_def)

lemma rest_doc: "r\<lparr>fRest := s, fDoc := d\<rparr> = r\<lparr>fDoc := d, fRest := s\<rparr>"
  by (cases r) simp

lemma leads_par:
  assumes "ready names cs r"
  shows "\<exists>r'. leads names cs r (backslash # ''par'' @ [newline]) r' [None] (emit_format r)"
proof -
  let ?r = "r\<lparr>fDoc := Insert (Length (fParas (fDoc r))) [newline] None (fDoc r)\<rparr>"
  let ?e = "ApplyParaFormat (int (length (fParas (fDoc ?r))) - 2) ?r"
  have word: "is_word ''par''" by code_simp
  have blank: "\<not> isalpha newline" "\<not> is_digit newline" "newline \<noteq> CHR ''-''" "newline \<noteq> CHR '' ''"
    by (simp_all add: newline_def isalpha_def is_digit_def)
  have "parse_loop (r\<lparr>fRest := backslash # ''par'' @ newline # u\<rparr>) = parse_loop (?e\<lparr>fRest := u\<rparr>)" for u
  proof -
    have read: "read_word (''par'' @ newline # u) = (''par'', False, 0, newline # u)"
      using read_word_plain[of "''par''" newline u] word blank by (simp add: is_word_def skip_space_def)
    have depth: "0 < fDepth r" "0 < fDepth ?e" "\<not> InTable r" using assms ApplyParaFormat_keeps by (auto simp: ready_def InTable_def ApplyParaFormat_def Let_def)
    have "control_word ''par'' False 0 (r\<lparr>fRest := newline # u\<rparr>) = ?e\<lparr>fRest := newline # u\<rparr>"
      using depth(3) by (simp add: control_word_def InTable_def IsDestinationWord_def EndParagraph_def Let_def rest_doc ApplyParaFormat_rest)
    moreover have "parse_loop (?e\<lparr>fRest := newline # u\<rparr>) = parse_loop (?e\<lparr>fRest := u\<rparr>)"
      unfolding parse_turn[OF depth(2)] by (simp add: parse_step_def newline_def backslash_def)
    ultimately show ?thesis using parse_word[OF depth(1) word read] by simp
  qed
  moreover have "ready names cs ?r \<and> cells (fParas (fDoc ?r)) = cells (fParas (fDoc r)) @ [None]"
    using SplitPara_cells[of "fDoc r" "Length (fParas (fDoc r))"] assms by (simp add: ready_def Insert_newline Length_cells)
  ultimately have "leads names cs r (backslash # ''par'' @ [newline]) ?e [None] (emit_format r)"
    using ApplyParaFormat_keeps[of names cs ?r] by (simp add: leads_def)
  then show ?thesis by blast
qed

text \<open>Documents that RTF can say.\<close>

definition rtf_para :: "string list \<Rightarrow> (8 word \<times> 8 word \<times> 8 word) list \<Rightarrow> para \<Rightarrow> bool" where
  "rtf_para names cs p \<longleftrightarrow> para_ok p \<and> body p \<noteq> [] \<and> (\<forall>c \<in> set (body p). plain_byte c) \<and> (\<forall>r \<in> set (runs p). 0 < len r \<and> rtf_format names cs (fmt r))"

lemma leads_paras:
  assumes "ready names cs r" and "rtf_format names cs (emit_format r)" and "\<forall>p \<in> set ps. rtf_para names cs p"
  shows "\<exists>r' g. leads names cs r (write_paras names cs fam (emit_format r) ps) r' (cells ps) g"
  using assms
proof (induction ps arbitrary: r)
  case Nil
  then show ?case using leads_none[of names cs r] by auto
next
  case (Cons p ps)
  have p: "rtf_para names cs p" using Cons.prems(3) by simp
  have rest: "\<forall>p \<in> set ps. rtf_para names cs p" using Cons.prems(3) by simp
  obtain r1 where 1: "leads names cs r (geometry (format p)) r1 [] (emit_format r)"
    using keeps_geometry[of names cs "format p", unfolded keeps_def] Cons.prems(1) by blast
  note r1 = leads_ready[OF 1]
  let ?w = "write_segments names cs fam (body p) (emit_format r) (map (\<lambda>r. (fmt r, start r, run_end r)) (runs p))"
  obtain r2 g where 2: "leads names cs r1 (fst ?w) r2 (para_cells p) g" "snd ?w = g" "rtf_format names cs g"
    using leads_segments[of names cs r1 0 "runs p" "body p" fam] r1 p Cons.prems(2) by (auto simp: rtf_para_def para_ok_def para_cells_def)
  note r2 = leads_ready[OF 2(1)]
  have segs: "segments (runs p) (length (body p)) 0 0 = map (\<lambda>r. (fmt r, start r, run_end r)) (runs p)"
    using para_segments p by (simp add: rtf_para_def)
  note here = leads_trans[OF 1 2(1)]
  show ?case
  proof (cases "ps = []")
    case True
    then show ?thesis using here p by (intro exI[of _ r2] exI[of _ g]) (simp add: segs case_prod_beta rtf_para_def)
  next
    case False
    obtain r3 where 3: "leads names cs r2 (backslash # ''par'' @ [newline]) r3 [None] g" using leads_par[of names cs r2] r2 by metis
    note r3 = leads_ready[OF 3]
    obtain r4 h where 4: "leads names cs r3 (write_paras names cs fam g ps) r4 (cells ps) h" using Cons.IH[of r3] r3 2(3) rest by auto
    from leads_trans[OF here leads_trans[OF 3 4]] show ?thesis
      using False p 2(2) by (intro exI[of _ r4] exI[of _ h]) (simp add: segs case_prod_beta rtf_para_def)
  qed
qed

section \<open>The tables\<close>

definition push :: "reader \<Rightarrow> reader" where
  "push r = r\<lparr>fDepth := fDepth r + 1, fStack := fStack r @ [fState r]\<rparr>"

definition pop :: "reader \<Rightarrow> reader" where
  "pop r = (let r = PopState (r\<lparr>fDepth := fDepth r - 1\<rparr>) in
     if fDepth r < fTableDepth r then r\<lparr>fInFontTable := False, fInColorTable := False, fTableDepth := 32000\<rparr> else r)"

lemma parse_open: "0 < fDepth r \<Longrightarrow> parse_loop (r\<lparr>fRest := CHR ''{'' # u\<rparr>) = parse_loop ((push r)\<lparr>fRest := u\<rparr>)"
  unfolding parse_turn by (cases r) (simp add: parse_step_def push_def)

lemma parse_close: "0 < fDepth r \<Longrightarrow> parse_loop (r\<lparr>fRest := CHR ''}'' # u\<rparr>) = parse_loop ((pop r)\<lparr>fRest := u\<rparr>)"
  unfolding parse_turn by (cases r) (simp add: parse_step_def pop_def PopState_def Let_def)

lemma parse_newline: "0 < fDepth r \<Longrightarrow> parse_loop (r\<lparr>fRest := newline # u\<rparr>) = parse_loop (r\<lparr>fRest := u\<rparr>)"
  unfolding parse_turn by (simp add: parse_step_def newline_def backslash_def)

definition table_char :: "char \<Rightarrow> bool" where
  "table_char c \<longleftrightarrow> c \<notin> {CHR ''{'', CHR ''}'', backslash, newline, return}"

text \<open>The rest of the text updated last.\<close>

lemma rest_last:
  "r\<lparr>fRest := s, fDoc := x0\<rparr> = r\<lparr>fDoc := x0, fRest := s\<rparr>"
  "r\<lparr>fRest := s, fState := x1\<rparr> = r\<lparr>fState := x1, fRest := s\<rparr>"
  "r\<lparr>fRest := s, fFonts := x2\<rparr> = r\<lparr>fFonts := x2, fRest := s\<rparr>"
  "r\<lparr>fRest := s, fColors := x3\<rparr> = r\<lparr>fColors := x3, fRest := s\<rparr>"
  "r\<lparr>fRest := s, fCurrentName := x4\<rparr> = r\<lparr>fCurrentName := x4, fRest := s\<rparr>"
  "r\<lparr>fRest := s, fPendingFont := x5\<rparr> = r\<lparr>fPendingFont := x5, fRest := s\<rparr>"
  "r\<lparr>fRest := s, fPendingColor := x6\<rparr> = r\<lparr>fPendingColor := x6, fRest := s\<rparr>"
  "r\<lparr>fRest := s, fSeenAutoColor := x7\<rparr> = r\<lparr>fSeenAutoColor := x7, fRest := s\<rparr>"
  "r\<lparr>fRest := s, fInFontTable := x8\<rparr> = r\<lparr>fInFontTable := x8, fRest := s\<rparr>"
  "r\<lparr>fRest := s, fInColorTable := x9\<rparr> = r\<lparr>fInColorTable := x9, fRest := s\<rparr>"
  "r\<lparr>fRest := s, fTableDepth := x10\<rparr> = r\<lparr>fTableDepth := x10, fRest := s\<rparr>"
  "r\<lparr>fRest := s, fDepth := x11\<rparr> = r\<lparr>fDepth := x11, fRest := s\<rparr>"
  "r\<lparr>fRest := s, fStack := x12\<rparr> = r\<lparr>fStack := x12, fRest := s\<rparr>"
  by (cases r; simp)+

lemma HandleChar_rest: "HandleCharInTable c (r\<lparr>fRest := s\<rparr>) = (HandleCharInTable c r)\<lparr>fRest := s\<rparr>"
  by (simp add: HandleCharInTable_def Let_def rest_last)

lemma TableControl_rest: "TableControl w has n (r\<lparr>fRest := s\<rparr>) = (TableControl w has n r)\<lparr>fRest := s\<rparr>"
  by (simp add: TableControl_def Let_def rest_last)

lemma parse_table_char:
  "0 < fDepth r \<Longrightarrow> InTable r \<Longrightarrow> table_char c \<Longrightarrow> parse_loop (r\<lparr>fRest := c # u\<rparr>) = parse_loop ((HandleCharInTable c r)\<lparr>fRest := u\<rparr>)"
  unfolding parse_turn by (auto simp: parse_step_def table_char_def InTable_def HandleChar_rest)

lemma parse_table_word:
  assumes "0 < fDepth r" and "InTable r" and "is_word w" and "w \<notin> {''fonttbl'', ''colortbl''}" and "read_word (w @ s) = (w, has, n, u)"
  shows "parse_loop (r\<lparr>fRest := backslash # w @ s\<rparr>) = parse_loop ((TableControl w has n r)\<lparr>fRest := u\<rparr>)"
proof -
  have "control_word w has n (r\<lparr>fRest := u\<rparr>) = (TableControl w has n r)\<lparr>fRest := u\<rparr>"
    using assms(2,4) by (simp add: control_word_def InTable_def TableControl_rest)
  then show ?thesis using parse_word[OF assms(1,3,5)] by simp
qed

lemma parse_name:
  "0 < fDepth r \<Longrightarrow> fInFontTable r \<Longrightarrow> CHR '';'' \<notin> set n \<Longrightarrow> \<forall>c \<in> set n. table_char c
    \<Longrightarrow> parse_loop (r\<lparr>fRest := n @ u\<rparr>) = parse_loop (r\<lparr>fCurrentName := fCurrentName r @ n, fRest := u\<rparr>)"
proof (induction n arbitrary: r)
  case (Cons c n)
  have "HandleCharInTable c r = r\<lparr>fCurrentName := fCurrentName r @ [c]\<rparr>" using Cons.prems(2,3) by (auto simp: HandleCharInTable_def)
  with parse_table_char[of r c "n @ u"] Cons.prems Cons.IH[of "r\<lparr>fCurrentName := fCurrentName r @ [c]\<rparr>"] show ?case
    by (simp add: InTable_def)
qed simp

text \<open>Names of fonts that the table can hold.\<close>

definition font_name :: "string \<Rightarrow> bool" where
  "font_name n \<longleftrightarrow> n \<noteq> [] \<and> length n \<le> font_family_room \<and> CHR '';'' \<notin> set n \<and> (\<forall>c \<in> set n. table_char c) \<and> \<not> blank (hd n) \<and> \<not> blank (last n)"

lemma Trimmed_name: "font_name n \<Longrightarrow> Trimmed n = n"
proof -
  assume "font_name n"
  then have "dropWhile blank n = n" "dropWhile blank (rev n) = rev n"
    by (cases n; simp add: font_name_def; fail) (cases n rule: rev_cases; use \<open>font_name n\<close> in \<open>simp add: font_name_def\<close>)
  then show ?thesis by (simp add: Trimmed_def)
qed

definition in_fonts :: "reader \<Rightarrow> string list \<Rightarrow> reader \<Rightarrow> bool" where
  "in_fonts r0 ns r \<longleftrightarrow> fDepth r = 2 \<and> fTableDepth r = 2 \<and> fInFontTable r \<and> \<not> fInColorTable r \<and> fStack r = [new_state] \<and> fState r = new_state
     \<and> fDoc r = fDoc r0 \<and> fDefaultFormat r = fDefaultFormat r0 \<and> fCurrentName r = [] \<and> fColors r = [] \<and> fPendingColor r = (0, 0, 0, 255)
     \<and> (\<forall>i < length ns. fFonts r (int i) = Some (ns ! i))"

lemma parse_font_entry:
  assumes "in_fonts r0 ns r" and "font_name n"
  shows "\<exists>r'. parse_loop (r\<lparr>fRest := font_entry (length ns, n) @ u\<rparr>) = parse_loop (r'\<lparr>fRest := u\<rparr>) \<and> in_fonts r0 (ns @ [n]) r'"
proof -
  let ?i = "int (length ns)"
  define r1 where "r1 = TableControl ''f'' True ?i (push r)"
  define r2 where "r2 = HandleCharInTable (CHR '';'') (r1\<lparr>fCurrentName := n\<rparr>)"
  have word: "is_word ''f''" by code_simp
  have read: "read_word (''f'' @ show_nat (length ns) @ CHR '' '' # n @ '';}'' @ u) = (''f'', True, ?i, n @ '';}'' @ u)"
    using read_word_nat[of "''f''" "CHR '' ''"] word by (simp add: is_word_def is_digit_def skip_space_def)
  have r1: "r1 = (push r)\<lparr>fPendingFont := ?i, fCurrentName := []\<rparr>"
    using assms(1) by (simp add: r1_def TableControl_def in_fonts_def push_def Let_def)
  have r2: "r2 = r1\<lparr>fFonts := (fFonts r)(?i \<mapsto> n), fCurrentName := []\<rparr>"
    using assms by (simp add: r2_def HandleCharInTable_def r1 push_def in_fonts_def Let_def Trimmed_name) (simp add: font_name_def)
  have depth: "0 < fDepth r" "0 < fDepth (push r)" "InTable (push r)" "0 < fDepth r1" "fInFontTable r1" "fCurrentName r1 = []" "0 < fDepth r2"
    "0 < fDepth (r1\<lparr>fCurrentName := n\<rparr>)" "InTable (r1\<lparr>fCurrentName := n\<rparr>)"
    using assms(1) by (simp_all add: r2 r1 push_def in_fonts_def InTable_def)
  have semi: "table_char (CHR '';'')" by (simp add: table_char_def backslash_def newline_def return_def)
  have "parse_loop (r\<lparr>fRest := font_entry (length ns, n) @ u\<rparr>) = parse_loop (r1\<lparr>fRest := n @ '';}'' @ u\<rparr>)"
    using parse_open[OF depth(1)] parse_table_word[OF depth(2,3) word _ read] by (simp add: font_entry_def r1_def)
  also have "\<dots> = parse_loop (r2\<lparr>fRest := ''}'' @ u\<rparr>)"
    using parse_name[OF depth(4,5), of n "'';}'' @ u"] parse_table_char[OF depth(8,9) semi] assms(2) depth(6)
    by (simp add: font_name_def r2_def)
  also have "\<dots> = parse_loop ((pop r2)\<lparr>fRest := u\<rparr>)" using parse_close[OF depth(7)] by simp
  finally have "parse_loop (r\<lparr>fRest := font_entry (length ns, n) @ u\<rparr>) = parse_loop ((pop r2)\<lparr>fRest := u\<rparr>)" .
  moreover have "in_fonts r0 (ns @ [n]) (pop r2)"
    using assms(1) by (auto simp: in_fonts_def r2 r1 push_def pop_def PopState_def Let_def nth_append less_Suc_eq)
  ultimately show ?thesis by blast
qed

lemma parse_font_entries:
  assumes "in_fonts r0 ns r" and "\<forall>n \<in> set ms. font_name n"
  shows "\<exists>r'. parse_loop (r\<lparr>fRest := concat (map font_entry (zip [length ns..<length ns + length ms] ms)) @ u\<rparr>) = parse_loop (r'\<lparr>fRest := u\<rparr>)
    \<and> in_fonts r0 (ns @ ms) r'"
  using assms
proof (induction ms arbitrary: ns r)
  case (Cons m ms)
  let ?rest = "concat (map font_entry (zip [Suc (length ns)..<Suc (length ns) + length ms] ms))"
  obtain r1 where r1: "parse_loop (r\<lparr>fRest := font_entry (length ns, m) @ ?rest @ u\<rparr>) = parse_loop (r1\<lparr>fRest := ?rest @ u\<rparr>)" "in_fonts r0 (ns @ [m]) r1"
    using parse_font_entry[OF Cons.prems(1), of m "?rest @ u"] Cons.prems(2) by auto
  have "[length ns..<length ns + length (m # ms)] = length ns # [Suc (length ns)..<Suc (length ns) + length ms]"
    using upt_conv_Cons[of "length ns" "length ns + length (m # ms)"] by simp
  then show ?case using Cons.IH[OF r1(2)] Cons.prems(2) r1(1) by auto
qed auto

definition in_colors :: "reader \<Rightarrow> (int \<Rightarrow> string option) \<Rightarrow> (8 word \<times> 8 word \<times> 8 word) list \<Rightarrow> reader \<Rightarrow> bool" where
  "in_colors r0 F cs r \<longleftrightarrow> fDepth r = 2 \<and> fTableDepth r = 2 \<and> \<not> fInFontTable r \<and> fInColorTable r \<and> fSeenAutoColor r \<and> fStack r = [new_state]
     \<and> fState r = new_state \<and> fDoc r = fDoc r0 \<and> fDefaultFormat r = fDefaultFormat r0 \<and> fFonts r = F
     \<and> fColors r = map (\<lambda>(r, g, b). (r, g, b, 255)) cs \<and> fPendingColor r = (0, 0, 0, 255)"

lemma parse_channel:
  assumes "0 < fDepth r" and "\<not> fInFontTable r" and "fInColorTable r" and "w \<in> {''red'', ''green'', ''blue''}" and "c = backslash \<or> c = CHR '';''"
  shows "parse_loop (r\<lparr>fRest := backslash # w @ show_nat k @ c # u\<rparr>)
    = parse_loop (r\<lparr>fPendingColor := table_channel w True (int k) (fPendingColor r), fRest := c # u\<rparr>)"
proof -
  have "list_all is_word [''red'', ''green'', ''blue'']" by code_simp
  then have word: "is_word w" using assms(4) by auto
  have "read_word (w @ show_nat k @ c # u) = (w, True, int k, c # u)"
    using read_word_nat[of w c k u] word assms(5) by (auto simp: is_word_def is_digit_def skip_space_def backslash_def)
  from parse_table_word[OF assms(1) _ word _ this] show ?thesis
    using assms(2-4) by (auto simp: InTable_def TableControl_def)
qed

lemma table_semicolon: "table_char (CHR '';'')"
  by (simp add: table_char_def backslash_def newline_def return_def)

lemma parse_color_entry:
  assumes "in_colors r0 F cs r"
  shows "\<exists>r'. parse_loop (r\<lparr>fRest := color_entry c @ u\<rparr>) = parse_loop (r'\<lparr>fRest := u\<rparr>) \<and> in_colors r0 F (cs @ [c]) r'"
proof -
  obtain x y z where c: "c = (x, y, z)" by (cases c) auto
  let ?put = "\<lambda>w v r. r\<lparr>fPendingColor := table_channel w True (int (unat v)) (fPendingColor r)\<rparr>"
  define r1 where "r1 = ?put ''red'' x r"
  define r2 where "r2 = ?put ''green'' y r1"
  define r3 where "r3 = ?put ''blue'' z r2"
  define r4 where "r4 = HandleCharInTable (CHR '';'') r3"
  have cond: "0 < fDepth r" "\<not> fInFontTable r" "fInColorTable r" "0 < fDepth r1" "\<not> fInFontTable r1" "fInColorTable r1"
      "0 < fDepth r2" "\<not> fInFontTable r2" "fInColorTable r2" "0 < fDepth r3" "InTable r3"
    using assms by (simp_all add: in_colors_def r1_def r2_def r3_def InTable_def)
  have words: "''red'' \<in> {''red'', ''green'', ''blue''}" "''green'' \<in> {''red'', ''green'', ''blue''}" "''blue'' \<in> {''red'', ''green'', ''blue''}" by blast+
  have r3: "r3 = r\<lparr>fPendingColor := (x, y, z, 255)\<rparr>"
    using assms by (simp add: r3_def r2_def r1_def table_channel_def in_colors_def)
  have entry: "color_entry c @ u = backslash # ''red'' @ show_nat (unat x) @ backslash # (''green'' @ show_nat (unat y)
      @ backslash # (''blue'' @ show_nat (unat z) @ CHR '';'' # u))"
    by (simp add: c color_entry_def)
  have "parse_loop (r\<lparr>fRest := color_entry c @ u\<rparr>) = parse_loop (r4\<lparr>fRest := u\<rparr>)"
    unfolding entry parse_channel[OF cond(1-3) words(1) disjI1[OF refl]] r1_def[symmetric]
      parse_channel[OF cond(4-6) words(2) disjI1[OF refl]] r2_def[symmetric]
      parse_channel[OF cond(7-9) words(3) disjI2[OF refl]] r3_def[symmetric] parse_table_char[OF cond(10,11) table_semicolon] r4_def ..
  moreover have "in_colors r0 F (cs @ [c]) r4"
    using assms by (simp add: in_colors_def HandleCharInTable_def r4_def r3 c Let_def)
  ultimately show ?thesis by blast
qed

lemma parse_color_entries:
  "in_colors r0 F cs r \<Longrightarrow> \<exists>r'. parse_loop (r\<lparr>fRest := concat (map color_entry ds) @ u\<rparr>) = parse_loop (r'\<lparr>fRest := u\<rparr>) \<and> in_colors r0 F (cs @ ds) r'"
proof (induction ds arbitrary: cs r)
  case (Cons d ds)
  obtain r1 where "parse_loop (r\<lparr>fRest := color_entry d @ concat (map color_entry ds) @ u\<rparr>) = parse_loop (r1\<lparr>fRest := concat (map color_entry ds) @ u\<rparr>)"
      "in_colors r0 F (cs @ [d]) r1"
    using parse_color_entry[OF Cons.prems] by blast
  with Cons.IH[of "cs @ [d]" r1] show ?case by auto
qed auto

text \<open>The words ahead of the tables say nothing to the reader.\<close>

lemma parse_ignored:
  assumes "0 < fDepth r" and "\<not> InTable r" and "state_code w" and "state_word w has n (fState r) = fState r" and "read_word (w @ s) = (w, has, n, u)"
  shows "parse_loop (r\<lparr>fRest := backslash # w @ s\<rparr>) = parse_loop (r\<lparr>fRest := u\<rparr>)"
proof -
  have "control_word w has n (r\<lparr>fRest := u\<rparr>) = r\<lparr>fRest := u\<rparr>"
    using assms(2-4) by (auto simp: control_word_def state_code_def InTable_def rest_last)
  then show ?thesis using parse_word[OF assms(1) _ assms(5)] assms(3) by (simp add: state_code_def)
qed

lemma parse_preamble:
  assumes "0 < fDepth r" and "\<not> InTable r"
  shows "parse_loop (r\<lparr>fRest := backslash # ''rtf1'' @ backslash # ''ansi'' @ backslash # ''deff0'' @ newline # u\<rparr>) = parse_loop (r\<lparr>fRest := u\<rparr>)"
proof -
  have words: "state_code ''rtf''" "state_code ''ansi''" "state_code ''deff''" by code_simp+
  have digits: "''rtf1'' = ''rtf'' @ show_nat 1" "''deff0'' = ''deff'' @ show_nat 0" by code_simp+
  have ends: "\<not> isalpha backslash" "\<not> is_digit backslash" "backslash \<noteq> CHR ''-''" "skip_space (backslash # v) = backslash # v"
      "\<not> is_digit newline" "skip_space (newline # v) = newline # v" for v
    by (simp_all add: backslash_def newline_def isalpha_def is_digit_def skip_space_def)
  have reads: "read_word (''rtf'' @ show_nat 1 @ backslash # v) = (''rtf'', True, int 1, backslash # v)"
      "read_word (''ansi'' @ backslash # v) = (''ansi'', False, 0, backslash # v)"
      "read_word (''deff'' @ show_nat 0 @ newline # v) = (''deff'', True, int 0, newline # v)" for v
    using read_word_nat[of "''rtf''" backslash 1 v] read_word_plain[of "''ansi''" backslash v] read_word_nat[of "''deff''" newline 0 v] words ends
    by (simp_all add: state_code_def is_word_def)
  have same: "state_word ''rtf'' has n st = st" "state_word ''ansi'' has n st = st" "state_word ''deff'' has n st = st" for has n st
    by (simp_all add: state_word_def)
  show ?thesis
    unfolding digits append_assoc parse_ignored[OF assms words(1) same(1) reads(1)] parse_ignored[OF assms words(2) same(2) reads(2)]
      parse_ignored[OF assms words(3) same(3) reads(3)] parse_newline[OF assms(1)] ..
qed

lemma parse_fonttbl:
  assumes "0 < fDepth r"
  shows "parse_loop (r\<lparr>fRest := backslash # ''fonttbl'' @ CHR ''{'' # u\<rparr>) = parse_loop (r\<lparr>fInFontTable := True, fTableDepth := fDepth r, fRest := CHR ''{'' # u\<rparr>)"
proof -
  have word: "is_word ''fonttbl''" by code_simp
  have "read_word (''fonttbl'' @ CHR ''{'' # u) = (''fonttbl'', False, 0, CHR ''{'' # u)"
    using read_word_plain[of "''fonttbl''" "CHR ''{''" u] word by (simp add: is_word_def isalpha_def is_digit_def skip_space_def)
  from parse_word[OF assms word this] show ?thesis by (simp add: control_word_def rest_last)
qed

lemma parse_colortbl:
  assumes "0 < fDepth r" and "\<not> fInFontTable r"
  shows "parse_loop (r\<lparr>fRest := backslash # ''colortbl'' @ CHR '';'' # u\<rparr>)
    = parse_loop ((HandleCharInTable (CHR '';'') (r\<lparr>fInColorTable := True, fSeenAutoColor := False, fTableDepth := fDepth r\<rparr>))\<lparr>fRest := u\<rparr>)"
proof -
  let ?r = "r\<lparr>fInColorTable := True, fSeenAutoColor := False, fTableDepth := fDepth r\<rparr>"
  have word: "is_word ''colortbl''" by code_simp
  have "read_word (''colortbl'' @ CHR '';'' # u) = (''colortbl'', False, 0, CHR '';'' # u)"
    using read_word_plain[of "''colortbl''" "CHR '';''" u] word by (simp add: is_word_def isalpha_def is_digit_def skip_space_def)
  from parse_word[OF assms(1) word this] have "parse_loop (r\<lparr>fRest := backslash # ''colortbl'' @ CHR '';'' # u\<rparr>) = parse_loop (?r\<lparr>fRest := CHR '';'' # u\<rparr>)"
    by (simp add: control_word_def rest_last)
  moreover have "0 < fDepth ?r" "InTable ?r" using assms(1) by (simp_all add: InTable_def)
  ultimately show ?thesis using parse_table_char[of ?r "CHR '';''" u] table_semicolon by simp
qed

lemma parse_header:
  assumes "r = (new_reader d s)\<lparr>fDepth := 1\<rparr>" and "names \<noteq> []" and "\<forall>n \<in> set names. font_name n" and "color (fDefault d) = (0, 0, 0, 255)" and "paras_ok (fParas d)"
  shows "\<exists>r'. parse_loop (r\<lparr>fRest := tl (header names cs) @ u\<rparr>) = parse_loop (r'\<lparr>fRest := u\<rparr>) \<and> ready names cs r'
    \<and> fDoc r' = d \<and> fState r' = new_state \<and> fDefaultFormat r' = fDefault d"
proof -
  let ?fonts = "concat (map font_entry (zip [0..<length names] names))" and ?colors = "concat (map color_entry cs)"
  let ?v3 = "CHR ''}'' # newline # u"
  let ?v2 = "CHR ''}'' # newline # CHR ''{'' # backslash # ''colortbl'' @ CHR '';'' # ?colors @ ?v3"
  have r: "0 < fDepth r" "\<not> InTable r" "0 < fDepth (push r)" by (simp_all add: assms(1) new_reader_def InTable_def push_def)
  have whole: "tl (header names cs) @ u = backslash # ''rtf1'' @ backslash # ''ansi'' @ backslash # ''deff0'' @ newline # CHR ''{'' # backslash # ''fonttbl'' @ ?fonts @ ?v2"
    by (simp add: header_def)
  obtain v where v: "?fonts @ ?v2 = CHR ''{'' # v"
    using assms(2) by (cases names) (auto simp: font_entry_def upt_conv_Cons simp del: upt_Suc)
  define r1 where "r1 = (push r)\<lparr>fInFontTable := True, fTableDepth := fDepth (push r)\<rparr>"
  have in1: "in_fonts r [] r1" by (simp add: in_fonts_def r1_def push_def assms(1) new_reader_def)
  have p1: "parse_loop (r\<lparr>fRest := tl (header names cs) @ u\<rparr>) = parse_loop (r1\<lparr>fRest := ?fonts @ ?v2\<rparr>)"
    unfolding whole parse_preamble[OF r(1,2)] parse_open[OF r(1)] v parse_fonttbl[OF r(3)] r1_def ..
  obtain r2 where p2: "parse_loop (r1\<lparr>fRest := ?fonts @ ?v2\<rparr>) = parse_loop (r2\<lparr>fRest := ?v2\<rparr>)" and in2: "in_fonts r names r2"
    using parse_font_entries[OF in1 assms(3)] by auto
  define r3 where "r3 = push (pop r2)"
  define r4 where "r4 = HandleCharInTable (CHR '';'') (r3\<lparr>fInColorTable := True, fSeenAutoColor := False, fTableDepth := fDepth r3\<rparr>)"
  have pop2: "fDepth (pop r2) = 1" "fStack (pop r2) = []" "fState (pop r2) = new_state" "\<not> fInFontTable (pop r2)" "\<not> fInColorTable (pop r2)"
      "fDoc (pop r2) = fDoc r" "fDefaultFormat (pop r2) = fDefaultFormat r" "fColors (pop r2) = []" "fPendingColor (pop r2) = (0, 0, 0, 255)" "fFonts (pop r2) = fFonts r2"
    using in2 by (simp_all add: in_fonts_def pop_def PopState_def)
  have depth: "0 < fDepth r2" "0 < fDepth (pop r2)" "0 < fDepth r3" "\<not> fInFontTable r3" using in2 pop2 by (simp_all add: in_fonts_def r3_def push_def)
  have p3: "parse_loop (r2\<lparr>fRest := ?v2\<rparr>) = parse_loop (r4\<lparr>fRest := ?colors @ ?v3\<rparr>)"
    unfolding parse_close[OF depth(1)] parse_newline[OF depth(2)] parse_open[OF depth(2)] r3_def[symmetric] parse_colortbl[OF depth(3,4)] r4_def ..
  have in4: "in_colors r (fFonts r2) [] r4" by (simp add: in_colors_def r4_def r3_def push_def HandleCharInTable_def Let_def pop2)
  obtain r5 where p5: "parse_loop (r4\<lparr>fRest := ?colors @ ?v3\<rparr>) = parse_loop (r5\<lparr>fRest := ?v3\<rparr>)" and in5: "in_colors r (fFonts r2) cs r5"
    using parse_color_entries[OF in4] by auto
  have pop5: "fDepth (pop r5) = 1" "fStack (pop r5) = []" "fState (pop r5) = new_state" "\<not> fInFontTable (pop r5)" "\<not> fInColorTable (pop r5)"
      "fDoc (pop r5) = fDoc r" "fDefaultFormat (pop r5) = fDefaultFormat r" "fColors (pop r5) = map (\<lambda>(r, g, b). (r, g, b, 255)) cs" "fFonts (pop r5) = fFonts r2"
    using in5 by (simp_all add: in_colors_def pop_def PopState_def)
  have depth5: "0 < fDepth r5" "0 < fDepth (pop r5)" using in5 pop5 by (simp_all add: in_colors_def)
  have "parse_loop (r5\<lparr>fRest := ?v3\<rparr>) = parse_loop ((pop r5)\<lparr>fRest := u\<rparr>)"
    unfolding parse_close[OF depth5(1)] parse_newline[OF depth5(2)] ..
  moreover have "ready names cs (pop r5)"
    using in2 assms(1,4,5) by (simp add: ready_def pop5 in_fonts_def new_reader_def new_state_def)
  ultimately show ?thesis
    using p1 p2 p3 p5 pop5 assms(1) by (intro exI[of _ "pop r5"]) (simp add: new_reader_def)
qed

section \<open>The round trip\<close>

text \<open>
  A document that RTF can say: paragraphs with text, no control bytes that RTF reads otherwise, families
  that the font table can hold, sizes of whole half points, opaque colours, and a default format of
  twelve points in black.
\<close>

definition rtf_writer :: "writer \<Rightarrow> bool" where
  "rtf_writer d \<longleftrightarrow> paras_ok (fParas d) \<and> (\<forall>p \<in> set (fParas d). rtf_para (font_names d) (color_table d) p)
     \<and> (\<forall>n \<in> set (font_names d). font_name n) \<and> font_size (fDefault d) = 12 \<and> color (fDefault d) = (0, 0, 0, 255)"

lemma font_names_default: "\<exists>ns. font_names d = family (fDefault d) # ns"
proof -
  have "\<exists>ns. fold (\<lambda>f names. if family_or fam f = fam \<or> family_or fam f \<in> set names then names else names @ [family_or fam f]) fs (fam # ms) = fam # ns" for fam fs ms
    by (induction fs arbitrary: ms) auto
  then show ?thesis unfolding font_names_def Let_def by blast
qed

text \<open>
  C9 RTF brings the text back: what \<open>PW_WriteRTF\<close> writes of a document that RTF can say,
  \<open>PW_LoadRTF\<close> reads into a new document as the same row of bytes and paragraph ends, every byte with
  the same family, size, colour and face. The reader ends on every text.
\<close>

theorem rtf_brings_the_text_back:
  assumes "rtf_writer d"
  shows "fst (LoadRTF (new_writer fam) (WriteRTF d)) = B_OK \<and> cells (fParas (snd (LoadRTF (new_writer fam) (WriteRTF d)))) = cells (fParas d)"
proof -
  let ?names = "font_names d" and ?cs = "color_table d" and ?fam = "family (fDefault d)"
  let ?prev = "(fDefault d)\<lparr>bold := False, italic := False, underline := False\<rparr>"
  let ?body = "write_paras ?names ?cs ?fam ?prev (fParas d)"
  obtain ns where ns: "?names = ?fam # ns" using font_names_default by blast
  have names: "?names \<noteq> []" "\<forall>n \<in> set ?names. font_name n" using ns assms by (simp_all add: rtf_writer_def)
  define r where "r = (new_reader (new_writer fam) (tl (WriteRTF d)))\<lparr>fDepth := 1\<rparr>"
  have new: "color (fDefault (new_writer fam)) = (0, 0, 0, 255)" "paras_ok (fParas (new_writer fam))" "cells (fParas (new_writer fam)) = []"
    by (simp_all add: new_writer_def MakeDefaultFormat_def paras_ok_def para_ok_def new_para_def para_cells_def)
  have rtf: "WriteRTF d = header ?names ?cs @ ?body @ CHR ''}'' # [newline]" by (simp add: WriteRTF_def Let_def)
  moreover obtain v where head: "header ?names ?cs = CHR ''{'' # v" by (simp add: header_def)
  ultimately have tl: "tl (WriteRTF d) = tl (header ?names ?cs) @ ?body @ CHR ''}'' # [newline]" and hd: "WriteRTF d \<noteq> []" "hd (WriteRTF d) = CHR ''{''" by simp_all
  obtain r1 where r1: "parse_loop (r\<lparr>fRest := tl (WriteRTF d)\<rparr>) = parse_loop (r1\<lparr>fRest := ?body @ CHR ''}'' # [newline]\<rparr>)" "ready ?names ?cs r1"
      "fDoc r1 = new_writer fam" "fState r1 = new_state" "fDefaultFormat r1 = fDefault (new_writer fam)"
    using parse_header[OF r_def names(1,2) new(1,2), of ?cs "?body @ CHR ''}'' # [newline]"] unfolding tl by blast
  have "font_name ?fam" using assms ns by (simp add: rtf_writer_def)
  then have "fFonts r1 0 = Some ?fam" using r1(2) ns by (auto simp: ready_def dest: spec[of _ 0])
  then have emit: "emit_format r1 = ?prev"
    using r1(4,5) new(1) assms \<open>font_name ?fam\<close> by (cases "fDefault d")
      (simp add: emit_format_def new_state_def font_name_def rtf_writer_def new_writer_def MakeDefaultFormat_def Let_def)
  have "rtf_format ?names ?cs ?prev"
    using assms ns \<open>font_name ?fam\<close> by (simp add: rtf_format_def font_name_def rtf_writer_def rgb_def to_int_def floor_eq_iff)
  then obtain r2 g where r2: "leads ?names ?cs r1 ?body r2 (cells (fParas d)) g"
    using leads_paras[OF r1(2), of "fParas d" ?fam] emit assms by (auto simp: rtf_writer_def)
  note ready2 = leads_ready[OF r2]
  have "\<not> 0 < fDepth (pop r2)" using ready2 by (simp add: pop_def PopState_def Let_def ready_def)
  then have "parse_loop ((pop r2)\<lparr>fRest := [newline]\<rparr>) = (pop r2)\<lparr>fRest := [newline]\<rparr>"
    by (subst parse_loop.simps) simp
  then have "parse_loop (r2\<lparr>fRest := CHR ''}'' # [newline]\<rparr>) = (pop r2)\<lparr>fRest := [newline]\<rparr>"
    using parse_close[of r2 "[newline]"] ready2 by (simp add: ready_def)
  moreover have "fDoc (pop r2) = fDoc r2" by (simp add: pop_def PopState_def Let_def)
  ultimately have fin: "fDoc (parse_loop (r\<lparr>fRest := tl (WriteRTF d)\<rparr>)) = fDoc r2"
    using r1(1) r2 by (simp add: leads_def)
  have self: "r\<lparr>fRest := tl (WriteRTF d)\<rparr> = r" by (simp add: r_def new_reader_def)
  have read: "fDoc (parse_loop r) = fDoc r2" using fin self by simp
  have cells: "cells (fParas (fDoc r2)) = cells (fParas d)" "paras_ok (fParas (fDoc r2))"
    using r2 r1(3) new(3) by (simp_all add: leads_def ready_def)
  have "cells (fParas (fDoc (ApplyParaFormat i q))) = cells (fParas d)" if "fDoc q = fDoc r2" for i q
    using SetParaFormat_keeps[OF cells(2)] that cells(1) by (simp add: ApplyParaFormat_def Let_def)
  then show ?thesis
    using hd read by (simp add: LoadRTF_def Let_def r_def)
qed

definition rtf_example :: writer where
  "rtf_example = (let plain = MakeDefaultFormat ''Noto'';
       loud = \<lparr>family = ''Mono'', font_size = 21 / 2, color = (10, 200, 3, 255), bold = True, italic = False, underline = True\<rparr> in
     (new_writer ''Noto'')\<lparr>fParas :=
       [new_para\<lparr>body := ''x{'', runs := [\<lparr>start = 0, len = 2, fmt = plain\<rparr>]\<rparr>,
        new_para\<lparr>body := [backslash, CHR 0xE9, CHR ''y''], runs := [\<lparr>start = 0, len = 2, fmt = loud\<rparr>, \<lparr>start = 2, len = 1, fmt = plain\<rparr>]\<rparr>]\<rparr>)"

lemma rtf_brings_the_text_back_witness:
  "cells (fParas (snd (LoadRTF (new_writer ''Sans'') (WriteRTF rtf_example)))) = cells (fParas rtf_example)"
proof -
  have "rtf_writer rtf_example" by code_simp
  then show ?thesis using rtf_brings_the_text_back[of rtf_example "''Sans''"] by blast
qed

section \<open>What RTF does not bring back\<close>

text \<open>A text of bytes, each with whether it is bold.\<close>

definition bolds :: "cell list \<Rightarrow> (char \<times> bool) option list" where
  "bolds = map (map_option (\<lambda>(b, f). (b, bold f)))"

text \<open>
  The group that \<open>SkipGroup\<close> passes over stays open: its end is consumed, but the state that was put
  aside for it is taken back at the end of the group around it. Here \<open>c\<close> stands outside the bold group.
\<close>

definition open_group :: string where
  "open_group = ''{{'' @ backslash # ''b a{'' @ backslash # ''*'' @ backslash # ''x}b}c}''"

lemma skipped_group_stays_open:
  "bolds (cells (fParas (snd (LoadRTF (new_writer ''Sans'') open_group)))) = [Some (CHR ''a'', True), Some (CHR ''b'', True), Some (CHR ''c'', True)]"
  by code_simp

text \<open>An empty paragraph comes back as a blank.\<close>

definition empty_first :: writer where
  "empty_first = (let f = MakeDefaultFormat ''Noto'' in (new_writer ''Noto'')\<lparr>fParas :=
     [new_para\<lparr>runs := [\<lparr>start = 0, len = 0, fmt = f\<rparr>]\<rparr>, new_para\<lparr>body := ''a'', runs := [\<lparr>start = 0, len = 1, fmt = f\<rparr>]\<rparr>]\<rparr>)"

lemma empty_paragraph_comes_back_blank:
  "map body (fParas (snd (LoadRTF (new_writer ''Noto'') (WriteRTF empty_first)))) = ['' '', ''a'']"
  by code_simp

text \<open>An indent leaks into the paragraph that follows: nothing says that the next one has none.\<close>

definition indented_first :: writer where
  "indented_first = (let f = MakeDefaultFormat ''Noto'' in (new_writer ''Noto'')\<lparr>fParas :=
     [new_para\<lparr>body := ''a'', format := (format new_para)\<lparr>indentLeft := 36\<rparr>, runs := [\<lparr>start = 0, len = 1, fmt = f\<rparr>]\<rparr>,
      new_para\<lparr>body := ''b'', runs := [\<lparr>start = 0, len = 1, fmt = f\<rparr>]\<rparr>]\<rparr>)"

lemma indent_leaks:
  "map (indentLeft \<circ> format) (fParas indented_first) = [36, 0]
   \<and> map (indentLeft \<circ> format) (fParas (snd (LoadRTF (new_writer ''Noto'') (WriteRTF indented_first)))) = [36, 36]"
  by code_simp

end
