(* ===== verification/Spell.thy ===== *)
theory Spell
  imports Recent "HOL-Library.List_Lexorder"
begin

text \<open>
  ProseWriter's spelling, \<open>prosewriter/app/src/PWSpell.h\<close> and \<open>PWSpell.cpp\<close>: a sorted list of words, the
  check of one word, and the scan of a paragraph. Characters are classified as in the C locale; a text
  holds no NUL byte.
\<close>

section \<open>Characters\<close>

definition isdigit :: "char \<Rightarrow> bool" where
  "isdigit c \<longleftrightarrow> CHR ''0'' \<le> c \<and> c \<le> CHR ''9''"

definition isalnum :: "char \<Rightarrow> bool" where
  "isalnum c \<longleftrightarrow> isdigit c \<or> CHR ''A'' \<le> c \<and> c \<le> CHR ''Z'' \<or> CHR ''a'' \<le> c \<and> c \<le> CHR ''z''"

definition tolower :: "char \<Rightarrow> char" where
  "tolower c = (if CHR ''A'' \<le> c \<and> c \<le> CHR ''Z'' then char_of ((of_char c :: nat) + 32) else c)"

definition apostrophe :: char where
  "apostrophe = CHR 0x27"

definition word_char :: "char \<Rightarrow> bool" where
  "word_char c \<longleftrightarrow> isalnum c \<or> c = apostrophe \<or> c = CHR ''-''"

section \<open>The word list\<close>

record speller =
  fWords :: "string list"

definition new_speller :: speller where
  "new_speller = \<lparr>fWords = []\<rparr>"

definition ends_line :: "char \<Rightarrow> bool" where
  "ends_line c \<longleftrightarrow> c = CHR 0x0D \<or> c = newline"

function word_lines :: "string \<Rightarrow> string list" where
  "word_lines s =
     (if s = [] then []
      else let line = takeWhile (\<lambda>c. \<not> ends_line c) s; rest = dropWhile (\<lambda>c. \<not> ends_line c) s;
               items = (if 0 < length line \<and> length line < 48 then [map tolower line] else [])
           in if rest = [] then items else items @ word_lines (tl rest))"
  by auto
termination
proof (relation "measure length")
  fix s rest :: string
  assume "rest = dropWhile (\<lambda>c. \<not> ends_line c) s" "rest \<noteq> []"
  then have "0 < length rest" "length rest \<le> length s" using length_dropWhile_le[of "\<lambda>c. \<not> ends_line c" s] by auto
  then have "length (tl rest) < length s" by (simp only: length_tl)
  then show "(tl rest, s) \<in> measure length" by simp
qed simp

declare word_lines.simps [simp del]

text \<open>\<open>std::unique\<close> drops what equals its predecessor; what \<open>SetTo\<close>, \<open>GetSize\<close> and \<open>Read\<close> answer are arguments.\<close>

definition Load :: "bool \<Rightarrow> int \<Rightarrow> read_answer list \<Rightarrow> speller \<Rightarrow> nat \<times> speller" where
  "Load opened fsize reads sp =
     (if \<not> opened \<or> fsize \<le> 0 \<or> fsize > 64 * 1024 * 1024 then (0, sp)
      else let buffer = (case read_loop (nat fsize) [] reads of Inl e \<Rightarrow> [] | Inr s \<Rightarrow> s);
               ws = remdups_adj (sort (fWords sp @ word_lines (takeWhile (\<lambda>c. c \<noteq> CHR 0x00) buffer)))
           in (length ws, sp\<lparr>fWords := ws\<rparr>))"

definition AddWord :: "string \<Rightarrow> speller \<Rightarrow> speller" where
  "AddWord word sp = sp\<lparr>fWords := sort (fWords sp @ [map tolower word])\<rparr>"

text \<open>\<open>std::binary_search\<close> over a half-open range of the list.\<close>

function binary_search :: "string list \<Rightarrow> nat \<Rightarrow> nat \<Rightarrow> string \<Rightarrow> bool" where
  "binary_search ws lo hi w =
     (if hi \<le> lo then lo < length ws \<and> ws ! lo = w
      else let mid = lo + (hi - lo) div 2 in
        if ws ! mid < w then binary_search ws (mid + 1) hi w else binary_search ws lo mid w)"
  by auto
termination by (relation "measure (\<lambda>(ws, lo, hi, w). hi - lo)") auto

declare binary_search.simps [simp del]

definition Found :: "speller \<Rightarrow> string \<Rightarrow> bool" where
  "Found sp w = binary_search (fWords sp) 0 (length (fWords sp)) w"

section \<open>One word\<close>

function hyphen_parts :: "string \<Rightarrow> string list" where
  "hyphen_parts w =
     (let part = takeWhile (\<lambda>c. c \<noteq> CHR ''-'') w; rest = dropWhile (\<lambda>c. c \<noteq> CHR ''-'') w
      in if rest = [] then [part] else part # hyphen_parts (tl rest))"
  by auto
termination
proof (relation "measure length")
  fix w rest :: string
  assume "rest = dropWhile (\<lambda>c. c \<noteq> CHR ''-'') w" "rest \<noteq> []"
  then have "0 < length rest" "length rest \<le> length w" using length_dropWhile_le[of "\<lambda>c. c \<noteq> CHR ''-''" w] by auto
  then have "length (tl rest) < length w" by (simp only: length_tl)
  then show "(tl rest, w) \<in> measure length" by simp
qed simp

declare hyphen_parts.simps [simp del]

definition stem_found :: "speller \<Rightarrow> string \<Rightarrow> bool" where
  "stem_found sp w =
     (let stem = takeWhile (\<lambda>c. c \<noteq> apostrophe) w in
      apostrophe \<in> set w \<and> length stem > 1
        \<and> (Found sp stem \<or> last stem = CHR ''s'' \<and> Found sp (butlast stem)))"

definition parts_found :: "speller \<Rightarrow> string \<Rightarrow> bool" where
  "parts_found sp w \<longleftrightarrow> CHR ''-'' \<in> set w \<and> list_all (\<lambda>p. p = [] \<or> Found sp p) (hyphen_parts w)"

definition IsCorrect :: "speller \<Rightarrow> string \<Rightarrow> bool" where
  "IsCorrect sp word =
     (if word = [] \<or> fWords sp = [] then True
      else let w = map tolower word in
        if length w \<le> 1 \<or> list_ex isdigit w then True
        else Found sp w \<or> stem_found sp w \<or> parts_found sp w)"

section \<open>A paragraph\<close>

definition trim_word :: "string \<Rightarrow> string" where
  "trim_word w = rev (dropWhile (\<lambda>c. c = apostrophe \<or> c = CHR ''-'') (rev w))"

text \<open>The scan from a position on: what is skipped, the run of word characters, and on behind it.\<close>

function scan :: "speller \<Rightarrow> nat \<Rightarrow> string \<Rightarrow> (nat \<times> nat) list" where
  "scan sp i cs =
     (let skip = length (takeWhile (\<lambda>c. \<not> word_char c) cs); rest = drop skip cs in
      if rest = [] then []
      else let w = takeWhile word_char rest; m = trim_word w; start = i + skip;
               marked = (if length m = 0 \<or> list_ex isdigit w \<or> list_ex (\<lambda>c. (of_char c :: nat) \<ge> 0x80) w \<or> length m = 1
                 then [] else if \<not> IsCorrect sp m then [(start, length m)] else [])
           in marked @ scan sp (start + length w) (drop (length w) rest))"
  by auto
termination
proof (relation "measure (\<lambda>(sp, i, cs). length cs)")
  fix sp :: speller and i skip :: nat and cs rest w m :: string and start :: nat and marked :: "(nat \<times> nat) list"
  assume skip: "skip = length (takeWhile (\<lambda>c. \<not> word_char c) cs)" and rest: "rest = drop skip cs" "rest \<noteq> []" and w: "w = takeWhile word_char rest"
  have "rest = dropWhile (\<lambda>c. \<not> word_char c) cs" using skip rest(1) by (simp add: dropWhile_eq_drop)
  then have "word_char (hd rest)" using rest(2) hd_dropWhile[of "\<lambda>c. \<not> word_char c" cs] by auto
  then have "w \<noteq> []" using w rest(2) by (cases rest) auto
  then have "0 < length w" by simp
  moreover have "length w \<le> length rest" using w by (simp add: length_takeWhile_le)
  moreover have "0 < length rest" "length rest \<le> length cs" using rest by simp_all
  ultimately have "length (drop (length w) rest) < length cs" unfolding length_drop by linarith
  then show "((sp, start + length w, drop (length w) rest), (sp, i, cs)) \<in> measure (\<lambda>(sp, i, cs). length cs)" by simp
qed simp

declare scan.simps [simp del]

definition ScanParagraph :: "speller \<Rightarrow> string \<Rightarrow> (nat \<times> nat) list" where
  "ScanParagraph sp t = (if fWords sp = [] then [] else scan sp 0 t)"

definition CaretWordRange :: "string \<Rightarrow> int \<Rightarrow> int \<times> nat" where
  "CaretWordRange t off =
     (if off < 0 \<or> int (length t) < off then (off, 0)
      else let before = takeWhile word_char (rev (take (nat off) t)); behind = takeWhile word_char (drop (nat off) t)
           in (off - int (length before), length (trim_word (rev before @ behind))))"

section \<open>The list stays sorted\<close>

lemma binary_search_iff:
  assumes "sorted ws" and "lo \<le> hi" and "hi \<le> length ws" and "\<forall>i < lo. ws ! i < w" and "\<forall>i. hi \<le> i \<longrightarrow> i < length ws \<longrightarrow> w \<le> ws ! i"
  shows "binary_search ws lo hi w \<longleftrightarrow> w \<in> set ws"
  using assms
proof (induction ws lo hi w rule: binary_search.induct)
  case (1 ws lo hi w)
  show ?case
  proof (cases "hi \<le> lo")
    case True
    then have "lo = hi" using "1.prems"(2) by simp
    have "w \<in> set ws \<longleftrightarrow> lo < length ws \<and> ws ! lo = w"
    proof
      assume "w \<in> set ws"
      then obtain i where i: "i < length ws" "ws ! i = w" by (auto simp: in_set_conv_nth)
      then have "lo \<le> i" using "1.prems"(4) by (metis not_le order_less_irrefl)
      then have "ws ! lo \<le> w" using "1.prems"(1) i by (auto simp: sorted_iff_nth_mono)
      moreover have "w \<le> ws ! lo" using "1.prems"(5) \<open>lo = hi\<close> \<open>lo \<le> i\<close> i(1) by simp
      ultimately show "lo < length ws \<and> ws ! lo = w" using \<open>lo \<le> i\<close> i(1) by simp
    qed auto
    then show ?thesis using True by (subst binary_search.simps) simp
  next
    case False
    define mid where "mid = lo + (hi - lo) div 2"
    have mid: "lo \<le> mid" "mid < hi" "mid < length ws" using False "1.prems"(3) by (auto simp: mid_def)
    show ?thesis
    proof (cases "ws ! mid < w")
      case True
      have "\<forall>i < mid + 1. ws ! i < w"
        using True "1.prems"(1) mid by (metis add.commute le_less_trans less_Suc_eq_le plus_1_eq_Suc sorted_iff_nth_mono)
      with "1.IH"(1)[OF False mid_def True] "1.prems" mid show ?thesis
        using True False by (subst binary_search.simps) (simp add: Let_def mid_def)
    next
      case no: False
      have "\<forall>i. mid \<le> i \<longrightarrow> i < length ws \<longrightarrow> w \<le> ws ! i"
        using no "1.prems"(1) by (meson leI order_trans sorted_iff_nth_mono)
      with "1.IH"(2)[OF False mid_def no] "1.prems" mid show ?thesis
        using no False by (subst binary_search.simps) (simp add: Let_def mid_def)
    qed
  qed
qed

inductive spelling :: "speller \<Rightarrow> bool" where
  "spelling new_speller"
| "spelling sp \<Longrightarrow> spelling (snd (Load opened fsize reads sp))"
| "spelling sp \<Longrightarrow> spelling (AddWord w sp)"

lemma spelling_sorted: "spelling sp \<Longrightarrow> sorted (fWords sp)"
  by (induction rule: spelling.induct) (auto simp: new_speller_def Load_def AddWord_def Let_def intro: sorted_remdups_adj)

section \<open>The scan\<close>

text \<open>A word of the text: a span of word characters that none adjoins, less what it ends in.\<close>

definition word_span :: "string \<Rightarrow> nat \<Rightarrow> nat \<Rightarrow> bool" where
  "word_span t s e \<longleftrightarrow> s < e \<and> e \<le> length t \<and> (\<forall>j \<in> {s..<e}. word_char (t ! j))
     \<and> (0 < s \<longrightarrow> \<not> word_char (t ! (s - 1))) \<and> (e < length t \<longrightarrow> \<not> word_char (t ! e))"

definition span_text :: "string \<Rightarrow> nat \<Rightarrow> nat \<Rightarrow> string" where
  "span_text t s e = drop s (take e t)"

definition misspelt :: "speller \<Rightarrow> string \<Rightarrow> bool" where
  "misspelt sp w \<longleftrightarrow> 1 < length (trim_word w) \<and> \<not> list_ex isdigit w \<and> \<not> list_ex (\<lambda>c. (of_char c :: nat) \<ge> 0x80) w
     \<and> \<not> IsCorrect sp (trim_word w)"

lemma word_span_same:
  assumes "word_span t s e" and "word_span t s e'"
  shows "e = e'"
proof -
  have "\<not> a < b" if "word_span t s a" "word_span t s b" for a b
    using that by (force simp: word_span_def)
  with assms show ?thesis by (meson linorder_neqE_nat)
qed

lemma word_span_apart: "word_span t s e \<Longrightarrow> word_span t s' e' \<Longrightarrow> s < s' \<Longrightarrow> e < s'"
proof -
  assume a: "word_span t s e" "word_span t s' e'" "s < s'"
  have "\<not> s' - 1 < e" using a by (auto simp: word_span_def)
  moreover have "s' - 1 \<noteq> e \<or> e < s'" using a(3) by auto
  ultimately show "e < s'" using a(3) by linarith
qed

lemma trim_word_length: "length (trim_word w) \<le> length w"
  using length_dropWhile_le[of "\<lambda>c. c = apostrophe \<or> c = CHR ''-''" "rev w"] by (simp add: trim_word_def)

lemma scan_step:
  assumes "i \<le> length t" and "0 < i \<and> i < length t \<longrightarrow> \<not> word_char (t ! (i - 1)) \<or> \<not> word_char (t ! i)"
    and "skip = length (takeWhile (\<lambda>c. \<not> word_char c) (drop i t))" and "drop (i + skip) t \<noteq> []"
    and "w = takeWhile word_char (drop (i + skip) t)"
  shows "word_span t (i + skip) (i + skip + length w)" and "w = span_text t (i + skip) (i + skip + length w)"
    and "\<And>s e. i \<le> s \<Longrightarrow> word_span t s e \<Longrightarrow> s = i + skip \<and> e = i + skip + length w \<or> i + skip + length w \<le> s"
proof -
  let ?s = "i + skip" and ?e = "i + skip + length w"
  have lens: "?s < length t" using assms(4) by simp
  have between: "\<not> word_char (t ! j)" if "i \<le> j" "j < ?s" for j
    using that nth_mem[of "j - i" "takeWhile (\<lambda>c. \<not> word_char c) (drop i t)"] set_takeWhileD assms(1,3) takeWhile_nth[of "j - i" "\<lambda>c. \<not> word_char c" "drop i t"]
    by fastforce
  have "\<not> (\<not> word_char (drop i t ! skip))"
    using nth_length_takeWhile[of "\<lambda>c. \<not> word_char c" "drop i t"] lens assms(1) unfolding assms(3)[symmetric] by simp
  then have first: "word_char (t ! ?s)" using assms(1) by simp
  have w: "\<forall>j. ?s \<le> j \<longrightarrow> j < ?e \<longrightarrow> word_char (t ! j)"
  proof (intro allI impI)
    fix j assume j: "?s \<le> j" "j < ?e"
    then have in_w: "j - ?s < length (takeWhile word_char (drop ?s t))" using assms(5) by simp
    then have "takeWhile word_char (drop ?s t) ! (j - ?s) = t ! j" using takeWhile_nth[OF in_w] j(1) lens by simp
    then show "word_char (t ! j)" using nth_mem[OF in_w] set_takeWhileD by metis
  qed
  have e: "?e \<le> length t" using length_takeWhile_le[of word_char "drop ?s t"] lens assms(5) by simp
  have stop: "?e < length t \<longrightarrow> \<not> word_char (t ! ?e)"
    using nth_length_takeWhile[of word_char "drop ?s t"] lens unfolding assms(5)[symmetric] by auto
  have ne: "0 < length w" using first assms(5) lens by (cases "drop ?s t") (auto simp: Cons_nth_drop_Suc[symmetric])
  have "0 < ?s \<longrightarrow> \<not> word_char (t ! (?s - 1))"
    using between[of "?s - 1"] assms(2) first lens by (cases "skip = 0") auto
  then show span: "word_span t ?s ?e" using ne e w stop by (simp add: word_span_def)
  have "w = take (length w) (drop ?s t)" using assms(5) by (metis takeWhile_eq_take)
  then show "w = span_text t ?s ?e" by (simp add: span_text_def drop_take)
  show "s = ?s \<and> e = ?e \<or> ?e \<le> s" if "i \<le> s" "word_span t s e" for s e
  proof -
    have "\<not> s < ?s" using between[of s] that by (auto simp: word_span_def)
    then consider "s = ?s" | "?s < s" by linarith
    then show ?thesis using word_span_same[OF that(2)] span word_span_apart[OF span that(2)] by cases auto
  qed
qed

lemma scan_marks:
  assumes "i \<le> length t" and "0 < i \<and> i < length t \<longrightarrow> \<not> word_char (t ! (i - 1)) \<or> \<not> word_char (t ! i)"
  shows "set (scan sp i (drop i t)) = {(s, n). \<exists>e. i \<le> s \<and> word_span t s e \<and> misspelt sp (span_text t s e) \<and> n = length (trim_word (span_text t s e))}
    \<and> sorted_wrt (\<lambda>(s, n) (s', n'). s + n \<le> s') (scan sp i (drop i t))"
  using assms
proof (induction "length t - i" arbitrary: i rule: less_induct)
  case less
  define skip where "skip = length (takeWhile (\<lambda>c. \<not> word_char c) (drop i t))"
  have rest: "drop skip (drop i t) = drop (i + skip) t" by (simp add: add.commute)
  show ?case
  proof (cases "drop (i + skip) t = []")
    case True
    have "\<not> word_span t s e" if "i \<le> s" for s e
    proof
      assume span: "word_span t s e"
      have "length (takeWhile (\<lambda>c. \<not> word_char c) (drop i t)) = length (drop i t)"
        using True length_takeWhile_le[of "\<lambda>c. \<not> word_char c" "drop i t"] less.prems(1) by (simp add: skip_def)
      then have "\<forall>c \<in> set (drop i t). \<not> word_char c" by (metis takeWhile_eq_take take_all_iff order_refl set_takeWhileD)
      moreover have "s < length t" using span by (simp add: word_span_def)
      then have "t ! s \<in> set (drop i t)" using nth_mem[of "s - i" "drop i t"] that by simp
      ultimately show False using span by (auto simp: word_span_def)
    qed
    then show ?thesis using True by (subst (1 2) scan.simps) (auto simp: Let_def rest simp flip: skip_def)
  next
    case False
    define w where "w = takeWhile word_char (drop (i + skip) t)"
    let ?s = "i + skip" and ?e = "i + skip + length w"
    note step = scan_step[OF less.prems skip_def False w_def]
    have e: "?e \<le> length t" "i < ?e" "0 < ?e" "?e < length t \<longrightarrow> \<not> word_char (t ! ?e)" using step(1) by (auto simp: word_span_def)
    have smaller: "length t - ?e < length t - i" using e(1,2) by linarith
    have free: "0 < ?e \<and> ?e < length t \<longrightarrow> \<not> word_char (t ! (?e - 1)) \<or> \<not> word_char (t ! ?e)" using e(4) by simp
    note IH = less.hyps[OF smaller e(1) free, THEN conjunct1] less.hyps[OF smaller e(1) free, THEN conjunct2]
    have scan: "scan sp i (drop i t) = (if misspelt sp w then [(?s, length (trim_word w))] else []) @ scan sp ?e (drop ?e t)"
    proof -
      have behind: "drop (length w) (drop ?s t) = drop ?e t" by (simp add: add.commute)
      have "misspelt sp w \<longleftrightarrow> \<not> (length (trim_word w) = 0 \<or> list_ex isdigit w \<or> list_ex (\<lambda>c. (of_char c :: nat) \<ge> 0x80) w \<or> length (trim_word w) = 1)
          \<and> \<not> IsCorrect sp (trim_word w)"
        unfolding misspelt_def by linarith
      then show ?thesis
        unfolding scan.simps[of sp i "drop i t"] Let_def skip_def[symmetric] rest w_def[symmetric] behind using False by simp
    qed
    have "set (scan sp i (drop i t)) = {(s, n). \<exists>e. i \<le> s \<and> word_span t s e \<and> misspelt sp (span_text t s e) \<and> n = length (trim_word (span_text t s e))}"
    proof -
      have up: "?e \<le> s \<Longrightarrow> i \<le> s" "i \<le> ?s" for s by linarith+
      have split: "(\<exists>e. i \<le> s \<and> word_span t s e \<and> misspelt sp (span_text t s e) \<and> n = length (trim_word (span_text t s e)))
          \<longleftrightarrow> s = ?s \<and> misspelt sp (span_text t ?s ?e) \<and> n = length (trim_word (span_text t ?s ?e))
            \<or> (\<exists>e. ?e \<le> s \<and> word_span t s e \<and> misspelt sp (span_text t s e) \<and> n = length (trim_word (span_text t s e)))" for s n
        using step(1,3) up by blast
      show ?thesis unfolding scan set_append IH(1) split step(2)[symmetric] by auto
    qed
    moreover have "sorted_wrt (\<lambda>(s, n) (s', n'). s + n \<le> s') (scan sp i (drop i t))"
      unfolding scan using IH trim_word_length[of w] by (auto simp: sorted_wrt_append)
    ultimately show ?thesis by simp
  qed
qed

section \<open>Properties\<close>

text \<open>
  C32 The word list answers for what it holds: however it came about, by loading files and adding
  words in any order, the binary search finds exactly the words that are in it.
\<close>

theorem search_is_membership:
  assumes "spelling sp"
  shows "Found sp w \<longleftrightarrow> w \<in> set (fWords sp)"
  using binary_search_iff[OF spelling_sorted[OF assms], of 0 "length (fWords sp)" w] by (simp add: Found_def)

definition cat_and_dog :: speller where
  "cat_and_dog = AddWord ''cat'' (snd (Load True 8 [Inr ''Dog'', Inr (newline # ''fish'')] new_speller))"

lemma cat_and_dog_spelling: "spelling cat_and_dog"
  unfolding cat_and_dog_def by (intro spelling.intros)

theorem search_is_membership_witness: "Found cat_and_dog ''dog'' \<and> \<not> Found cat_and_dog ''Dog''"
proof -
  have "''dog'' \<in> set (fWords cat_and_dog)" "''Dog'' \<notin> set (fWords cat_and_dog)" by code_simp+
  then show ?thesis using search_is_membership[OF cat_and_dog_spelling] by simp
qed

text \<open>
  What the scan should mark, in words of the text and of the list alone. A word is accepted when it is in
  the list; when it has an apostrophe and what stands before the first one, more than a letter, is in the
  list, or is without an s at its end; or when it has hyphens and every part between them is in the list.
\<close>

definition word_bytes :: string where
  "word_bytes = ''abcdefghijklmnopqrstuvwxyzABCDEFGHIJKLMNOPQRSTUVWXYZ0123456789-'' @ [apostrophe]"

definition part_of :: "string \<Rightarrow> string \<Rightarrow> bool" where
  "part_of w p \<longleftrightarrow> (\<exists>u v. w = u @ p @ v \<and> CHR ''-'' \<notin> set p \<and> (u = [] \<or> last u = CHR ''-'') \<and> (v = [] \<or> hd v = CHR ''-''))"

definition accepted :: "string set \<Rightarrow> string \<Rightarrow> bool" where
  "accepted ws w \<longleftrightarrow> w \<in> ws
     \<or> (\<exists>stem rest. w = stem @ apostrophe # rest \<and> apostrophe \<notin> set stem \<and> 2 \<le> length stem
          \<and> (stem \<in> ws \<or> (\<exists>base. stem = base @ ''s'' \<and> base \<in> ws)))
     \<or> CHR ''-'' \<in> set w \<and> (\<forall>p. part_of w p \<longrightarrow> p = [] \<or> p \<in> ws)"

text \<open>
  The range of \<open>n\<close> bytes from \<open>s\<close> is to be marked: it begins a whole run of such bytes, without a digit,
  and ends in the last letter of the run, two bytes or more; the word in it is not accepted.
\<close>

definition to_mark :: "string set \<Rightarrow> string \<Rightarrow> nat \<Rightarrow> nat \<Rightarrow> bool" where
  "to_mark ws t s n \<longleftrightarrow> (\<exists>e \<le> length t. s + n \<le> e \<and> 2 \<le> n
     \<and> (\<forall>j \<in> {s..<e}. t ! j \<in> set word_bytes \<and> t ! j \<notin> set ''0123456789'')
     \<and> (0 < s \<longrightarrow> t ! (s - 1) \<notin> set word_bytes) \<and> (e < length t \<longrightarrow> t ! e \<notin> set word_bytes)
     \<and> t ! (s + n - 1) \<notin> {apostrophe, CHR ''-''} \<and> (\<forall>j \<in> {s + n..<e}. t ! j \<in> {apostrophe, CHR ''-''})
     \<and> \<not> accepted ws (map tolower (take n (drop s t))))"

lemma word_char_bytes: "word_char c \<longleftrightarrow> c \<in> set word_bytes"
proof -
  have "\<forall>c. word_char c \<longleftrightarrow> c \<in> set word_bytes" by code_simp
  then show ?thesis by blast
qed

lemma isdigit_bytes: "isdigit c \<longleftrightarrow> c \<in> set ''0123456789''"
proof -
  have "\<forall>c. isdigit c \<longleftrightarrow> c \<in> set ''0123456789''" by code_simp
  then show ?thesis by blast
qed

lemma word_char_ascii: "word_char c \<Longrightarrow> (of_char c :: nat) < 0x80"
proof -
  have "\<forall>c. word_char c \<longrightarrow> (of_char c :: nat) < 0x80" by code_simp
  then show "word_char c \<Longrightarrow> (of_char c :: nat) < 0x80" by blast
qed

lemma isdigit_tolower: "isdigit (tolower c) \<longleftrightarrow> isdigit c"
proof -
  have "\<forall>c. isdigit (tolower c) \<longleftrightarrow> isdigit c" by code_simp
  then show ?thesis by blast
qed

lemma set_hyphen_parts: "set (hyphen_parts w) = {p. part_of w p}"
proof (induction w rule: hyphen_parts.induct)
  case (1 w)
  define a b where "a = takeWhile (\<lambda>c. c \<noteq> CHR ''-'') w" and "b = dropWhile (\<lambda>c. c \<noteq> CHR ''-'') w"
  have w: "w = a @ b" "CHR ''-'' \<notin> set a" by (auto simp: a_def b_def dest: set_takeWhileD)
  show ?case
  proof (cases b)
    case Nil
    then have none: "CHR ''-'' \<notin> set w" using w by simp
    have "part_of w p \<longleftrightarrow> p = w" for p
    proof
      assume "part_of w p"
      then obtain u v where uv: "w = u @ p @ v" "u = [] \<or> last u = CHR ''-''" "v = [] \<or> hd v = CHR ''-''" by (auto simp: part_of_def)
      then have "u = []" "v = []" using none by (cases u rule: rev_cases; auto) (cases v; use uv none in auto)
      then show "p = w" using uv(1) by simp
    next
      assume "p = w"
      then show "part_of w p" using none unfolding part_of_def by (intro exI[of _ "[]"]) simp
    qed
    then have "{p. part_of w p} = {w}" by blast
    moreover have "hyphen_parts w = [a]" unfolding hyphen_parts.simps[of w] Let_def a_def[symmetric] b_def[symmetric] by (simp add: Nil)
    moreover have "a = w" using w(1) Nil by simp
    ultimately show ?thesis by simp
  next
    case (Cons c s)
    then have c: "c = CHR ''-''" using hd_dropWhile[of "\<lambda>c. c \<noteq> CHR ''-''" w] by (simp flip: b_def)
    have "part_of w p \<longleftrightarrow> p = a \<or> part_of s p" for p
    proof
      assume "part_of w p"
      then obtain u v where uv: "a @ CHR ''-'' # s = u @ p @ v" "CHR ''-'' \<notin> set p" "u = [] \<or> last u = CHR ''-''" "v = [] \<or> hd v = CHR ''-''"
        using w(1) Cons c by (auto simp: part_of_def)
      show "p = a \<or> part_of s p"
      proof (cases u)
        case Nil
        then have v: "v \<noteq> []" using uv(1,2) by (metis append_Nil append_Nil2 in_set_conv_decomp)
        then obtain v' where "v = CHR ''-'' # v'" using uv(4) by (cases v) auto
        then have eq: "a @ CHR ''-'' # s = p @ CHR ''-'' # v'" using uv(1) Nil by simp
        have "takeWhile (\<lambda>c. c \<noteq> CHR ''-'') (a @ CHR ''-'' # s) = a" using w(2) by (subst takeWhile_append2) auto
        moreover have "takeWhile (\<lambda>c. c \<noteq> CHR ''-'') (p @ CHR ''-'' # v') = p" using uv(2) by (subst takeWhile_append2) auto
        ultimately show ?thesis using eq by simp
      next
        case (Cons x xs)
        then have "u = butlast u @ [CHR ''-'']" using uv(3) by (metis append_butlast_last_id list.distinct(1))
        then obtain u' where u': "u = u' @ [CHR ''-'']" ..
        then have eq: "a @ CHR ''-'' # s = u' @ CHR ''-'' # p @ v" using uv(1) by simp
        then consider "u' = a" "p @ v = s" | z where "u' = a @ CHR ''-'' # z" "s = z @ CHR ''-'' # p @ v"
          using w(2) by (auto simp: append_eq_append_conv2 append_eq_Cons_conv Cons_eq_append_conv)
        then show ?thesis
        proof cases
          case 1
          then have "s = [] @ p @ v" by simp
          then show ?thesis using uv(2,4) unfolding part_of_def by blast
        next
          case 2
          then have "s = (z @ [CHR ''-'']) @ p @ v" by simp
          moreover have "last (z @ [CHR ''-'']) = CHR ''-''" by simp
          ultimately show ?thesis using uv(2,4) unfolding part_of_def by blast
        qed
      qed
    next
      assume "p = a \<or> part_of s p"
      then show "part_of w p"
      proof
        assume "p = a"
        then have "w = [] @ p @ CHR ''-'' # s" using w(1) Cons c by simp
        then show ?thesis using w(2) \<open>p = a\<close> unfolding part_of_def by (metis list.sel(1))
      next
        assume "part_of s p"
        then obtain u v where uv: "s = u @ p @ v" "CHR ''-'' \<notin> set p" "u = [] \<or> last u = CHR ''-''" "v = [] \<or> hd v = CHR ''-''"
          by (auto simp: part_of_def)
        then have "w = (a @ CHR ''-'' # u) @ p @ v" "last (a @ CHR ''-'' # u) = CHR ''-''" using w(1) Cons c by auto
        then show ?thesis using uv(2,4) unfolding part_of_def by blast
      qed
    qed
    moreover have "set (hyphen_parts s) = {p. part_of s p}" using "1"[OF a_def b_def] Cons by simp
    moreover have "hyphen_parts w = a # hyphen_parts s" unfolding hyphen_parts.simps[of w] Let_def a_def[symmetric] b_def[symmetric] by (simp add: Cons)
    ultimately show ?thesis by auto
  qed
qed

lemma stem_accepted:
  assumes "\<And>w. Found sp w \<longleftrightarrow> w \<in> ws"
  shows "stem_found sp w \<longleftrightarrow> (\<exists>stem rest. w = stem @ apostrophe # rest \<and> apostrophe \<notin> set stem \<and> 2 \<le> length stem
          \<and> (stem \<in> ws \<or> (\<exists>base. stem = base @ ''s'' \<and> base \<in> ws)))"
proof -
  have s: "(\<exists>base. stem = base @ ''s'' \<and> base \<in> ws) \<longleftrightarrow> last stem = CHR ''s'' \<and> butlast stem \<in> ws" if "2 \<le> length stem" for stem
    using that by (cases stem rule: rev_cases) auto
  have cut: "takeWhile (\<lambda>c. c \<noteq> apostrophe) w = stem \<and> apostrophe \<in> set w \<longleftrightarrow> (\<exists>rest. w = stem @ apostrophe # rest) \<and> apostrophe \<notin> set stem" for stem
  proof
    assume a: "takeWhile (\<lambda>c. c \<noteq> apostrophe) w = stem \<and> apostrophe \<in> set w"
    then obtain x rest where "dropWhile (\<lambda>c. c \<noteq> apostrophe) w = x # rest" by (cases "dropWhile (\<lambda>c. c \<noteq> apostrophe) w") (auto simp: dropWhile_eq_Nil_conv)
    moreover from this have "x = apostrophe" using hd_dropWhile[of "\<lambda>c. c \<noteq> apostrophe" w] by simp
    ultimately show "(\<exists>rest. w = stem @ apostrophe # rest) \<and> apostrophe \<notin> set stem"
      using a takeWhile_dropWhile_id[of "\<lambda>c. c \<noteq> apostrophe" w] by (metis (mono_tags, lifting) set_takeWhileD)
  next
    assume "(\<exists>rest. w = stem @ apostrophe # rest) \<and> apostrophe \<notin> set stem"
    then show "takeWhile (\<lambda>c. c \<noteq> apostrophe) w = stem \<and> apostrophe \<in> set w" by (auto simp: takeWhile_append)
  qed
  let ?stem = "takeWhile (\<lambda>c. c \<noteq> apostrophe) w"
  have "stem_found sp w \<longleftrightarrow> apostrophe \<in> set w \<and> 2 \<le> length ?stem \<and> (?stem \<in> ws \<or> (\<exists>base. ?stem = base @ ''s'' \<and> base \<in> ws))"
    using s[of ?stem] unfolding stem_found_def Let_def assms by auto
  also have "\<dots> \<longleftrightarrow> (\<exists>stem. (?stem = stem \<and> apostrophe \<in> set w) \<and> 2 \<le> length stem \<and> (stem \<in> ws \<or> (\<exists>base. stem = base @ ''s'' \<and> base \<in> ws)))" by blast
  finally show ?thesis unfolding cut by blast
qed

lemma IsCorrect_accepted:
  assumes "\<And>w. Found sp w \<longleftrightarrow> w \<in> ws" and "fWords sp \<noteq> []" and "2 \<le> length w" and "\<not> list_ex isdigit w"
  shows "IsCorrect sp w \<longleftrightarrow> accepted ws (map tolower w)"
proof -
  have "parts_found sp v \<longleftrightarrow> CHR ''-'' \<in> set v \<and> (\<forall>p. part_of v p \<longrightarrow> p = [] \<or> p \<in> ws)" for v
    using assms(1) set_hyphen_parts[of v] by (auto simp: parts_found_def list_all_iff)
  moreover have "\<not> list_ex isdigit (map tolower w)" using assms(4) by (simp add: list_ex_iff isdigit_tolower)
  moreover have "w \<noteq> []" using assms(3) by auto
  ultimately show ?thesis
    using assms by (simp add: IsCorrect_def Let_def accepted_def stem_accepted[OF assms(1)])
qed

lemma trim_word_cut:
  assumes "2 \<le> n"
  shows "n = length (trim_word w) \<longleftrightarrow> n \<le> length w \<and> w ! (n - 1) \<notin> {apostrophe, CHR ''-''} \<and> (\<forall>j \<in> {n..<length w}. w ! j \<in> {apostrophe, CHR ''-''})"
  using assms
proof (induction w rule: rev_induct)
  case (snoc c w)
  show ?case
  proof (cases "c \<in> {apostrophe, CHR ''-''}")
    case True
    then have "length (trim_word (w @ [c])) = length (trim_word w)" by (auto simp: trim_word_def)
    moreover have "n \<le> length (w @ [c]) \<and> (w @ [c]) ! (n - 1) \<notin> {apostrophe, CHR ''-''} \<and> (\<forall>j \<in> {n..<length (w @ [c])}. (w @ [c]) ! j \<in> {apostrophe, CHR ''-''})
        \<longleftrightarrow> n \<le> length w \<and> w ! (n - 1) \<notin> {apostrophe, CHR ''-''} \<and> (\<forall>j \<in> {n..<length w}. w ! j \<in> {apostrophe, CHR ''-''})"
      using True snoc.prems by (cases "n = Suc (length w)") (auto simp: nth_append less_Suc_eq le_Suc_eq)
    ultimately show ?thesis using snoc by metis
  next
    case False
    then have "length (trim_word (w @ [c])) = Suc (length w)" by (auto simp: trim_word_def)
    moreover have "n \<le> length w \<Longrightarrow> \<exists>j \<in> {n..<length (w @ [c])}. (w @ [c]) ! j \<notin> {apostrophe, CHR ''-''}"
      using False by (intro bexI[of _ "length w"]) auto
    ultimately show ?thesis using False snoc.prems by (auto simp: le_Suc_eq)
  qed
qed (auto simp: trim_word_def)

lemma trim_word_take: "trim_word w = take (length (trim_word w)) w"
proof -
  have "w = trim_word w @ rev (takeWhile (\<lambda>c. c = apostrophe \<or> c = CHR ''-'') (rev w))"
    by (simp add: trim_word_def flip: rev_append)
  then show ?thesis by (metis append_eq_conv_conj)
qed

lemma all_shifted: "(\<forall>j \<in> {s..<e}. P j) \<longleftrightarrow> (\<forall>i < e - s. P (s + i))" for s e :: nat
proof (intro iffI allI impI ballI)
  fix j assume all: "\<forall>i < e - s. P (s + i)" and "j \<in> {s..<e}"
  then have "j - s < e - s" "s + (j - s) = j" by auto
  with all show "P j" by metis
qed auto

lemma misspelt_to_mark:
  assumes "\<And>w. Found sp w \<longleftrightarrow> w \<in> ws" and "fWords sp \<noteq> []"
  shows "(\<exists>e. word_span t s e \<and> misspelt sp (span_text t s e) \<and> n = length (trim_word (span_text t s e))) \<longleftrightarrow> to_mark ws t s n"
proof -
  have "word_span t s e \<and> misspelt sp (span_text t s e) \<and> n = length (trim_word (span_text t s e)) \<longleftrightarrow>
     e \<le> length t \<and> s + n \<le> e \<and> 2 \<le> n
     \<and> (\<forall>j \<in> {s..<e}. t ! j \<in> set word_bytes \<and> t ! j \<notin> set ''0123456789'')
     \<and> (0 < s \<longrightarrow> t ! (s - 1) \<notin> set word_bytes) \<and> (e < length t \<longrightarrow> t ! e \<notin> set word_bytes)
     \<and> t ! (s + n - 1) \<notin> {apostrophe, CHR ''-''} \<and> (\<forall>j \<in> {s + n..<e}. t ! j \<in> {apostrophe, CHR ''-''})
     \<and> \<not> accepted ws (map tolower (take n (drop s t)))" (is "?L \<longleftrightarrow> ?R") for e
  proof (cases "2 \<le> n \<and> s < e \<and> e \<le> length t")
    case True
    let ?w = "span_text t s e"
    have w: "length ?w = e - s" "\<And>j. j < e - s \<Longrightarrow> ?w ! j = t ! (s + j)" using True by (simp_all add: span_text_def)
    have span: "word_span t s e \<longleftrightarrow> (\<forall>j \<in> {s..<e}. t ! j \<in> set word_bytes) \<and> (0 < s \<longrightarrow> t ! (s - 1) \<notin> set word_bytes) \<and> (e < length t \<longrightarrow> t ! e \<notin> set word_bytes)"
      using True by (simp add: word_span_def word_char_bytes)
    have each: "(\<forall>c \<in> set ?w. P c) \<longleftrightarrow> (\<forall>j \<in> {s..<e}. P (t ! j))" for P
    proof -
      have "(\<forall>c \<in> set ?w. P c) \<longleftrightarrow> (\<forall>j < e - s. P (t ! (s + j)))" using w by (auto simp: all_set_conv_all_nth)
      also have "\<dots> \<longleftrightarrow> (\<forall>j \<in> {s..<e}. P (t ! j))" unfolding all_shifted ..
      finally show ?thesis .
    qed
    have digits: "\<not> list_ex isdigit ?w \<longleftrightarrow> (\<forall>j \<in> {s..<e}. t ! j \<notin> set ''0123456789'')"
      using each[of "\<lambda>c. c \<notin> set ''0123456789''"] by (auto simp: list_ex_iff isdigit_bytes)
    have ascii: "\<not> list_ex (\<lambda>c. (of_char c :: nat) \<ge> 0x80) ?w" if "word_span t s e"
      using each[of word_char] that word_char_ascii by (fastforce simp: list_ex_iff word_span_def)
    have cut: "n = length (trim_word ?w) \<longleftrightarrow> s + n \<le> e \<and> t ! (s + n - 1) \<notin> {apostrophe, CHR ''-''} \<and> (\<forall>j \<in> {s + n..<e}. t ! j \<in> {apostrophe, CHR ''-''})"
    proof (cases "n \<le> e - s")
      case le: True
      have "(\<forall>j \<in> {n..<e - s}. ?w ! j \<in> {apostrophe, CHR ''-''}) \<longleftrightarrow> (\<forall>j \<in> {s + n..<e}. t ! j \<in> {apostrophe, CHR ''-''})"
        unfolding all_shifted diff_diff_left using w(2) by (simp add: add.assoc)
      moreover have "n - 1 < e - s" using le True by linarith
      then have "?w ! (n - 1) = t ! (s + n - 1)" using w(2)[of "n - 1"] True by simp
      ultimately show ?thesis using trim_word_cut[of n ?w] True le w(1) by auto
    next
      case False
      then show ?thesis using trim_word_cut[of n ?w] True w(1) by auto
    qed
    show ?thesis
    proof (cases "n = length (trim_word ?w) \<and> \<not> list_ex isdigit ?w")
      case both: True
      then have "take n ?w = trim_word ?w" using trim_word_take[of ?w] by simp
      moreover have "take n ?w = take n (drop s t)" using both cut by (simp add: span_text_def take_drop min_def add.commute)
      moreover have "\<not> list_ex isdigit (trim_word ?w)" using both trim_word_take[of ?w] by (metis in_set_takeD list_ex_iff)
      ultimately have same: "IsCorrect sp (trim_word ?w) \<longleftrightarrow> accepted ws (map tolower (take n (drop s t)))"
        using IsCorrect_accepted[OF assms, of "trim_word ?w"] both True by simp
      have "?L \<longleftrightarrow> word_span t s e \<and> \<not> accepted ws (map tolower (take n (drop s t)))"
        using both True ascii unfolding same[symmetric] misspelt_def by auto
      moreover have "?R \<longleftrightarrow> word_span t s e \<and> \<not> accepted ws (map tolower (take n (drop s t)))"
        using cut both digits True unfolding span by blast
      ultimately show ?thesis by blast
    next
      case False
      then have "\<not> ?L" by (auto simp: misspelt_def)
      moreover have "\<not> ?R" using False cut digits by blast
      ultimately show ?thesis by blast
    qed
  next
    case False
    then show ?thesis by (auto simp: word_span_def misspelt_def)
  qed
  then show ?thesis unfolding to_mark_def by blast
qed

text \<open>
  C31 The scan marks exactly what it should: whatever files were loaded and words added, a range of a text is
  marked when, and only when, a whole run of letters, digits, apostrophes and hyphens begins there, has
  no digit, ends with the range but for apostrophes and hyphens, and the word in the range, two bytes or
  more, is not accepted by the list as it is, by its stem before an apostrophe or by its parts between
  hyphens. The ranges come in order and do not overlap; with no words nothing is marked; the scan of
  every text ends. A byte beyond ASCII ends a run, so the pieces of a word around one are checked.
\<close>

theorem scan_marks_the_misspelt:
  assumes "spelling sp"
  shows "((s, n) \<in> set (ScanParagraph sp t) \<longleftrightarrow> fWords sp \<noteq> [] \<and> to_mark (set (fWords sp)) t s n)
    \<and> sorted_wrt (\<lambda>(s, n) (s', n'). s + n \<le> s') (ScanParagraph sp t)"
proof (cases "fWords sp = []")
  case False
  have found: "Found sp w \<longleftrightarrow> w \<in> set (fWords sp)" for w
    using binary_search_iff[OF spelling_sorted[OF assms], of 0 "length (fWords sp)" w] by (simp add: Found_def)
  show ?thesis
    using scan_marks[of 0 t sp] misspelt_to_mark[OF found False, of t s n] False by (auto simp: ScanParagraph_def)
qed (simp add: ScanParagraph_def)

text \<open>The first three bytes of a word whose fourth letter is an accented one are marked.\<close>

theorem scan_marks_the_misspelt_witness:
  "to_mark (set (fWords cat_and_dog)) (''cat caf'' @ [CHR 0xC3, CHR 0xA9]) 4 3"
proof -
  have "(4, 3) \<in> set (ScanParagraph cat_and_dog (''cat caf'' @ [CHR 0xC3, CHR 0xA9]))" by code_simp
  then show ?thesis using scan_marks_the_misspelt[OF cat_and_dog_spelling] by blast
qed

text \<open>
  C33 The caret's word is the word the scan would mark: at every offset from the start of a word to the
  end of its run, the range is the one that the scan gives that word, so that the word being typed is
  spared as a whole.
\<close>

theorem caret_word_is_the_scanned_word:
  assumes "word_span t s e" and "s \<le> off" and "off \<le> e"
  shows "CaretWordRange t (int off) = (int s, length (trim_word (span_text t s e)))"
proof -
  let ?m = "span_text t s e"
  define k where "k = off - s"
  have off: "off = s + k" "k \<le> e - s" using assms(2,3) by (simp_all add: k_def)
  have e: "s < e" "e \<le> length t" using assms(1) by (simp_all add: word_span_def)
  have t: "t = take s t @ ?m @ drop e t"
    using e by (simp add: span_text_def) (metis append_assoc append_take_drop_id less_imp_le min.absorb1 take_take)
  have m: "length ?m = e - s" "\<forall>c \<in> set ?m. word_char c"
    using assms(1) by (auto simp: word_span_def span_text_def in_set_conv_nth)
  have "take s t = [] \<or> \<not> word_char (last (take s t))"
    using assms(1) e by (cases "s = 0") (auto simp: word_span_def last_conv_nth min_def)
  then have left: "takeWhile word_char (rev (take s t)) = []" by (cases "take s t" rule: rev_cases) auto
  have right: "takeWhile word_char (drop e t) = []"
    using assms(1) by (cases "e < length t") (auto simp: word_span_def Cons_nth_drop_Suc[symmetric])
  have "take off t = take s t @ take k ?m"
    using e off m(1) by (subst t) simp
  then have "rev (take off t) = rev (take k ?m) @ rev (take s t)" by simp
  moreover have "\<And>c. c \<in> set (rev (take k ?m)) \<Longrightarrow> word_char c" using m(2) by (auto dest: in_set_takeD)
  ultimately have before: "takeWhile word_char (rev (take off t)) = rev (take k ?m)"
    using takeWhile_append2[of "rev (take k ?m)" word_char "rev (take s t)"] left by (simp only: append_Nil2)
  have "drop off t = drop k ?m @ drop e t"
    using e off m(1) by (subst t) simp
  moreover have "\<And>c. c \<in> set (drop k ?m) \<Longrightarrow> word_char c" using m(2) by (auto dest: in_set_dropD)
  ultimately have behind: "takeWhile word_char (drop off t) = drop k ?m"
    using takeWhile_append2[of "drop k ?m" word_char "drop e t"] right by (simp only: append_Nil2)
  have "off \<le> length t" "int off - int k = int s" using assms(3) e off(1) by simp_all
  then show ?thesis
    using before behind off(2) m(1) by (simp add: CaretWordRange_def Let_def)
qed

theorem caret_word_is_the_scanned_word_witness: "CaretWordRange ''cat qat-'' 6 = (4, 3)"
proof -
  have "word_span ''cat qat-'' 4 8" "length (trim_word (span_text ''cat qat-'' 4 8)) = 3" by code_simp+
  then show ?thesis using caret_word_is_the_scanned_word[of "''cat qat-''" 4 8 6] by simp
qed

end
