(* ===== verification/Spec2Isabelle.thy ===== *)
theory Spec2Isabelle
  imports OthelloGame ClangdServer PaintCanvas PaintReach DrawGestures Recent WriterRedo WriterFind WriterFile RtfRoundTrip Spell
begin

text \<open>
  Verification of the applications of the Prose repository.

  The repository builds an operating system image, a port of Haiku, with applications of its own:
  ProseOthello (\<open>proseothello/\<close>), the clangd server that gives editors code completion
  (\<open>clangdserver/\<close>), ProsePaint (\<open>prosepaint/\<close>), ProseDraw (\<open>prosedraw/\<close>), ProseWriter
  (\<open>prosewriter/\<close>) and ProseJulia (\<open>prosejulia/\<close>). Each is a program of its own over the Haiku kits.
  The development models the cores of the first five, from the sources under \<open>app/src\<close> of each.

  How a program is modelled. A class is a record of its fields, a method a function from the old
  record to the new one with the method's answer, under the method's name. Pointers into a container
  are ids or indices, null pointers and errors are options, sums or status codes. What the code takes
  from elsewhere is an argument: the clock and random numbers, what a system call answers, whether an
  allocation succeeds, the numbers of the C library, zlib, and the lookup of fields in a message.
  Loops are structural recursion or \<open>function\<close> with a measure; where a loop may run for ever it is
  a \<open>partial_function\<close> into options, and the theorem that it returns is proved for it. Machine
  integers are words where bits or wrap-around matter (Othello's masks, packed colours), otherwise
  numbers with the casts to bytes written out. Coordinates that are \<open>float\<close> in the code are rationals
  or, for the brush, reals: rounding is not modelled.

  \<^bold>\<open>ProseOthello\<close> (\<open>Othello.cpp\<close>). \<open>OthelloRules\<close>: class \<open>Position\<close>, moves, flips as masks, passes,
  undo, the text form; its lemmas show that the flips are the rule of Reversi, that undo inverts a move,
  and that the history array is never overrun. \<open>OthelloSearch\<close>: the evaluation, move ordering,
  alpha-beta, iterative deepening under a clock, the exhaustive ending; alpha-beta is plain minimax, and
  \<open>Think\<close> plays a best move of the last finished depth. Search depth is the structural argument, so no
  fuel is needed; the exhaustive ending needs twice the empty squares plus two, which is shown to be
  enough. \<open>OthelloGame\<close>: the window and its thinker thread as a step relation over all interleavings
  of messages and thread steps, with what the generation counter does and does not protect.

  \<^bold>\<open>The clangd server\<close> (\<open>json.cpp\<close>, \<open>lsp.cpp\<close>, \<open>main.cpp\<close>). \<open>Json\<close>: values, writer and reader; the reader
  returns on every text, and reads back what the writer wrote. \<open>LspText\<close>: columns in bytes and in UTF-16
  units, URIs. \<open>LspSession\<close>: framing, the reader that cuts frames from chunks, requests and their
  answers under any interleaving, document notifications. \<open>ClangdServer\<close>: sessions, texts, the message
  handler and the worker threads over a heap of sessions.

  \<^bold>\<open>ProsePaint\<close>. \<open>PaintPixels\<close>: the pixel arithmetic of \<open>PPDocument.cpp\<close>. \<open>PaintFill\<close>: the flood fill.
  \<open>PaintDocument\<close>: class \<open>PPDocument\<close> with every operation on canvas, layers, strokes, fill, composite and
  undo. \<open>PaintStroke\<close>: one stroke is one undo step, and the steps implement the history of \<open>History\<close>.
  \<open>PaintState\<close>: the invariant of a document, and which operation keeps it when. \<open>PaintBrush\<close> and
  \<open>PaintCanvas\<close>: \<open>PPBrush.cpp\<close> and the gestures of \<open>PPCanvas.cpp\<close>. \<open>PaintFile\<close>: the stored message and
  the file; the paper's name is a pointer, which dangles once the message it was read from has gone.
  \<open>PaintReach\<close>: every run of calls, loads and calls that run out of memory among them, by a relation
  \<open>document_run\<close> with a flag that says whether the run is sound, that is whether no call broke the
  document since the last new canvas or load between strokes; the invariant holds after sound runs, and
  the calls that break it are named. Where the code uses a bitmap it did not look at (the composite, the
  layer of a white canvas), the program ends if there is no memory for it, and no run goes on.

  \<^bold>\<open>ProseDraw\<close>. \<open>DrawDocument\<close>: class \<open>PDDocument\<close>: shapes, connectors, images, alignment, hits, the grid,
  undo by snapshots. \<open>DrawState\<close>: its undo as an instance of the same history, connectors that never
  dangle, what alignment and distribution do. \<open>DrawFile\<close>: the stored message and the file. \<open>DrawCanvas\<close>
  (\<open>PDCanvas.cpp\<close>): selection, tools, keys and drops; \<open>DrawGestures\<close>: a press, moves and a release are at
  most one undo step, where a drag puts the boxes, and when it misplaces them. A diagram is loaded into the document that is
  open, whose images stay in front of those of the file.

  \<^bold>\<open>ProseWriter\<close> (\<open>PWDocument.cpp\<close>). \<open>WriterDocument\<close>: paragraphs, runs of formats, images and the
  editing surface; \<open>WriterOps\<close>: undo and redo, images, tables, styles, header texts, search. \<open>WriterRuns\<close>:
  the runs tile their paragraph, whatever is done to them. \<open>WriterText\<close> and \<open>WriterEdit\<close>: the document as
  one row of cells, a byte with its format or the end of a paragraph, and every edit as a list operation
  on it. \<open>WriterHistory\<close> and \<open>WriterLine\<close>: one step undone restores the row; the undo steps as an
  \<open>undo_line\<close> of rows. \<open>WriterRedo\<close>: with redo, an \<open>undo_history\<close> of texts (a redo may lose formats); the
  state of that history is the document with the number of its redo steps that still fit the text,
  since typing that joins the last step keeps redo steps of a text that is gone.
  \<open>WriterFind\<close>: the cached text is current, searching and replacing against a one-pass reference.
  \<open>WriterFile\<close>: the stored message and the file; a bitmap has its colour space and row length, and comes
  back opaque. \<open>Spell\<close> (\<open>PWSpell.cpp\<close>): the word list and the scan.
  \<open>WriterRtf\<close> (\<open>PWRTF.cpp\<close>): the writer and the reader of RTF; \<open>RtfRoundTrip\<close>: the text comes back with its
  formats, by a relation \<open>leads\<close> from reader to reader over a stretch of text, and what is lost. The
  loops of \<open>CaptureRuns\<close>, \<open>Remove\<close> and \<open>ReplaceAll\<close> are partial functions, shown to return where they do,
  and not to where they do not.

  \<^bold>\<open>Shared\<close>. \<open>Prelude\<close>: lists, bytes and numbers as text. \<open>Rects\<close>: the rectangles of the interface kit.
  \<open>History\<close>: a bounded stack of undo steps, the locale \<open>undo_line\<close> (contents now and past, a cap) and the
  locale \<open>undo_history\<close>, the whole contract of an editor's history, with the lemmas on rows of edits,
  undos and redos proved in them once; \<open>PaintStroke\<close>, \<open>DrawState\<close>, \<open>WriterLine\<close> and \<open>WriterRedo\<close>
  interpret them. \<open>Messages\<close>: \<open>BMessage\<close> as a list of fields with the
  lookup as a parameter that satisfies \<open>message_kit\<close>. \<open>DocumentFiles\<close>: the atomic save and the load that
  the three documents have; the load refuses files above 64 MB (ProseDraw) or 256 MB, the save does not. \<open>Recent\<close>: the lists of recent files, which both programs have under two names.

  Not modelled. Drawing, windows, menus, scripting beyond ProseOthello's and the self tests: the kits'
  work. Starting and ending the clangd process. \<open>AddImageFile\<close>: a decoder of the translation kit. The
  PDF writers, ProseWriter's layout, and ProseJulia. The tools, patches and build scripts hold no program state
  of the applications. Ids and counters of \<open>int32\<close> do not overflow in the models.
\<close>

end
